(* ===== verification/Prelude.thy ===== *)
theory Prelude
  imports Main "HOL-Library.Word"
begin

text \<open>
  What every component shares: the result and poll types of the Rust standard library, the
  read-modify-write operations of \<^verbatim>\<open>AtomicU64\<close>, bounded sums over the objects of a store, and
  the collections of rewrite rules the component proofs use.

  \<^item> \<open>atomic_defs\<close> unfolds the atomic operations;
  \<^item> \<open>run_eval\<close> evaluates the machine on a concrete schedule.
\<close>

unbundle bit_operations_syntax

named_theorems atomic_defs
named_theorems run_eval

type_synonym u64 = "64 word"

section \<open>Results, polls and atomic operations of the standard library\<close>

datatype ('a, 'e) res = Ok 'a | Err 'e

datatype 'a poll = Ready 'a | Pending

text \<open>
  \<^verbatim>\<open>compare_exchange(expected, new)\<close> on a cell that holds \<open>cur\<close>: the cell's new content
  and the result, which carries the content found. The weak form may fail spuriously.
\<close>

definition compare_exchange :: "'a \<Rightarrow> 'a \<Rightarrow> 'a \<Rightarrow> 'a \<times> ('a, 'a) res" where
  [atomic_defs]: "compare_exchange cur expected new =
     (if cur = expected then (new, Ok cur) else (cur, Err cur))"

definition compare_exchange_weak :: "bool \<Rightarrow> 'a \<Rightarrow> 'a \<Rightarrow> 'a \<Rightarrow> 'a \<times> ('a, 'a) res" where
  [atomic_defs]: "compare_exchange_weak spurious cur expected new =
     (if cur = expected \<and> \<not> spurious then (new, Ok cur) else (cur, Err cur))"

section \<open>Sums over an initial segment of the natural numbers\<close>

text \<open>
  Objects live in stores indexed by natural numbers, the first \<open>n\<close> of which are allocated.
  \<open>addup n f\<close> adds \<open>f\<close> up over them, \<open>tally n P\<close> counts those that satisfy \<open>P\<close>.
\<close>

primrec addup :: "nat \<Rightarrow> (nat \<Rightarrow> nat) \<Rightarrow> nat" where
  "addup 0 f = 0"
| "addup (Suc n) f = addup n f + f n"

abbreviation tally :: "nat \<Rightarrow> (nat \<Rightarrow> bool) \<Rightarrow> nat" where
  "tally n P \<equiv> addup n (\<lambda>i. of_bool (P i))"

lemma addup_cong [cong]:
  "n = m \<Longrightarrow> (\<And>i. i < m \<Longrightarrow> f i = g i) \<Longrightarrow> addup n f = addup m g"
  by (induction m arbitrary: n) auto

lemma addup_zero [simp]: "addup n (\<lambda>_. 0) = 0"
  by (induction n) auto

lemma addup_eq_0_iff: "addup n f = 0 \<longleftrightarrow> (\<forall>i<n. f i = 0)"
  by (induction n) (auto simp: less_Suc_eq)

lemma addup_add: "addup n (\<lambda>i. f i + g i) = addup n f + addup n g"
  by (induction n) auto

lemma addup_mono: "(\<And>i. i < n \<Longrightarrow> f i \<le> g i) \<Longrightarrow> addup n f \<le> addup n g"
  by (induction n) (auto intro: add_mono)

lemma addup_le_bound: "(\<And>i. i < n \<Longrightarrow> f i \<le> 1) \<Longrightarrow> addup n f \<le> n"
proof (induction n)
  case (Suc n)
  then have "addup n f \<le> n" and "f n \<le> 1" by simp_all
  then show ?case by simp
qed simp

lemma tally_le [simp]: "tally n P \<le> n"
  by (rule addup_le_bound) simp

lemma member_le_addup: "i < n \<Longrightarrow> f i \<le> addup n f"
  by (induction n) (auto simp: less_Suc_eq)

lemma tally_pos_iff: "0 < tally n P \<longleftrightarrow> (\<exists>i<n. P i)"
  using addup_eq_0_iff [of n "\<lambda>i. of_bool (P i)"] by auto

lemma addup_split: "i < n \<Longrightarrow> addup n f = f i + addup n (f(i := 0))"
  by (induction n) (auto simp: less_Suc_eq intro!: addup_cong)

text \<open>Changing one term moves the sum by the difference of the two values.\<close>

lemma addup_change:
  assumes "i < n" and "\<And>j. j < n \<Longrightarrow> j \<noteq> i \<Longrightarrow> g j = f j"
  shows "addup n g + f i = addup n f + g i"
proof -
  have "addup n (g(i := 0)) = addup n (f(i := 0))"
    using assms(2) by (intro addup_cong) auto
  then show ?thesis
    using addup_split [OF assms(1), of f] addup_split [OF assms(1), of g] by simp
qed

lemma addup_less_bound:
  assumes "i < n" and "f i = 0" and "\<And>j. j < n \<Longrightarrow> f j \<le> 1"
  shows "addup n f < n"
proof -
  have "addup n f + 1 = addup n (f(i := 1))"
    using addup_change [of i n "f(i := 1)" f] assms(1,2) by simp
  also have "\<dots> \<le> n"
    by (rule addup_le_bound) (use assms(3) in auto)
  finally show ?thesis by simp
qed

lemma tally_card: "tally n P = card {i. i < n \<and> P i}"
proof (induction n)
  case 0
  then show ?case by simp
next
  case (Suc n)
  have "{i. i < Suc n \<and> P i} = (if P n then insert n {i. i < n \<and> P i} else {i. i < n \<and> P i})"
    by (auto simp: less_Suc_eq)
  with Suc show ?case by simp
qed

lemma addup_tally_swap:
  "addup n (\<lambda>i. tally m (\<lambda>j. P i j)) = addup m (\<lambda>j. tally n (\<lambda>i. P i j))"
  by (induction n) (auto simp: addup_add)

lemma tally_unique:
  assumes "\<And>i j. i < n \<Longrightarrow> j < n \<Longrightarrow> P i \<Longrightarrow> P j \<Longrightarrow> i = j"
  shows "tally n P \<le> 1"
proof (cases "\<exists>i<n. P i")
  case True
  then obtain i where i: "i < n" "P i" by blast
  with assms have "{i. i < n \<and> P i} \<subseteq> {i}" by blast
  then show ?thesis
    using card_mono [of "{i}" "{i. i < n \<and> P i}"] by (simp add: tally_card)
next
  case False
  then have "tally n P = 0" by (subst addup_eq_0_iff) simp
  then show ?thesis by simp
qed

section \<open>Lists\<close>

lemma nth_list_update_if: "i < length xs \<Longrightarrow> xs[i := x] ! j = (if i = j then x else xs ! j)"
  by simp

lemma filter_none: "(\<And>x. x \<in> set xs \<Longrightarrow> \<not> P x) \<Longrightarrow> filter P xs = []"
  by (induction xs) auto

section \<open>Evaluation on numerals\<close>

lemma addup_numeral [run_eval]:
  "addup (numeral k) f = addup (pred_numeral k) f + f (pred_numeral k)"
  by (simp add: numeral_eq_Suc)

lemma ex_less_eval [run_eval]:
  "(\<exists>i<numeral k. P i) \<longleftrightarrow> P (pred_numeral k) \<or> (\<exists>i<pred_numeral k. P i)"
  "(\<exists>i<Suc n. P i) \<longleftrightarrow> P n \<or> (\<exists>i<n. P i)"
  by (auto simp: numeral_eq_Suc less_Suc_eq)

lemma all_less_eval [run_eval]:
  "(\<forall>i<numeral k. P i) \<longleftrightarrow> P (pred_numeral k) \<and> (\<forall>i<pred_numeral k. P i)"
  "(\<forall>i<Suc n. P i) \<longleftrightarrow> P n \<and> (\<forall>i<n. P i)"
  by (auto simp: numeral_eq_Suc less_Suc_eq)

lemma upt_numeral [run_eval]: "[0..<numeral k] = [0..<pred_numeral k] @ [pred_numeral k]"
  by (simp add: numeral_eq_Suc)

lemma replicate_numeral [run_eval]:
  "replicate (numeral k) x = x # replicate (pred_numeral k) x"
  by (simp add: numeral_eq_Suc)

lemmas [run_eval] = compare_exchange_def compare_exchange_weak_def Let_def List.map_filter_def

end
