(* ===== verification/Slab.thy ===== *)
theory Slab
  imports Prelude
begin

text \<open>
  \<^verbatim>\<open>Slab<T>\<close> of \<^verbatim>\<open>src/implementation/shard.rs\<close>: values under stable keys, with the vacant
  slots linked into a free list. A shard keeps its wakers and its child nodes in one. The
  theory holds the data, the operations, the free-list invariant, the interface
  \<open>keyed_store\<close> the shards rely on, and its interpretation by the slab.
\<close>

section \<open>Data and operations\<close>

datatype 'a slot = Occupied 'a | Vacant nat

record 'a slab =
  slots :: "'a slot list"
  next_vacant :: nat

definition slab_default :: "'a slab" where
  "slab_default = \<lparr>slots = [], next_vacant = 0\<rparr>"

text \<open>
  \<open>None\<close> is the \<^verbatim>\<open>unreachable!\<close> of \<^verbatim>\<open>Slab::insert\<close>: the free list leads to an occupied slot.
\<close>

definition slab_insert :: "'a slab \<Rightarrow> 'a \<Rightarrow> ('a slab \<times> nat) option" where
  "slab_insert s v =
     (let key = next_vacant s in
      if key < length (slots s) then
        (case slots s ! key of
           Vacant next \<Rightarrow>
             Some (s\<lparr>slots := (slots s)[key := Occupied v], next_vacant := next\<rparr>, key)
         | Occupied _ \<Rightarrow> None)
      else
        Some (s\<lparr>slots := slots s @ [Occupied v],
                next_vacant := length (slots s @ [Occupied v])\<rparr>, key))"

definition slab_remove :: "'a slab \<Rightarrow> nat \<Rightarrow> 'a slab \<times> 'a option" where
  "slab_remove s key =
     (if key < length (slots s) then
        (case slots s ! key of
           Occupied v \<Rightarrow>
             (s\<lparr>slots := (slots s)[key := Vacant (next_vacant s)], next_vacant := key\<rparr>, Some v)
         | Vacant n \<Rightarrow> (s\<lparr>slots := (slots s)[key := Vacant n]\<rparr>, None))
      else (s, None))"

fun slot_value :: "'a slot \<Rightarrow> 'a option" where
  "slot_value (Occupied v) = Some v"
| "slot_value (Vacant _) = None"

definition slab_values :: "'a slab \<Rightarrow> 'a list" where
  "slab_values s = List.map_filter slot_value (slots s)"

definition slab_into_values :: "'a slab \<Rightarrow> 'a list" where
  "slab_into_values s = List.map_filter slot_value (slots s)"

definition slab_len :: "'a slab \<Rightarrow> nat" where
  "slab_len s = length (filter (\<lambda>slot. case slot of Occupied _ \<Rightarrow> True | Vacant _ \<Rightarrow> False) (slots s))"

section \<open>The free list\<close>

text \<open>
  \<open>free_chain sl k vs\<close>: following the vacant slots from \<open>k\<close> visits exactly \<open>vs\<close> and ends
  at the length of the storage.
\<close>

fun free_chain :: "'a slot list \<Rightarrow> nat \<Rightarrow> nat list \<Rightarrow> bool" where
  "free_chain sl k [] = (k = length sl)"
| "free_chain sl k (v # vs) =
     (v = k \<and> k < length sl \<and>
      (case sl ! k of Vacant n \<Rightarrow> free_chain sl n vs | Occupied _ \<Rightarrow> False))"

definition vacant_at :: "'a slot list \<Rightarrow> nat \<Rightarrow> bool" where
  "vacant_at sl i \<longleftrightarrow> i < length sl \<and> slot_value (sl ! i) = None"

definition slab_ok :: "'a slab \<Rightarrow> bool" where
  "slab_ok s \<longleftrightarrow>
     (\<exists>vs. free_chain (slots s) (next_vacant s) vs \<and> distinct vs \<and>
           set vs = {i. vacant_at (slots s) i})"

lemma slab_okI:
  "free_chain (slots s) (next_vacant s) vs \<Longrightarrow> distinct vs \<Longrightarrow>
   set vs = {i. vacant_at (slots s) i} \<Longrightarrow> slab_ok s"
  unfolding slab_ok_def by blast

text \<open>The content of a slab, as a map from keys.\<close>

definition slab_lookup :: "'a slab \<Rightarrow> nat \<rightharpoonup> 'a" where
  "slab_lookup s k = (if k < length (slots s) then slot_value (slots s ! k) else None)"

lemma slot_value_None: "slot_value x = None \<longleftrightarrow> (\<exists>n. x = Vacant n)"
  by (cases x) auto

lemma slot_value_Some: "slot_value x = Some v \<longleftrightarrow> x = Occupied v"
  by (cases x) auto

lemma vacant_at_iff: "vacant_at sl i \<longleftrightarrow> i < length sl \<and> (\<exists>n. sl ! i = Vacant n)"
  by (auto simp: vacant_at_def slot_value_None)

lemma free_chain_update:
  "free_chain sl k vs \<Longrightarrow> i \<notin> set vs \<Longrightarrow> free_chain (sl[i := x]) k vs"
  by (induction sl k vs rule: free_chain.induct) (auto split: slot.splits)

text \<open>The head of the free list is a vacant slot, or the end of the storage.\<close>

lemma slab_ok_next:
  assumes "slab_ok s"
  obtains (full) "next_vacant s = length (slots s)" "\<forall>i. \<not> vacant_at (slots s) i"
    | (vacant) n vs where "next_vacant s < length (slots s)"
        "slots s ! next_vacant s = Vacant n" "free_chain (slots s) n vs"
        "distinct vs" "next_vacant s \<notin> set vs"
        "\<And>i. vacant_at (slots s) i \<longleftrightarrow> i = next_vacant s \<or> i \<in> set vs"
proof -
  from assms obtain vs where vs: "free_chain (slots s) (next_vacant s) vs" "distinct vs"
    "set vs = {i. vacant_at (slots s) i}"
    by (auto simp: slab_ok_def)
  show thesis
  proof (cases vs)
    case Nil
    with vs show thesis by (intro full) auto
  next
    case (Cons w ws)
    with vs obtain n where "slots s ! next_vacant s = Vacant n" "free_chain (slots s) n ws"
      by (auto split: slot.splits)
    moreover have "vacant_at (slots s) i \<longleftrightarrow> i = next_vacant s \<or> i \<in> set ws" for i
      using vs Cons by auto
    ultimately show thesis using vs Cons by (intro vacant) auto
  qed
qed

lemma slab_ok_default: "slab_ok slab_default"
  by (auto simp: slab_ok_def slab_default_def vacant_at_def intro!: exI [of _ "[]"])

lemma slab_insert_ok:
  assumes ok: "slab_ok s"
  obtains s' k where "slab_insert s v = Some (s', k)" "slab_ok s'"
    "slab_lookup s k = None" "slab_lookup s' = (slab_lookup s)(k \<mapsto> v)"
  using ok
proof (cases rule: slab_ok_next)
  case full
  let ?sl = "slots s @ [Occupied v]"
  let ?s' = "s\<lparr>slots := ?sl, next_vacant := length ?sl\<rparr>"
  have none: "\<not> vacant_at ?sl i" for i
    using full(2) by (auto simp: vacant_at_def nth_append)
  show thesis
  proof (rule that [of ?s' "length (slots s)"])
    show "slab_insert s v = Some (?s', length (slots s))"
      using full(1) by (simp add: slab_insert_def Let_def)
    show "slab_ok ?s'"
      using none by (auto simp: slab_ok_def intro!: exI [of _ "[]"])
  qed (auto simp: slab_lookup_def nth_append less_Suc_eq fun_eq_iff)
next
  case (vacant n vs)
  let ?k = "next_vacant s"
  let ?s' = "s\<lparr>slots := (slots s)[?k := Occupied v], next_vacant := n\<rparr>"
  have "i \<in> set vs \<longleftrightarrow> vacant_at ((slots s)[?k := Occupied v]) i" for i
    using vacant(1,5) vacant(6) [of i]
    by (cases "i = ?k") (simp_all add: vacant_at_def)
  then have "set vs = {i. vacant_at ((slots s)[?k := Occupied v]) i}" by blast
  then have "slab_ok ?s'"
    using vacant(3,4,5) by (intro slab_okI [of _ vs]) (simp_all add: free_chain_update)
  moreover have "slab_insert s v = Some (?s', ?k)"
    using vacant(1,2) by (simp add: slab_insert_def Let_def)
  moreover have "slab_lookup s ?k = None"
    using vacant(1,2) by (simp add: slab_lookup_def)
  moreover have "slab_lookup ?s' = (slab_lookup s)(?k \<mapsto> v)"
    using vacant(1) by (simp add: slab_lookup_def nth_list_update fun_eq_iff)
  ultimately show thesis by (intro that)
qed

lemma slab_remove_lookup:
  "snd (slab_remove s k) = slab_lookup s k"
  "slab_lookup (fst (slab_remove s k)) = (slab_lookup s)(k := None)"
  by (auto simp: slab_remove_def slab_lookup_def nth_list_update fun_eq_iff split: slot.splits)

lemma slab_remove_ok:
  assumes ok: "slab_ok s"
  shows "slab_ok (fst (slab_remove s k))"
proof (cases "k < length (slots s) \<and> (\<exists>v. slots s ! k = Occupied v)")
  case True
  then obtain v where k: "k < length (slots s)" "slots s ! k = Occupied v" by blast
  from ok obtain vs where vs: "free_chain (slots s) (next_vacant s) vs" "distinct vs"
    "set vs = {i. vacant_at (slots s) i}"
    by (auto simp: slab_ok_def)
  let ?sl = "(slots s)[k := Vacant (next_vacant s)]"
  have "k \<notin> set vs"
    using k vs(3) by (auto simp: vacant_at_def)
  with vs k have "free_chain ?sl k (k # vs)" "distinct (k # vs)"
    by (auto intro: free_chain_update)
  moreover have "set (k # vs) = {i. vacant_at ?sl i}"
    using k vs(3) by (auto simp: vacant_at_def nth_list_update)
  ultimately have "slab_ok (s\<lparr>slots := ?sl, next_vacant := k\<rparr>)"
    by (intro slab_okI [of _ "k # vs"]) (simp_all del: free_chain.simps)
  with k show ?thesis by (simp add: slab_remove_def)
next
  case False
  then have "fst (slab_remove s k) = s"
    by (auto simp: slab_remove_def slot_value_None list_update_same_conv split: slot.splits)
  with ok show ?thesis by simp
qed

lemma set_map_filter: "set (List.map_filter f xs) = {y. \<exists>x \<in> set xs. f x = Some y}"
  by (induction xs) (auto simp: List.map_filter_def)

lemma set_slab_values: "set (slab_values s) = ran (slab_lookup s)"
proof (rule set_eqI)
  fix v
  have "v \<in> set (slab_values s) \<longleftrightarrow> (\<exists>i<length (slots s). slot_value (slots s ! i) = Some v)"
    unfolding slab_values_def set_map_filter mem_Collect_eq Bex_def in_set_conv_nth by blast
  also have "\<dots> \<longleftrightarrow> v \<in> ran (slab_lookup s)"
    unfolding ran_def mem_Collect_eq slab_lookup_def by (auto split: if_splits)
  finally show "v \<in> set (slab_values s) \<longleftrightarrow> v \<in> ran (slab_lookup s)" .
qed

lemma slab_into_values_eq: "slab_into_values s = slab_values s"
  by (simp add: slab_into_values_def slab_values_def)

lemma slab_len_values: "slab_len s = length (slab_values s)"
proof -
  have "length (filter (\<lambda>slot. case slot of Occupied _ \<Rightarrow> True | Vacant _ \<Rightarrow> False) sl) =
      length (List.map_filter slot_value sl)" for sl :: "'a slot list"
    by (induction sl) (auto simp: List.map_filter_def split: slot.splits)
  then show ?thesis by (simp add: slab_len_def slab_values_def)
qed

section \<open>The interface a shard relies on\<close>

text \<open>
  What the shards use: an insertion never fails, gives a key that was free and stores the
  value there; a removal returns what the key held and forgets it; no operation moves the
  value of another key.
\<close>

locale keyed_store =
  fixes empty :: "'s"
    and insert :: "'s \<Rightarrow> 'v \<Rightarrow> ('s \<times> nat) option"
    and remove :: "'s \<Rightarrow> nat \<Rightarrow> 's \<times> 'v option"
    and lookup :: "'s \<Rightarrow> nat \<rightharpoonup> 'v"
    and "values" :: "'s \<Rightarrow> 'v list"
    and ok :: "'s \<Rightarrow> bool"
  assumes ok_empty: "ok empty"
    and lookup_empty: "lookup empty = Map.empty"
    and insert_total: "ok s \<Longrightarrow> \<exists>s' k. insert s v = Some (s', k)"
    and insert_ok: "ok s \<Longrightarrow> insert s v = Some (s', k) \<Longrightarrow> ok s'"
    and insert_fresh: "ok s \<Longrightarrow> insert s v = Some (s', k) \<Longrightarrow> lookup s k = None"
    and insert_lookup: "ok s \<Longrightarrow> insert s v = Some (s', k) \<Longrightarrow> lookup s' = (lookup s)(k \<mapsto> v)"
    and remove_ok: "ok s \<Longrightarrow> ok (fst (remove s k))"
    and remove_result: "snd (remove s k) = lookup s k"
    and remove_lookup: "lookup (fst (remove s k)) = (lookup s)(k := None)"
    and set_values: "set (values s) = ran (lookup s)"
begin

lemma insert_neq_None: "ok s \<Longrightarrow> insert s v \<noteq> None"
  using insert_total [of s v] by auto

lemma insert_new:
  "ok s \<Longrightarrow> insert s v = Some (s', k) \<Longrightarrow> lookup s' k = Some v"
  by (simp add: insert_lookup)

lemma insert_other:
  "ok s \<Longrightarrow> insert s v = Some (s', k) \<Longrightarrow> lookup s k' = Some u \<Longrightarrow>
   k' \<noteq> k \<and> lookup s' k' = Some u"
  using insert_fresh [of s v s' k] by (auto simp: insert_lookup)

lemma remove_inserted:
  "ok s \<Longrightarrow> insert s v = Some (s', k) \<Longrightarrow>
   snd (remove s' k) = Some v \<and> lookup (fst (remove s' k)) = lookup s"
  using insert_fresh [of s v s' k]
  by (auto simp: remove_result remove_lookup insert_lookup fun_eq_iff)

lemma values_insert:
  "ok s \<Longrightarrow> insert s v = Some (s', k) \<Longrightarrow> set (values s') = Set.insert v (set (values s))"
  using insert_fresh [of s v s' k] by (auto simp: set_values insert_lookup)

lemma values_removed: "set (values (fst (remove s k))) \<subseteq> set (values s)"
  by (auto simp: set_values remove_lookup ran_def)

lemma lookup_in_values: "lookup s k = Some v \<Longrightarrow> v \<in> set (values s)"
  by (auto simp: set_values ran_def)

lemma empty_values: "set (values empty) = {}"
  by (simp add: set_values lookup_empty)

end

interpretation slab: keyed_store slab_default slab_insert slab_remove slab_lookup slab_values slab_ok
proof
  show "slab_lookup slab_default = Map.empty"
    by (simp add: slab_lookup_def slab_default_def fun_eq_iff)
  show "\<exists>s' k. slab_insert s v = Some (s', k)" if "slab_ok s" for s :: "'a slab" and v
    using that by (rule slab_insert_ok) blast
  show "slab_ok s'" if "slab_ok s" "slab_insert s v = Some (s', k)" for s s' :: "'a slab" and v k
    using that by (metis slab_insert_ok option.inject prod.inject)
  show "slab_lookup s k = None" if "slab_ok s" "slab_insert s v = Some (s', k)"
    for s s' :: "'a slab" and v k
    using that by (metis slab_insert_ok option.inject prod.inject)
  show "slab_lookup s' = (slab_lookup s)(k \<mapsto> v)" if "slab_ok s" "slab_insert s v = Some (s', k)"
    for s s' :: "'a slab" and v k
    using that by (metis slab_insert_ok option.inject prod.inject)
qed (simp_all add: slab_ok_default slab_remove_ok slab_remove_lookup set_slab_values)

section \<open>Storage is the historical peak\<close>

text \<open>
  A run of insertions and removals. The storage only grows when no slot is vacant, so its
  length is the largest number of values the slab ever held.
\<close>

datatype 'a slab_op = Insert 'a | Remove nat

fun slab_step :: "'a slab_op \<Rightarrow> 'a slab \<Rightarrow> 'a slab" where
  "slab_step (Insert v) s = (case slab_insert s v of None \<Rightarrow> s | Some (s', _) \<Rightarrow> s')"
| "slab_step (Remove k) s = fst (slab_remove s k)"

fun slab_run :: "'a slab_op list \<Rightarrow> 'a slab \<Rightarrow> 'a slab" where
  "slab_run [] s = s"
| "slab_run (x # xs) s = slab_run xs (slab_step x s)"

fun slab_peak :: "'a slab_op list \<Rightarrow> 'a slab \<Rightarrow> nat" where
  "slab_peak [] s = slab_len s"
| "slab_peak (x # xs) s = max (slab_len s) (slab_peak xs (slab_step x s))"

lemma slab_step_ok: "slab_ok s \<Longrightarrow> slab_ok (slab_step x s)"
  by (cases x) (auto simp: slab.remove_ok split: option.splits intro: slab.insert_ok)

lemma slab_run_ok: "slab_ok s \<Longrightarrow> slab_ok (slab_run xs s)"
  by (induction xs arbitrary: s) (auto simp: slab_step_ok)

lemma slab_len_le: "slab_len s \<le> length (slots s)"
  by (simp add: slab_len_def)

lemma slab_len_full: "slab_len s = length (slots s) \<longleftrightarrow> (\<forall>i. \<not> vacant_at (slots s) i)"
proof -
  have "slab_len s = length (slots s) \<longleftrightarrow>
      (\<forall>x \<in> set (slots s). case x of Occupied _ \<Rightarrow> True | Vacant _ \<Rightarrow> False)"
    unfolding slab_len_def by (metis filter_id_conv length_filter_less nat_neq_iff)
  also have "\<dots> \<longleftrightarrow> (\<forall>i<length (slots s). slot_value (slots s ! i) \<noteq> None)"
    by (auto simp: all_set_conv_all_nth slot_value_None split: slot.splits)
  finally show ?thesis by (auto simp: vacant_at_def)
qed

text \<open>One step lengthens the storage only from a full slab, and then by one slot.\<close>

lemma slab_step_length:
  assumes "slab_ok s"
  shows "length (slots (slab_step x s)) = max (length (slots s)) (slab_len (slab_step x s))"
proof (cases x)
  case (Insert v)
  from assms show ?thesis
  proof (cases rule: slab_ok_next)
    case full
    then have "slab_len s = length (slots s)" by (simp add: slab_len_full)
    with full Insert show ?thesis
      by (simp add: slab_insert_def slab_len_def Let_def)
  next
    case vacant
    with Insert have "length (slots (slab_step x s)) = length (slots s)"
      by (simp add: slab_insert_def Let_def)
    with slab_len_le [of "slab_step x s"] show ?thesis by simp
  qed
next
  case (Remove k)
  have "length (slots (slab_step x s)) = length (slots s)"
    using Remove by (simp add: slab_remove_def split: slot.splits)
  with slab_len_le [of "slab_step x s"] show ?thesis by simp
qed

lemma slab_run_length:
  "slab_ok s \<Longrightarrow> length (slots (slab_run xs s)) = max (length (slots s)) (slab_peak xs s)"
proof (induction xs arbitrary: s)
  case Nil
  then show ?case using slab_len_le [of s] by simp
next
  case (Cons x xs)
  have "slab_len (slab_step x s) \<le> slab_peak xs (slab_step x s)"
    by (cases xs) auto
  with Cons show ?case
    using slab_len_le [of s] by (simp add: slab_step_ok slab_step_length)
qed

lemmas [run_eval] =
  slab_default_def slab_insert_def slab_remove_def slab_values_def slab_into_values_def
  slab_len_def vacant_at_def slab_lookup_def

end
