(* ===== verification/Packed_State.thy ===== *)
theory Packed_State
  imports Prelude
begin

text \<open>
  The packed \<^verbatim>\<open>AtomicU64\<close> words of \<^verbatim>\<open>shard.rs\<close> and \<^verbatim>\<open>inner.rs\<close>: the constants, the fields
  they name, and how each read-modify-write of the code acts on the fields. A shard's word
  counts its guards in bits 0..31 (\<open>low\<close>) and the child nodes that arrived at it in bits
  32..61 (\<open>mid\<close>); a node's word counts its arrived shards in \<open>low\<close> and holds the index of
  the parent shard it arrived at in \<open>mid\<close>. Bit 62 is the stop bit and bit 63 the arrived
  bit of both.

  The collection \<open>word_fields\<close> rewrites the code's masks and updates to statements about
  the fields.
\<close>

named_theorems word_fields

definition LOCAL_ONE :: u64 where "LOCAL_ONE = 1"
definition LOCAL_MASK :: u64 where "LOCAL_MASK = 0xFFFFFFFF"
definition KIDS_ONE :: u64 where "KIDS_ONE = push_bit 32 1"
definition STOPPED :: u64 where "STOPPED = push_bit 62 1"
definition ARRIVED :: u64 where "ARRIVED = push_bit 63 1"
definition SHARDS_MASK :: u64 where "SHARDS_MASK = 0xFFFFFFFF"
definition PARENT_SHARD_SHIFT :: nat where "PARENT_SHARD_SHIFT = 32"
definition PARENT_SHARD_MASK :: u64 where "PARENT_SHARD_MASK = 0xFFFF"

lemmas packed_consts = LOCAL_ONE_def LOCAL_MASK_def KIDS_ONE_def STOPPED_def ARRIVED_def
  SHARDS_MASK_def PARENT_SHARD_SHIFT_def PARENT_SHARD_MASK_def

section \<open>Fields\<close>

definition low :: "u64 \<Rightarrow> nat" where
  "low w = unat w mod 2 ^ 32"

definition mid :: "u64 \<Rightarrow> nat" where
  "mid w = unat w div 2 ^ 32 mod 2 ^ 30"

definition stopped_bit :: "u64 \<Rightarrow> bool" where
  "stopped_bit w \<longleftrightarrow> odd (unat w div 2 ^ 62)"

definition arrived_bit :: "u64 \<Rightarrow> bool" where
  "arrived_bit w \<longleftrightarrow> odd (unat w div 2 ^ 63)"

lemmas field_defs = low_def mid_def stopped_bit_def arrived_bit_def

text \<open>A word is its four fields.\<close>

definition pack :: "nat \<Rightarrow> nat \<Rightarrow> bool \<Rightarrow> bool \<Rightarrow> u64" where
  "pack l k s a = of_nat (l + k * 2 ^ 32 + of_bool s * 2 ^ 62 + of_bool a * 2 ^ 63)"

lemma u64_bound: "unat (w :: u64) < 2 ^ 64"
  using unsigned_less [of w] by simp

lemma unat_fields:
  "unat w = low w + mid w * 2 ^ 32 + of_bool (stopped_bit w) * 2 ^ 62 + of_bool (arrived_bit w) * 2 ^ 63"
proof -
  obtain n where n: "unat w = n" "n < 2 ^ 64" using u64_bound by blast
  have q: "n div 2 ^ 63 < 2"
    using n(2) by (simp add: less_mult_imp_div_less)
  define q r where "q = n div 2 ^ 32" and "r = n mod 2 ^ 32"
  define q' r' where "q' = q div 2 ^ 30" and "r' = q mod 2 ^ 30"
  have n_q: "n = r + q * 2 ^ 32"
    unfolding q_def r_def by (rule mod_div_mult_eq [symmetric])
  have q_q': "q = r' + q' * 2 ^ 30"
    unfolding q'_def r'_def by (rule mod_div_mult_eq [symmetric])
  have q': "q' = n div 2 ^ 62"
    by (simp add: q'_def q_def div_mult2_eq [symmetric])
  have q'': "n div 2 ^ 63 = q' div 2"
    by (simp add: q' div_mult2_eq [symmetric])
  define c d where "c = q' mod 2" and "d = q' div 2"
  have "q' = c + d * 2"
    unfolding c_def d_def by (rule mod_div_mult_eq [symmetric])
  with n_q q_q' have "n = r + (r' + (c + d * 2) * 2 ^ 30) * 2 ^ 32" by simp
  then have "n = r + r' * 2 ^ 32 + (q' mod 2) * 2 ^ 62 + (q' div 2) * 2 ^ 63"
    unfolding c_def [symmetric] d_def [symmetric] by (simp add: algebra_simps)
  then have "n = n mod 2 ^ 32 + (n div 2 ^ 32 mod 2 ^ 30) * 2 ^ 32
      + (n div 2 ^ 62 mod 2) * 2 ^ 62 + (n div 2 ^ 63) * 2 ^ 63"
    by (simp only: q'' q' [symmetric] r_def r'_def q_def)
  moreover have "n div 2 ^ 63 = of_bool (odd (n div 2 ^ 63))"
    using q by (cases "n div 2 ^ 63 = 0") (auto simp: less_2_cases_iff)
  ultimately show ?thesis
    by (simp add: field_defs n(1) mod_2_eq_odd)
qed

lemma pack_fields: "pack (low w) (mid w) (stopped_bit w) (arrived_bit w) = w"
  unfolding pack_def unat_fields [symmetric] by simp

lemma fields_bound [simp]: "low w < 2 ^ 32" "mid w < 2 ^ 30"
  by (simp_all add: low_def mid_def)

lemma unat_pack:
  assumes "l < 2 ^ 32" "k < 2 ^ 30"
  shows "unat (pack l k s a) = l + k * 2 ^ 32 + of_bool s * 2 ^ 62 + of_bool a * 2 ^ 63"
proof -
  define n where "n = l + k * 2 ^ 32 + of_bool s * 2 ^ 62 + of_bool a * (2 ^ 63 :: nat)"
  have "n < 2 ^ 64" using assms by (cases s; cases a) (simp_all add: n_def)
  then have "unat (of_nat n :: u64) = n" by (simp add: unat_of_nat)
  then have "unat (pack l k s a) = n" unfolding pack_def n_def by (simp only:)
  then show ?thesis unfolding n_def .
qed

lemma fields_pack:
  assumes "l < 2 ^ 32" "k < 2 ^ 30"
  shows "low (pack l k s a) = l" "mid (pack l k s a) = k"
    "stopped_bit (pack l k s a) = s" "arrived_bit (pack l k s a) = a"
proof -
  define n where "n = l + k * 2 ^ 32 + of_bool s * 2 ^ 62 + of_bool a * (2 ^ 63 :: nat)"
  have n: "unat (pack l k s a) = n" unfolding n_def by (rule unat_pack [OF assms])
  have n1: "n = l + (k + (of_bool s + of_bool a * 2) * 2 ^ 30) * 2 ^ 32"
    by (simp add: n_def algebra_simps)
  have n2: "n div 2 ^ 32 = k + (of_bool s + of_bool a * 2) * 2 ^ 30"
    using assms(1) by (simp add: n1)
  have n3: "n div 2 ^ 62 = of_bool s + of_bool a * 2"
    using assms(2) n2 div_mult2_eq [of n "2 ^ 32" "2 ^ 30"] by simp
  have n4: "n div 2 ^ 63 = of_bool a"
    using n3 div_mult2_eq [of n "2 ^ 62" 2] by simp
  show "low (pack l k s a) = l"
    unfolding low_def n n1 mod_mult_self1 by (rule mod_less [OF assms(1)])
  show "mid (pack l k s a) = k"
    unfolding mid_def n n2 mod_mult_self1 by (rule mod_less [OF assms(2)])
  show "stopped_bit (pack l k s a) = s" unfolding stopped_bit_def n n3 by simp
  show "arrived_bit (pack l k s a) = a" unfolding arrived_bit_def n n4 by simp
qed

lemma fields_eqI:
  "low v = low w \<Longrightarrow> mid v = mid w \<Longrightarrow> stopped_bit v = stopped_bit w \<Longrightarrow>
   arrived_bit v = arrived_bit w \<Longrightarrow> v = w"
  by (rule trans [OF pack_fields [symmetric]], rule trans [OF _ pack_fields]) simp

lemma word_eq_fields:
  "v = w \<longleftrightarrow> low v = low w \<and> mid v = mid w \<and> stopped_bit v = stopped_bit w \<and>
     arrived_bit v = arrived_bit w"
  by (auto intro: fields_eqI)

section \<open>The masks as bits\<close>

lemma low_take_bit: "low w = take_bit 32 (unat w)"
  by (simp add: low_def take_bit_eq_mod)

lemma mid_take_bit: "mid w = take_bit 30 (drop_bit 32 (unat w))"
  by (simp add: mid_def take_bit_eq_mod drop_bit_eq_div)

lemma stopped_bit_bit: "stopped_bit w \<longleftrightarrow> bit w 62"
  unfolding stopped_bit_def bit_iff_odd [symmetric] by (simp add: bit_unsigned_iff)

lemma arrived_bit_bit: "arrived_bit w \<longleftrightarrow> bit w 63"
  unfolding arrived_bit_def bit_iff_odd [symmetric] by (simp add: bit_unsigned_iff)

lemma fields_or [word_fields]:
  "low (v OR w) = low v OR low w" "mid (v OR w) = mid v OR mid w"
  "stopped_bit (v OR w) \<longleftrightarrow> stopped_bit v \<or> stopped_bit w"
  "arrived_bit (v OR w) \<longleftrightarrow> arrived_bit v \<or> arrived_bit w"
  by (simp_all add: low_take_bit mid_take_bit stopped_bit_bit arrived_bit_bit unsigned_or_eq
      take_bit_or drop_bit_or bit_or_iff)

lemma fields_and [word_fields]:
  "low (v AND w) = low v AND low w" "mid (v AND w) = mid v AND mid w"
  "stopped_bit (v AND w) \<longleftrightarrow> stopped_bit v \<and> stopped_bit w"
  "arrived_bit (v AND w) \<longleftrightarrow> arrived_bit v \<and> arrived_bit w"
  by (simp_all add: low_take_bit mid_take_bit stopped_bit_bit arrived_bit_bit unsigned_and_eq
      take_bit_and drop_bit_and bit_and_iff)

lemma fields_consts [word_fields, simp]:
  "low 0 = 0" "mid 0 = 0" "\<not> stopped_bit 0" "\<not> arrived_bit 0"
  "low LOCAL_ONE = 1" "mid LOCAL_ONE = 0" "\<not> stopped_bit LOCAL_ONE" "\<not> arrived_bit LOCAL_ONE"
  "low KIDS_ONE = 0" "mid KIDS_ONE = 1" "\<not> stopped_bit KIDS_ONE" "\<not> arrived_bit KIDS_ONE"
  "low STOPPED = 0" "mid STOPPED = 0" "stopped_bit STOPPED" "\<not> arrived_bit STOPPED"
  "low ARRIVED = 0" "mid ARRIVED = 0" "\<not> stopped_bit ARRIVED" "arrived_bit ARRIVED"
  "low 1 = 1" "mid 1 = 0" "\<not> stopped_bit 1" "\<not> arrived_bit 1"
  by (simp_all add: packed_consts field_defs)

lemma fields_not_stopped [word_fields]:
  "low (w AND NOT STOPPED) = low w" "mid (w AND NOT STOPPED) = mid w"
  "\<not> stopped_bit (w AND NOT STOPPED)" "arrived_bit (w AND NOT STOPPED) = arrived_bit w"
proof -
  have n: "low (NOT STOPPED) = mask 32" "mid (NOT STOPPED) = mask 30"
    by (simp_all add: packed_consts field_defs mask_eq_exp_minus_1)
  have m: "low w AND mask 32 = low w" "mid w AND mask 30 = mid w"
    by (simp_all add: low_take_bit mid_take_bit take_bit_eq_mask [symmetric])
  show "low (w AND NOT STOPPED) = low w" "mid (w AND NOT STOPPED) = mid w"
    by (simp_all only: fields_and n m)
  show "\<not> stopped_bit (w AND NOT STOPPED)" "arrived_bit (w AND NOT STOPPED) = arrived_bit w"
    by (simp_all add: fields_and) (simp_all add: packed_consts field_defs)
qed

lemma fields_shift [word_fields]:
  assumes "i < 2 ^ 16"
  shows "low (push_bit 32 (of_nat i)) = 0" "mid (push_bit 32 (of_nat i)) = i"
    "\<not> stopped_bit (push_bit 32 (of_nat i))" "\<not> arrived_bit (push_bit 32 (of_nat i))"
proof -
  have "push_bit 32 (of_nat i :: u64) = pack 0 i False False"
    by (simp add: pack_def push_bit_eq_mult)
  then show "low (push_bit 32 (of_nat i)) = 0" "mid (push_bit 32 (of_nat i)) = i"
    "\<not> stopped_bit (push_bit 32 (of_nat i))" "\<not> arrived_bit (push_bit 32 (of_nat i))"
    using assms fields_pack [of 0 i False False] by simp_all
qed

section \<open>The tests of the code\<close>

lemma arrived_test [word_fields]: "w AND ARRIVED = 0 \<longleftrightarrow> \<not> arrived_bit w"
  by (simp add: word_eq_fields [of "w AND ARRIVED"] fields_and)

lemma stopped_test [word_fields]: "w AND STOPPED = 0 \<longleftrightarrow> \<not> stopped_bit w"
  by (simp add: word_eq_fields [of "w AND STOPPED"] fields_and)

lemma unarrived_test [word_fields]:
  "w AND NOT STOPPED = 0 \<longleftrightarrow> low w = 0 \<and> mid w = 0 \<and> \<not> arrived_bit w"
  by (simp add: word_eq_fields [of "w AND NOT STOPPED"] fields_not_stopped)

lemma idle_test [word_fields]:
  "w AND NOT STOPPED = ARRIVED \<longleftrightarrow> low w = 0 \<and> mid w = 0 \<and> arrived_bit w"
  by (simp add: word_eq_fields [of "w AND NOT STOPPED"] fields_not_stopped)

lemma emptied_test [word_fields]:
  "w = ARRIVED OR STOPPED \<longleftrightarrow> low w = 0 \<and> mid w = 0 \<and> arrived_bit w \<and> stopped_bit w"
  by (auto simp: word_eq_fields [of w] fields_or)

lemma nonempty_test [word_fields]:
  "w AND NOT (ARRIVED OR STOPPED) = 0 \<longleftrightarrow> low w = 0 \<and> mid w = 0"
proof -
  define m where "m = NOT (ARRIVED OR STOPPED)"
  have "m = pack (2 ^ 32 - 1) (2 ^ 30 - 1) False False"
    by (simp add: m_def packed_consts pack_def)
  then have "low m = mask 32" "mid m = mask 30" "\<not> stopped_bit m" "\<not> arrived_bit m"
    by (simp_all add: fields_pack mask_eq_exp_minus_1)
  moreover have "low w AND mask 32 = low w" "mid w AND mask 30 = mid w"
    by (simp_all add: low_take_bit mid_take_bit take_bit_eq_mask [symmetric])
  ultimately have "w AND m = 0 \<longleftrightarrow> low w = 0 \<and> mid w = 0"
    by (simp add: word_eq_fields [of "w AND m"] fields_and)
  then show ?thesis unfolding m_def .
qed

lemma count_mask [word_fields]: "unat (w AND LOCAL_MASK) = low w" "unat (w AND SHARDS_MASK) = low w"
proof -
  have m: "LOCAL_MASK = mask 32" "SHARDS_MASK = mask 32"
    by (simp_all add: packed_consts mask_eq_exp_minus_1)
  show "unat (w AND LOCAL_MASK) = low w" "unat (w AND SHARDS_MASK) = low w"
    unfolding m take_bit_eq_mask [symmetric] low_take_bit by (simp_all add: unsigned_take_bit_eq)
qed

lemma count_test [word_fields]: "w AND SHARDS_MASK = 0 \<longleftrightarrow> low w = 0"
  using count_mask(2) [of w] by (metis unat_0 unat_eq_zero)

lemma parent_shard_mask [word_fields]:
  "unat (drop_bit PARENT_SHARD_SHIFT w AND PARENT_SHARD_MASK) = mid w mod 2 ^ 16"
proof -
  have m: "PARENT_SHARD_MASK = mask 16" "PARENT_SHARD_SHIFT = 32"
    by (simp_all add: packed_consts mask_eq_exp_minus_1)
  have "unat (drop_bit PARENT_SHARD_SHIFT w AND PARENT_SHARD_MASK) = take_bit 16 (drop_bit 32 (unat w))"
    unfolding m take_bit_eq_mask [symmetric] by (simp add: unsigned_take_bit_eq unsigned_drop_bit_eq
        take_bit_nat_eq_self [OF u64_bound])
  also have "\<dots> = mid w mod 2 ^ 16"
    by (simp add: mid_take_bit take_bit_eq_mod mod_mod_cancel)
  finally show ?thesis .
qed

section \<open>Additions and subtractions\<close>

text \<open>A count that stays within its field does not disturb the other fields.\<close>

lemma pack_add:
  "pack l k s a + LOCAL_ONE = pack (l + 1) k s a" "pack l k s a + KIDS_ONE = pack l (k + 1) s a"
  by (simp_all add: pack_def packed_consts algebra_simps)

lemma fields_add_local [word_fields]:
  assumes "low w + 1 < 2 ^ 32"
  shows "low (w + LOCAL_ONE) = low w + 1" "mid (w + LOCAL_ONE) = mid w"
    "stopped_bit (w + LOCAL_ONE) = stopped_bit w" "arrived_bit (w + LOCAL_ONE) = arrived_bit w"
proof -
  have "w + LOCAL_ONE = pack (low w + 1) (mid w) (stopped_bit w) (arrived_bit w)"
    using pack_add(1) pack_fields by metis
  with fields_pack [OF assms fields_bound(2)]
  show "low (w + LOCAL_ONE) = low w + 1" "mid (w + LOCAL_ONE) = mid w"
    "stopped_bit (w + LOCAL_ONE) = stopped_bit w" "arrived_bit (w + LOCAL_ONE) = arrived_bit w"
    by simp_all
qed

lemma fields_add_kids [word_fields]:
  assumes "mid w + 1 < 2 ^ 30"
  shows "low (w + KIDS_ONE) = low w" "mid (w + KIDS_ONE) = mid w + 1"
    "stopped_bit (w + KIDS_ONE) = stopped_bit w" "arrived_bit (w + KIDS_ONE) = arrived_bit w"
proof -
  have "w + KIDS_ONE = pack (low w) (mid w + 1) (stopped_bit w) (arrived_bit w)"
    using pack_add(2) pack_fields by metis
  with fields_pack [OF fields_bound(1) assms]
  show "low (w + KIDS_ONE) = low w" "mid (w + KIDS_ONE) = mid w + 1"
    "stopped_bit (w + KIDS_ONE) = stopped_bit w" "arrived_bit (w + KIDS_ONE) = arrived_bit w"
    by simp_all
qed

lemma fields_sub_local [word_fields]:
  assumes "0 < low w"
  shows "low (w - LOCAL_ONE) = low w - 1" "mid (w - LOCAL_ONE) = mid w"
    "stopped_bit (w - LOCAL_ONE) = stopped_bit w" "arrived_bit (w - LOCAL_ONE) = arrived_bit w"
proof -
  let ?v = "pack (low w - 1) (mid w) (stopped_bit w) (arrived_bit w)"
  have "low w - 1 < 2 ^ 32" using fields_bound(1) [of w] by linarith
  then have v: "low ?v = low w - 1" "mid ?v = mid w" "stopped_bit ?v = stopped_bit w"
    "arrived_bit ?v = arrived_bit w"
    by (simp_all only: fields_pack fields_bound)
  have "?v + LOCAL_ONE = w"
    using assms by (simp add: pack_add pack_fields)
  then have "w - LOCAL_ONE = ?v" by (simp add: eq_diff_eq [symmetric])
  with v show "low (w - LOCAL_ONE) = low w - 1" "mid (w - LOCAL_ONE) = mid w"
    "stopped_bit (w - LOCAL_ONE) = stopped_bit w" "arrived_bit (w - LOCAL_ONE) = arrived_bit w"
    by (simp_all only:)
qed

lemma fields_sub_kids [word_fields]:
  assumes "0 < mid w"
  shows "low (w - KIDS_ONE) = low w" "mid (w - KIDS_ONE) = mid w - 1"
    "stopped_bit (w - KIDS_ONE) = stopped_bit w" "arrived_bit (w - KIDS_ONE) = arrived_bit w"
proof -
  let ?v = "pack (low w) (mid w - 1) (stopped_bit w) (arrived_bit w)"
  have "mid w - 1 < 2 ^ 30" using fields_bound(2) [of w] by linarith
  then have v: "low ?v = low w" "mid ?v = mid w - 1" "stopped_bit ?v = stopped_bit w"
    "arrived_bit ?v = arrived_bit w"
    by (simp_all only: fields_pack fields_bound)
  have "?v + KIDS_ONE = w"
    using assms by (simp add: pack_add pack_fields)
  then have "w - KIDS_ONE = ?v" by (simp add: eq_diff_eq [symmetric])
  with v show "low (w - KIDS_ONE) = low w" "mid (w - KIDS_ONE) = mid w - 1"
    "stopped_bit (w - KIDS_ONE) = stopped_bit w" "arrived_bit (w - KIDS_ONE) = arrived_bit w"
    by (simp_all only:)
qed

lemma one_LOCAL_ONE: "(1 :: u64) = LOCAL_ONE"
  by (simp add: LOCAL_ONE_def)

lemma units_distinct [simp]: "LOCAL_ONE \<noteq> KIDS_ONE" "KIDS_ONE \<noteq> LOCAL_ONE"
  by (simp_all add: packed_consts)

text \<open>
  Nothing stops a count that leaves its field: \<open>2 ^ 32\<close> guards on one shard read as one
  arrived child, and \<open>2 ^ 30\<close> arrived children as a stop.
\<close>

lemma local_overflow:
  "pack (2 ^ 32 - 1) k s a + LOCAL_ONE = pack 0 (k + 1) s a"
  by (simp add: pack_def packed_consts algebra_simps)

lemma kids_overflow:
  "pack l (2 ^ 30 - 1) False a + KIDS_ONE = pack l 0 True a"
  by (simp add: pack_def packed_consts algebra_simps)

lemmas [run_eval] =
  LOCAL_ONE_def LOCAL_MASK_def KIDS_ONE_def STOPPED_def ARRIVED_def SHARDS_MASK_def
  PARENT_SHARD_SHIFT_def PARENT_SHARD_MASK_def arrived_bit_def

end
