(* ===== verification/Guard_Registry.thy ===== *)
theory Guard_Registry
  imports Prelude
begin

text \<open>
  \<^verbatim>\<open>GuardInfo\<close> and \<^verbatim>\<open>GuardRegistry\<close> of \<^verbatim>\<open>src/implementation/guard.rs\<close>: the provenance records
  of a shard's guards. The registry holds weak references, here the addresses of the records;
  \<open>alive a\<close> says that the record at address \<open>a\<close> still has a strong reference, which only its
  guard holds. The theory shows that the registry always reports the live records, that its
  memory is bounded by their peak number, and that sweeping costs at most two visits per
  registration.
\<close>

section \<open>Locations and records\<close>

text \<open>\<^verbatim>\<open>std::panic::Location\<close>: a file, a line and a column.\<close>

datatype location = Location (loc_file: string) (loc_line: nat) (loc_col: nat)

text \<open>A point in time and a duration are numbers of nanoseconds.\<close>

record guard_info =
  gi_location :: location
  gi_created_at :: nat

definition guard_info_new :: "location \<Rightarrow> nat \<Rightarrow> guard_info" where
  "guard_info_new loc now = \<lparr>gi_location = loc, gi_created_at = now\<rparr>"

text \<open>\<^verbatim>\<open>GuardInfo::age\<close>: \<open>None\<close> under miri. \<^verbatim>\<open>Instant::elapsed\<close> saturates at zero.\<close>

definition guard_info_age :: "bool \<Rightarrow> nat \<Rightarrow> guard_info \<Rightarrow> nat option" where
  "guard_info_age miri now info = (if miri then None else Some (now - gi_created_at info))"

section \<open>The registry\<close>

record guard_registry =
  reg_guards :: "nat list"
  sweep_threshold :: nat

definition registry_default :: guard_registry where
  "registry_default = \<lparr>reg_guards = [], sweep_threshold = 0\<rparr>"

definition MIN_SWEEP_THRESHOLD :: nat where
  "MIN_SWEEP_THRESHOLD = 16"

definition registry_sweep :: "(nat \<Rightarrow> bool) \<Rightarrow> guard_registry \<Rightarrow> guard_registry" where
  "registry_sweep alive r =
     (let kept = filter alive (reg_guards r) in
      r\<lparr>reg_guards := kept, sweep_threshold := length kept * 2\<rparr>)"

definition registry_register ::
  "(nat \<Rightarrow> bool) \<Rightarrow> guard_registry \<Rightarrow> nat \<Rightarrow> guard_registry" where
  "registry_register alive r g =
     (let r = (if length (reg_guards r) \<ge> max (sweep_threshold r) MIN_SWEEP_THRESHOLD
               then registry_sweep alive r else r)
      in r\<lparr>reg_guards := reg_guards r @ [g]\<rparr>)"

definition registry_live :: "(nat \<Rightarrow> bool) \<Rightarrow> guard_registry \<Rightarrow> nat list" where
  "registry_live alive r = filter alive (reg_guards r)"

lemmas registry_defs = registry_sweep_def registry_register_def registry_live_def
  MIN_SWEEP_THRESHOLD_def Let_def

lemma registry_live_sweep: "registry_live alive (registry_sweep alive r) = registry_live alive r"
  by (simp add: registry_defs)

lemma registry_live_register:
  "registry_live alive (registry_register alive r g) =
   registry_live alive r @ (if alive g then [g] else [])"
  by (simp add: registry_defs)

lemma set_registry_register:
  "set (reg_guards (registry_register alive r g)) \<subseteq> insert g (set (reg_guards r))"
  by (auto simp: registry_defs)

section \<open>Runs of a registry\<close>

text \<open>
  What happens to one registry: a guard is created and its record registered, a guard is
  dropped, or a report reads the registry. The state carries the registry and the live
  records; a run also counts the registrations and the entries that registrations swept.
\<close>

datatype registry_event = Register nat | Die nat | Report

record registry_state =
  rs_registry :: guard_registry
  rs_live :: "nat list"

definition registry_init :: registry_state where
  "registry_init = \<lparr>rs_registry = registry_default, rs_live = []\<rparr>"

definition is_live :: "registry_state \<Rightarrow> nat \<Rightarrow> bool" where
  "is_live s a \<longleftrightarrow> a \<in> set (rs_live s)"

text \<open>A record is live before it is registered: the guard's strong reference exists.\<close>

fun registry_event_step :: "registry_event \<Rightarrow> registry_state \<Rightarrow> registry_state" where
  "registry_event_step (Register a) s =
     (let s = s\<lparr>rs_live := rs_live s @ [a]\<rparr> in
      s\<lparr>rs_registry := registry_register (is_live s) (rs_registry s) a\<rparr>)"
| "registry_event_step (Die a) s = s\<lparr>rs_live := removeAll a (rs_live s)\<rparr>"
| "registry_event_step Report s = s\<lparr>rs_registry := registry_sweep (is_live s) (rs_registry s)\<rparr>"

fun sweep_cost :: "registry_event \<Rightarrow> registry_state \<Rightarrow> nat" where
  "sweep_cost (Register a) s =
     (let r = rs_registry s in
      if length (reg_guards r) \<ge> max (sweep_threshold r) MIN_SWEEP_THRESHOLD
      then length (reg_guards r) else 0)"
| "sweep_cost _ s = 0"

fun registry_run :: "registry_event list \<Rightarrow> registry_state \<Rightarrow> registry_state" where
  "registry_run [] s = s"
| "registry_run (e # es) s = registry_run es (registry_event_step e s)"

fun run_cost :: "registry_event list \<Rightarrow> registry_state \<Rightarrow> nat" where
  "run_cost [] s = 0"
| "run_cost (e # es) s = sweep_cost e s + run_cost es (registry_event_step e s)"

fun peak_live :: "registry_event list \<Rightarrow> registry_state \<Rightarrow> nat" where
  "peak_live [] s = length (rs_live s)"
| "peak_live (e # es) s = max (length (rs_live s)) (peak_live es (registry_event_step e s))"

definition registrations :: "registry_event list \<Rightarrow> nat" where
  "registrations es = length (filter (\<lambda>e. case e of Register _ \<Rightarrow> True | _ \<Rightarrow> False) es)"

text \<open>Each guard allocates a record of its own, so an address is registered once.\<close>

fun fresh_run :: "registry_event list \<Rightarrow> nat set \<Rightarrow> bool" where
  "fresh_run [] used = True"
| "fresh_run (Register a # es) used = (a \<notin> used \<and> fresh_run es (insert a used))"
| "fresh_run (_ # es) used = fresh_run es used"

text \<open>
  The invariant of a run: the live records are among the registered ones, in the same order,
  and the length stays within the threshold of the next sweep.
\<close>

definition registry_ok :: "nat set \<Rightarrow> registry_state \<Rightarrow> bool" where
  "registry_ok used s \<longleftrightarrow>
     distinct (rs_live s) \<and> set (rs_live s) \<subseteq> used \<and> set (reg_guards (rs_registry s)) \<subseteq> used \<and>
     registry_live (is_live s) (rs_registry s) = rs_live s \<and>
     length (reg_guards (rs_registry s)) \<le> max (sweep_threshold (rs_registry s)) MIN_SWEEP_THRESHOLD"

lemma filter_snoc_fresh:
  assumes "a \<notin> set xs"
  shows "filter (\<lambda>x. x = a \<or> P x) xs = filter P xs"
  by (rule filter_cong) (use assms in auto)

lemma registry_ok_register:
  assumes ok: "registry_ok used s" and fresh: "a \<notin> used"
  shows "registry_ok (insert a used) (registry_event_step (Register a) s)"
proof -
  let ?s = "s\<lparr>rs_live := rs_live s @ [a]\<rparr>" and ?r = "rs_registry s"
  let ?t = "registry_event_step (Register a) s"
  have live: "is_live ?s = (\<lambda>x. x = a \<or> is_live s x)"
    by (auto simp: is_live_def fun_eq_iff)
  have fresh': "a \<notin> set (reg_guards ?r)" "a \<notin> set (rs_live s)"
    using ok fresh by (auto simp: registry_ok_def)
  have t: "rs_live ?t = rs_live s @ [a]" "is_live ?t = is_live ?s"
    "rs_registry ?t = registry_register (is_live ?s) ?r a"
    by (auto simp: Let_def is_live_def fun_eq_iff)
  have old: "registry_live (is_live ?s) ?r = rs_live s"
    using ok filter_snoc_fresh [OF fresh'(1)] by (simp add: registry_ok_def registry_live_def live)
  then have "registry_live (is_live ?t) (rs_registry ?t) = rs_live ?t"
    unfolding t(2,3) registry_live_register by (simp add: live t(1))
  moreover have "length (reg_guards (rs_registry ?t))
      \<le> max (sweep_threshold (rs_registry ?t)) MIN_SWEEP_THRESHOLD"
    using ok by (auto simp: t registry_defs registry_ok_def)
  moreover have "set (reg_guards (rs_registry ?t)) \<subseteq> insert a used"
    using ok set_registry_register [of "is_live ?s" ?r a] unfolding t(3)
    by (auto simp: registry_ok_def)
  ultimately show ?thesis
    using ok fresh'(2) unfolding registry_ok_def t(1) by (auto simp del: registry_event_step.simps)
qed

lemma registry_ok_die:
  assumes "registry_ok used s"
  shows "registry_ok used (registry_event_step (Die a) s)"
proof -
  have live: "is_live (s\<lparr>rs_live := removeAll a (rs_live s)\<rparr>) = (\<lambda>x. x \<noteq> a \<and> is_live s x)"
    by (auto simp: is_live_def fun_eq_iff)
  have "filter (\<lambda>x. x \<noteq> a \<and> is_live s x) (reg_guards (rs_registry s)) =
      removeAll a (registry_live (is_live s) (rs_registry s))"
    by (simp add: registry_live_def removeAll_filter_not_eq conj_commute eq_commute)
  with assms show ?thesis
    by (auto simp: registry_ok_def registry_live_def live distinct_removeAll)
qed

lemma registry_ok_report:
  assumes "registry_ok used s"
  shows "registry_ok used (registry_event_step Report s)"
proof -
  have "is_live (registry_event_step Report s) = is_live s"
    by (simp add: is_live_def fun_eq_iff)
  with assms show ?thesis
    by (auto simp: registry_ok_def registry_live_sweep) (auto simp: registry_defs)
qed

lemmas registry_ok_step = registry_ok_register registry_ok_die registry_ok_report

lemma registry_ok_init: "registry_ok {} registry_init"
  by (simp add: registry_ok_def registry_init_def registry_default_def registry_defs)

text \<open>Along a run from a good state: the live records, the memory and the cost.\<close>

definition sweep_bound :: "registry_state \<Rightarrow> nat" where
  "sweep_bound s = max (sweep_threshold (rs_registry s)) MIN_SWEEP_THRESHOLD"

definition slack :: "registry_state \<Rightarrow> nat" where
  "slack s = 2 * length (reg_guards (rs_registry s)) - sweep_bound s"

lemma live_le_entries:
  "registry_ok used s \<Longrightarrow> length (rs_live s) \<le> length (reg_guards (rs_registry s))"
  by (metis registry_ok_def registry_live_def length_filter_le)

lemma threshold_step:
  assumes "registry_ok used s" "case e of Register a \<Rightarrow> a \<notin> used | _ \<Rightarrow> True"
  shows "sweep_threshold (rs_registry (registry_event_step e s)) = sweep_threshold (rs_registry s) \<or>
    sweep_threshold (rs_registry (registry_event_step e s)) \<le>
      2 * length (rs_live (registry_event_step e s))"
proof (cases e)
  case (Register a)
  let ?s = "s\<lparr>rs_live := rs_live s @ [a]\<rparr>"
  have "a \<notin> set (reg_guards (rs_registry s))"
    using assms Register by (auto simp: registry_ok_def)
  moreover have "is_live ?s = (\<lambda>x. x = a \<or> is_live s x)"
    by (auto simp: is_live_def fun_eq_iff)
  ultimately have "filter (is_live ?s) (reg_guards (rs_registry s)) = rs_live s"
    using assms(1) filter_snoc_fresh [of a "reg_guards (rs_registry s)" "is_live s"]
    by (simp add: registry_ok_def registry_live_def)
  then show ?thesis using Register by (simp add: registry_defs)
next
  case Report
  then show ?thesis
    using assms(1) by (simp add: registry_defs registry_ok_def)
qed simp

lemma slack_step:
  assumes "registry_ok used s"
  shows "sweep_cost e s + slack (registry_event_step e s) \<le>
    slack s + (case e of Register _ \<Rightarrow> 2 | _ \<Rightarrow> 0)"
proof (cases e)
  case (Register a)
  then show ?thesis
    using assms by (auto simp: slack_def sweep_bound_def registry_defs registry_ok_def)
qed (auto simp: slack_def sweep_bound_def registry_defs)

lemma registry_run_facts:
  assumes "registry_ok used s" "fresh_run es used"
    and "sweep_threshold (rs_registry s) \<le> 2 * m"
  shows "registry_live (is_live (registry_run es s)) (rs_registry (registry_run es s)) =
      rs_live (registry_run es s) \<and>
    length (reg_guards (rs_registry (registry_run es s))) \<le>
      max MIN_SWEEP_THRESHOLD (2 * max m (peak_live es s)) \<and>
    run_cost es s \<le> slack s + 2 * registrations es"
  using assms
proof (induction es arbitrary: used s m)
  case Nil
  then show ?case by (auto simp: registry_ok_def)
next
  case (Cons e es)
  let ?t = "registry_event_step e s"
  define used' where "used' = (case e of Register a \<Rightarrow> insert a used | _ \<Rightarrow> used)"
  have step: "registry_ok used' ?t" "fresh_run es used'"
    using Cons.prems by (cases e; simp add: used'_def registry_ok_step del: registry_event_step.simps)+
  have thr: "sweep_threshold (rs_registry ?t) \<le> 2 * max m (length (rs_live ?t))"
    using threshold_step [OF Cons.prems(1), of e] Cons.prems(2,3)
    by (cases e) (auto simp del: registry_event_step.simps)
  have peak: "max (max m (length (rs_live ?t))) (peak_live es ?t) \<le> max m (peak_live (e # es) s)"
    by (cases es) auto
  have cost: "slack ?t + sweep_cost e s + 2 * registrations es \<le> slack s + 2 * registrations (e # es)"
    using slack_step [OF Cons.prems(1), of e]
    by (cases e) (auto simp: registrations_def simp del: registry_event_step.simps sweep_cost.simps)
  from Cons.IH [OF step thr] peak cost show ?case
    by (simp del: registry_event_step.simps peak_live.simps) linarith
qed

lemmas [run_eval] =
  guard_info_new_def guard_info_age_def registry_default_def MIN_SWEEP_THRESHOLD_def
  registry_sweep_def registry_register_def registry_live_def registry_init_def is_live_def
  registrations_def registry_ok_def sweep_bound_def slack_def

end
