(* ===== verification/Heap.thy ===== *)
theory Heap
  imports Slab Packed_State Guard_Registry
begin

text \<open>
  The shared memory of the program: the structs of \<^verbatim>\<open>shard.rs\<close>, \<^verbatim>\<open>inner.rs\<close>,
  \<^verbatim>\<open>guard.rs\<close> and \<^verbatim>\<open>interrupt.rs\<close> as records, held in stores indexed by addresses. A
  node (\<^verbatim>\<open>Arc<Inner>\<close>) is a number, a shard (\<^verbatim>\<open>ShardRef\<close>) a node and an index into its
  \<^verbatim>\<open>shards\<close>. An address is never reused, so a weak reference is an address together with the
  strong count found there: \<^verbatim>\<open>Weak::upgrade\<close> succeeds while the count is positive.
\<close>

type_synonym tid = nat
type_synonym nid = nat
type_synonym sid = "nid \<times> nat"
type_synonym waker = nat
type_synonym gid = nat
type_synonym hid = nat
type_synonym iid = nat
type_synonym cid = nat

text \<open>\<^verbatim>\<open>usize::MAX\<close>, on a 64-bit machine.\<close>

definition usize_max :: nat where
  "usize_max = 2 ^ 64 - 1"

section \<open>Structs\<close>

text \<open>
  \<^verbatim>\<open>Shard\<close> with the fields of its \<^verbatim>\<open>Registered\<close>. \<open>sh_lock\<close> is the mutex around the latter:
  the thread that holds it, if any.
\<close>

record shard =
  sh_state :: u64
  sh_lock :: "tid option"
  sh_waiters :: "waker slab"
  sh_guards :: guard_registry
  sh_children :: "nid slab"
  sh_node :: nid
  sh_root :: bool
  sh_report :: bool

definition shard_new :: "nid \<Rightarrow> bool \<Rightarrow> bool \<Rightarrow> shard" where
  "shard_new node root guard_report =
     \<lparr>sh_state = 0, sh_lock = None, sh_waiters = slab_default, sh_guards = registry_default,
      sh_children = slab_default, sh_node = node, sh_root = root, sh_report = guard_report\<rparr>"

record parent =
  p_node :: nid
  p_shard :: nat
  p_key :: nat

text \<open>
  \<^verbatim>\<open>Inner\<close>. The two events are counted by their notifications, as the source does for
  \<^verbatim>\<open>zero_event\<close> under \<^verbatim>\<open>swansong_loom\<close>. \<open>in_strong\<close> is the strong count of the \<^verbatim>\<open>Arc\<close>.
\<close>

record inner =
  in_state :: u64
  in_swansong_count :: nat
  in_parent :: "parent option"
  in_shards :: nat
  in_stop_notified :: nat
  in_zero_notified :: nat
  in_strong :: nat

definition inner_new :: "parent option \<Rightarrow> nat \<Rightarrow> inner" where
  "inner_new parent shard_count =
     \<lparr>in_state = 0, in_swansong_count = 1, in_parent = parent, in_shards = shard_count,
      in_stop_notified = 0, in_zero_notified = 0, in_strong = 1\<rparr>"

record guard =
  gd_shard :: sid
  gd_pin :: "nid option"
  gd_location :: location
  gd_info :: "nat option"

record registration =
  rn_key :: nat
  rn_waker :: waker

text \<open>
  \<^verbatim>\<open>Interrupt<T>\<close> with its \<^verbatim>\<open>StopListener\<close>. \<open>it_last\<close> is what the owner saw of the last
  completed poll: the waker it polled with and the result, \<open>Ready None\<close> being the terminal
  value. It is \<open>None\<close> before the first poll and while a poll runs.
\<close>

record interrupt =
  it_shard :: sid
  it_registration :: "registration option"
  it_guard :: "gid option"
  it_last :: "(waker \<times> unit option poll) option"

section \<open>The heap\<close>

text \<open>
  Each store has the number of addresses allocated so far. \<open>parallelism\<close> is what the
  operating system reports as available, \<open>None\<close> for an error; it is read once. \<open>woken\<close> is
  the log of the wakers woken, each with the shard whose drain woke it.
\<close>

record heap =
  node_at :: "nid \<Rightarrow> inner"
  n_nodes :: nat
  shard_at :: "sid \<Rightarrow> shard"
  info_at :: "nat \<Rightarrow> guard_info"
  info_strong :: "nat \<Rightarrow> nat"
  n_infos :: nat
  guard_at :: "gid \<Rightarrow> guard option"
  n_guards :: nat
  handle_at :: "hid \<Rightarrow> nid option"
  n_handles :: nat
  interrupt_at :: "iid \<Rightarrow> interrupt option"
  n_interrupts :: nat
  completion_at :: "cid \<Rightarrow> nid option"
  n_completions :: nat
  next_index :: u64
  index_of :: "tid \<Rightarrow> u64"
  parallelism :: "nat option"
  clock :: nat
  woken :: "(sid \<times> waker) list"

definition heap_init :: "nat option \<Rightarrow> heap" where
  "heap_init par =
     \<lparr>node_at = (\<lambda>_. inner_new None 0), n_nodes = 0, shard_at = (\<lambda>_. shard_new 0 False False),
      info_at = (\<lambda>_. guard_info_new (Location [] 0 0) 0), info_strong = (\<lambda>_. 0), n_infos = 0,
      guard_at = Map.empty, n_guards = 0, handle_at = Map.empty, n_handles = 0,
      interrupt_at = Map.empty, n_interrupts = 0, completion_at = Map.empty, n_completions = 0,
      next_index = 0, index_of = (\<lambda>_. of_nat usize_max), parallelism = par, clock = 0,
      woken = []\<rparr>"

abbreviation shard_word :: "heap \<Rightarrow> sid \<Rightarrow> u64" where
  "shard_word h s \<equiv> sh_state (shard_at h s)"

abbreviation node_word :: "heap \<Rightarrow> nid \<Rightarrow> u64" where
  "node_word h n \<equiv> in_state (node_at h n)"

definition upd_shard :: "sid \<Rightarrow> (shard \<Rightarrow> shard) \<Rightarrow> heap \<Rightarrow> heap" where
  [simp]: "upd_shard s f h = h\<lparr>shard_at := (shard_at h)(s := f (shard_at h s))\<rparr>"

definition upd_node :: "nid \<Rightarrow> (inner \<Rightarrow> inner) \<Rightarrow> heap \<Rightarrow> heap" where
  [simp]: "upd_node n f h = h\<lparr>node_at := (node_at h)(n := f (node_at h n))\<rparr>"

definition set_shard_word :: "sid \<Rightarrow> u64 \<Rightarrow> heap \<Rightarrow> heap" where
  [run_eval]: "set_shard_word s w = upd_shard s (sh_state_update (\<lambda>_. w))"

definition set_node_word :: "nid \<Rightarrow> u64 \<Rightarrow> heap \<Rightarrow> heap" where
  [run_eval]: "set_node_word n w = upd_node n (in_state_update (\<lambda>_. w))"

lemma set_word_same [simp]:
  "set_shard_word s (shard_word h s) h = h" "set_node_word n (node_word h n) h = h"
  by (simp_all add: set_shard_word_def set_node_word_def)

lemma set_word_read [simp]:
  "shard_word (set_shard_word s w h) s' = (if s' = s then w else shard_word h s')"
  "node_word (set_shard_word s w h) n = node_word h n"
  "node_word (set_node_word n w h) n' = (if n' = n then w else node_word h n')"
  "shard_word (set_node_word n w h) s = shard_word h s"
  "in_shards (node_at (set_shard_word s w h) m) = in_shards (node_at h m)"
  "in_shards (node_at (set_node_word n w h) m) = in_shards (node_at h m)"
  "in_parent (node_at (set_shard_word s w h) m) = in_parent (node_at h m)"
  "in_parent (node_at (set_node_word n w h) m) = in_parent (node_at h m)"
  "n_nodes (set_shard_word s w h) = n_nodes h" "n_nodes (set_node_word n w h) = n_nodes h"
  by (simp_all add: set_shard_word_def set_node_word_def)

text \<open>\<^verbatim>\<open>Arc::clone\<close> and \<^verbatim>\<open>Weak::upgrade\<close>.\<close>

definition arc_clone :: "nid \<Rightarrow> heap \<Rightarrow> heap" where
  "arc_clone n = upd_node n (in_strong_update Suc)"

definition weak_upgrade :: "nid \<Rightarrow> heap \<Rightarrow> (heap \<times> nid) option" where
  "weak_upgrade n h = (if in_strong (node_at h n) = 0 then None else Some (arc_clone n h, n))"

section \<open>Thread indices and shard counts\<close>

text \<open>
  \<^verbatim>\<open>thread_index\<close>: assigned round-robin from \<^verbatim>\<open>NEXT\<close> on a thread's first use. \<^verbatim>\<open>usize::MAX\<close>
  marks a thread that has none yet.
\<close>

definition thread_index :: "tid \<Rightarrow> heap \<Rightarrow> heap \<times> u64" where
  "thread_index t h =
     (let h = (if index_of h t = of_nat usize_max
               then h\<lparr>index_of := (index_of h)(t := next_index h), next_index := next_index h + 1\<rparr>
               else h)
      in (h, index_of h t))"

text \<open>\<^verbatim>\<open>self.shards.len()\<close> is at least 1, so the subtraction does not wrap.\<close>

definition shard_index :: "tid \<Rightarrow> nid \<Rightarrow> heap \<Rightarrow> heap \<times> nat" where
  "shard_index t n h =
     (case thread_index t h of
        (h, index) \<Rightarrow> (h, unat (index AND of_nat (in_shards (node_at h n) - 1))))"

definition inner_shard :: "tid \<Rightarrow> nid \<Rightarrow> heap \<Rightarrow> heap \<times> sid" where
  "inner_shard t n h = (case shard_index t n h of (h, i) \<Rightarrow> (h, (n, i)))"

definition MAX_SHARDS :: nat where
  "MAX_SHARDS = 256"

text \<open>\<^verbatim>\<open>usize::next_power_of_two\<close>: the smallest power of two that is at least the argument.\<close>

function power_of_two_from :: "nat \<Rightarrow> nat \<Rightarrow> nat" where
  "power_of_two_from p n = (if p < n \<and> 0 < p then power_of_two_from (2 * p) n else p)"
  by pat_completeness auto
termination
  by (relation "measure (\<lambda>(p, n). n - p)") auto

declare power_of_two_from.simps [simp del]

definition next_power_of_two :: "nat \<Rightarrow> nat" where
  "next_power_of_two n = power_of_two_from 1 n"

definition root_shard_count :: "heap \<Rightarrow> nat" where
  "root_shard_count h =
     min (next_power_of_two (case parallelism h of None \<Rightarrow> 1 | Some n \<Rightarrow> n)) MAX_SHARDS"

lemma power_of_two_from_power: "\<exists>k. power_of_two_from (2 ^ j) n = 2 ^ k"
proof (induction "2 ^ j :: nat" n arbitrary: j rule: power_of_two_from.induct)
  case (1 n)
  then show ?case
    using "1.hyps" [of "Suc j"] by (subst power_of_two_from.simps) auto
qed

lemma power_of_two_from_bounds:
  "0 < p \<Longrightarrow> n \<le> power_of_two_from p n \<and>
    (power_of_two_from p n = p \<or> power_of_two_from p n < 2 * n)"
proof (induction p n rule: power_of_two_from.induct)
  case (1 p n)
  then show ?case by (subst (1 2 3) power_of_two_from.simps) auto
qed

lemma next_power_of_two_spec:
  "\<exists>k. next_power_of_two n = 2 ^ k" "n \<le> next_power_of_two n"
  "0 < n \<Longrightarrow> next_power_of_two n < 2 * n"
  using power_of_two_from_power [of 0 n] power_of_two_from_bounds [of 1 n]
  by (auto simp: next_power_of_two_def)

lemma root_shard_count_spec:
  "\<exists>k\<le>8. root_shard_count h = 2 ^ k"
proof -
  obtain k where k: "next_power_of_two (case parallelism h of None \<Rightarrow> 1 | Some n \<Rightarrow> n) = 2 ^ k"
    using next_power_of_two_spec(1) by blast
  show ?thesis
  proof (cases "k \<le> 8")
    case True
    then have "(2 :: nat) ^ k \<le> 2 ^ 8" by (intro power_increasing) auto
    with True show ?thesis by (intro exI [of _ k]) (simp add: root_shard_count_def k MAX_SHARDS_def)
  next
    case False
    then have "(2 :: nat) ^ 8 \<le> 2 ^ k" by (intro power_increasing) auto
    then show ?thesis
      by (intro exI [of _ 8]) (simp add: root_shard_count_def k MAX_SHARDS_def)
  qed
qed

lemma root_shard_count_bounds: "0 < root_shard_count h" "root_shard_count h \<le> 256"
proof -
  obtain k where k: "k \<le> 8" "root_shard_count h = 2 ^ k"
    using root_shard_count_spec by blast
  then have "(2 :: nat) ^ k \<le> 2 ^ 8" by (intro power_increasing) auto
  with k show "0 < root_shard_count h" "root_shard_count h \<le> 256" by simp_all
qed

lemma unat_and_pred:
  assumes "0 < n" "n < 2 ^ 64"
  shows "unat ((w :: u64) AND of_nat (n - 1)) < n"
proof -
  have "unat (w AND of_nat (n - 1)) \<le> unat (of_nat (n - 1) :: u64)"
    by (metis and.commute word_and_le1 word_le_nat_alt)
  also have "\<dots> = n - 1"
    unfolding unat_of_nat using assms by (intro mod_less) simp
  finally show ?thesis using assms(1) by linarith
qed

section \<open>Allocating a node\<close>

text \<open>
  \<^verbatim>\<open>Inner::new\<close> under \<^verbatim>\<open>Arc::new_cyclic\<close>: the node and its shards at fresh addresses. The
  enum \<^verbatim>\<open>Shards\<close> holds one shard inline or a slice, which is the same list of shards.
\<close>

definition alloc_node :: "parent option \<Rightarrow> nat \<Rightarrow> bool \<Rightarrow> heap \<Rightarrow> heap \<times> nid" where
  "alloc_node parent shard_count guard_report h =
     (let n = n_nodes h; root = (parent = None) in
      (h\<lparr>node_at := (node_at h)(n := inner_new parent shard_count),
         n_nodes := Suc n,
         shard_at := (\<lambda>s. if fst s = n then shard_new n root guard_report else shard_at h s)\<rparr>, n))"

definition alloc_handle :: "nid \<Rightarrow> heap \<Rightarrow> heap" where
  "alloc_handle n h =
     h\<lparr>handle_at := (handle_at h)(n_handles h \<mapsto> n), n_handles := Suc (n_handles h)\<rparr>"

definition alloc_completion :: "nid \<Rightarrow> heap \<Rightarrow> heap" where
  "alloc_completion n h =
     h\<lparr>completion_at := (completion_at h)(n_completions h \<mapsto> n),
       n_completions := Suc (n_completions h)\<rparr>"

definition alloc_guard :: "guard \<Rightarrow> heap \<Rightarrow> heap \<times> gid" where
  "alloc_guard g h =
     (h\<lparr>guard_at := (guard_at h)(n_guards h \<mapsto> g), n_guards := Suc (n_guards h)\<rparr>, n_guards h)"

definition alloc_info :: "guard_info \<Rightarrow> heap \<Rightarrow> heap \<times> nat" where
  "alloc_info i h =
     (h\<lparr>info_at := (info_at h)(n_infos h := i), info_strong := (info_strong h)(n_infos h := 1),
        n_infos := Suc (n_infos h)\<rparr>, n_infos h)"

definition alloc_interrupt :: "interrupt \<Rightarrow> heap \<Rightarrow> heap" where
  "alloc_interrupt i h =
     h\<lparr>interrupt_at := (interrupt_at h)(n_interrupts h \<mapsto> i), n_interrupts := Suc (n_interrupts h)\<rparr>"

lemmas [run_eval] =
  usize_max_def shard_new_def inner_new_def heap_init_def arc_clone_def weak_upgrade_def
  thread_index_def shard_index_def inner_shard_def MAX_SHARDS_def next_power_of_two_def
  root_shard_count_def alloc_node_def alloc_handle_def alloc_completion_def alloc_guard_def
  alloc_info_def alloc_interrupt_def power_of_two_from.simps

end
