(* ===== verification/Frames.thy ===== *)
theory Frames
  imports Heap
begin

text \<open>
  Program points. A thread runs a stack of frames; the top frame says which operation of the
  code comes next and carries the local variables it needs. Executing a frame performs at
  most one access to shared memory, which is how the threads interleave, and replaces the
  frame by the frames that are left to run: none when the function returns, several when it
  calls others.
\<close>

section \<open>Frames\<close>

text \<open>An object of the client, borrowed for the duration of a call.\<close>

datatype object = OHandle hid | OGuard gid | OInterrupt iid | OCompletion cid

text \<open>What \<^verbatim>\<open>Shard::provenance\<close> returns to: the three functions that create a guard.\<close>

datatype provenance_to =
    ToAtLocation nid "iid option"
  | ToForShard iid
  | ToClone "nid option"

text \<open>
  Counting: \<^verbatim>\<open>arrive\<close>, \<^verbatim>\<open>depart\<close> and \<^verbatim>\<open>flush\<close> of \<^verbatim>\<open>Shard\<close> and \<^verbatim>\<open>Inner\<close>. A \<open>Loop\<close> frame is
  the head of a compare-exchange loop with the state last read; a \<open>Commit\<close> frame is the
  compare-exchange that follows the arrival one level up. \<open>ShardDepart\<close> is a departure of a
  child together with the flush it may ask for.
\<close>

datatype count_frame =
    ShardArrive sid u64
  | ShardArriveLoop sid u64 u64
  | ShardArriveCommit sid u64 u64
  | NodeArrive nid
  | NodeArriveLoop nid u64
  | NodeArriveCommit nid sid u64
  | ShardDepart sid u64
  | ShardFlush sid
  | NodeDepart nid
  | NodeDepartNotify nid u64
  | NodeDepartRelease nid u64

text \<open>Stopping: \<^verbatim>\<open>Inner::stop\<close>, \<^verbatim>\<open>Shard::stop\<close> and \<^verbatim>\<open>Shard::children\<close>.\<close>

datatype stop_frame =
    NodeStop nid
  | ShardStop sid
  | ShardDrain sid u64
  | ShardWake sid u64 "waker list"
  | StopNotify nid
  | StopChildren nid nat "nid list"
  | StopUpgrade nid nat "nid list" "nid list"
  | StopZero nid u64

text \<open>Lifetimes: dropping an \<^verbatim>\<open>Arc<Inner>\<close>, \<^verbatim>\<open>Drop for Inner\<close> and \<^verbatim>\<open>Inner::new_child\<close>.\<close>

datatype life_frame =
    DropArc nid
  | Deregister nid
  | ChildNew nid
  | ChildRegister nid
  | ChildStoreKey nid nat
  | ChildCheck nid
  | ChildReturn nid

text \<open>The functions of \<^verbatim>\<open>Guard\<close>.\<close>

datatype guard_frame =
    GuardAtLocation nid location "iid option"
  | Provenance sid location provenance_to
  | ProvenanceRegister sid location nat provenance_to
  | GuardBuild sid "nid option" location "nat option" "iid option"
  | GuardForShard sid location iid
  | ArriveIfArrived sid location iid u64
  | GuardUpgrade sid location iid
  | GuardCloneArrive sid "nid option" location "nat option"
  | GuardDrop gid
  | GuardDepart sid "nid option"
  | GuardFlushWeak sid
  | DropInfo nat

text \<open>The functions of \<^verbatim>\<open>Swansong\<close>.\<close>

datatype swan_frame =
    HandleClone nid
  | HandleCloneArc nid
  | HandleDrop nid
  | CompletionNew nid
  | InterruptNew nid

text \<open>Polling and dropping an \<^verbatim>\<open>Interrupt\<close>.\<close>

datatype intr_frame =
    Poll iid waker
  | PollWrapped iid waker
  | PollStopped iid waker
  | PollRecheck iid waker
  | PollLock iid waker
  | PollLocked iid waker
  | PollRegister iid waker
  | ListenerDrop sid nat

datatype frame =
    Count count_frame
  | Stop stop_frame
  | Life life_frame
  | Grd guard_frame
  | Swan swan_frame
  | Intr intr_frame
  | Borrow object

text \<open>
  What executing a frame gives: the new heap and the frames that replace it; a wait for a
  mutex that another thread holds; or a panic, from a \<^verbatim>\<open>debug_assert!\<close>, an
  \<^verbatim>\<open>unreachable!\<close> or a failed \<^verbatim>\<open>expect\<close>.
\<close>

datatype outcome = Next heap "frame list" | Blocked | Panic

text \<open>A critical section that is one access: it waits until the mutex is free.\<close>

definition with_lock :: "sid \<Rightarrow> heap \<Rightarrow> outcome \<Rightarrow> outcome" where
  "with_lock s h k = (if sh_lock (shard_at h s) = None then k else Blocked)"

text \<open>Longer critical sections acquire the mutex and release it.\<close>

definition lock_acquire :: "tid \<Rightarrow> sid \<Rightarrow> heap \<Rightarrow> heap" where
  "lock_acquire t s = upd_shard s (sh_lock_update (\<lambda>_. Some t))"

definition lock_release :: "sid \<Rightarrow> heap \<Rightarrow> heap" where
  "lock_release s = upd_shard s (sh_lock_update (\<lambda>_. None))"

lemma with_lock_Next [simp]:
  "with_lock s h k = Next h' fs \<longleftrightarrow> sh_lock (shard_at h s) = None \<and> k = Next h' fs"
  "with_lock s h k = Panic \<longleftrightarrow> sh_lock (shard_at h s) = None \<and> k = Panic"
  by (simp_all add: with_lock_def)

lemmas [run_eval] =
  with_lock_def lock_acquire_def lock_release_def

end
