(* ===== verification/Counting.thy ===== *)
theory Counting
  imports Frames
begin

text \<open>
  The guard-counting protocol: \<^verbatim>\<open>Shard::arrive\<close>, \<^verbatim>\<open>depart\<close> and \<^verbatim>\<open>flush\<close> of
  \<^verbatim>\<open>shard.rs\<close> and \<^verbatim>\<open>Inner::arrive\<close> and \<^verbatim>\<open>Inner::depart\<close> of \<^verbatim>\<open>inner.rs\<close>, one
  definition per access to shared memory. The node a shard belongs to is the first component
  of its address. \<open>spurious\<close> makes a weak compare-exchange fail although the cell holds what
  was expected.
\<close>

section \<open>Shards\<close>

definition shard_arrive :: "sid \<Rightarrow> u64 \<Rightarrow> heap \<Rightarrow> outcome" where
  "shard_arrive s unit h = Next h [Count (ShardArriveLoop s unit (shard_word h s))]"

definition shard_arrive_loop :: "bool \<Rightarrow> sid \<Rightarrow> u64 \<Rightarrow> u64 \<Rightarrow> heap \<Rightarrow> outcome" where
  "shard_arrive_loop spurious s unit state h =
     (if state AND ARRIVED = 0 then
        if state AND NOT STOPPED \<noteq> 0 then Panic
        else Next h [Count (NodeArrive (fst s)), Count (ShardArriveCommit s unit state)]
      else
        (case compare_exchange_weak spurious (shard_word h s) state (state + unit) of
           (w, Ok _) \<Rightarrow> Next (set_shard_word s w h) []
         | (w, Err actual) \<Rightarrow> Next (set_shard_word s w h) [Count (ShardArriveLoop s unit actual)]))"

text \<open>The node has arrived. If another arrival won the shard, take the node's arrival back.\<close>

definition shard_arrive_commit :: "sid \<Rightarrow> u64 \<Rightarrow> u64 \<Rightarrow> heap \<Rightarrow> outcome" where
  "shard_arrive_commit s unit state h =
     (case compare_exchange (shard_word h s) state (state OR ARRIVED OR unit) of
        (w, Ok _) \<Rightarrow> Next (set_shard_word s w h) []
      | (w, Err actual) \<Rightarrow>
          Next (set_shard_word s w h)
            [Count (NodeDepart (fst s)), Count (ShardArriveLoop s unit actual)])"

text \<open>\<^verbatim>\<open>Shard::depart\<close>: the new word, and whether it asks for a flush.\<close>

definition shard_depart :: "u64 \<Rightarrow> u64 \<Rightarrow> u64 \<times> bool" where
  "shard_depart unit w = (w - unit, w - unit = ARRIVED OR STOPPED)"

definition shard_depart_flush :: "sid \<Rightarrow> u64 \<Rightarrow> heap \<Rightarrow> outcome" where
  "shard_depart_flush s unit h =
     (case shard_depart unit (shard_word h s) of
        (w, emptied) \<Rightarrow>
          Next (set_shard_word s w h) (if emptied then [Count (ShardFlush s)] else []))"

definition shard_flush :: "sid \<Rightarrow> heap \<Rightarrow> outcome" where
  "shard_flush s h =
     (case compare_exchange (shard_word h s) (ARRIVED OR STOPPED) STOPPED of
        (w, Ok _) \<Rightarrow> Next (set_shard_word s w h) [Count (NodeDepart (fst s))]
      | (w, Err _) \<Rightarrow> Next (set_shard_word s w h) [])"

section \<open>Nodes\<close>

text \<open>Indexing into \<^verbatim>\<open>shards\<close> panics out of range.\<close>

definition shard_ref :: "nid \<Rightarrow> nat \<Rightarrow> heap \<Rightarrow> (sid \<Rightarrow> outcome) \<Rightarrow> outcome" where
  "shard_ref n i h k = (if i < in_shards (node_at h n) then k (n, i) else Panic)"

definition node_arrive :: "nid \<Rightarrow> heap \<Rightarrow> outcome" where
  "node_arrive n h =
     (case in_parent (node_at h n) of
        None \<Rightarrow> Next (set_node_word n (node_word h n + 1) h) []
      | Some _ \<Rightarrow> Next h [Count (NodeArriveLoop n (node_word h n))])"

text \<open>Only a child gets here; the shard of the parent is the calling thread's.\<close>

definition node_arrive_loop :: "tid \<Rightarrow> bool \<Rightarrow> nid \<Rightarrow> u64 \<Rightarrow> heap \<Rightarrow> outcome" where
  "node_arrive_loop t spurious n state h =
     (case in_parent (node_at h n) of
        None \<Rightarrow> Panic
      | Some parent \<Rightarrow>
          if state AND ARRIVED = 0 then
            if state AND NOT STOPPED \<noteq> 0 then Panic
            else
              (case shard_index t (p_node parent) h of
                 (h, index) \<Rightarrow>
                   shard_ref (p_node parent) index h (\<lambda>shard.
                     Next h [Count (ShardArrive shard KIDS_ONE),
                             Count (NodeArriveCommit n shard state)]))
          else
            (case compare_exchange_weak spurious (node_word h n) state (state + 1) of
               (w, Ok _) \<Rightarrow> Next (set_node_word n w h) []
             | (w, Err actual) \<Rightarrow> Next (set_node_word n w h) [Count (NodeArriveLoop n actual)]))"

definition node_arrive_commit :: "nid \<Rightarrow> sid \<Rightarrow> u64 \<Rightarrow> heap \<Rightarrow> outcome" where
  "node_arrive_commit n shard state h =
     (let arrived = state OR ARRIVED OR push_bit PARENT_SHARD_SHIFT (of_nat (snd shard)) OR 1 in
      case compare_exchange (node_word h n) state arrived of
        (w, Ok _) \<Rightarrow> Next (set_node_word n w h) []
      | (w, Err actual) \<Rightarrow>
          Next (set_node_word n w h)
            [Count (ShardDepart shard KIDS_ONE), Count (NodeArriveLoop n actual)])"

definition node_depart :: "nid \<Rightarrow> heap \<Rightarrow> outcome" where
  "node_depart n h =
     (let state = node_word h n - 1; h = set_node_word n state h in
      if state AND SHARDS_MASK \<noteq> 0 then Next h []
      else if state AND STOPPED \<noteq> 0 then Next h [Count (NodeDepartNotify n state)]
      else Next h [Count (NodeDepartRelease n state)])"

definition notify_zero :: "nid \<Rightarrow> heap \<Rightarrow> heap" where
  "notify_zero n = upd_node n (in_zero_notified_update Suc)"

definition node_depart_notify :: "nid \<Rightarrow> u64 \<Rightarrow> heap \<Rightarrow> outcome" where
  "node_depart_notify n state h = Next (notify_zero n h) [Count (NodeDepartRelease n state)]"

definition node_depart_release :: "nid \<Rightarrow> u64 \<Rightarrow> heap \<Rightarrow> outcome" where
  "node_depart_release n state h =
     (case in_parent (node_at h n) of
        None \<Rightarrow> Next h []
      | Some parent \<Rightarrow>
          if state AND ARRIVED = 0 then Panic
          else
            (case compare_exchange (node_word h n) state (state AND STOPPED) of
               (w, Ok _) \<Rightarrow>
                 shard_ref (p_node parent)
                   (unat (drop_bit PARENT_SHARD_SHIFT state AND PARENT_SHARD_MASK)) h
                   (\<lambda>shard. Next (set_node_word n w h) [Count (ShardDepart shard KIDS_ONE)])
             | (w, Err _) \<Rightarrow> Next (set_node_word n w h) []))"

section \<open>Running a counting frame\<close>

fun count_step :: "tid \<Rightarrow> bool \<Rightarrow> count_frame \<Rightarrow> heap \<Rightarrow> outcome" where
  "count_step t sp (ShardArrive s u) h = shard_arrive s u h"
| "count_step t sp (ShardArriveLoop s u st) h = shard_arrive_loop sp s u st h"
| "count_step t sp (ShardArriveCommit s u st) h = shard_arrive_commit s u st h"
| "count_step t sp (NodeArrive n) h = node_arrive n h"
| "count_step t sp (NodeArriveLoop n st) h = node_arrive_loop t sp n st h"
| "count_step t sp (NodeArriveCommit n s st) h = node_arrive_commit n s st h"
| "count_step t sp (ShardDepart s u) h = shard_depart_flush s u h"
| "count_step t sp (ShardFlush s) h = shard_flush s h"
| "count_step t sp (NodeDepart n) h = node_depart n h"
| "count_step t sp (NodeDepartNotify n st) h = node_depart_notify n st h"
| "count_step t sp (NodeDepartRelease n st) h = node_depart_release n st h"

lemmas [run_eval] =
  shard_arrive_def shard_arrive_loop_def shard_arrive_commit_def shard_depart_def
  shard_depart_flush_def shard_flush_def shard_ref_def node_arrive_def node_arrive_loop_def
  node_arrive_commit_def node_depart_def notify_zero_def node_depart_notify_def
  node_depart_release_def

end
