(* ===== verification/Stopping.thy ===== *)
theory Stopping
  imports Counting
begin

text \<open>
  Stopping a node: \<^verbatim>\<open>Inner::stop\<close> latches and drains the node's shards (\<^verbatim>\<open>Shard::stop\<close>),
  notifies \<^verbatim>\<open>stop_event\<close>, and stops the live children, whose strong references are taken
  shard by shard under the shard's mutex (\<^verbatim>\<open>Shard::children\<close>).
\<close>

section \<open>Stopping a shard\<close>

definition is_stopped :: "sid \<Rightarrow> heap \<Rightarrow> bool" where
  "is_stopped s h \<longleftrightarrow> shard_word h s AND STOPPED \<noteq> 0"

definition shard_stop :: "sid \<Rightarrow> heap \<Rightarrow> outcome" where
  "shard_stop s h =
     (let previous = shard_word h s in
      Next (set_shard_word s (previous OR STOPPED) h) [Stop (ShardDrain s previous)])"

definition shard_drain :: "sid \<Rightarrow> u64 \<Rightarrow> heap \<Rightarrow> outcome" where
  "shard_drain s previous h =
     with_lock s h
       (Next (upd_shard s (sh_waiters_update (\<lambda>_. slab_default)) h)
          [Stop (ShardWake s previous (slab_into_values (sh_waiters (shard_at h s))))])"

fun shard_wake :: "sid \<Rightarrow> u64 \<Rightarrow> waker list \<Rightarrow> heap \<Rightarrow> outcome" where
  "shard_wake s previous (w # ws) h =
     Next (h\<lparr>woken := woken h @ [(s, w)]\<rparr>) [Stop (ShardWake s previous ws)]"
| "shard_wake s previous [] h =
     Next h (if previous AND NOT STOPPED = ARRIVED then [Count (ShardFlush s)] else [])"

section \<open>Stopping a node\<close>

definition node_is_stopped :: "nid \<Rightarrow> heap \<Rightarrow> bool" where
  "node_is_stopped n h \<longleftrightarrow> node_word h n AND STOPPED \<noteq> 0"

definition stop_shards :: "nid \<Rightarrow> heap \<Rightarrow> frame list" where
  "stop_shards n h = map (\<lambda>i. Stop (ShardStop (n, i))) [0..<in_shards (node_at h n)]"

definition node_stop :: "nid \<Rightarrow> heap \<Rightarrow> outcome" where
  "node_stop n h =
     (let previous = node_word h n; h = set_node_word n (previous OR STOPPED) h in
      if previous AND STOPPED \<noteq> 0 then Next h []
      else Next h (stop_shards n h @
             [Stop (StopNotify n), Stop (StopChildren n 0 []), Stop (StopZero n previous)]))"

definition stop_notify :: "nid \<Rightarrow> heap \<Rightarrow> outcome" where
  "stop_notify n h = Next (upd_node n (in_stop_notified_update Suc) h) []"

text \<open>
  \<^verbatim>\<open>live_children\<close> visits the shards in order; \<open>live\<close> are the children upgraded so far.
  When all shards have been visited the children are stopped, each dropped after its stop.
\<close>

definition stop_children :: "tid \<Rightarrow> nid \<Rightarrow> nat \<Rightarrow> nid list \<Rightarrow> heap \<Rightarrow> outcome" where
  "stop_children t n i live h =
     (if i < in_shards (node_at h n) then
        with_lock (n, i) h
          (Next (lock_acquire t (n, i) h)
             [Stop (StopUpgrade n i (slab_values (sh_children (shard_at h (n, i)))) live)])
      else Next h (concat (map (\<lambda>c. [Stop (NodeStop c), Life (DropArc c)]) live)))"

fun stop_upgrade :: "nid \<Rightarrow> nat \<Rightarrow> nid list \<Rightarrow> nid list \<Rightarrow> heap \<Rightarrow> outcome" where
  "stop_upgrade n i (c # cs) live h =
     (case weak_upgrade c h of
        None \<Rightarrow> Next h [Stop (StopUpgrade n i cs live)]
      | Some (h, c) \<Rightarrow> Next h [Stop (StopUpgrade n i cs (live @ [c]))])"
| "stop_upgrade n i [] live h =
     Next (lock_release (n, i) h) [Stop (StopChildren n (Suc i) live)]"

definition stop_zero :: "nid \<Rightarrow> u64 \<Rightarrow> heap \<Rightarrow> outcome" where
  "stop_zero n previous h =
     Next (if previous AND SHARDS_MASK = 0 then notify_zero n h else h) []"

fun stop_step :: "tid \<Rightarrow> stop_frame \<Rightarrow> heap \<Rightarrow> outcome" where
  "stop_step t (NodeStop n) h = node_stop n h"
| "stop_step t (ShardStop s) h = shard_stop s h"
| "stop_step t (ShardDrain s w) h = shard_drain s w h"
| "stop_step t (ShardWake s w ws) h = shard_wake s w ws h"
| "stop_step t (StopNotify n) h = stop_notify n h"
| "stop_step t (StopChildren n i live) h = stop_children t n i live h"
| "stop_step t (StopUpgrade n i cs live) h = stop_upgrade n i cs live h"
| "stop_step t (StopZero n w) h = stop_zero n w h"

lemmas [run_eval] =
  is_stopped_def shard_stop_def shard_drain_def node_is_stopped_def stop_shards_def
  node_stop_def stop_notify_def stop_children_def stop_zero_def

end
