(* ===== verification/Lifetimes.thy ===== *)
theory Lifetimes
  imports Stopping
begin

text \<open>
  The lifetime of a node: \<^verbatim>\<open>Inner::new_root\<close>, \<^verbatim>\<open>Inner::new_child\<close>, and what dropping the
  last \<^verbatim>\<open>Arc<Inner>\<close> runs, \<^verbatim>\<open>Drop for Inner\<close> followed by the drop of the link to the parent.
\<close>

definition new_root :: "bool \<Rightarrow> heap \<Rightarrow> heap" where
  "new_root guard_report h =
     (case alloc_node None (root_shard_count h) guard_report h of (h, n) \<Rightarrow> alloc_handle n h)"

definition keeps_guard_report :: "nid \<Rightarrow> heap \<Rightarrow> bool" where
  "keeps_guard_report n h = sh_report (shard_at h (n, 0))"

definition child_new :: "tid \<Rightarrow> nid \<Rightarrow> heap \<Rightarrow> outcome" where
  "child_new t n h =
     (case shard_index t n h of
        (h, shard) \<Rightarrow>
          let link = \<lparr>p_node = n, p_shard = shard, p_key = usize_max\<rparr>;
              h = arc_clone n h in
          (case alloc_node (Some link) 1 (keeps_guard_report n h) h of
             (h, c) \<Rightarrow> Next h [Life (ChildRegister c)]))"

text \<open>\<^verbatim>\<open>parent.shards[shard].register_child(Arc::downgrade(&inner))\<close>\<close>

definition child_register :: "nid \<Rightarrow> heap \<Rightarrow> outcome" where
  "child_register c h =
     (case in_parent (node_at h c) of
        None \<Rightarrow> Panic
      | Some link \<Rightarrow>
          let s = (p_node link, p_shard link) in
          with_lock s h
            (case slab_insert (sh_children (shard_at h s)) c of
               None \<Rightarrow> Panic
             | Some (children, key) \<Rightarrow>
                 Next (upd_shard s (sh_children_update (\<lambda>_. children)) h)
                   [Life (ChildStoreKey c key)]))"

definition child_store_key :: "nid \<Rightarrow> nat \<Rightarrow> heap \<Rightarrow> outcome" where
  "child_store_key c key h =
     Next (upd_node c (in_parent_update (map_option (p_key_update (\<lambda>_. key)))) h)
       [Life (ChildCheck c)]"

definition child_check :: "nid \<Rightarrow> heap \<Rightarrow> outcome" where
  "child_check c h =
     (case in_parent (node_at h c) of
        None \<Rightarrow> Panic
      | Some link \<Rightarrow>
          Next h ((if node_is_stopped (p_node link) h then [Stop (NodeStop c)] else []) @
                  [Life (ChildReturn c)]))"

definition child_return :: "nid \<Rightarrow> heap \<Rightarrow> outcome" where
  "child_return c h = Next (alloc_handle c h) []"

text \<open>
  Dropping a strong reference. The last one runs \<^verbatim>\<open>Drop for Inner\<close>, which stops the shards
  and deregisters a child, and then drops the parent's reference.
\<close>

definition drop_arc :: "nid \<Rightarrow> heap \<Rightarrow> outcome" where
  "drop_arc n h =
     (let previous = in_strong (node_at h n);
          h = upd_node n (in_strong_update (\<lambda>k. k - 1)) h in
      if previous \<noteq> 1 then Next h []
      else Next h (stop_shards n h @ [Life (Deregister n)] @
             (case in_parent (node_at h n) of
                None \<Rightarrow> []
              | Some link \<Rightarrow> [Life (DropArc (p_node link))])))"

text \<open>\<^verbatim>\<open>deregister_child\<close> asserts that the child was registered.\<close>

definition deregister :: "nid \<Rightarrow> heap \<Rightarrow> outcome" where
  "deregister n h =
     (case in_parent (node_at h n) of
        None \<Rightarrow> Next h []
      | Some link \<Rightarrow>
          if p_key link = usize_max then Next h []
          else
            let s = (p_node link, p_shard link) in
            with_lock s h
              (case slab_remove (sh_children (shard_at h s)) (p_key link) of
                 (_, None) \<Rightarrow> Panic
               | (children, Some _) \<Rightarrow>
                   Next (upd_shard s (sh_children_update (\<lambda>_. children)) h) []))"

fun life_step :: "tid \<Rightarrow> life_frame \<Rightarrow> heap \<Rightarrow> outcome" where
  "life_step t (DropArc n) h = drop_arc n h"
| "life_step t (Deregister n) h = deregister n h"
| "life_step t (ChildNew n) h = child_new t n h"
| "life_step t (ChildRegister c) h = child_register c h"
| "life_step t (ChildStoreKey c k) h = child_store_key c k h"
| "life_step t (ChildCheck c) h = child_check c h"
| "life_step t (ChildReturn c) h = child_return c h"

lemmas [run_eval] =
  new_root_def keeps_guard_report_def child_new_def child_register_def child_store_key_def
  child_check_def child_return_def drop_arc_def deregister_def

end
