(* ===== verification/Guards.thy ===== *)
theory Guards
  imports Lifetimes
begin

text \<open>
  \<^verbatim>\<open>Guard\<close> of \<^verbatim>\<open>guard.rs\<close>: creation at a node or through an interrupt's shard, clone and
  drop, with the provenance records a reporting tree keeps (\<^verbatim>\<open>Shard::provenance\<close>). Writing
  the drop to the log is input and output and leaves no trace here.
\<close>

definition is_root :: "nid \<Rightarrow> heap \<Rightarrow> bool" where
  "is_root n h \<longleftrightarrow> in_parent (node_at h n) = None"

definition info_alive :: "heap \<Rightarrow> nat \<Rightarrow> bool" where
  "info_alive h a \<longleftrightarrow> 0 < info_strong h a"

section \<open>Creating guards\<close>

text \<open>\<^verbatim>\<open>Guard::at_location\<close> up to the call of \<^verbatim>\<open>provenance\<close>\<close>

definition guard_at_location :: "tid \<Rightarrow> nid \<Rightarrow> location \<Rightarrow> iid option \<Rightarrow> heap \<Rightarrow> outcome" where
  "guard_at_location t n loc dst h =
     (case inner_shard t n h of
        (h, s) \<Rightarrow> Next h [Grd (Provenance s loc (ToAtLocation n dst))])"

text \<open>What runs after \<^verbatim>\<open>provenance\<close> returned \<open>info\<close>.\<close>

fun provenance_return ::
  "sid \<Rightarrow> location \<Rightarrow> nat option \<Rightarrow> provenance_to \<Rightarrow> heap \<Rightarrow> frame list" where
  "provenance_return s loc info (ToAtLocation n dst) h =
     [Count (ShardArrive s LOCAL_ONE),
      Grd (GuardBuild s (if is_root n h then None else Some n) loc info dst)]"
| "provenance_return s loc info (ToForShard i) h = [Grd (GuardBuild s None loc info (Some i))]"
| "provenance_return s loc info (ToClone pin) h = [Grd (GuardCloneArrive s pin loc info)]"

definition provenance :: "sid \<Rightarrow> location \<Rightarrow> provenance_to \<Rightarrow> heap \<Rightarrow> outcome" where
  "provenance s loc ret h =
     (if \<not> sh_report (shard_at h s) then Next h (provenance_return s loc None ret h)
      else
        (case alloc_info (guard_info_new loc (clock h)) h of
           (h, info) \<Rightarrow> Next h [Grd (ProvenanceRegister s loc info ret)]))"

definition provenance_register ::
  "sid \<Rightarrow> location \<Rightarrow> nat \<Rightarrow> provenance_to \<Rightarrow> heap \<Rightarrow> outcome" where
  "provenance_register s loc info ret h =
     with_lock s h
       (let h = upd_shard s (sh_guards_update (\<lambda>r. registry_register (info_alive h) r info)) h
        in Next h (provenance_return s loc (Some info) ret h))"

text \<open>
  The shard counts the guard; construct it. A child's guard holds its node. \<open>dst\<close> is the
  interrupt whose \<^verbatim>\<open>guard\<close> field receives it, the previous guard there being dropped.
\<close>

definition guard_build ::
  "sid \<Rightarrow> nid option \<Rightarrow> location \<Rightarrow> nat option \<Rightarrow> iid option \<Rightarrow> heap \<Rightarrow> outcome" where
  "guard_build s pin loc info dst h =
     (let h = (case pin of None \<Rightarrow> h | Some n \<Rightarrow> arc_clone n h) in
      case alloc_guard \<lparr>gd_shard = s, gd_pin = pin, gd_location = loc, gd_info = info\<rparr> h of
        (h, g) \<Rightarrow>
          (case dst of
             None \<Rightarrow> Next h []
           | Some i \<Rightarrow>
               (case interrupt_at h i of
                  None \<Rightarrow> Next h []
                | Some it \<Rightarrow>
                    Next (h\<lparr>interrupt_at := (interrupt_at h)(i \<mapsto> it\<lparr>it_guard := Some g\<rparr>)\<rparr>)
                      (case it_guard it of None \<Rightarrow> [] | Some g' \<Rightarrow> [Grd (GuardDrop g')]))))"

section \<open>Through an interrupt\<close>

text \<open>\<^verbatim>\<open>Guard::for_shard\<close>: the fast path, \<^verbatim>\<open>Shard::arrive_if_arrived\<close>, is for root shards.\<close>

definition guard_for_shard :: "sid \<Rightarrow> location \<Rightarrow> iid \<Rightarrow> heap \<Rightarrow> outcome" where
  "guard_for_shard s loc i h =
     (if sh_root (shard_at h s) then Next h [Grd (ArriveIfArrived s loc i (shard_word h s))]
      else Next h [Grd (GuardUpgrade s loc i)])"

definition arrive_if_arrived :: "bool \<Rightarrow> sid \<Rightarrow> location \<Rightarrow> iid \<Rightarrow> u64 \<Rightarrow> heap \<Rightarrow> outcome" where
  "arrive_if_arrived spurious s loc i state h =
     (if state AND ARRIVED \<noteq> 0 then
        (case compare_exchange_weak spurious (shard_word h s) state (state + LOCAL_ONE) of
           (w, Ok _) \<Rightarrow> Next (set_shard_word s w h) [Grd (Provenance s loc (ToForShard i))]
         | (w, Err actual) \<Rightarrow>
             Next (set_shard_word s w h) [Grd (ArriveIfArrived s loc i actual)])
      else Next h [Grd (GuardUpgrade s loc i)])"

text \<open>\<^verbatim>\<open>shard.node()?\<close>; the upgraded reference is dropped when \<^verbatim>\<open>for_shard\<close> returns.\<close>

definition guard_upgrade :: "sid \<Rightarrow> location \<Rightarrow> iid \<Rightarrow> heap \<Rightarrow> outcome" where
  "guard_upgrade s loc i h =
     (case weak_upgrade (sh_node (shard_at h s)) h of
        None \<Rightarrow> Next h []
      | Some (h, n) \<Rightarrow> Next h [Grd (GuardAtLocation n loc (Some i)), Life (DropArc n)])"

section \<open>Clone and drop\<close>

text \<open>\<^verbatim>\<open>Shard::arrive_nonempty\<close> asserts that the cloned guard keeps the shard nonempty.\<close>

definition guard_clone_arrive ::
  "sid \<Rightarrow> nid option \<Rightarrow> location \<Rightarrow> nat option \<Rightarrow> heap \<Rightarrow> outcome" where
  "guard_clone_arrive s pin loc info h =
     (let previous = shard_word h s; h = set_shard_word s (previous + LOCAL_ONE) h in
      if previous AND ARRIVED \<noteq> 0 \<and> previous AND NOT (ARRIVED OR STOPPED) \<noteq> 0
      then Next h [Grd (GuardBuild s pin loc info None)]
      else Panic)"

text \<open>Dropping a guard runs \<^verbatim>\<open>Drop for Guard\<close> and then drops its \<^verbatim>\<open>pin\<close> and its record.\<close>

definition guard_drop :: "gid \<Rightarrow> heap \<Rightarrow> outcome" where
  "guard_drop g h =
     (case guard_at h g of
        None \<Rightarrow> Panic
      | Some gd \<Rightarrow>
          Next (h\<lparr>guard_at := (guard_at h)(g := None)\<rparr>)
            ([Grd (GuardDepart (gd_shard gd) (gd_pin gd))] @
             (case gd_pin gd of None \<Rightarrow> [] | Some n \<Rightarrow> [Life (DropArc n)]) @
             (case gd_info gd of None \<Rightarrow> [] | Some a \<Rightarrow> [Grd (DropInfo a)])))"

definition guard_depart :: "sid \<Rightarrow> nid option \<Rightarrow> heap \<Rightarrow> outcome" where
  "guard_depart s pin h =
     (case shard_depart LOCAL_ONE (shard_word h s) of
        (w, emptied) \<Rightarrow>
          Next (set_shard_word s w h)
            (if \<not> emptied then []
             else (case pin of
                     Some _ \<Rightarrow> [Count (ShardFlush s)]
                   | None \<Rightarrow> [Grd (GuardFlushWeak s)])))"

definition guard_flush_weak :: "sid \<Rightarrow> heap \<Rightarrow> outcome" where
  "guard_flush_weak s h =
     (case weak_upgrade (sh_node (shard_at h s)) h of
        None \<Rightarrow> Next h []
      | Some (h, n) \<Rightarrow> Next h [Count (ShardFlush s), Life (DropArc n)])"

definition drop_info :: "nat \<Rightarrow> heap \<Rightarrow> outcome" where
  "drop_info a h = Next (h\<lparr>info_strong := (info_strong h)(a := info_strong h a - 1)\<rparr>) []"

fun guard_step :: "tid \<Rightarrow> bool \<Rightarrow> guard_frame \<Rightarrow> heap \<Rightarrow> outcome" where
  "guard_step t sp (GuardAtLocation n loc dst) h = guard_at_location t n loc dst h"
| "guard_step t sp (Provenance s loc to) h = provenance s loc to h"
| "guard_step t sp (ProvenanceRegister s loc info to) h = provenance_register s loc info to h"
| "guard_step t sp (GuardBuild s pin loc info dst) h = guard_build s pin loc info dst h"
| "guard_step t sp (GuardForShard s loc i) h = guard_for_shard s loc i h"
| "guard_step t sp (ArriveIfArrived s loc i st) h = arrive_if_arrived sp s loc i st h"
| "guard_step t sp (GuardUpgrade s loc i) h = guard_upgrade s loc i h"
| "guard_step t sp (GuardCloneArrive s pin loc info) h = guard_clone_arrive s pin loc info h"
| "guard_step t sp (GuardDrop g) h = guard_drop g h"
| "guard_step t sp (GuardDepart s pin) h = guard_depart s pin h"
| "guard_step t sp (GuardFlushWeak s) h = guard_flush_weak s h"
| "guard_step t sp (DropInfo a) h = drop_info a h"

lemmas [run_eval] =
  is_root_def info_alive_def guard_at_location_def provenance_def provenance_register_def
  guard_build_def guard_for_shard_def arrive_if_arrived_def guard_upgrade_def
  guard_clone_arrive_def guard_drop_def guard_depart_def guard_flush_weak_def drop_info_def

end
