(* ===== verification/Interrupts.thy ===== *)
theory Interrupts
  imports Guards
begin

text \<open>
  \<^verbatim>\<open>Interrupt\<close> as a future (\<^verbatim>\<open>interrupt.rs\<close>, \<^verbatim>\<open>interrupt/future.rs\<close>) with the
  \<^verbatim>\<open>StopListener\<close> of \<^verbatim>\<open>shard.rs\<close>. The wrapped value is the user's: whether polling it is
  ready is a choice of the environment. A waker is a number, and \<^verbatim>\<open>will_wake\<close> holds of equal
  wakers, which is what the standard library guarantees of a waker and its clones.
\<close>

definition stop_listener_new :: "sid \<Rightarrow> interrupt" where
  "stop_listener_new s =
     \<lparr>it_shard = s, it_registration = None, it_guard = None, it_last = None\<rparr>"

definition interrupt_new :: "tid \<Rightarrow> nid \<Rightarrow> heap \<Rightarrow> outcome" where
  "interrupt_new t n h =
     (case inner_shard t n h of
        (h, s) \<Rightarrow> Next (alloc_interrupt (stop_listener_new s) h) [])"

text \<open>An interrupt's method runs on the interrupt it borrows, which is there.\<close>

definition on_interrupt :: "iid \<Rightarrow> heap \<Rightarrow> (interrupt \<Rightarrow> outcome) \<Rightarrow> outcome" where
  "on_interrupt i h k = (case interrupt_at h i of None \<Rightarrow> Panic | Some it \<Rightarrow> k it)"

definition set_interrupt :: "iid \<Rightarrow> interrupt \<Rightarrow> heap \<Rightarrow> heap" where
  [simp]: "set_interrupt i it h = h\<lparr>interrupt_at := (interrupt_at h)(i \<mapsto> it)\<rparr>"

definition poll_returns :: "iid \<Rightarrow> waker \<Rightarrow> unit option poll \<Rightarrow> interrupt \<Rightarrow> heap \<Rightarrow> outcome" where
  "poll_returns i w r it h = Next (set_interrupt i (it\<lparr>it_last := Some (w, r)\<rparr>) h) []"

section \<open>Polling\<close>

text \<open>The stop bit is checked before the wrapped value.\<close>

definition poll_interrupt :: "iid \<Rightarrow> waker \<Rightarrow> heap \<Rightarrow> outcome" where
  "poll_interrupt i w h =
     on_interrupt i h (\<lambda>it.
       if is_stopped (it_shard it) h then poll_returns i w (Ready None) it h
       else Next h [Intr (PollWrapped i w)])"

definition poll_wrapped :: "bool \<Rightarrow> iid \<Rightarrow> waker \<Rightarrow> heap \<Rightarrow> outcome" where
  "poll_wrapped ready i w h =
     on_interrupt i h (\<lambda>it.
       if ready then poll_returns i w (Ready (Some ())) it h
       else Next h [Intr (PollStopped i w)])"

text \<open>\<^verbatim>\<open>StopListener::poll_stopped\<close>: a registration with the same waker skips the mutex.\<close>

definition will_wake :: "waker \<Rightarrow> waker \<Rightarrow> bool" where
  "will_wake v w \<longleftrightarrow> v = w"

definition poll_stopped :: "iid \<Rightarrow> waker \<Rightarrow> heap \<Rightarrow> outcome" where
  "poll_stopped i w h =
     on_interrupt i h (\<lambda>it.
       Next h
         (case it_registration it of
            Some r \<Rightarrow>
              if will_wake (rn_waker r) w then [Intr (PollRecheck i w)] else [Intr (PollLock i w)]
          | None \<Rightarrow> [Intr (PollLock i w)]))"

definition poll_recheck :: "iid \<Rightarrow> waker \<Rightarrow> heap \<Rightarrow> outcome" where
  "poll_recheck i w h =
     on_interrupt i h (\<lambda>it.
       poll_returns i w (if is_stopped (it_shard it) h then Ready None else Pending) it h)"

definition poll_lock :: "tid \<Rightarrow> iid \<Rightarrow> waker \<Rightarrow> heap \<Rightarrow> outcome" where
  "poll_lock t i w h =
     on_interrupt i h (\<lambda>it.
       with_lock (it_shard it) h
         (Next (lock_acquire t (it_shard it) h) [Intr (PollLocked i w)]))"

text \<open>Under the mutex: check the stop bit again, and only then register.\<close>

definition poll_locked :: "iid \<Rightarrow> waker \<Rightarrow> heap \<Rightarrow> outcome" where
  "poll_locked i w h =
     on_interrupt i h (\<lambda>it.
       if is_stopped (it_shard it) h
       then poll_returns i w (Ready None) it (lock_release (it_shard it) h)
       else Next h [Intr (PollRegister i w)])"

definition poll_register :: "iid \<Rightarrow> waker \<Rightarrow> heap \<Rightarrow> outcome" where
  "poll_register i w h =
     on_interrupt i h (\<lambda>it.
       let s = it_shard it;
           waiters = sh_waiters (shard_at h s);
           waiters = (case it_registration it of
                        None \<Rightarrow> waiters
                      | Some r \<Rightarrow> fst (slab_remove waiters (rn_key r)))
       in (case slab_insert waiters w of
             None \<Rightarrow> Panic
           | Some (waiters, key) \<Rightarrow>
               poll_returns i w Pending
                 (it\<lparr>it_registration := Some \<lparr>rn_key = key, rn_waker = w\<rparr>\<rparr>)
                 (lock_release s (upd_shard s (sh_waiters_update (\<lambda>_. waiters)) h))))"

section \<open>Dropping\<close>

text \<open>\<^verbatim>\<open>Drop for StopListener\<close>\<close>

definition listener_drop :: "sid \<Rightarrow> nat \<Rightarrow> heap \<Rightarrow> outcome" where
  "listener_drop s key h =
     with_lock s h
       (Next (upd_shard s
           (sh_waiters_update (\<lambda>waiters. fst (slab_remove waiters key))) h) [])"

text \<open>
  Dropping an interrupt, or taking the wrapped value out of it, drops its listener and then
  its guard.
\<close>

definition drop_frames :: "interrupt \<Rightarrow> frame list" where
  "drop_frames it =
     (case it_registration it of
        None \<Rightarrow> [] | Some r \<Rightarrow> [Intr (ListenerDrop (it_shard it) (rn_key r))]) @
     (case it_guard it of None \<Rightarrow> [] | Some g \<Rightarrow> [Grd (GuardDrop g)])"

fun intr_step :: "tid \<Rightarrow> bool \<Rightarrow> intr_frame \<Rightarrow> heap \<Rightarrow> outcome" where
  "intr_step t ready (Poll i w) h = poll_interrupt i w h"
| "intr_step t ready (PollWrapped i w) h = poll_wrapped ready i w h"
| "intr_step t ready (PollStopped i w) h = poll_stopped i w h"
| "intr_step t ready (PollRecheck i w) h = poll_recheck i w h"
| "intr_step t ready (PollLock i w) h = poll_lock t i w h"
| "intr_step t ready (PollLocked i w) h = poll_locked i w h"
| "intr_step t ready (PollRegister i w) h = poll_register i w h"
| "intr_step t ready (ListenerDrop s k) h = listener_drop s k h"

lemmas [run_eval] =
  stop_listener_new_def interrupt_new_def on_interrupt_def poll_returns_def poll_interrupt_def
  poll_wrapped_def will_wake_def poll_stopped_def poll_recheck_def poll_lock_def poll_locked_def
  poll_register_def listener_drop_def drop_frames_def

end
