(* ===== verification/Handles.thy ===== *)
theory Handles
  imports Interrupts
begin

text \<open>
  \<^verbatim>\<open>Swansong\<close> of \<^verbatim>\<open>src/lib.rs\<close>: the handles to a node and what they observe of it.
\<close>

section \<open>Handles\<close>

text \<open>\<^verbatim>\<open>swansong_clone\<close> counts the handle, then the \<^verbatim>\<open>Arc\<close> is cloned.\<close>

definition swansong_clone :: "nid \<Rightarrow> heap \<Rightarrow> outcome" where
  "swansong_clone n h =
     Next (upd_node n (in_swansong_count_update Suc) h) [Swan (HandleCloneArc n)]"

definition swansong_clone_arc :: "nid \<Rightarrow> heap \<Rightarrow> outcome" where
  "swansong_clone_arc n h = Next (alloc_handle n (arc_clone n h)) []"

text \<open>\<^verbatim>\<open>swansong_drop\<close>: whether this was the last handle.\<close>

definition swansong_drop :: "nid \<Rightarrow> heap \<Rightarrow> heap \<times> bool" where
  "swansong_drop n h =
     (upd_node n (in_swansong_count_update (\<lambda>k. k - 1)) h, in_swansong_count (node_at h n) = 1)"

text \<open>\<^verbatim>\<open>Drop for Swansong\<close>, followed by the drop of its \<^verbatim>\<open>Arc\<close>.\<close>

definition handle_drop :: "nid \<Rightarrow> heap \<Rightarrow> outcome" where
  "handle_drop n h =
     (case swansong_drop n h of
        (h, was_last) \<Rightarrow>
          Next h ((if was_last \<and> is_root n h then [Stop (NodeStop n)] else []) @ [Life (DropArc n)]))"

definition completion_new :: "nid \<Rightarrow> heap \<Rightarrow> outcome" where
  "completion_new n h = Next (alloc_completion n (arc_clone n h)) []"

fun swan_step :: "tid \<Rightarrow> swan_frame \<Rightarrow> heap \<Rightarrow> outcome" where
  "swan_step t (HandleClone n) h = swansong_clone n h"
| "swan_step t (HandleCloneArc n) h = swansong_clone_arc n h"
| "swan_step t (HandleDrop n) h = handle_drop n h"
| "swan_step t (CompletionNew n) h = completion_new n h"
| "swan_step t (InterruptNew n) h = interrupt_new t n h"

section \<open>The methods of the public interface\<close>

text \<open>The heap a constructor leaves, and the frames a method starts with.\<close>

definition swansong_new :: "heap \<Rightarrow> heap" where
  [simp]: "swansong_new h = new_root False h"

definition with_guard_report :: "heap \<Rightarrow> heap" where
  [simp]: "with_guard_report h = new_root True h"

definition shut_down :: "nid \<Rightarrow> frame list" where
  [simp]: "shut_down n = [Stop (NodeStop n), Swan (CompletionNew n)]"

text \<open>The handle is consumed, and dropped when the completion has been made.\<close>

definition into_future :: "nid \<Rightarrow> frame list" where
  [simp]: "into_future n = [Swan (CompletionNew n), Swan (HandleDrop n)]"

text \<open>\<^verbatim>\<open>ShuttingDown\<close> holds its node as \<^verbatim>\<open>ShutdownCompletion\<close> does; both are completions here.\<close>

definition shutting_down :: "nid \<Rightarrow> frame list" where
  [simp]: "shutting_down n = [Swan (CompletionNew n)]"

definition swansong_child :: "nid \<Rightarrow> frame list" where
  [simp]: "swansong_child n = [Life (ChildNew n)]"

definition swansong_guard :: "nid \<Rightarrow> location \<Rightarrow> frame list" where
  [simp]: "swansong_guard n loc = [Grd (GuardAtLocation n loc None)]"

definition swansong_interrupt :: "nid \<Rightarrow> frame list" where
  [simp]: "swansong_interrupt n = [Swan (InterruptNew n)]"

definition interrupt_guarded :: "interrupt \<Rightarrow> location \<Rightarrow> iid \<Rightarrow> frame list" where
  [simp]: "interrupt_guarded it loc i = [Grd (GuardForShard (it_shard it) loc i)]"

definition guard_clone :: "guard \<Rightarrow> frame list" where
  [simp]: "guard_clone gd = [Grd (Provenance (gd_shard gd) (gd_location gd) (ToClone (gd_pin gd)))]"

section \<open>Observations\<close>

datatype shutdown_state = Running | ShuttingDown | Complete

definition state_is_running :: "shutdown_state \<Rightarrow> bool" where
  "state_is_running s = (case s of Running \<Rightarrow> True | _ \<Rightarrow> False)"

definition state_is_shutting_down :: "shutdown_state \<Rightarrow> bool" where
  "state_is_shutting_down s = (case s of ShuttingDown \<Rightarrow> True | _ \<Rightarrow> False)"

definition state_is_complete :: "shutdown_state \<Rightarrow> bool" where
  "state_is_complete s = (case s of Complete \<Rightarrow> True | _ \<Rightarrow> False)"

definition node_is_zero :: "nid \<Rightarrow> heap \<Rightarrow> bool" where
  "node_is_zero n h \<longleftrightarrow> node_word h n AND SHARDS_MASK = 0"

text \<open>
  \<^verbatim>\<open>Swansong::state\<close> reads the node's word twice, first for the stop bit and then, if it is
  set, for the count. The heap may change in between: \<open>h\<close> and \<open>h'\<close> are the heaps read.
\<close>

definition swansong_state :: "nid \<Rightarrow> heap \<Rightarrow> heap \<Rightarrow> shutdown_state" where
  "swansong_state n h h' =
     (let stopped = node_is_stopped n h;
          complete = stopped \<and> node_is_zero n h'
      in if complete then Complete else if stopped then ShuttingDown else Running)"

text \<open>\<^verbatim>\<open>Shard::guard_count\<close>\<close>

definition shard_guard_count :: "sid \<Rightarrow> heap \<Rightarrow> nat" where
  "shard_guard_count s h = unat (shard_word h s AND LOCAL_MASK)"

lemmas [run_eval] =
  swansong_clone_def swansong_clone_arc_def swansong_drop_def handle_drop_def completion_new_def
  state_is_running_def state_is_shutting_down_def state_is_complete_def node_is_zero_def
  swansong_state_def shard_guard_count_def

end
