(* ===== verification/Machine.thy ===== *)
theory Machine
  imports Handles
begin

text \<open>
  The whole program as a transition system. A fixed number of threads run; an idle thread may
  call any operation of the public interface on an object that exists, and a running thread
  executes its top frame. Ownership is Rust's: an operation that consumes an object waits
  until nobody borrows it, and one that borrows mutably has it to itself.
\<close>

section \<open>Executing a frame\<close>

fun exec :: "tid \<Rightarrow> bool \<Rightarrow> frame \<Rightarrow> heap \<Rightarrow> outcome" where
  "exec t sp (Count f) h = count_step t sp f h"
| "exec t sp (Stop f) h = stop_step t f h"
| "exec t sp (Life f) h = life_step t f h"
| "exec t sp (Grd f) h = guard_step t sp f h"
| "exec t sp (Swan f) h = swan_step t f h"
| "exec t sp (Intr f) h = intr_step t sp f h"
| "exec t sp (Borrow x) h = Next h []"

section \<open>Calls\<close>

datatype call =
    CallNew bool
  | CallClone hid
  | CallDrop hid
  | CallShutDown hid
  | CallIntoFuture hid
  | CallShuttingDown hid
  | CallChild hid
  | CallGuard hid location
  | CallGuardClone gid
  | CallGuardDrop gid
  | CallInterrupt hid
  | CallGuarded iid location
  | CallPoll iid waker
  | CallInterruptDrop iid
  | CallCompletionDrop cid

text \<open>The objects a call consumes or borrows mutably.\<close>

fun exclusive :: "call \<Rightarrow> object option" where
  "exclusive (CallDrop x) = Some (OHandle x)"
| "exclusive (CallIntoFuture x) = Some (OHandle x)"
| "exclusive (CallGuardDrop g) = Some (OGuard g)"
| "exclusive (CallGuarded i _) = Some (OInterrupt i)"
| "exclusive (CallPoll i _) = Some (OInterrupt i)"
| "exclusive (CallInterruptDrop i) = Some (OInterrupt i)"
| "exclusive (CallCompletionDrop c) = Some (OCompletion c)"
| "exclusive _ = None"

definition on_handle :: "hid \<Rightarrow> heap \<Rightarrow> (nid \<Rightarrow> heap \<times> frame list) \<Rightarrow> (heap \<times> frame list) option" where
  "on_handle x h k = (case handle_at h x of None \<Rightarrow> None | Some n \<Rightarrow> Some (k n))"

text \<open>The guard a call uses.\<close>

fun uses_guard :: "call \<Rightarrow> gid option" where
  "uses_guard (CallGuardClone g) = Some g"
| "uses_guard (CallGuardDrop g) = Some g"
| "uses_guard _ = None"

text \<open>A guard inside an interrupt is not the client's to clone or drop.\<close>

definition free_guard :: "gid \<Rightarrow> heap \<Rightarrow> bool" where
  "free_guard g h \<longleftrightarrow>
     guard_at h g \<noteq> None \<and>
     (\<forall>i<n_interrupts h. case interrupt_at h i of None \<Rightarrow> True | Some it \<Rightarrow> it_guard it \<noteq> Some g)"

text \<open>The frames a call starts with, and the heap after it has taken the objects it consumes.\<close>

fun begin_call :: "call \<Rightarrow> heap \<Rightarrow> (heap \<times> frame list) option" where
  "begin_call (CallNew report) h = Some (if report then with_guard_report h else swansong_new h, [])"
| "begin_call (CallClone x) h =
     on_handle x h (\<lambda>n. (h, [Swan (HandleClone n), Borrow (OHandle x)]))"
| "begin_call (CallDrop x) h =
     on_handle x h (\<lambda>n. (h\<lparr>handle_at := (handle_at h)(x := None)\<rparr>, [Swan (HandleDrop n)]))"
| "begin_call (CallShutDown x) h =
     on_handle x h (\<lambda>n. (h, shut_down n @ [Borrow (OHandle x)]))"
| "begin_call (CallIntoFuture x) h =
     on_handle x h (\<lambda>n. (h\<lparr>handle_at := (handle_at h)(x := None)\<rparr>, into_future n))"
| "begin_call (CallShuttingDown x) h =
     on_handle x h (\<lambda>n. (h, shutting_down n @ [Borrow (OHandle x)]))"
| "begin_call (CallChild x) h =
     on_handle x h (\<lambda>n. (h, swansong_child n @ [Borrow (OHandle x)]))"
| "begin_call (CallGuard x loc) h =
     on_handle x h (\<lambda>n. (h, swansong_guard n loc @ [Borrow (OHandle x)]))"
| "begin_call (CallGuardClone g) h =
     (case guard_at h g of
        None \<Rightarrow> None
      | Some gd \<Rightarrow>
          if free_guard g h
          then Some (h, guard_clone gd @ [Borrow (OGuard g)])
          else None)"
| "begin_call (CallGuardDrop g) h =
     (if free_guard g h then Some (h, [Grd (GuardDrop g)]) else None)"
| "begin_call (CallInterrupt x) h =
     on_handle x h (\<lambda>n. (h, swansong_interrupt n @ [Borrow (OHandle x)]))"
| "begin_call (CallGuarded i loc) h =
     (case interrupt_at h i of
        None \<Rightarrow> None
      | Some it \<Rightarrow> Some (h, interrupt_guarded it loc i @ [Borrow (OInterrupt i)]))"
| "begin_call (CallPoll i w) h =
     (case interrupt_at h i of
        None \<Rightarrow> None
      | Some it \<Rightarrow>
          Some (set_interrupt i (it\<lparr>it_last := None\<rparr>) h,
                [Intr (Poll i w), Borrow (OInterrupt i)]))"
| "begin_call (CallInterruptDrop i) h =
     (case interrupt_at h i of
        None \<Rightarrow> None
      | Some it \<Rightarrow> Some (h\<lparr>interrupt_at := (interrupt_at h)(i := None)\<rparr>, drop_frames it))"
| "begin_call (CallCompletionDrop c) h =
     (case completion_at h c of
        None \<Rightarrow> None
      | Some n \<Rightarrow> Some (h\<lparr>completion_at := (completion_at h)(c := None)\<rparr>, [Life (DropArc n)]))"

section \<open>Steps\<close>

record sys =
  mem :: heap
  n_threads :: nat
  stack :: "tid \<Rightarrow> frame list"

definition sys_init :: "nat \<Rightarrow> nat option \<Rightarrow> sys" where
  "sys_init threads par = \<lparr>mem = heap_init par, n_threads = threads, stack = (\<lambda>_. [])\<rparr>"

definition borrowed :: "object \<Rightarrow> sys \<Rightarrow> bool" where
  "borrowed x \<sigma> \<longleftrightarrow> (\<exists>t<n_threads \<sigma>. Borrow x \<in> set (stack \<sigma> t))"

text \<open>A guard that is about to be dropped is nobody else's.\<close>

definition dropping :: "gid \<Rightarrow> sys \<Rightarrow> bool" where
  "dropping g \<sigma> \<longleftrightarrow> (\<exists>t<n_threads \<sigma>. Grd (GuardDrop g) \<in> set (stack \<sigma> t))"

definition may_call :: "call \<Rightarrow> sys \<Rightarrow> bool" where
  "may_call c \<sigma> \<longleftrightarrow>
     (case exclusive c of None \<Rightarrow> True | Some x \<Rightarrow> \<not> borrowed x \<sigma>) \<and>
     (case uses_guard c of None \<Rightarrow> True | Some g \<Rightarrow> \<not> dropping g \<sigma>)"

datatype action = Call tid call | Run tid bool | Tick nat

inductive step :: "sys \<Rightarrow> action \<Rightarrow> sys \<Rightarrow> bool" where
  call: "t < n_threads \<sigma> \<Longrightarrow> stack \<sigma> t = [] \<Longrightarrow> may_call c \<sigma> \<Longrightarrow>
     begin_call c (mem \<sigma>) = Some (h, fs) \<Longrightarrow>
     step \<sigma> (Call t c) (\<sigma>\<lparr>mem := h, stack := (stack \<sigma>)(t := fs)\<rparr>)"
| run: "t < n_threads \<sigma> \<Longrightarrow> stack \<sigma> t = f # fs \<Longrightarrow> exec t b f (mem \<sigma>) = Next h gs \<Longrightarrow>
     step \<sigma> (Run t b) (\<sigma>\<lparr>mem := h, stack := (stack \<sigma>)(t := gs @ fs)\<rparr>)"
| tick: "step \<sigma> (Tick d) (\<sigma>\<lparr>mem := (mem \<sigma>)\<lparr>clock := clock (mem \<sigma>) + d\<rparr>\<rparr>)"

inductive_cases step_CallE: "step \<sigma> (Call t c) \<sigma>'"
inductive_cases step_RunE: "step \<sigma> (Run t b) \<sigma>'"
inductive_cases step_TickE: "step \<sigma> (Tick d) \<sigma>'"

text \<open>The same steps as a function, to run the machine on a schedule.\<close>

fun perform :: "action \<Rightarrow> sys \<Rightarrow> sys option" where
  "perform (Call t c) \<sigma> =
     (if t < n_threads \<sigma> \<and> stack \<sigma> t = [] \<and> may_call c \<sigma> then
        (case begin_call c (mem \<sigma>) of
           None \<Rightarrow> None
         | Some (h, fs) \<Rightarrow> Some (\<sigma>\<lparr>mem := h, stack := (stack \<sigma>)(t := fs)\<rparr>))
      else None)"
| "perform (Run t b) \<sigma> =
     (if t < n_threads \<sigma> then
        (case stack \<sigma> t of
           [] \<Rightarrow> None
         | f # fs \<Rightarrow>
             (case exec t b f (mem \<sigma>) of
                Next h gs \<Rightarrow> Some (\<sigma>\<lparr>mem := h, stack := (stack \<sigma>)(t := gs @ fs)\<rparr>)
              | _ \<Rightarrow> None))
      else None)"
| "perform (Tick d) \<sigma> = Some (\<sigma>\<lparr>mem := (mem \<sigma>)\<lparr>clock := clock (mem \<sigma>) + d\<rparr>\<rparr>)"

lemma perform_step: "perform a \<sigma> = Some \<sigma>' \<longleftrightarrow> step \<sigma> a \<sigma>'"
proof (cases a)
  case (Call t c)
  then show ?thesis
    by (auto elim!: step_CallE intro: step.call split: if_splits option.splits)
next
  case (Run t b)
  then show ?thesis
    by (auto elim!: step_RunE intro: step.run split: if_splits list.splits outcome.splits)
next
  case (Tick d)
  then show ?thesis by (auto elim!: step_TickE intro: step.tick)
qed

section \<open>Reachable states\<close>

text \<open>
  The packed words hold counts up to their widths, and the code does not check them: the
  states considered are those reached while fewer than \<open>2 ^ 32\<close> guards and fewer than
  \<open>2 ^ 30\<close> arrived children exist, each thread counting for one operation in flight.
\<close>

definition guard_live :: "heap \<Rightarrow> gid \<Rightarrow> bool" where
  "guard_live h g \<longleftrightarrow> guard_at h g \<noteq> None"

definition child_arrived :: "heap \<Rightarrow> nid \<Rightarrow> bool" where
  "child_arrived h c \<longleftrightarrow> in_parent (node_at h c) \<noteq> None \<and> arrived_bit (node_word h c)"

definition within_limits :: "sys \<Rightarrow> bool" where
  "within_limits \<sigma> \<longleftrightarrow>
     tally (n_guards (mem \<sigma>)) (guard_live (mem \<sigma>)) + n_threads \<sigma> < 2 ^ 32 \<and>
     tally (n_nodes (mem \<sigma>)) (child_arrived (mem \<sigma>)) + n_threads \<sigma> < 2 ^ 30"

inductive reachable :: "sys \<Rightarrow> bool" where
  init: "reachable (sys_init threads par)"
| step: "reachable \<sigma> \<Longrightarrow> within_limits \<sigma> \<Longrightarrow> step \<sigma> a \<sigma>' \<Longrightarrow> reachable \<sigma>'"

text \<open>Running a schedule, checking the limits before each step.\<close>

fun perform_all :: "action list \<Rightarrow> sys \<Rightarrow> sys option" where
  "perform_all [] \<sigma> = Some \<sigma>"
| "perform_all (a # as) \<sigma> =
     (if within_limits \<sigma> then
        (case perform a \<sigma> of None \<Rightarrow> None | Some \<sigma>' \<Rightarrow> perform_all as \<sigma>')
      else None)"

lemma perform_all_reachable:
  "reachable \<sigma> \<Longrightarrow> perform_all as \<sigma> = Some \<sigma>' \<Longrightarrow> reachable \<sigma>'"
  by (induction as arbitrary: \<sigma>)
    (auto simp: perform_step intro: reachable.step split: if_splits option.splits)

lemmas [run_eval] =
  on_handle_def free_guard_def sys_init_def borrowed_def dropping_def may_call_def guard_live_def
  child_arrived_def within_limits_def

end
