(* ===== verification/Structure.thy ===== *)
theory Structure
  imports Machine
begin

text \<open>
  The static invariant: addresses in the heap and in the frames are allocated, a child's
  parent is older than the child, and the frames of a stack fit together. An arrival in
  flight is a chain of frames in which each level waits for the one above; \<open>contract\<close> says
  what a frame returns to. Everything here is independent of the counts.
\<close>

declare split_paired_All [simp del] split_paired_Ex [simp del]

named_theorems step_defs

lemmas [step_defs] = shard_arrive_def shard_arrive_loop_def shard_arrive_commit_def
  shard_depart_def shard_depart_flush_def shard_flush_def node_arrive_def node_arrive_loop_def
  node_arrive_commit_def node_depart_def node_depart_notify_def node_depart_release_def
  shard_stop_def shard_drain_def node_stop_def stop_notify_def stop_children_def stop_zero_def
  drop_arc_def deregister_def child_new_def child_register_def child_store_key_def
  child_check_def child_return_def guard_at_location_def provenance_def provenance_register_def
  guard_build_def guard_for_shard_def arrive_if_arrived_def guard_upgrade_def
  guard_clone_arrive_def guard_drop_def guard_depart_def guard_flush_weak_def drop_info_def
  poll_interrupt_def poll_wrapped_def poll_stopped_def poll_recheck_def poll_lock_def
  poll_locked_def poll_register_def listener_drop_def swansong_clone_def swansong_clone_arc_def
  swansong_drop_def handle_drop_def completion_new_def interrupt_new_def

section \<open>Valid addresses\<close>

definition valid_node :: "heap \<Rightarrow> nid \<Rightarrow> bool" where
  "valid_node h n \<longleftrightarrow> n < n_nodes h"

definition valid_shard :: "heap \<Rightarrow> sid \<Rightarrow> bool" where
  "valid_shard h s \<longleftrightarrow> fst s < n_nodes h \<and> snd s < in_shards (node_at h (fst s))"

definition parent_of :: "heap \<Rightarrow> nid \<Rightarrow> nid option" where
  "parent_of h n = map_option p_node (in_parent (node_at h n))"

text \<open>Nodes are only added, and their shards and parents never change.\<close>

definition extends :: "heap \<Rightarrow> heap \<Rightarrow> bool" where
  "extends h h' \<longleftrightarrow> n_nodes h \<le> n_nodes h' \<and>
     (\<forall>n<n_nodes h. in_shards (node_at h' n) = in_shards (node_at h n) \<and>
        parent_of h' n = parent_of h n)"

lemma extends_refl [simp]: "extends h h"
  by (simp add: extends_def)

lemma extends_trans: "extends h h' \<Longrightarrow> extends h' h'' \<Longrightarrow> extends h h''"
  by (fastforce simp: extends_def)

lemma valid_node_extends: "extends h h' \<Longrightarrow> valid_node h n \<Longrightarrow> valid_node h' n"
  by (auto simp: extends_def valid_node_def)

lemma valid_shard_extends: "extends h h' \<Longrightarrow> valid_shard h s \<Longrightarrow> valid_shard h' s"
  by (auto simp: extends_def valid_shard_def)

lemma parent_of_extends: "extends h h' \<Longrightarrow> valid_node h n \<Longrightarrow> parent_of h' n = parent_of h n"
  by (auto simp: extends_def valid_node_def)

text \<open>
  The heap: every node has between 1 and 256 shards, a child is younger than its parent and
  registered on one of its shards, each shard knows its node, and the objects point to
  allocated addresses.
\<close>

definition node_ok :: "heap \<Rightarrow> nid \<Rightarrow> bool" where
  "node_ok h n \<longleftrightarrow> 0 < in_shards (node_at h n) \<and> in_shards (node_at h n) \<le> 256 \<and>
     (\<forall>p. in_parent (node_at h n) = Some p \<longrightarrow>
        p_node p < n \<and> p_shard p < in_shards (node_at h (p_node p)))"

definition shard_ok :: "heap \<Rightarrow> sid \<Rightarrow> bool" where
  "shard_ok h s \<longleftrightarrow> sh_node (shard_at h s) = fst s \<and>
     sh_root (shard_at h s) = (in_parent (node_at h (fst s)) = None) \<and>
     slab_ok (sh_children (shard_at h s)) \<and> slab_ok (sh_waiters (shard_at h s)) \<and>
     (\<forall>c \<in> set (slab_values (sh_children (shard_at h s))). c < n_nodes h)"

definition guard_ok :: "heap \<Rightarrow> guard \<Rightarrow> bool" where
  "guard_ok h g \<longleftrightarrow> valid_shard h (gd_shard g) \<and>
     (\<forall>n. gd_pin g = Some n \<longrightarrow> n = fst (gd_shard g))"

definition objects_ok :: "heap \<Rightarrow> bool" where
  "objects_ok h \<longleftrightarrow>
     (\<forall>x n. handle_at h x = Some n \<longrightarrow> valid_node h n) \<and>
     (\<forall>x n. completion_at h x = Some n \<longrightarrow> valid_node h n) \<and>
     (\<forall>g gd. guard_at h g = Some gd \<longrightarrow> g < n_guards h \<and> guard_ok h gd) \<and>
     (\<forall>i it. interrupt_at h i = Some it \<longrightarrow> i < n_interrupts h \<and> valid_shard h (it_shard it))"

definition heap_ok :: "heap \<Rightarrow> bool" where
  "heap_ok h \<longleftrightarrow> (\<forall>n<n_nodes h. node_ok h n) \<and> (\<forall>s. valid_shard h s \<longrightarrow> shard_ok h s) \<and>
     objects_ok h"

section \<open>Valid frames\<close>

definition unarrived_empty :: "u64 \<Rightarrow> bool" where
  "unarrived_empty w \<longleftrightarrow> (\<not> arrived_bit w \<longrightarrow> low w = 0 \<and> mid w = 0)"

definition unit_ok :: "u64 \<Rightarrow> bool" where
  "unit_ok u \<longleftrightarrow> u = LOCAL_ONE \<or> u = KIDS_ONE"

definition empty_unarrived :: "u64 \<Rightarrow> bool" where
  "empty_unarrived w \<longleftrightarrow> \<not> arrived_bit w \<and> low w = 0 \<and> mid w = 0"

text \<open>A node that emptied still names the parent shard it arrived at.\<close>

definition emptied_child :: "heap \<Rightarrow> nid \<Rightarrow> u64 \<Rightarrow> bool" where
  "emptied_child h n w \<longleftrightarrow> low w = 0 \<and>
     (\<forall>p. parent_of h n = Some p \<longrightarrow>
        arrived_bit w \<and> mid w < in_shards (node_at h p))"

fun count_frame_ok :: "heap \<Rightarrow> count_frame \<Rightarrow> bool" where
  "count_frame_ok h (ShardArrive s u) \<longleftrightarrow> valid_shard h s \<and> unit_ok u"
| "count_frame_ok h (ShardArriveLoop s u st) \<longleftrightarrow> valid_shard h s \<and> unit_ok u \<and> unarrived_empty st"
| "count_frame_ok h (ShardArriveCommit s u st) \<longleftrightarrow>
     valid_shard h s \<and> unit_ok u \<and> empty_unarrived st"
| "count_frame_ok h (NodeArrive n) \<longleftrightarrow> valid_node h n"
| "count_frame_ok h (NodeArriveLoop n st) \<longleftrightarrow>
     valid_node h n \<and> parent_of h n \<noteq> None \<and> unarrived_empty st"
| "count_frame_ok h (NodeArriveCommit n s st) \<longleftrightarrow>
     valid_node h n \<and> parent_of h n = Some (fst s) \<and> valid_shard h s \<and> empty_unarrived st"
| "count_frame_ok h (ShardDepart s u) \<longleftrightarrow> valid_shard h s \<and> u = KIDS_ONE"
| "count_frame_ok h (ShardFlush s) \<longleftrightarrow> valid_shard h s"
| "count_frame_ok h (NodeDepart n) \<longleftrightarrow> valid_node h n"
| "count_frame_ok h (NodeDepartNotify n st) \<longleftrightarrow> valid_node h n \<and> emptied_child h n st"
| "count_frame_ok h (NodeDepartRelease n st) \<longleftrightarrow> valid_node h n \<and> emptied_child h n st"

fun stop_frame_ok :: "heap \<Rightarrow> stop_frame \<Rightarrow> bool" where
  "stop_frame_ok h (NodeStop n) \<longleftrightarrow> valid_node h n"
| "stop_frame_ok h (ShardStop s) \<longleftrightarrow> valid_shard h s"
| "stop_frame_ok h (ShardDrain s w) \<longleftrightarrow> valid_shard h s"
| "stop_frame_ok h (ShardWake s w ws) \<longleftrightarrow> valid_shard h s"
| "stop_frame_ok h (StopNotify n) \<longleftrightarrow> valid_node h n"
| "stop_frame_ok h (StopChildren n i live) \<longleftrightarrow> valid_node h n \<and> (\<forall>c \<in> set live. valid_node h c)"
| "stop_frame_ok h (StopUpgrade n i cs live) \<longleftrightarrow>
     valid_shard h (n, i) \<and> (\<forall>c \<in> set cs. valid_node h c) \<and> (\<forall>c \<in> set live. valid_node h c)"
| "stop_frame_ok h (StopZero n w) \<longleftrightarrow> valid_node h n"

fun life_frame_ok :: "heap \<Rightarrow> life_frame \<Rightarrow> bool" where
  "life_frame_ok h (DropArc n) \<longleftrightarrow> valid_node h n"
| "life_frame_ok h (Deregister n) \<longleftrightarrow> valid_node h n"
| "life_frame_ok h (ChildNew n) \<longleftrightarrow> valid_node h n"
| "life_frame_ok h (ChildRegister c) \<longleftrightarrow> valid_node h c \<and> parent_of h c \<noteq> None"
| "life_frame_ok h (ChildStoreKey c k) \<longleftrightarrow> valid_node h c \<and> parent_of h c \<noteq> None"
| "life_frame_ok h (ChildCheck c) \<longleftrightarrow> valid_node h c \<and> parent_of h c \<noteq> None"
| "life_frame_ok h (ChildReturn c) \<longleftrightarrow> valid_node h c"

definition pin_ok :: "sid \<Rightarrow> nid option \<Rightarrow> bool" where
  "pin_ok s pin \<longleftrightarrow> (\<forall>n. pin = Some n \<longrightarrow> n = fst s)"

fun provenance_ok :: "sid \<Rightarrow> provenance_to \<Rightarrow> bool" where
  "provenance_ok s (ToAtLocation n dst) \<longleftrightarrow> n = fst s"
| "provenance_ok s (ToForShard i) \<longleftrightarrow> True"
| "provenance_ok s (ToClone pin) \<longleftrightarrow> pin_ok s pin"

fun guard_frame_ok :: "heap \<Rightarrow> guard_frame \<Rightarrow> bool" where
  "guard_frame_ok h (GuardAtLocation n loc dst) \<longleftrightarrow> valid_node h n"
| "guard_frame_ok h (Provenance s loc to) \<longleftrightarrow> valid_shard h s \<and> provenance_ok s to"
| "guard_frame_ok h (ProvenanceRegister s loc info to) \<longleftrightarrow> valid_shard h s \<and> provenance_ok s to"
| "guard_frame_ok h (GuardBuild s pin loc info dst) \<longleftrightarrow> valid_shard h s \<and> pin_ok s pin"
| "guard_frame_ok h (GuardForShard s loc i) \<longleftrightarrow> valid_shard h s"
| "guard_frame_ok h (ArriveIfArrived s loc i st) \<longleftrightarrow> valid_shard h s"
| "guard_frame_ok h (GuardUpgrade s loc i) \<longleftrightarrow> valid_shard h s"
| "guard_frame_ok h (GuardCloneArrive s pin loc info) \<longleftrightarrow> valid_shard h s \<and> pin_ok s pin"
| "guard_frame_ok h (GuardDrop g) \<longleftrightarrow> True"
| "guard_frame_ok h (GuardDepart s pin) \<longleftrightarrow> valid_shard h s \<and> pin_ok s pin"
| "guard_frame_ok h (GuardFlushWeak s) \<longleftrightarrow> valid_shard h s"
| "guard_frame_ok h (DropInfo a) \<longleftrightarrow> True"

fun swan_frame_ok :: "heap \<Rightarrow> swan_frame \<Rightarrow> bool" where
  "swan_frame_ok h (HandleClone n) \<longleftrightarrow> valid_node h n"
| "swan_frame_ok h (HandleCloneArc n) \<longleftrightarrow> valid_node h n"
| "swan_frame_ok h (HandleDrop n) \<longleftrightarrow> valid_node h n"
| "swan_frame_ok h (CompletionNew n) \<longleftrightarrow> valid_node h n"
| "swan_frame_ok h (InterruptNew n) \<longleftrightarrow> valid_node h n"

fun intr_frame_ok :: "heap \<Rightarrow> intr_frame \<Rightarrow> bool" where
  "intr_frame_ok h (ListenerDrop s k) \<longleftrightarrow> valid_shard h s"
| "intr_frame_ok h _ \<longleftrightarrow> True"

fun frame_ok :: "heap \<Rightarrow> frame \<Rightarrow> bool" where
  "frame_ok h (Count f) \<longleftrightarrow> count_frame_ok h f"
| "frame_ok h (Stop f) \<longleftrightarrow> stop_frame_ok h f"
| "frame_ok h (Life f) \<longleftrightarrow> life_frame_ok h f"
| "frame_ok h (Grd f) \<longleftrightarrow> guard_frame_ok h f"
| "frame_ok h (Swan f) \<longleftrightarrow> swan_frame_ok h f"
| "frame_ok h (Intr f) \<longleftrightarrow> intr_frame_ok h f"
| "frame_ok h (Borrow x) \<longleftrightarrow> True"

lemma emptied_child_extends:
  assumes "extends h h'" "heap_ok h" "valid_node h n"
  shows "emptied_child h n w \<Longrightarrow> emptied_child h' n w"
proof -
  assume e: "emptied_child h n w"
  have "p < n_nodes h" if "parent_of h n = Some p" for p
    using assms that by (fastforce simp: heap_ok_def node_ok_def valid_node_def parent_of_def)
  with assms e show ?thesis
    by (auto simp: emptied_child_def extends_def valid_node_def)
qed

lemmas extends_intros = valid_node_extends valid_shard_extends emptied_child_extends

text \<open>Frames stay valid when the heap grows.\<close>

lemma frame_ok_extends:
  assumes "extends h h'" "heap_ok h" "frame_ok h f"
  shows "frame_ok h' f"
proof (cases f)
  case (Count g)
  with assms show ?thesis
    by (cases g) (auto simp: parent_of_extends intro: extends_intros)
next
  case (Stop g)
  with assms show ?thesis by (cases g) (auto intro: extends_intros)
next
  case (Life g)
  with assms show ?thesis
    by (cases g) (auto simp: parent_of_extends intro: extends_intros)
next
  case (Grd g)
  with assms show ?thesis by (cases g) (auto intro: extends_intros)
next
  case (Swan g)
  with assms show ?thesis by (cases g) (auto intro: extends_intros)
next
  case (Intr g)
  with assms show ?thesis by (cases g) (auto intro: extends_intros)
qed simp

section \<open>Words\<close>

text \<open>
  A word that is not arrived counts nothing, a root does not arrive anywhere, and an arrived
  child names a shard that its parent has.
\<close>

definition node_word_ok :: "heap \<Rightarrow> nid \<Rightarrow> bool" where
  "node_word_ok h n \<longleftrightarrow>
     (case parent_of h n of
        None \<Rightarrow> \<not> arrived_bit (node_word h n)
      | Some p \<Rightarrow> unarrived_empty (node_word h n) \<and>
          (arrived_bit (node_word h n) \<longrightarrow> mid (node_word h n) < in_shards (node_at h p)))"

definition words_ok :: "heap \<Rightarrow> bool" where
  "words_ok h \<longleftrightarrow> (\<forall>n<n_nodes h. node_word_ok h n) \<and>
     (\<forall>s. valid_shard h s \<longrightarrow> unarrived_empty (shard_word h s))"

section \<open>Tokens\<close>

text \<open>
  While a count is on its way, the count that the words already hold belongs to no object
  but to the thread: a node counts a shard that is about to arrive, or that has departed and
  not yet told its node; a shard counts a child node that way, or a guard. \<open>held\<close> is what a
  thread owns when a frame is on top of its stack, \<open>yields\<close> what it owns when the frame has
  returned.
\<close>

datatype token = NodeToken nid | KidToken sid | LocalToken sid

definition unit_token :: "sid \<Rightarrow> u64 \<Rightarrow> token" where
  "unit_token s u = (if u = LOCAL_ONE then LocalToken s else KidToken s)"

fun held :: "frame \<Rightarrow> token option" where
  "held (Count (ShardArriveCommit s u st)) = Some (NodeToken (fst s))"
| "held (Count (NodeDepart n)) = Some (NodeToken n)"
| "held (Count (NodeArriveCommit n s st)) = Some (KidToken s)"
| "held (Count (ShardDepart s u)) = Some (KidToken s)"
| "held (Grd (GuardBuild s pin loc info dst)) = Some (LocalToken s)"
| "held (Grd (Provenance s loc (ToForShard i))) = Some (LocalToken s)"
| "held (Grd (ProvenanceRegister s loc info (ToForShard i))) = Some (LocalToken s)"
| "held (Grd (GuardDepart s pin)) = Some (LocalToken s)"
| "held _ = None"

fun yields :: "frame \<Rightarrow> token option" where
  "yields (Count (ShardArrive s u)) = Some (unit_token s u)"
| "yields (Count (ShardArriveLoop s u st)) = Some (unit_token s u)"
| "yields (Count (ShardArriveCommit s u st)) = Some (unit_token s u)"
| "yields (Count (NodeArrive n)) = Some (NodeToken n)"
| "yields (Count (NodeArriveLoop n st)) = Some (NodeToken n)"
| "yields (Count (NodeArriveCommit n s st)) = Some (NodeToken n)"
| "yields _ = None"

text \<open>The token owned at the head of a list of frames that ends with the token \<open>k\<close>.\<close>

fun entry :: "frame list \<Rightarrow> token option \<Rightarrow> token option" where
  "entry [] k = k"
| "entry (f # fs) k = held f"

fun chain :: "frame list \<Rightarrow> token option \<Rightarrow> bool" where
  "chain [] k \<longleftrightarrow> True"
| "chain (f # fs) k \<longleftrightarrow> yields f = entry fs k \<and> chain fs k"

lemma entry_append: "entry (gs @ fs) k = entry gs (entry fs k)"
  by (cases gs) auto

lemma chain_append: "chain (gs @ fs) k \<longleftrightarrow> chain gs (entry fs k) \<and> chain fs k"
  by (induction gs) (auto simp: entry_append)

definition plain_frame :: "frame \<Rightarrow> bool" where
  "plain_frame f \<longleftrightarrow> held f = None \<and> yields f = None"

lemma chain_plain: "\<forall>f \<in> set fs. plain_frame f \<Longrightarrow> chain fs None \<and> entry fs None = None"
  by (induction fs) (auto simp: plain_frame_def)

section \<open>Heaps with the same objects\<close>

text \<open>A step that changes no link, table or slab keeps the static invariant.\<close>

definition link_of :: "heap \<Rightarrow> nid \<Rightarrow> (nid \<times> nat) option" where
  "link_of h n = map_option (\<lambda>p. (p_node p, p_shard p)) (in_parent (node_at h n))"

definition same_nodes :: "heap \<Rightarrow> heap \<Rightarrow> bool" where
  "same_nodes h h' \<longleftrightarrow> n_nodes h' = n_nodes h \<and>
     (\<forall>n. in_shards (node_at h' n) = in_shards (node_at h n) \<and> link_of h' n = link_of h n) \<and>
     (\<forall>s. sh_node (shard_at h' s) = sh_node (shard_at h s) \<and>
        sh_root (shard_at h' s) = sh_root (shard_at h s))"

definition same_slabs :: "heap \<Rightarrow> heap \<Rightarrow> bool" where
  "same_slabs h h' \<longleftrightarrow>
     (\<forall>s. sh_children (shard_at h' s) = sh_children (shard_at h s) \<and>
        sh_waiters (shard_at h' s) = sh_waiters (shard_at h s))"

definition same_tables :: "heap \<Rightarrow> heap \<Rightarrow> bool" where
  "same_tables h h' \<longleftrightarrow> handle_at h' = handle_at h \<and> completion_at h' = completion_at h \<and>
     guard_at h' = guard_at h \<and> n_guards h' = n_guards h \<and>
     interrupt_at h' = interrupt_at h \<and> n_interrupts h' = n_interrupts h"

lemma parent_of_link: "parent_of h n = map_option fst (link_of h n)"
  by (simp add: parent_of_def link_of_def option.map_comp o_def)

lemma root_link: "in_parent (node_at h n) = None \<longleftrightarrow> link_of h n = None"
  by (simp add: link_of_def)

lemma node_ok_link:
  "node_ok h n \<longleftrightarrow> 0 < in_shards (node_at h n) \<and> in_shards (node_at h n) \<le> 256 \<and>
     (\<forall>p i. link_of h n = Some (p, i) \<longrightarrow> p < n \<and> i < in_shards (node_at h p))"
  by (auto simp: node_ok_def link_of_def)

lemma same_nodes_simps:
  assumes "same_nodes h h'"
  shows "n_nodes h' = n_nodes h" "valid_node h' n = valid_node h n"
    "valid_shard h' s = valid_shard h s" "node_ok h' n = node_ok h n"
    "parent_of h' n = parent_of h n" "extends h h'" "guard_ok h' g = guard_ok h g"
    "in_parent (node_at h' n) = None \<longleftrightarrow> in_parent (node_at h n) = None"
  using assms by (auto simp: same_nodes_def valid_node_def valid_shard_def node_ok_link
      parent_of_link extends_def guard_ok_def root_link)

lemma same_nodes_shard_ok:
  assumes "same_nodes h h'"
    and "sh_children (shard_at h' s) = sh_children (shard_at h s)"
    and "sh_waiters (shard_at h' s) = sh_waiters (shard_at h s)"
  shows "shard_ok h' s = shard_ok h s"
  using assms(2,3) same_nodes_simps [OF assms(1)] assms(1)
  by (simp add: shard_ok_def same_nodes_def)

lemma same_heap_ok:
  assumes "same_nodes h h'" "same_slabs h h'" "same_tables h h'"
  shows "heap_ok h' = heap_ok h"
proof -
  have "shard_ok h' s = shard_ok h s" for s
    using assms(2) by (intro same_nodes_shard_ok assms(1)) (simp_all add: same_slabs_def)
  then show ?thesis
    using assms(3) same_nodes_simps [OF assms(1)]
    by (simp add: heap_ok_def objects_ok_def same_tables_def)
qed

lemmas same_defs = same_nodes_def same_slabs_def same_tables_def link_of_def

text \<open>Changing the slabs of one shard.\<close>

lemma heap_ok_slabs:
  assumes ok: "heap_ok h" and same: "same_nodes h h'" "same_tables h h'"
    and slabs: "\<And>s. valid_shard h s \<Longrightarrow>
      slab_ok (sh_children (shard_at h' s)) \<and> slab_ok (sh_waiters (shard_at h' s)) \<and>
      (\<forall>c \<in> set (slab_values (sh_children (shard_at h' s))). c < n_nodes h)"
  shows "heap_ok h'"
proof -
  have "shard_ok h' s" if "valid_shard h s" for s
  proof -
    have "shard_ok h s" using ok that by (auto simp: heap_ok_def)
    then show ?thesis
      using slabs [OF that] same_nodes_simps [OF same(1)] same(1)
      by (simp add: shard_ok_def same_nodes_def)
  qed
  then show ?thesis
    using ok same(2) same_nodes_simps [OF same(1)]
    by (simp add: heap_ok_def objects_ok_def same_tables_def)
qed

text \<open>Changing the tables.\<close>

lemma heap_ok_tables:
  assumes ok: "heap_ok h" and same: "same_nodes h h'" "same_slabs h h'"
    and "\<And>x n. handle_at h' x = Some n \<Longrightarrow> valid_node h n"
    and "\<And>x n. completion_at h' x = Some n \<Longrightarrow> valid_node h n"
    and "\<And>g gd. guard_at h' g = Some gd \<Longrightarrow> g < n_guards h' \<and> guard_ok h gd"
    and "\<And>i it. interrupt_at h' i = Some it \<Longrightarrow> i < n_interrupts h' \<and> valid_shard h (it_shard it)"
  shows "heap_ok h'"
proof -
  have "shard_ok h' s = shard_ok h s" for s
    using same(2) by (intro same_nodes_shard_ok same(1)) (simp_all add: same_slabs_def)
  then show ?thesis
    using ok assms(4-) same_nodes_simps [OF same(1)]
    unfolding heap_ok_def objects_ok_def by simp
qed

lemma heap_okD:
  assumes "heap_ok h"
  shows "valid_shard h s \<Longrightarrow> shard_ok h s" "valid_node h n \<Longrightarrow> node_ok h n"
    "handle_at h x = Some n \<Longrightarrow> valid_node h n" "completion_at h c = Some n \<Longrightarrow> valid_node h n"
    "guard_at h g = Some gd \<Longrightarrow> g < n_guards h \<and> guard_ok h gd"
    "interrupt_at h i = Some it \<Longrightarrow> i < n_interrupts h \<and> valid_shard h (it_shard it)"
  using assms unfolding heap_ok_def objects_ok_def valid_node_def by blast+

lemma parent_valid:
  assumes "heap_ok h" "valid_node h n" "parent_of h n = Some p"
  shows "valid_node h p" "p < n" "in_shards (node_at h p) \<le> 256" "0 < in_shards (node_at h p)"
proof -
  have n: "p < n" "n < n_nodes h"
    using heap_okD(2) [OF assms(1,2)] assms(2,3)
    by (auto simp: node_ok_def parent_of_def valid_node_def)
  then show "valid_node h p" "p < n" by (simp_all add: valid_node_def)
  then show "in_shards (node_at h p) \<le> 256" "0 < in_shards (node_at h p)"
    using heap_okD(2) [OF assms(1), of p] by (simp_all add: node_ok_def)
qed

end
