(* ===== verification/Accounting.thy ===== *)
theory Accounting
  imports Structure
begin

text \<open>
  The accounting of the counting protocol. Every field of a packed word counts objects, or is
  owed to a thread that holds the token: a node's word counts its arrived shards, a shard's
  word the child nodes that arrived at it and its guards. A step moves counts, objects and
  tokens so that the three stay balanced.
\<close>

section \<open>Counts and their objects\<close>

fun valid_token :: "heap \<Rightarrow> token \<Rightarrow> bool" where
  "valid_token h (NodeToken n) \<longleftrightarrow> valid_node h n"
| "valid_token h (KidToken s) \<longleftrightarrow> valid_shard h s"
| "valid_token h (LocalToken s) \<longleftrightarrow> valid_shard h s"

fun counted :: "heap \<Rightarrow> token \<Rightarrow> nat" where
  "counted h (NodeToken n) = low (node_word h n)"
| "counted h (KidToken s) = mid (shard_word h s)"
| "counted h (LocalToken s) = low (shard_word h s)"

fun count_limit :: "token \<Rightarrow> nat" where
  "count_limit (KidToken s) = 2 ^ 30"
| "count_limit _ = 2 ^ 32"

definition shard_arrived :: "heap \<Rightarrow> sid \<Rightarrow> bool" where
  "shard_arrived h s \<longleftrightarrow> arrived_bit (shard_word h s)"

text \<open>A child node that arrived at its parent's shard \<open>s\<close>, and a guard of the shard \<open>s\<close>.\<close>

definition kid_of :: "heap \<Rightarrow> sid \<Rightarrow> nid \<Rightarrow> bool" where
  "kid_of h s c \<longleftrightarrow> parent_of h c = Some (fst s) \<and> arrived_bit (node_word h c) \<and>
     mid (node_word h c) = snd s"

definition guard_of :: "heap \<Rightarrow> sid \<Rightarrow> gid \<Rightarrow> bool" where
  "guard_of h s g \<longleftrightarrow> map_option gd_shard (guard_at h g) = Some s"

fun owned :: "heap \<Rightarrow> token \<Rightarrow> nat" where
  "owned h (NodeToken n) = tally (in_shards (node_at h n)) (\<lambda>i. shard_arrived h (n, i))"
| "owned h (KidToken s) = tally (n_nodes h) (kid_of h s)"
| "owned h (LocalToken s) = tally (n_guards h) (guard_of h s)"

text \<open>The balance of a step that takes the token \<open>a\<close> and leaves the token \<open>b\<close>.\<close>

definition balanced :: "heap \<Rightarrow> heap \<Rightarrow> token option \<Rightarrow> token option \<Rightarrow> bool" where
  "balanced h h' a b \<longleftrightarrow> (\<forall>k. valid_token h k \<longrightarrow>
     counted h' k + owned h k + of_bool (a = Some k) =
     counted h k + owned h' k + of_bool (b = Some k))"

text \<open>A new node counts nothing and nobody owes it anything.\<close>

definition fresh_clean :: "heap \<Rightarrow> heap \<Rightarrow> token option \<Rightarrow> bool" where
  "fresh_clean h h' b \<longleftrightarrow> (\<forall>k. valid_token h' k \<longrightarrow> \<not> valid_token h k \<longrightarrow>
     counted h' k = 0 \<and> owned h' k = 0 \<and> b \<noteq> Some k)"

text \<open>What a thread that executes the frame \<open>f\<close> may rely on: its token is counted, and one more
  of anything else fits into the field.\<close>

definition room :: "heap \<Rightarrow> frame \<Rightarrow> bool" where
  "room h f \<longleftrightarrow> (\<forall>k. valid_token h k \<longrightarrow>
     (if held f = Some k then 0 < counted h k else counted h k + 1 < count_limit k))"

definition step_sound :: "heap \<Rightarrow> frame \<Rightarrow> heap \<Rightarrow> frame list \<Rightarrow> bool" where
  "step_sound h f h' gs \<longleftrightarrow> extends h h' \<and> heap_ok h' \<and> words_ok h' \<and>
     (\<forall>g \<in> set gs. frame_ok h' g) \<and> chain gs (yields f) \<and>
     balanced h h' (held f) (entry gs (yields f)) \<and> fresh_clean h h' (entry gs (yields f))"

section \<open>Steps that move no count\<close>

definition same_counts :: "heap \<Rightarrow> heap \<Rightarrow> bool" where
  "same_counts h h' \<longleftrightarrow> n_guards h' = n_guards h \<and> guard_at h' = guard_at h \<and>
     (\<forall>n. low (node_word h' n) = low (node_word h n) \<and> mid (node_word h' n) = mid (node_word h n) \<and>
        arrived_bit (node_word h' n) = arrived_bit (node_word h n)) \<and>
     (\<forall>s. low (shard_word h' s) = low (shard_word h s) \<and> mid (shard_word h' s) = mid (shard_word h s) \<and>
        arrived_bit (shard_word h' s) = arrived_bit (shard_word h s))"

lemma same_counts_balanced:
  assumes "same_nodes h h'" "same_counts h h'"
  shows "balanced h h' a a"
proof -
  have "counted h' k = counted h k" "owned h' k = owned h k" for k
    using assms(2) same_nodes_simps [OF assms(1)] assms(1)
    by (cases k; simp add: same_counts_def shard_arrived_def kid_of_def guard_of_def
        same_nodes_def)+
  then show ?thesis by (simp add: balanced_def)
qed

lemma same_nodes_clean: "same_nodes h h' \<Longrightarrow> fresh_clean h h' b"
proof -
  assume "same_nodes h h'"
  then have "valid_token h' k = valid_token h k" for k
    by (cases k) (simp_all add: same_nodes_simps)
  then show ?thesis by (simp add: fresh_clean_def)
qed

lemma same_counts_words:
  assumes "same_nodes h h'" "same_counts h h'"
  shows "words_ok h' = words_ok h"
  using assms(2) same_nodes_simps [OF assms(1)] assms(1)
  by (simp add: words_ok_def node_word_ok_def unarrived_empty_def same_counts_def same_nodes_def
      split: option.split)

lemma sound_same_counts:
  assumes "same_nodes h h'" "same_counts h h'" "words_ok h" "heap_ok h'"
    and "\<forall>g \<in> set gs. frame_ok h' g" "chain gs (yields f)" "entry gs (yields f) = held f"
  shows "step_sound h f h' gs"
  using assms same_counts_balanced [OF assms(1,2)] same_counts_words [OF assms(1,2)]
    same_nodes_simps(6) [OF assms(1)] same_nodes_clean [OF assms(1)]
  by (simp add: step_sound_def)

abbreviation same_all :: "heap \<Rightarrow> heap \<Rightarrow> bool" where
  "same_all h h' \<equiv> same_nodes h h' \<and> same_slabs h h' \<and> same_tables h h' \<and> same_counts h h'"

lemma same_all_node:
  assumes "in_state (f (node_at h n)) = in_state (node_at h n)"
    "in_shards (f (node_at h n)) = in_shards (node_at h n)"
    "in_parent (f (node_at h n)) = in_parent (node_at h n)"
  shows "same_all h (upd_node n f h)"
  using assms by (simp add: same_defs same_counts_def)

lemma same_all_shard:
  assumes "sh_state (f (shard_at h s)) = sh_state (shard_at h s)"
    "sh_node (f (shard_at h s)) = sh_node (shard_at h s)"
    "sh_root (f (shard_at h s)) = sh_root (shard_at h s)"
    "sh_children (f (shard_at h s)) = sh_children (shard_at h s)"
    "sh_waiters (f (shard_at h s)) = sh_waiters (shard_at h s)"
  shows "same_all h (upd_shard s f h)"
  using assms by (simp add: same_defs same_counts_def)

lemma same_all_trans: "same_all h h' \<Longrightarrow> same_all h' h'' \<Longrightarrow> same_all h h''"
  by (simp add: same_defs same_counts_def)

text \<open>Most steps do not even touch a table or a slab.\<close>

lemma sound_same:
  assumes "same_all h h'"
    and "heap_ok h" "words_ok h"
    and "\<forall>g \<in> set gs. frame_ok h g" "chain gs (yields f)" "entry gs (yields f) = held f"
  shows "step_sound h f h' gs"
proof -
  have "extends h h'" using assms(1) same_nodes_simps(6) by blast
  then have "\<forall>g \<in> set gs. frame_ok h' g"
    using assms(2,4) frame_ok_extends by blast
  then show ?thesis
    using assms same_heap_ok by (intro sound_same_counts) auto
qed

section \<open>Changing one word\<close>

lemma tally_fun_upd:
  "i < n \<Longrightarrow> tally n (\<lambda>j. if j = i then b else P j) + of_bool (P i) = tally n P + of_bool b"
  using addup_change [of i n "\<lambda>j. of_bool (if j = i then b else P j)" "\<lambda>j. of_bool (P j)"] by simp

lemma owned_shard_word:
  assumes "valid_shard h s"
  shows "owned (set_shard_word s w h) k + of_bool (k = NodeToken (fst s) \<and> shard_arrived h s) =
    owned h k + of_bool (k = NodeToken (fst s) \<and> arrived_bit w)"
proof (cases "k = NodeToken (fst s)")
  case True
  obtain n i where s: "s = (n, i)" by (cases s)
  have "owned (set_shard_word s w h) k =
      tally (in_shards (node_at h n)) (\<lambda>j. if j = i then arrived_bit w else shard_arrived h (n, j))"
    by (auto simp: True s shard_arrived_def set_shard_word_def intro!: addup_cong)
  then show ?thesis
    using assms tally_fun_upd [of i "in_shards (node_at h n)" "arrived_bit w" "\<lambda>j. shard_arrived h (n, j)"]
    by (simp add: True s valid_shard_def)
next
  case False
  then have "owned (set_shard_word s w h) k = owned h k"
    by (cases k) (auto simp: shard_arrived_def kid_of_def guard_of_def parent_of_def
        set_shard_word_def intro!: addup_cong)
  with False show ?thesis by simp
qed

lemma owned_node_word:
  assumes "valid_node h n"
  shows "owned (set_node_word n w h) k + of_bool (\<exists>s. k = KidToken s \<and> kid_of h s n) =
    owned h k + of_bool (\<exists>s. k = KidToken s \<and> parent_of h n = Some (fst s) \<and> arrived_bit w \<and> mid w = snd s)"
proof (cases k)
  case (KidToken s)
  have "owned (set_node_word n w h) k = tally (n_nodes h) (\<lambda>c. if c = n
      then parent_of h n = Some (fst s) \<and> arrived_bit w \<and> mid w = snd s else kid_of h s c)"
    by (auto simp: KidToken kid_of_def parent_of_def set_node_word_def intro!: addup_cong)
  then show ?thesis
    using assms tally_fun_upd [of n "n_nodes h" _ "kid_of h s"]
    by (simp add: KidToken valid_node_def)
next
  case (NodeToken m)
  then show ?thesis by (auto simp: shard_arrived_def set_node_word_def intro!: addup_cong)
next
  case (LocalToken s)
  then show ?thesis by (auto simp: guard_of_def set_node_word_def intro!: addup_cong)
qed

lemma counted_shard_word:
  "counted (set_shard_word s w h) k =
     (if k = KidToken s then mid w else if k = LocalToken s then low w else counted h k)"
  by (cases k) auto

lemma counted_node_word:
  "counted (set_node_word n w h) k = (if k = NodeToken n then low w else counted h k)"
  by (cases k) auto

lemma same_set_shard_word:
  "same_nodes h (set_shard_word s w h)" "same_slabs h (set_shard_word s w h)"
  "same_tables h (set_shard_word s w h)"
  by (simp_all add: same_defs set_shard_word_def)

lemma same_set_node_word:
  "same_nodes h (set_node_word n w h)" "same_slabs h (set_node_word n w h)"
  "same_tables h (set_node_word n w h)"
  by (simp_all add: same_defs set_node_word_def)

lemma words_ok_set_shard_word:
  assumes "words_ok h" "unarrived_empty w"
  shows "words_ok (set_shard_word s w h)"
  using assms same_nodes_simps [OF same_set_shard_word(1) [of h s w]]
  by (auto simp: words_ok_def node_word_ok_def split: option.split)

lemma words_ok_set_node_word:
  assumes "words_ok h"
    and "case parent_of h n of None \<Rightarrow> \<not> arrived_bit w
       | Some p \<Rightarrow> unarrived_empty w \<and> (arrived_bit w \<longrightarrow> mid w < in_shards (node_at h p))"
  shows "words_ok (set_node_word n w h)"
  using assms same_nodes_simps [OF same_set_node_word(1) [of h n w]]
  by (auto simp: words_ok_def node_word_ok_def split: option.splits)

lemma sound_shard_word:
  assumes ok: "heap_ok h" "words_ok h" "valid_shard h s"
    and w: "unarrived_empty w"
    and frames: "\<forall>g \<in> set gs. frame_ok h g" "chain gs (yields f)"
    and kid: "mid w + of_bool (held f = Some (KidToken s)) =
      mid (shard_word h s) + of_bool (entry gs (yields f) = Some (KidToken s))"
    and local: "low w + of_bool (held f = Some (LocalToken s)) =
      low (shard_word h s) + of_bool (entry gs (yields f) = Some (LocalToken s))"
    and node: "of_bool (held f = Some (NodeToken (fst s))) + of_bool (shard_arrived h s) =
      of_bool (entry gs (yields f) = Some (NodeToken (fst s))) + (of_bool (arrived_bit w) :: nat)"
    and other: "\<And>k. k \<noteq> KidToken s \<Longrightarrow> k \<noteq> LocalToken s \<Longrightarrow> k \<noteq> NodeToken (fst s) \<Longrightarrow>
      held f = Some k \<longleftrightarrow> entry gs (yields f) = Some k"
  shows "step_sound h f (set_shard_word s w h) gs"
proof -
  note same = same_set_shard_word [of h s w]
  have "extends h (set_shard_word s w h)"
    by (rule same_nodes_simps(6) [OF same(1)])
  moreover have "balanced h (set_shard_word s w h) (held f) (entry gs (yields f))"
    unfolding balanced_def
  proof (intro allI impI)
    fix k
    note o = owned_shard_word [OF ok(3), of w k] and c = counted_shard_word [of s w h k]
    show "counted (set_shard_word s w h) k + owned h k + of_bool (held f = Some k) =
        counted h k + owned (set_shard_word s w h) k + of_bool (entry gs (yields f) = Some k)"
    proof (cases "k = NodeToken (fst s)")
      case True
      with o c node show ?thesis by (simp del: owned.simps)
    next
      case False
      with o have "owned (set_shard_word s w h) k = owned h k"
        by (simp del: owned.simps)
      with False c kid local other [of k] show ?thesis
        by (auto simp del: owned.simps)
    qed
  qed
  ultimately show ?thesis
    using ok frames words_ok_set_shard_word [OF ok(2) w, of s] frame_ok_extends same_heap_ok [OF same]
      same_nodes_clean [OF same(1)]
    unfolding step_sound_def by blast
qed

lemma sound_node_word:
  assumes ok: "heap_ok h" "words_ok h" "valid_node h n"
    and w: "case parent_of h n of None \<Rightarrow> \<not> arrived_bit w
       | Some p \<Rightarrow> unarrived_empty w \<and> (arrived_bit w \<longrightarrow> mid w < in_shards (node_at h p))"
    and frames: "\<forall>g \<in> set gs. frame_ok h g" "chain gs (yields f)"
    and node: "low w + of_bool (held f = Some (NodeToken n)) =
      low (node_word h n) + of_bool (entry gs (yields f) = Some (NodeToken n))"
    and kid: "\<And>s. of_bool (held f = Some (KidToken s)) + of_bool (kid_of h s n) =
      of_bool (entry gs (yields f) = Some (KidToken s)) +
      (of_bool (parent_of h n = Some (fst s) \<and> arrived_bit w \<and> mid w = snd s) :: nat)"
    and other: "\<And>k. k \<noteq> NodeToken n \<Longrightarrow> (\<And>s. k \<noteq> KidToken s) \<Longrightarrow>
      held f = Some k \<longleftrightarrow> entry gs (yields f) = Some k"
  shows "step_sound h f (set_node_word n w h) gs"
proof -
  note same = same_set_node_word [of h n w]
  have "extends h (set_node_word n w h)"
    by (rule same_nodes_simps(6) [OF same(1)])
  moreover have "balanced h (set_node_word n w h) (held f) (entry gs (yields f))"
    unfolding balanced_def
  proof (intro allI impI)
    fix k
    note o = owned_node_word [OF ok(3), of w k] and c = counted_node_word [of n w h k]
    show "counted (set_node_word n w h) k + owned h k + of_bool (held f = Some k) =
        counted h k + owned (set_node_word n w h) k + of_bool (entry gs (yields f) = Some k)"
    proof (cases "\<exists>s. k = KidToken s")
      case True
      then obtain s where "k = KidToken s" by blast
      with o c kid [of s] show ?thesis by (simp del: owned.simps)
    next
      case False
      with o have "owned (set_node_word n w h) k = owned h k"
        by (simp del: owned.simps)
      with False c node other [of k] show ?thesis
        by (auto simp del: owned.simps)
    qed
  qed
  ultimately show ?thesis
    using ok frames words_ok_set_node_word [OF ok(2) w] frame_ok_extends same_heap_ok [OF same]
      same_nodes_clean [OF same(1)]
    unfolding step_sound_def by blast
qed

section \<open>Counting\<close>

lemma unit_cases:
  assumes "unit_ok u"
  obtains "u = LOCAL_ONE" "unit_token s u = LocalToken s" | "u = KIDS_ONE" "unit_token s u = KidToken s"
  using assms by (auto simp: unit_ok_def unit_token_def)

lemma words_okD:
  assumes "words_ok h"
  shows "valid_shard h s \<Longrightarrow> unarrived_empty (shard_word h s)"
    "valid_node h n \<Longrightarrow> parent_of h n = Some p \<Longrightarrow> unarrived_empty (node_word h n)"
    "valid_node h n \<Longrightarrow> parent_of h n = Some p \<Longrightarrow> arrived_bit (node_word h n) \<Longrightarrow>
      mid (node_word h n) < in_shards (node_at h p)"
    "valid_node h n \<Longrightarrow> parent_of h n = None \<Longrightarrow> \<not> arrived_bit (node_word h n)"
  using assms by (fastforce simp: words_ok_def node_word_ok_def valid_node_def split: option.splits)+

lemma same_refl [simp]:
  "same_nodes h h" "same_slabs h h" "same_tables h h" "same_counts h h"
  by (simp_all add: same_defs same_counts_def)

lemma sound_unchanged:
  assumes "h' = h" "heap_ok h" "words_ok h" "\<forall>g \<in> set gs. frame_ok h g" "chain gs (yields f)"
    "entry gs (yields f) = held f"
  shows "step_sound h f h' gs"
  using assms by (intro sound_same) auto

lemma roomD:
  "room h f \<Longrightarrow> valid_token h k \<Longrightarrow> held f = Some k \<Longrightarrow> 0 < counted h k"
  "room h f \<Longrightarrow> valid_token h k \<Longrightarrow> held f \<noteq> Some k \<Longrightarrow> counted h k + 1 < count_limit k"
  by (auto simp: room_def)

lemma add_unit_sound:
  assumes ok: "heap_ok h" "words_ok h" "valid_shard h s" "unit_ok u" "room h f"
    and arrived: "arrived_bit (shard_word h s)"
    and frames: "\<forall>g \<in> set gs. frame_ok h g" "chain gs (yields f)"
    and tokens: "held f = None" "entry gs (yields f) = Some (unit_token s u)"
  shows "step_sound h f (set_shard_word s (shard_word h s + u) h) gs"
proof -
  have room: "low (shard_word h s) + 1 < 2 ^ 32" "mid (shard_word h s) + 1 < 2 ^ 30"
    using roomD(2) [OF ok(5), of "LocalToken s"] roomD(2) [OF ok(5), of "KidToken s"] ok(3) tokens(1)
    by simp_all
  from ok(4) show ?thesis
  proof (cases rule: unit_cases [where s = s])
    case 1
    then show ?thesis
      using arrived tokens ok(3) frames fields_add_local [OF room(1)]
      by (intro sound_shard_word ok) (auto simp: unarrived_empty_def shard_arrived_def)
  next
    case 2
    then show ?thesis
      using arrived tokens ok(3) frames fields_add_kids [OF room(2)]
      by (intro sound_shard_word ok) (auto simp: unarrived_empty_def shard_arrived_def)
  qed
qed

lemma shard_arrive_loop_sound:
  assumes step: "shard_arrive_loop sp s u st h = Next h' gs"
    and ok: "heap_ok h" "words_ok h" "frame_ok h (Count (ShardArriveLoop s u st))"
      "room h (Count (ShardArriveLoop s u st))"
  shows "step_sound h (Count (ShardArriveLoop s u st)) h' gs"
proof -
  have v: "valid_shard h s" "unit_ok u" "unarrived_empty st" "unarrived_empty (shard_word h s)"
    using ok words_okD(1) by auto
  show ?thesis
  proof (cases "arrived_bit st")
    case False
    with step v(3) have "h' = h" "gs = [Count (NodeArrive (fst s)), Count (ShardArriveCommit s u st)]"
      by (simp_all add: shard_arrive_loop_def arrived_test unarrived_test unarrived_empty_def)
    then show ?thesis
      using v False ok by (intro sound_unchanged)
        (auto simp: empty_unarrived_def unarrived_empty_def unit_token_def valid_shard_def valid_node_def)
  next
    case True
    show ?thesis
    proof (cases "shard_word h s = st \<and> \<not> sp")
      case True
      with step \<open>arrived_bit st\<close> have "h' = set_shard_word s (shard_word h s + u) h" "gs = []"
        by (auto simp: shard_arrive_loop_def arrived_test atomic_defs)
      then show ?thesis
        using v True \<open>arrived_bit st\<close> ok by (auto intro!: add_unit_sound)
    next
      case False
      with step \<open>arrived_bit st\<close> have "h' = h" "gs = [Count (ShardArriveLoop s u (shard_word h s))]"
        by (auto simp: shard_arrive_loop_def arrived_test atomic_defs)
      then show ?thesis
        using v ok by (intro sound_unchanged) auto
    qed
  qed
qed

lemma shard_arrive_commit_sound:
  assumes step: "shard_arrive_commit s u st h = Next h' gs"
    and ok: "heap_ok h" "words_ok h" "frame_ok h (Count (ShardArriveCommit s u st))"
      "room h (Count (ShardArriveCommit s u st))"
  shows "step_sound h (Count (ShardArriveCommit s u st)) h' gs"
proof -
  let ?w = "st OR ARRIVED OR u"
  have v: "valid_shard h s" "unit_ok u" "empty_unarrived st" "unarrived_empty (shard_word h s)"
    using ok words_okD(1) by auto
  show ?thesis
  proof (cases "shard_word h s = st")
    case True
    with step have h': "h' = set_shard_word s ?w h" "gs = []"
      by (auto simp: shard_arrive_commit_def atomic_defs)
    from v(2) show ?thesis
      unfolding h' using v(1,3) True
      by (cases rule: unit_cases [where s = s])
        (intro sound_shard_word ok; auto simp: empty_unarrived_def unarrived_empty_def
          shard_arrived_def word_fields)+
  next
    case False
    with step have "h' = h"
      "gs = [Count (NodeDepart (fst s)), Count (ShardArriveLoop s u (shard_word h s))]"
      by (auto simp: shard_arrive_commit_def atomic_defs)
    then show ?thesis
      using v ok by (intro sound_unchanged) (auto simp: valid_shard_def valid_node_def)
  qed
qed

lemma shard_depart_local_sound:
  assumes ok: "heap_ok h" "words_ok h" "valid_shard h s" "room h f"
    and tokens: "held f = Some (LocalToken s)" "yields f = None"
    and w: "shard_depart LOCAL_ONE (shard_word h s) = (w, emptied)"
    and gs: "\<forall>g \<in> set gs. frame_ok h g \<and> plain_frame g"
  shows "step_sound h f (set_shard_word s w h) gs"
proof -
  have "0 < low (shard_word h s)"
    using roomD(1) [OF ok(4), of "LocalToken s"] ok(3) tokens(1) by simp
  with w tokens gs ok(3) show ?thesis
    using words_okD(1) [OF ok(2,3)] chain_plain [of gs]
    by (intro sound_shard_word ok)
      (auto simp: shard_depart_def unarrived_empty_def shard_arrived_def word_fields)
qed

lemma shard_depart_sound:
  assumes step: "shard_depart_flush s u h = Next h' gs"
    and ok: "heap_ok h" "words_ok h" "frame_ok h (Count (ShardDepart s u))"
      "room h (Count (ShardDepart s u))"
  shows "step_sound h (Count (ShardDepart s u)) h' gs"
proof -
  have v: "valid_shard h s" "u = KIDS_ONE" "unarrived_empty (shard_word h s)"
    using ok words_okD(1) by auto
  have "0 < mid (shard_word h s)"
    using roomD(1) [OF ok(4), of "KidToken s"] v(1) by simp
  with step v show ?thesis
    by (auto simp: shard_depart_flush_def shard_depart_def intro!: sound_shard_word ok)
      (auto simp: unarrived_empty_def shard_arrived_def word_fields split: if_splits)
qed

lemma shard_flush_sound:
  assumes step: "shard_flush s h = Next h' gs"
    and ok: "heap_ok h" "words_ok h" "frame_ok h (Count (ShardFlush s))"
  shows "step_sound h (Count (ShardFlush s)) h' gs"
proof (cases "shard_word h s = ARRIVED OR STOPPED")
  case True
  with step have h': "h' = set_shard_word s STOPPED h" "gs = [Count (NodeDepart (fst s))]"
    by (auto simp: shard_flush_def atomic_defs)
  have "arrived_bit (shard_word h s)" "low (shard_word h s) = 0" "mid (shard_word h s) = 0"
    by (simp_all add: True word_fields)
  with ok(3) show ?thesis
    unfolding h' by (intro sound_shard_word ok)
      (auto simp: unarrived_empty_def shard_arrived_def valid_shard_def valid_node_def)
next
  case False
  with step have "h' = h" "gs = []"
    by (auto simp: shard_flush_def atomic_defs)
  with ok show ?thesis by (intro sound_unchanged) auto
qed

lemma node_arrive_sound:
  assumes step: "node_arrive n h = Next h' gs"
    and ok: "heap_ok h" "words_ok h" "frame_ok h (Count (NodeArrive n))" "room h (Count (NodeArrive n))"
  shows "step_sound h (Count (NodeArrive n)) h' gs"
proof (cases "in_parent (node_at h n)")
  case None
  with step have h': "h' = set_node_word n (node_word h n + LOCAL_ONE) h" "gs = []"
    by (simp_all add: node_arrive_def one_LOCAL_ONE)
  have "low (node_word h n) + 1 < 2 ^ 32"
    using roomD(2) [OF ok(4), of "NodeToken n"] ok(3) by simp
  note w = fields_add_local [OF this]
  have p: "parent_of h n = None" "\<not> arrived_bit (node_word h n)"
    using None words_okD(4) [OF ok(2), of n] ok(3) by (simp_all add: parent_of_def)
  show ?thesis
    unfolding h' using p ok(3) w by (intro sound_node_word ok) (auto simp: kid_of_def)
next
  case (Some p)
  with step have "h' = h" "gs = [Count (NodeArriveLoop n (node_word h n))]"
    by (auto simp: node_arrive_def)
  with ok Some words_okD(2) [OF ok(2), of n] show ?thesis
    by (intro sound_unchanged) (auto simp: parent_of_def)
qed

text \<open>Looking up the thread's shard changes nothing but the thread's index.\<close>

lemma thread_index_same:
  assumes "thread_index t h = (h', w)"
  shows "same_all h h'"
  using assms
  by (cases "index_of h t = of_nat usize_max")
    (auto simp: thread_index_def Let_def same_defs same_counts_def)

lemma shard_index_same:
  assumes "shard_index t n h = (h', i)"
  shows "same_all h h'"
    "heap_ok h \<Longrightarrow> valid_node h n \<Longrightarrow> i < in_shards (node_at h n)"
proof -
  show "same_all h h'"
    using assms thread_index_same by (auto simp: shard_index_def split: prod.splits)
  then have "in_shards (node_at h' n) = in_shards (node_at h n)"
    by (simp add: same_nodes_def)
  moreover assume "heap_ok h" "valid_node h n"
  then have "0 < in_shards (node_at h n)" "in_shards (node_at h n) < 2 ^ 64"
    using heap_okD(2) [of h n] by (fastforce simp: node_ok_def)+
  ultimately show "i < in_shards (node_at h n)"
    using assms unat_and_pred by (auto simp: shard_index_def split: prod.splits)
qed

lemma same_frames:
  "same_nodes h h' \<Longrightarrow> heap_ok h \<Longrightarrow> frame_ok h f \<Longrightarrow> frame_ok h' f"
  using same_nodes_simps(6) frame_ok_extends by blast

lemma node_arrive_loop_sound:
  assumes step: "node_arrive_loop t sp n st h = Next h' gs"
    and ok: "heap_ok h" "words_ok h" "frame_ok h (Count (NodeArriveLoop n st))"
      "room h (Count (NodeArriveLoop n st))"
  shows "step_sound h (Count (NodeArriveLoop n st)) h' gs"
proof -
  from step obtain p where p: "in_parent (node_at h n) = Some p"
    by (auto simp: node_arrive_loop_def split: option.splits)
  then have n: "parent_of h n = Some (p_node p)" "valid_node h n" "unarrived_empty st"
    using ok(3) by (auto simp: parent_of_def)
  have w: "unarrived_empty (node_word h n)"
    using words_okD(2) [OF ok(2) n(2,1)] .
  have room: "low (node_word h n) + 1 < 2 ^ 32"
    using roomD(2) [OF ok(4), of "NodeToken n"] n(2) by simp
  show ?thesis
  proof (cases "arrived_bit st")
    case False
    obtain h1 i where h1: "shard_index t (p_node p) h = (h1, i)" by fastforce
    note same = shard_index_same [OF h1]
    have v: "valid_node h (p_node p)" using parent_valid(1) [OF ok(1) n(2,1)] .
    then have i: "i < in_shards (node_at h1 (p_node p))"
      using same ok(1) by (auto simp: same_nodes_def)
    then have s: "valid_shard h (p_node p, i)"
      using v same(1) by (auto simp: same_nodes_def valid_shard_def valid_node_def)
    from step False n(3) p h1 i have "h' = h1" "gs = [Count (ShardArrive (p_node p, i) KIDS_ONE),
        Count (NodeArriveCommit n (p_node p, i) st)]"
      by (auto simp: node_arrive_loop_def arrived_test unarrived_test unarrived_empty_def shard_ref_def
          split: if_splits)
    with same(1) ok n s False show ?thesis
      by (intro sound_same) (auto simp: unit_ok_def unit_token_def empty_unarrived_def unarrived_empty_def)
  next
    case True
    show ?thesis
    proof (cases "node_word h n = st \<and> \<not> sp")
      case True
      with step p \<open>arrived_bit st\<close>
      have h': "h' = set_node_word n (node_word h n + LOCAL_ONE) h" "gs = []"
        by (auto simp: node_arrive_loop_def arrived_test atomic_defs one_LOCAL_ONE)
      have "arrived_bit (node_word h n)" using True \<open>arrived_bit st\<close> by simp
      with n words_okD(3) [OF ok(2) n(2,1)] show ?thesis
        unfolding h' using fields_add_local [OF room]
        by (intro sound_node_word ok) (auto simp: unarrived_empty_def kid_of_def)
    next
      case False
      with step p \<open>arrived_bit st\<close> have "h' = h" "gs = [Count (NodeArriveLoop n (node_word h n))]"
        by (auto simp: node_arrive_loop_def arrived_test atomic_defs)
      with ok n w show ?thesis by (intro sound_unchanged) auto
    qed
  qed
qed

lemma arrived_node_word:
  assumes "empty_unarrived st" "i < 256"
  defines "w \<equiv> st OR ARRIVED OR push_bit PARENT_SHARD_SHIFT (of_nat i) OR 1"
  shows "low w = 1" "mid w = i" "arrived_bit w" "stopped_bit w = stopped_bit st"
proof -
  have i: "i < 2 ^ 16" using assms(2) by simp
  show "low w = 1" "mid w = i" "arrived_bit w" "stopped_bit w = stopped_bit st"
    using assms(1) fields_shift [OF i]
    by (simp_all add: w_def fields_or PARENT_SHARD_SHIFT_def empty_unarrived_def)
qed

lemma node_arrive_commit_sound:
  assumes step: "node_arrive_commit n s st h = Next h' gs"
    and ok: "heap_ok h" "words_ok h" "frame_ok h (Count (NodeArriveCommit n s st))"
      "room h (Count (NodeArriveCommit n s st))"
  shows "step_sound h (Count (NodeArriveCommit n s st)) h' gs"
proof -
  have n: "parent_of h n = Some (fst s)" "valid_node h n" "valid_shard h s" "empty_unarrived st"
    using ok(3) by auto
  have w: "unarrived_empty (node_word h n)"
    using words_okD(2) [OF ok(2) n(2,1)] .
  have i: "snd s < 256" "snd s < in_shards (node_at h (fst s))"
    using n(3) parent_valid(3) [OF ok(1) n(2,1)] by (auto simp: valid_shard_def)
  let ?w = "st OR ARRIVED OR push_bit PARENT_SHARD_SHIFT (of_nat (snd s)) OR 1"
  note fields = arrived_node_word [OF n(4) i(1)]
  show ?thesis
  proof (cases "node_word h n = st")
    case True
    with step have h': "h' = set_node_word n ?w h" "gs = []"
      by (auto simp: node_arrive_commit_def atomic_defs Let_def)
    show ?thesis
      unfolding h' using n(1,2,4) i fields True
      by (cases s; intro sound_node_word ok)
        (auto simp: kid_of_def unarrived_empty_def empty_unarrived_def)
  next
    case False
    with step have "h' = h"
      "gs = [Count (ShardDepart s KIDS_ONE), Count (NodeArriveLoop n (node_word h n))]"
      by (auto simp: node_arrive_commit_def atomic_defs Let_def)
    with ok n w show ?thesis by (intro sound_unchanged) auto
  qed
qed

lemma node_depart_sound:
  assumes step: "node_depart n h = Next h' gs"
    and ok: "heap_ok h" "words_ok h" "frame_ok h (Count (NodeDepart n))" "room h (Count (NodeDepart n))"
  shows "step_sound h (Count (NodeDepart n)) h' gs"
proof -
  let ?w = "node_word h n - LOCAL_ONE"
  have n: "valid_node h n" using ok(3) by simp
  have "0 < low (node_word h n)"
    using roomD(1) [OF ok(4), of "NodeToken n"] n by simp
  note w = fields_sub_local [OF this]
  have child: "arrived_bit (node_word h n) \<and> mid (node_word h n) < in_shards (node_at h p)"
    if "parent_of h n = Some p" for p
    using that n words_okD(2,3) [OF ok(2) n that] \<open>0 < low (node_word h n)\<close>
    by (auto simp: unarrived_empty_def)
  have h': "h' = set_node_word n ?w h"
    and gs: "gs = (if low ?w \<noteq> 0 then [] else if stopped_bit ?w then [Count (NodeDepartNotify n ?w)]
      else [Count (NodeDepartRelease n ?w)])"
    using step by (auto simp: node_depart_def one_LOCAL_ONE count_test stopped_test Let_def split: if_splits)
  have "\<forall>g \<in> set gs. frame_ok h g" "chain gs None" "entry gs None = None"
    using n child w by (auto simp: gs emptied_child_def)
  moreover have "kid_of h s n \<longleftrightarrow> parent_of h n = Some (fst s) \<and> arrived_bit ?w \<and> mid ?w = snd s" for s
    using w by (simp add: kid_of_def)
  ultimately show ?thesis
    unfolding h' using n child w words_okD(4) [OF ok(2) n] \<open>0 < low (node_word h n)\<close>
    by (intro sound_node_word ok) (auto simp: unarrived_empty_def split: option.split)
qed

lemma node_depart_notify_sound:
  assumes step: "node_depart_notify n st h = Next h' gs"
    and ok: "heap_ok h" "words_ok h" "frame_ok h (Count (NodeDepartNotify n st))"
  shows "step_sound h (Count (NodeDepartNotify n st)) h' gs"
  using assms same_all_node [of "in_zero_notified_update Suc" h n] by (intro sound_same)
    (auto simp: node_depart_notify_def notify_zero_def simp del: upd_node_def)

lemma node_depart_release_sound:
  assumes step: "node_depart_release n st h = Next h' gs"
    and ok: "heap_ok h" "words_ok h" "frame_ok h (Count (NodeDepartRelease n st))"
  shows "step_sound h (Count (NodeDepartRelease n st)) h' gs"
proof (cases "in_parent (node_at h n) = None \<or> node_word h n \<noteq> st")
  case True
  with step have "h' = h" "gs = []"
    by (auto simp: node_depart_release_def atomic_defs split: option.splits if_splits)
  with ok show ?thesis by (intro sound_unchanged) auto
next
  case False
  then obtain p where p: "in_parent (node_at h n) = Some p" "node_word h n = st" by auto
  with ok(3) have n: "valid_node h n" "parent_of h n = Some (p_node p)" "low st = 0" "arrived_bit st"
    "mid st < in_shards (node_at h (p_node p))"
    by (auto simp: parent_of_def emptied_child_def)
  note v = parent_valid [OF ok(1) n(1,2)]
  let ?s = "(p_node p, mid st)"
  have "mid st < 2 ^ 16" using n(5) v(3) by simp
  then have i: "unat (drop_bit PARENT_SHARD_SHIFT st AND PARENT_SHARD_MASK) = mid st"
    unfolding parent_shard_mask by (rule mod_less)
  from step p n have h': "h' = set_node_word n (st AND STOPPED) h"
    and gs: "gs = [Count (ShardDepart ?s KIDS_ONE)]"
    unfolding node_depart_release_def i by (auto simp: atomic_defs shard_ref_def arrived_test)
  have "valid_shard h ?s" using n(5) v(1) by (simp add: valid_shard_def valid_node_def)
  then show ?thesis
    unfolding h' using n p(2)
    by (intro sound_node_word ok) (auto simp: gs unarrived_empty_def kid_of_def fields_and)
qed

lemma count_sound:
  assumes "count_step t sp c h = Next h' gs" "heap_ok h" "words_ok h" "frame_ok h (Count c)"
    "room h (Count c)"
  shows "step_sound h (Count c) h' gs"
proof (cases c)
  case (ShardArrive s u)
  with assms show ?thesis
    using words_okD(1) [of h s] by (intro sound_unchanged) (auto simp: shard_arrive_def)
qed (use assms in \<open>simp add: shard_arrive_loop_sound shard_arrive_commit_sound
    node_arrive_sound node_arrive_loop_sound node_arrive_commit_sound shard_depart_sound
    shard_flush_sound node_depart_sound node_depart_notify_sound node_depart_release_sound
    del: frame_ok.simps\<close>)+

end
