(* ===== verification/Preservation.thy ===== *)
theory Preservation
  imports Accounting
begin

text \<open>
  The remaining operations keep the static invariant and the balance of the counts: stopping,
  lifetimes, guards, handles and interrupts. With the counting protocol this gives one
  theorem about every step of a thread, \<open>exec_sound\<close>.
\<close>

lemma sound_plain:
  assumes "same_all h h'" "heap_ok h" "words_ok h" "plain_frame f"
    and "\<forall>g \<in> set gs. plain_frame g \<and> frame_ok h g"
  shows "step_sound h f h' gs"
  using assms chain_plain [of gs] by (intro sound_same) (auto simp: plain_frame_def)

lemma sound_slabs:
  assumes "same_nodes h h'" "same_tables h h'" "same_counts h h'" "heap_ok h" "words_ok h"
    and "plain_frame f" "\<forall>g \<in> set gs. plain_frame g \<and> frame_ok h g"
    and "\<And>s. valid_shard h s \<Longrightarrow>
      slab_ok (sh_children (shard_at h' s)) \<and> slab_ok (sh_waiters (shard_at h' s)) \<and>
      (\<forall>c \<in> set (slab_values (sh_children (shard_at h' s))). c < n_nodes h)"
  shows "step_sound h f h' gs"
  using assms heap_ok_slabs [OF assms(4,1,2,8)] chain_plain [of gs] same_frames [OF assms(1,4)]
  by (intro sound_same_counts) (auto simp: plain_frame_def)

lemma shard_slabs:
  assumes "heap_ok h" "valid_shard h s"
  shows "slab_ok (sh_children (shard_at h s))" "slab_ok (sh_waiters (shard_at h s))"
    "\<forall>c \<in> set (slab_values (sh_children (shard_at h s))). c < n_nodes h"
  using heap_okD(1) [OF assms] by (auto simp: shard_ok_def)

text \<open>Setting the stop bit changes no count.\<close>

lemma same_stop_bit:
  "same_all h (set_shard_word s (shard_word h s OR STOPPED) h)"
  "same_all h (set_node_word n (node_word h n OR STOPPED) h)"
  by (simp_all add: same_set_shard_word same_set_node_word same_counts_def fields_or)
    (simp_all add: set_shard_word_def set_node_word_def)

lemma same_arc_clone: "same_all h (arc_clone n h)"
  unfolding arc_clone_def by (rule same_all_node) simp_all

lemma same_lock:
  "same_all h (lock_acquire t s h)" "same_all h (lock_release s h)"
  unfolding lock_acquire_def lock_release_def by (rule same_all_shard; simp)+

lemma weak_upgrade_Some:
  "weak_upgrade n h = Some (h', m) \<longleftrightarrow> in_strong (node_at h n) \<noteq> 0 \<and> h' = arc_clone n h \<and> m = n"
  by (auto simp: weak_upgrade_def)

section \<open>Stopping\<close>

lemma stop_shards_frames:
  "valid_node h n \<Longrightarrow> g \<in> set (stop_shards n h) \<Longrightarrow> plain_frame g \<and> frame_ok h g"
  by (auto simp: stop_shards_def plain_frame_def valid_shard_def valid_node_def)

lemma node_stop_sound:
  assumes "node_stop n h = Next h' gs" "heap_ok h" "words_ok h" "valid_node h n"
  shows "step_sound h (Stop (NodeStop n)) h' gs"
proof (rule sound_plain [OF _ assms(2,3)])
  have s: "stop_shards n (set_node_word n w h) = stop_shards n h" for w
    by (simp add: stop_shards_def)
  show "same_all h h'"
    using assms(1) same_stop_bit(2) [of h n] by (auto simp: node_stop_def Let_def split: if_splits)
  show "\<forall>g \<in> set gs. plain_frame g \<and> frame_ok h g"
    using assms(1,4) stop_shards_frames [OF assms(4)]
    by (auto simp: node_stop_def Let_def s plain_frame_def split: if_splits)
qed (simp add: plain_frame_def)

lemma shard_drain_sound:
  assumes "shard_drain s w h = Next h' gs" "heap_ok h" "words_ok h" "valid_shard h s"
  shows "step_sound h (Stop (ShardDrain s w)) h' gs"
proof (rule sound_slabs [OF _ _ _ assms(2,3)])
  have h': "h' = upd_shard s (sh_waiters_update (\<lambda>_. slab_default)) h"
    and gs: "gs = [Stop (ShardWake s w (slab_into_values (sh_waiters (shard_at h s))))]"
    using assms(1) by (auto simp: shard_drain_def simp del: upd_shard_def)
  show "same_nodes h h'" "same_tables h h'" "same_counts h h'"
    by (simp_all add: h' same_defs same_counts_def)
  show "slab_ok (sh_children (shard_at h' s')) \<and> slab_ok (sh_waiters (shard_at h' s')) \<and>
      (\<forall>c \<in> set (slab_values (sh_children (shard_at h' s'))). c < n_nodes h)"
    if "valid_shard h s'" for s'
    using shard_slabs [OF assms(2) that] slab_ok_default by (auto simp: h')
  show "\<forall>g \<in> set gs. plain_frame g \<and> frame_ok h g"
    using assms(4) by (simp add: gs plain_frame_def)
qed (simp add: plain_frame_def)

lemma stop_sound:
  assumes "stop_step t c h = Next h' gs" "heap_ok h" "words_ok h" "frame_ok h (Stop c)"
  shows "step_sound h (Stop c) h' gs"
proof (cases c)
  case (ShardStop s)
  with assms same_stop_bit(1) [of h s] show ?thesis
    by (intro sound_plain) (auto simp: shard_stop_def plain_frame_def Let_def)
next
  case (ShardWake s w ws)
  with assms show ?thesis
    by (cases ws; intro sound_plain)
      (auto simp: plain_frame_def same_defs same_counts_def split: if_splits)
next
  case (StopNotify n)
  with assms same_all_node [of "in_stop_notified_update Suc" h n] show ?thesis
    by (intro sound_plain) (auto simp: stop_notify_def plain_frame_def simp del: upd_node_def)
next
  case (StopZero n w)
  with assms same_all_node [of "in_zero_notified_update Suc" h n] show ?thesis
    by (intro sound_plain)
      (auto simp: stop_zero_def notify_zero_def plain_frame_def simp del: upd_node_def)
next
  case (StopChildren n i live)
  with assms same_lock(1) [of h t "(n, i)"] shard_slabs(3) [OF assms(2), of "(n, i)"] show ?thesis
    by (intro sound_plain)
      (auto simp: stop_children_def plain_frame_def valid_shard_def valid_node_def split: if_splits)
next
  case (StopUpgrade n i cs live)
  with assms same_lock(2) [of h "(n, i)"] show ?thesis
    by (cases cs; intro sound_plain)
      (auto simp: plain_frame_def valid_shard_def valid_node_def same_refl
        weak_upgrade_Some same_arc_clone split: option.splits)
qed (use assms node_stop_sound shard_drain_sound in auto)

section \<open>Lifetimes\<close>

text \<open>A new node.\<close>

definition link_ok :: "heap \<Rightarrow> parent option \<Rightarrow> bool" where
  "link_ok h link \<longleftrightarrow>
     (\<forall>p. link = Some p \<longrightarrow> p_node p < n_nodes h \<and> p_shard p < in_shards (node_at h (p_node p)))"

lemma alloc_node_extends:
  assumes "alloc_node link k rep h = (h', n)"
  shows "extends h h'" "n = n_nodes h" "n_nodes h' = Suc n" "valid_node h' n"
    "parent_of h' n = map_option p_node link"
    "valid_shard h' s \<longleftrightarrow> valid_shard h s \<or> (fst s = n \<and> snd s < k)"
  using assms by (cases "fst s = n_nodes h"; auto simp: alloc_node_def Let_def extends_def
      parent_of_def valid_node_def valid_shard_def inner_new_def)+

lemma alloc_node_heap_ok:
  assumes a: "alloc_node link k rep h = (h', n)" and ok: "heap_ok h" "link_ok h link" "0 < k" "k \<le> 256"
  shows "heap_ok h'"
proof -
  note e = alloc_node_extends [OF a]
  have node: "node_at h' = (node_at h)(n := inner_new link k)"
    and shard: "shard_at h' = (\<lambda>s. if fst s = n then shard_new n (link = None) rep else shard_at h s)"
    and tables: "same_tables h h'"
    using a by (auto simp: alloc_node_def Let_def same_defs)
  have "node_ok h' m" if "m < Suc n" for m
  proof (cases "m = n")
    case True
    then show ?thesis
      using ok e(2) by (auto simp: node_ok_def node inner_new_def link_ok_def)
  next
    case False
    then have "node_ok h m" "m < n" using that heap_okD(2) [OF ok(1), of m] e(2) by (auto simp: valid_node_def)
    then show ?thesis by (auto simp: node_ok_def node)
  qed
  moreover have "shard_ok h' s" if "valid_shard h' s" for s
  proof (cases "fst s = n")
    case True
    then show ?thesis
      using slab_ok_default by (auto simp: shard_ok_def shard node shard_new_def inner_new_def
          slab_default_def slab_values_def List.map_filter_def)
  next
    case False
    then have "shard_ok h s" using that e(6) heap_okD(1) [OF ok(1)] by auto
    then show ?thesis using False e(2,3) by (auto simp: shard_ok_def shard node)
  qed
  moreover have "objects_ok h'"
    using ok(1) tables valid_node_extends [OF e(1)] valid_shard_extends [OF e(1)]
    by (auto simp: heap_ok_def objects_ok_def same_tables_def guard_ok_def)
  ultimately show ?thesis by (auto simp: heap_ok_def e)
qed

lemma alloc_node_words:
  assumes a: "alloc_node link k rep h = (h', n)" and ok: "heap_ok h" "words_ok h"
  shows "words_ok h'" "balanced h h' b b"
proof -
  note e = alloc_node_extends [OF a]
  have node: "node_at h' = (node_at h)(n := inner_new link k)"
    and shard: "shard_at h' = (\<lambda>s. if fst s = n then shard_new n (link = None) rep else shard_at h s)"
    and guards: "guard_at h' = guard_at h" "n_guards h' = n_guards h"
    using a by (auto simp: alloc_node_def Let_def same_defs)
  have "node_word_ok h' m" if "m < Suc n" for m
  proof (cases "m = n")
    case True
    then show ?thesis
      by (auto simp: node_word_ok_def node inner_new_def unarrived_empty_def split: option.split)
  next
    case False
    with that e(2) have m: "valid_node h m" by (simp add: valid_node_def)
    then have "parent_of h' m = parent_of h m" "node_word h' m = node_word h m"
      using parent_of_extends [OF e(1)] False by (auto simp: node)
    moreover have "in_shards (node_at h' p) = in_shards (node_at h p)" if "parent_of h m = Some p" for p
      using parent_valid(1) [OF ok(1) m that] e(2) by (auto simp: node valid_node_def)
    ultimately show ?thesis
      using ok(2) m by (auto simp: words_ok_def node_word_ok_def valid_node_def split: option.split)
  qed
  moreover have "unarrived_empty (shard_word h' s)" if "valid_shard h' s" for s
    using that ok(2) e(6) by (auto simp: words_ok_def shard shard_new_def unarrived_empty_def)
  ultimately show "words_ok h'" by (simp add: words_ok_def e)
  show "balanced h h' b b"
    unfolding balanced_def
  proof (intro allI impI)
    fix t
    assume t: "valid_token h t"
    have "counted h' t = counted h t"
      using t e(2) by (cases t) (auto simp: node shard valid_node_def valid_shard_def)
    moreover have "owned h' t = owned h t"
    proof (cases t)
      case (KidToken s)
      have "kid_of h' s c \<longleftrightarrow> kid_of h s c" if "c < n" for c
        using that parent_of_extends [OF e(1), of c] e(2) by (auto simp: kid_of_def node valid_node_def)
      moreover have "\<not> kid_of h' s n"
        by (simp add: kid_of_def node inner_new_def)
      ultimately show ?thesis by (simp add: KidToken e(2,3))
    qed (use t e(2) in \<open>auto simp: shard_arrived_def guard_of_def node shard guards valid_node_def
          intro!: addup_cong\<close>)
    ultimately show "counted h' t + owned h t + of_bool (b = Some t) =
        counted h t + owned h' t + of_bool (b = Some t)" by simp
  qed
qed

lemma alloc_node_clean:
  assumes a: "alloc_node link k rep h = (h', n)" and ok: "heap_ok h"
  shows "fresh_clean h h' None"
proof -
  note e = alloc_node_extends [OF a]
  have node: "node_at h' = (node_at h)(n := inner_new link k)"
    and shard: "shard_at h' = (\<lambda>s. if fst s = n then shard_new n (link = None) rep else shard_at h s)"
    and guards: "guard_at h' = guard_at h" "n_guards h' = n_guards h"
    using a by (auto simp: alloc_node_def Let_def same_defs)
  have kid: "\<not> kid_of h' s c" if "fst s = n" "c < Suc n" for s c
  proof (cases "c = n")
    case False
    then have "valid_node h c" using that e(2) by (simp add: valid_node_def)
    then show ?thesis
      using parent_of_extends [OF e(1)] parent_valid(1) [OF ok] that e(2)
      by (auto simp: kid_of_def valid_node_def)
  qed (simp add: kid_of_def node inner_new_def)
  have guard: "\<not> guard_of h' s g" if "fst s = n" for s g
    using heap_okD(5) [OF ok, of g] that e(2)
    by (auto simp: guard_of_def guards guard_ok_def valid_shard_def)
  show ?thesis
    unfolding fresh_clean_def
  proof (intro allI impI)
    fix t
    assume "valid_token h' t" "\<not> valid_token h t"
    then show "counted h' t = 0 \<and> owned h' t = 0 \<and> None \<noteq> Some t"
      using kid guard e(2,3,6)
      by (cases t) (auto simp: valid_node_def node shard inner_new_def shard_new_def
          shard_arrived_def addup_eq_0_iff)
  qed
qed

lemma sound_alloc_node:
  assumes a: "alloc_node link k rep h = (h', n)"
    and ok: "heap_ok h" "words_ok h" "link_ok h link" "0 < k" "k \<le> 256"
    and f: "plain_frame f" "\<forall>g \<in> set gs. plain_frame g \<and> frame_ok h' g"
  shows "step_sound h f h' gs"
  using alloc_node_extends(1) [OF a] alloc_node_heap_ok [OF a ok(1,3-5)]
    alloc_node_words [OF a ok(1,2)] alloc_node_clean [OF a ok(1)] f chain_plain [of gs]
  by (auto simp: step_sound_def plain_frame_def)

text \<open>A step may first do something that changes nothing of interest.\<close>

lemma step_sound_after:
  assumes same: "same_all h h1" and ok: "heap_ok h" and step: "step_sound h1 f h' gs"
  shows "step_sound h f h' gs"
proof -
  have n: "same_nodes h h1" using same by blast
  have tokens: "valid_token h1 k = valid_token h k" for k
    by (cases k) (simp_all add: same_nodes_simps [OF n])
  have "counted h1 k = counted h k \<and> owned h1 k = owned h k" for k
    using same same_nodes_simps [OF n]
    by (cases k; simp add: same_counts_def shard_arrived_def kid_of_def guard_of_def same_nodes_def)
  then show ?thesis
    using step tokens extends_trans [OF same_nodes_simps(6) [OF n]]
    by (simp add: step_sound_def balanced_def fresh_clean_def)
qed

lemma child_new_sound:
  assumes step: "child_new t n h = Next h' gs" and ok: "heap_ok h" "words_ok h" "valid_node h n"
  shows "step_sound h (Life (ChildNew n)) h' gs"
proof -
  obtain h1 i where h1: "shard_index t n h = (h1, i)" by fastforce
  let ?h2 = "arc_clone n h1"
  let ?link = "Some \<lparr>p_node = n, p_shard = i, p_key = usize_max\<rparr>"
  obtain c where c: "alloc_node ?link 1 (keeps_guard_report n ?h2) ?h2 = (h', c)"
    and gs: "gs = [Life (ChildRegister c)]"
    using step h1 by (auto simp: child_new_def Let_def split: prod.splits)
  have same: "same_all h ?h2"
    using same_all_trans shard_index_same(1) [OF h1] same_arc_clone by blast
  have i: "n < n_nodes ?h2" "i < in_shards (node_at ?h2 n)"
    using same ok shard_index_same(2) [OF h1 ok(1,3)] by (auto simp: same_nodes_def valid_node_def)
  have "heap_ok ?h2" "words_ok ?h2"
    using same same_heap_ok same_counts_words ok by blast+
  then have "step_sound ?h2 (Life (ChildNew n)) h' gs"
    using i alloc_node_extends(4,5) [OF c]
    by (intro sound_alloc_node [OF c]) (auto simp: link_ok_def plain_frame_def gs)
  then show ?thesis by (rule step_sound_after [OF same ok(1)])
qed

lemma set_child_slab_sound:
  assumes ok: "heap_ok h" "words_ok h" "valid_shard h s"
    and slab: "slab_ok cs" "set (slab_values cs) \<subseteq> insert c (set (slab_values (sh_children (shard_at h s))))"
      "valid_node h c"
    and f: "plain_frame f" "\<forall>g \<in> set gs. plain_frame g \<and> frame_ok h g"
  shows "step_sound h f (upd_shard s (sh_children_update (\<lambda>_. cs)) h) gs"
proof (rule sound_slabs [OF _ _ _ ok(1,2) f])
  fix s'
  assume v: "valid_shard h s'"
  have cs: "\<forall>c \<in> set (slab_values cs). c < n_nodes h"
    using slab(2,3) shard_slabs(3) [OF ok(1,3)] by (auto simp: valid_node_def)
  show "slab_ok (sh_children (shard_at (upd_shard s (sh_children_update (\<lambda>_. cs)) h) s')) \<and>
      slab_ok (sh_waiters (shard_at (upd_shard s (sh_children_update (\<lambda>_. cs)) h) s')) \<and>
      (\<forall>c \<in> set (slab_values (sh_children (shard_at (upd_shard s (sh_children_update (\<lambda>_. cs)) h) s'))).
        c < n_nodes h)"
    using shard_slabs [OF ok(1) v] cs slab(1) by (cases "s' = s") simp_all
qed (simp_all add: same_defs same_counts_def)

lemma parent_shard_valid:
  assumes "heap_ok h" "valid_node h n" "in_parent (node_at h n) = Some p"
  shows "valid_shard h (p_node p, p_shard p)" "valid_node h (p_node p)"
proof -
  have "parent_of h n = Some (p_node p)" using assms(3) by (simp add: parent_of_def)
  then show "valid_node h (p_node p)" using parent_valid(1) [OF assms(1,2)] by blast
  then show "valid_shard h (p_node p, p_shard p)"
    using heap_okD(2) [OF assms(1,2)] assms(3) by (auto simp: node_ok_def valid_shard_def valid_node_def)
qed

lemma child_register_sound:
  assumes step: "child_register c h = Next h' gs" and ok: "heap_ok h" "words_ok h" "valid_node h c"
  shows "step_sound h (Life (ChildRegister c)) h' gs"
proof -
  from step obtain p cs k where p: "in_parent (node_at h c) = Some p"
    and i: "slab_insert (sh_children (shard_at h (p_node p, p_shard p))) c = Some (cs, k)"
    and h': "h' = upd_shard (p_node p, p_shard p) (sh_children_update (\<lambda>_. cs)) h"
    and gs: "gs = [Life (ChildStoreKey c k)]"
    by (auto simp: child_register_def Let_def simp del: upd_shard_def split: option.splits)
  note s = parent_shard_valid(1) [OF ok(1,3) p]
  note slab = shard_slabs(1) [OF ok(1) s]
  show ?thesis
    unfolding h' using slab.insert_ok [OF slab i] slab.values_insert [OF slab i] p ok(3)
    by (intro set_child_slab_sound [OF ok(1,2) s]) (auto simp: gs plain_frame_def parent_of_def)
qed

lemma deregister_sound:
  assumes step: "deregister n h = Next h' gs" and ok: "heap_ok h" "words_ok h" "valid_node h n"
  shows "step_sound h (Life (Deregister n)) h' gs"
proof (cases "\<exists>p. in_parent (node_at h n) = Some p \<and> p_key p \<noteq> usize_max")
  case False
  with step have "h' = h" "gs = []"
    by (auto simp: deregister_def split: option.splits if_splits)
  then show ?thesis using ok by (intro sound_plain) (auto simp: plain_frame_def)
next
  case True
  then obtain p where p: "in_parent (node_at h n) = Some p" "p_key p \<noteq> usize_max" by blast
  obtain cs v where r: "slab_remove (sh_children (shard_at h (p_node p, p_shard p))) (p_key p) = (cs, v)"
    by fastforce
  have h': "h' = upd_shard (p_node p, p_shard p) (sh_children_update (\<lambda>_. cs)) h" and gs: "gs = []"
    using step by (simp_all add: deregister_def p Let_def r split: option.splits)
  note s = parent_shard_valid(1) [OF ok(1,3) p(1)]
  note slab = shard_slabs(1) [OF ok(1) s]
  show ?thesis
    unfolding h'
  proof (rule set_child_slab_sound [OF ok(1,2) s _ _ ok(3)])
    show "slab_ok cs"
      using slab.remove_ok [OF slab, of "p_key p"] by (simp add: r)
    show "set (slab_values cs) \<subseteq> insert n (set (slab_values (sh_children (shard_at h (p_node p, p_shard p)))))"
      using slab.values_removed [of "sh_children (shard_at h (p_node p, p_shard p))" "p_key p"]
      by (auto simp: r)
  qed (simp_all add: gs plain_frame_def)
qed

lemma sound_tables:
  assumes same: "same_nodes h h'" "same_slabs h h'" "same_counts h h'" and ok: "heap_ok h" "words_ok h"
    and f: "plain_frame f" "\<forall>g \<in> set gs. plain_frame g \<and> frame_ok h g"
    and tables: "\<And>x n. handle_at h' x = Some n \<Longrightarrow> valid_node h n"
      "\<And>x n. completion_at h' x = Some n \<Longrightarrow> valid_node h n"
      "\<And>i it. interrupt_at h' i = Some it \<Longrightarrow> i < n_interrupts h' \<and> valid_shard h (it_shard it)"
  shows "step_sound h f h' gs"
proof -
  have "heap_ok h'"
  proof (rule heap_ok_tables [OF ok(1) same(1,2)])
    show "g < n_guards h' \<and> guard_ok h gd" if "guard_at h' g = Some gd" for g gd
      using same(3) that heap_okD(5) [OF ok(1)] by (simp add: same_counts_def)
  qed (use tables in blast)+
  then show ?thesis
    using f chain_plain [of gs] same_frames [OF same(1) ok(1)]
    by (intro sound_same_counts same ok) (auto simp: plain_frame_def)
qed

lemma alloc_handle_sound:
  assumes "heap_ok h" "words_ok h" "valid_node h n" "plain_frame f"
    "\<forall>g \<in> set gs. plain_frame g \<and> frame_ok h g"
  shows "step_sound h f (alloc_handle n h) gs"
  using assms heap_okD(3,4,6) [OF assms(1)]
  by (intro sound_tables) (auto simp: alloc_handle_def same_defs same_counts_def split: if_splits)

lemma drop_arc_sound:
  assumes step: "drop_arc n h = Next h' gs" and ok: "heap_ok h" "words_ok h" "valid_node h n"
  shows "step_sound h (Life (DropArc n)) h' gs"
proof (rule sound_plain [OF _ ok(1,2)])
  define h1 where "h1 = upd_node n (in_strong_update (\<lambda>k. k - 1)) h"
  have same: "same_all h h1" unfolding h1_def by (rule same_all_node) simp_all
  have h1: "stop_shards n h1 = stop_shards n h" "in_parent (node_at h1 n) = in_parent (node_at h n)"
    by (simp_all add: stop_shards_def h1_def)
  note def = drop_arc_def [folded h1_def, of n h, unfolded Let_def, folded h1_def]
  show "same_all h h'"
    using step same by (auto simp: def split: if_splits)
  define fs where "fs = stop_shards n h @ [Life (Deregister n)] @
    (case in_parent (node_at h n) of None \<Rightarrow> [] | Some link \<Rightarrow> [Life (DropArc (p_node link))])"
  have "\<forall>g \<in> set fs. plain_frame g \<and> frame_ok h g"
    using ok(3) parent_shard_valid(2) [OF ok(1,3)] stop_shards_frames [OF ok(3)]
    by (auto simp: fs_def plain_frame_def split: option.splits)
  moreover have "gs = [] \<or> gs = fs"
    using step by (simp add: def h1 fs_def split: if_splits)
  ultimately show "\<forall>g \<in> set gs. plain_frame g \<and> frame_ok h g" by auto
qed (simp add: plain_frame_def)

lemma life_sound:
  assumes "life_step t c h = Next h' gs" "heap_ok h" "words_ok h" "frame_ok h (Life c)"
  shows "step_sound h (Life c) h' gs"
proof (cases c)
  case (DropArc n)
  with assms drop_arc_sound show ?thesis by simp
next
  case (ChildStoreKey n k)
  let ?h = "upd_node n (in_parent_update (map_option (p_key_update (\<lambda>_. k)))) h"
  have "same_all h ?h"
    by (simp add: same_defs same_counts_def option.map_comp o_def)
  moreover have "h' = ?h" "gs = [Life (ChildCheck n)]"
    using assms(1) by (simp_all add: ChildStoreKey child_store_key_def)
  ultimately show ?thesis
    using assms by (intro sound_plain) (auto simp: ChildStoreKey plain_frame_def)
next
  case (ChildCheck n)
  with assms show ?thesis
    by (intro sound_plain) (auto simp: child_check_def plain_frame_def same_refl split: option.splits)
next
  case (ChildReturn n)
  with assms show ?thesis
    by (auto simp: child_return_def plain_frame_def intro!: alloc_handle_sound)
qed (use assms deregister_sound child_new_sound child_register_sound in auto)

section \<open>Guards\<close>

text \<open>Changing the guard table changes what the local counts count.\<close>

lemma owned_guards:
  assumes "node_at h' = node_at h" "shard_at h' = shard_at h" "n_nodes h' = n_nodes h"
  shows "owned h' (NodeToken n) = owned h (NodeToken n)" "owned h' (KidToken s) = owned h (KidToken s)"
    "counted h' k = counted h k"
proof -
  show "owned h' (NodeToken n) = owned h (NodeToken n)" "owned h' (KidToken s) = owned h (KidToken s)"
    using assms by (simp_all add: shard_arrived_def kid_of_def parent_of_def)
  show "counted h' k = counted h k" using assms by (cases k) simp_all
qed

lemma sound_guard_table:
  assumes mem: "node_at h' = node_at h" "shard_at h' = shard_at h" "n_nodes h' = n_nodes h"
    and ok: "heap_ok h" "words_ok h"
    and heap: "heap_ok h'" and frames: "\<forall>g \<in> set gs. frame_ok h g" "chain gs (yields f)"
    and local: "\<And>s. valid_shard h s \<Longrightarrow> owned h (LocalToken s) + of_bool (held f = Some (LocalToken s)) =
      owned h' (LocalToken s) + of_bool (entry gs (yields f) = Some (LocalToken s))"
    and other: "\<And>k. \<forall>s. k \<noteq> LocalToken s \<Longrightarrow> held f = Some k \<longleftrightarrow> entry gs (yields f) = Some k"
  shows "step_sound h f h' gs"
proof -
  have same: "same_nodes h h'" using mem by (simp add: same_defs)
  have "balanced h h' (held f) (entry gs (yields f))"
    unfolding balanced_def
  proof (intro allI impI)
    fix k
    assume "valid_token h k"
    then show "counted h' k + owned h k + of_bool (held f = Some k) =
        counted h k + owned h' k + of_bool (entry gs (yields f) = Some k)"
      using owned_guards [OF mem] other [of k] local
      by (cases k) (simp_all del: owned.simps counted.simps)
  qed
  moreover have "words_ok h'"
    using ok(2) mem same_nodes_simps [OF same]
    by (auto simp: words_ok_def node_word_ok_def split: option.splits)
  ultimately show ?thesis
    using heap frames same_nodes_simps(6) [OF same] same_nodes_clean [OF same] same_frames [OF same ok(1)]
    by (simp add: step_sound_def)
qed

lemma owned_local_alloc:
  assumes "guard_at h' = (guard_at h)(n_guards h \<mapsto> g)" "n_guards h' = Suc (n_guards h)"
  shows "owned h' (LocalToken s) = owned h (LocalToken s) + of_bool (gd_shard g = s)"
proof -
  have "owned h' (LocalToken s) = tally (n_guards h) (guard_of h' s) + of_bool (guard_of h' s (n_guards h))"
    by (simp add: assms(2))
  also have "tally (n_guards h) (guard_of h' s) = owned h (LocalToken s)"
    by (auto simp: guard_of_def assms(1) intro!: addup_cong)
  finally show ?thesis by (simp add: guard_of_def assms(1))
qed

lemma owned_local_remove:
  assumes "guard_at h' = (guard_at h)(g := None)" "n_guards h' = n_guards h" "g < n_guards h"
    "guard_at h g = Some gd"
  shows "owned h' (LocalToken s) + of_bool (gd_shard gd = s) = owned h (LocalToken s)"
  using addup_change [OF assms(3), of "\<lambda>x. of_bool (guard_of h' s x)" "\<lambda>x. of_bool (guard_of h s x)"]
  by (simp add: guard_of_def assms(1,2,4))

lemma heap_ok_alloc_guard:
  assumes ok: "heap_ok h" and g: "alloc_guard g h = (h', k)" "guard_ok h g"
  shows "heap_ok h'"
  using g heap_okD(3-6) [OF ok]
  by (intro heap_ok_tables [OF ok, of h']) (auto simp: alloc_guard_def same_defs less_Suc_eq split: if_splits)

lemma heap_ok_set_interrupt:
  assumes ok: "heap_ok h" and i: "interrupt_at h i = Some it" "it_shard it' = it_shard it"
  shows "heap_ok (set_interrupt i it' h)"
  using i heap_okD(3-6) [OF ok]
  by (intro heap_ok_tables [OF ok]) (auto simp: same_defs split: if_splits)

lemma guard_build_sound:
  assumes step: "guard_build s pin loc info dst h = Next h' gs"
    and ok: "heap_ok h" "words_ok h" "frame_ok h (Grd (GuardBuild s pin loc info dst))"
  shows "step_sound h (Grd (GuardBuild s pin loc info dst)) h' gs"
proof -
  define h1 where "h1 = (case pin of None \<Rightarrow> h | Some n \<Rightarrow> arc_clone n h)"
  let ?g = "\<lparr>gd_shard = s, gd_pin = pin, gd_location = loc, gd_info = info\<rparr>"
  obtain h2 g where h2: "alloc_guard ?g h1 = (h2, g)" by fastforce
  have same: "same_all h h1" using same_arc_clone by (auto simp: h1_def same_refl split: option.split)
  have ok1: "heap_ok h1" "words_ok h1"
    using same same_heap_ok same_counts_words ok by blast+
  have "guard_ok h1 ?g"
    using ok(3) same same_nodes_simps(3) [of h h1 s] by (auto simp: guard_ok_def pin_ok_def)
  then have ok2: "heap_ok h2" by (rule heap_ok_alloc_guard [OF ok1(1) h2])
  have tables: "node_at h2 = node_at h1" "shard_at h2 = shard_at h1" "n_nodes h2 = n_nodes h1"
    "guard_at h2 = (guard_at h1)(n_guards h1 \<mapsto> ?g)" "n_guards h2 = Suc (n_guards h1)"
    using h2 by (auto simp: alloc_guard_def)
  have h': "node_at h' = node_at h2 \<and> shard_at h' = shard_at h2 \<and> n_nodes h' = n_nodes h2 \<and>
      guard_at h' = guard_at h2 \<and> n_guards h' = n_guards h2 \<and> heap_ok h' \<and>
      (\<forall>f \<in> set gs. plain_frame f \<and> frame_ok h1 f)"
  proof (cases "\<exists>i it. dst = Some i \<and> interrupt_at h2 i = Some it")
    case True
    then obtain i it where i: "dst = Some i" "interrupt_at h2 i = Some it" by blast
    with step h2 have "h' = set_interrupt i (it\<lparr>it_guard := Some g\<rparr>) h2"
      and "gs = (case it_guard it of None \<Rightarrow> [] | Some g' \<Rightarrow> [Grd (GuardDrop g')])"
      by (auto simp: guard_build_def Let_def h1_def)
    with heap_ok_set_interrupt [OF ok2 i(2)] show ?thesis
      by (auto simp: plain_frame_def split: option.splits)
  next
    case False
    with step h2 have "h' = h2" "gs = []"
      by (auto simp: guard_build_def Let_def h1_def split: option.splits)
    with ok2 show ?thesis by simp
  qed
  have "step_sound h1 (Grd (GuardBuild s pin loc info dst)) h' gs"
  proof (rule sound_guard_table [OF _ _ _ ok1])
    show "owned h1 (LocalToken s') + of_bool (held (Grd (GuardBuild s pin loc info dst)) = Some (LocalToken s'))
        = owned h' (LocalToken s') +
          of_bool (entry gs (yields (Grd (GuardBuild s pin loc info dst))) = Some (LocalToken s'))" for s'
      using owned_local_alloc [of h' h1 ?g s'] h' tables chain_plain [of gs]
      by (simp del: owned.simps)
  qed (use h' tables chain_plain [of gs] in auto)
  then show ?thesis by (rule step_sound_after [OF same ok(1)])
qed

lemma guard_drop_sound:
  assumes step: "guard_drop g h = Next h' gs" and ok: "heap_ok h" "words_ok h"
  shows "step_sound h (Grd (GuardDrop g)) h' gs"
proof -
  from step obtain gd where gd: "guard_at h g = Some gd"
    and h': "h' = h\<lparr>guard_at := (guard_at h)(g := None)\<rparr>"
    and gs: "gs = [Grd (GuardDepart (gd_shard gd) (gd_pin gd))] @
       (case gd_pin gd of None \<Rightarrow> [] | Some n \<Rightarrow> [Life (DropArc n)]) @
       (case gd_info gd of None \<Rightarrow> [] | Some a \<Rightarrow> [Grd (DropInfo a)])"
    by (auto simp: guard_drop_def split: option.splits)
  have g: "g < n_guards h" "guard_ok h gd" using heap_okD(5) [OF ok(1) gd] by auto
  then have pin: "valid_shard h (gd_shard gd)" "pin_ok (gd_shard gd) (gd_pin gd)"
    "\<And>n. gd_pin gd = Some n \<Longrightarrow> valid_node h n"
    by (auto simp: guard_ok_def pin_ok_def valid_shard_def valid_node_def)
  have "heap_ok h'"
    using heap_okD(3-6) [OF ok(1)]
    by (intro heap_ok_tables [OF ok(1)]) (auto simp: h' same_defs split: if_splits)
  moreover have "chain gs None" "entry gs None = Some (LocalToken (gd_shard gd))"
    "\<forall>f \<in> set gs. frame_ok h f"
    using pin by (auto simp: gs split: option.splits)
  moreover have "owned h (LocalToken s) = owned h' (LocalToken s) + of_bool (gd_shard gd = s)" for s
    using owned_local_remove [of h' h g gd s] g(1) gd by (simp add: h' del: owned.simps)
  ultimately show ?thesis
    by (intro sound_guard_table ok) (auto simp: h' simp del: owned.simps)
qed

lemma provenance_return_ok:
  assumes "valid_shard h s" "provenance_ok s to"
  shows "\<forall>g \<in> set (provenance_return s loc info to h0). frame_ok h g"
    "chain (provenance_return s loc info to h0) None"
    "entry (provenance_return s loc info to h0) None = held (Grd (Provenance s loc to))"
    "held (Grd (ProvenanceRegister s loc a to)) = held (Grd (Provenance s loc to))"
    "yields (Grd (ProvenanceRegister s loc a to)) = None" "yields (Grd (Provenance s loc to)) = None"
  using assms by (cases to; auto simp: unit_ok_def unit_token_def pin_ok_def)+

lemma provenance_sound:
  assumes step: "provenance s loc to h = Next h' gs"
    and ok: "heap_ok h" "words_ok h" "frame_ok h (Grd (Provenance s loc to))"
  shows "step_sound h (Grd (Provenance s loc to)) h' gs"
proof -
  have same: "same_all h h1" if "alloc_info i h = (h1, a)" for i h1 a
    using that by (auto simp: alloc_info_def same_defs same_counts_def)
  show ?thesis
    using step ok same provenance_return_ok [of h s to]
    by (intro sound_same) (auto simp: provenance_def same_refl split: if_splits prod.splits dest: same)
qed

lemma provenance_register_sound:
  assumes step: "provenance_register s loc a to h = Next h' gs"
    and ok: "heap_ok h" "words_ok h" "frame_ok h (Grd (ProvenanceRegister s loc a to))"
  shows "step_sound h (Grd (ProvenanceRegister s loc a to)) h' gs"
proof -
  have same: "same_all h (upd_shard s (sh_guards_update f) h)" for f
    by (rule same_all_shard) simp_all
  show ?thesis
    using step ok same provenance_return_ok [of h s to]
    by (intro sound_same)
      (auto simp: provenance_register_def Let_def simp del: upd_shard_def)
qed

lemma arrive_if_arrived_sound:
  assumes step: "arrive_if_arrived sp s loc i st h = Next h' gs"
    and ok: "heap_ok h" "words_ok h" "frame_ok h (Grd (ArriveIfArrived s loc i st))"
      "room h (Grd (ArriveIfArrived s loc i st))"
  shows "step_sound h (Grd (ArriveIfArrived s loc i st)) h' gs"
proof (cases "shard_word h s = st \<and> \<not> sp \<and> arrived_bit st")
  case True
  with step have "h' = set_shard_word s (shard_word h s + LOCAL_ONE) h"
    "gs = [Grd (Provenance s loc (ToForShard i))]"
    by (auto simp: arrive_if_arrived_def arrived_test atomic_defs)
  with True ok show ?thesis
    by (auto intro!: add_unit_sound simp: unit_ok_def unit_token_def)
next
  case False
  with step have "h' = h" "\<forall>g \<in> set gs. plain_frame g \<and> (g = Grd (GuardUpgrade s loc i) \<or>
      g = Grd (ArriveIfArrived s loc i (shard_word h s)))"
    by (auto simp: arrive_if_arrived_def arrived_test atomic_defs plain_frame_def split: if_splits)
  with ok show ?thesis
    by (intro sound_plain) (auto simp: same_refl plain_frame_def)
qed

lemma guard_clone_arrive_sound:
  assumes step: "guard_clone_arrive s pin loc info h = Next h' gs"
    and ok: "heap_ok h" "words_ok h" "frame_ok h (Grd (GuardCloneArrive s pin loc info))"
      "room h (Grd (GuardCloneArrive s pin loc info))"
  shows "step_sound h (Grd (GuardCloneArrive s pin loc info)) h' gs"
proof -
  have "arrived_bit (shard_word h s)" "h' = set_shard_word s (shard_word h s + LOCAL_ONE) h"
    "gs = [Grd (GuardBuild s pin loc info None)]"
    using step by (auto simp: guard_clone_arrive_def Let_def arrived_test split: if_splits)
  with ok show ?thesis
    by (auto intro!: add_unit_sound simp: unit_ok_def unit_token_def)
qed

lemma guard_depart_sound:
  assumes step: "guard_depart s pin h = Next h' gs"
    and ok: "heap_ok h" "words_ok h" "frame_ok h (Grd (GuardDepart s pin))"
      "room h (Grd (GuardDepart s pin))"
  shows "step_sound h (Grd (GuardDepart s pin)) h' gs"
proof -
  obtain w e where w: "shard_depart LOCAL_ONE (shard_word h s) = (w, e)" by fastforce
  with step have "h' = set_shard_word s w h"
    and gs: "gs = (if \<not> e then [] else (case pin of Some _ \<Rightarrow> [Count (ShardFlush s)]
      | None \<Rightarrow> [Grd (GuardFlushWeak s)]))"
    by (auto simp: guard_depart_def)
  with ok w show ?thesis
    by (auto intro!: shard_depart_local_sound simp: plain_frame_def gs split: if_splits option.splits)
qed

lemma guard_sound:
  assumes "guard_step t sp c h = Next h' gs" "heap_ok h" "words_ok h" "frame_ok h (Grd c)"
    "room h (Grd c)"
  shows "step_sound h (Grd c) h' gs"
proof (cases c)
  case (GuardAtLocation n loc dst)
  obtain h1 i where h1: "shard_index t n h = (h1, i)" by fastforce
  with assms show ?thesis
    using shard_index_same [OF h1]
    by (intro sound_plain)
      (auto simp: GuardAtLocation guard_at_location_def inner_shard_def plain_frame_def
        valid_shard_def valid_node_def)
next
  case (GuardForShard s loc i)
  with assms show ?thesis
    by (intro sound_plain) (auto simp: guard_for_shard_def plain_frame_def same_refl split: if_splits)
next
  case (GuardUpgrade s loc i)
  with assms have "valid_node h (sh_node (shard_at h s))"
    using heap_okD(1) [OF assms(2), of s] by (auto simp: shard_ok_def valid_shard_def valid_node_def)
  with assms GuardUpgrade show ?thesis
    by (intro sound_plain) (auto simp: guard_upgrade_def plain_frame_def same_refl
        weak_upgrade_Some same_arc_clone split: option.splits)
next
  case (GuardFlushWeak s)
  with assms have "valid_node h (sh_node (shard_at h s))"
    using heap_okD(1) [OF assms(2), of s] by (auto simp: shard_ok_def valid_shard_def valid_node_def)
  with assms GuardFlushWeak show ?thesis
    by (intro sound_plain) (auto simp: guard_flush_weak_def plain_frame_def same_refl
        weak_upgrade_Some same_arc_clone split: option.splits)
next
  case (DropInfo a)
  with assms show ?thesis
    by (intro sound_plain) (auto simp: drop_info_def plain_frame_def same_defs same_counts_def)
qed (use assms in \<open>simp add: provenance_sound provenance_register_sound guard_build_sound
    arrive_if_arrived_sound guard_clone_arrive_sound guard_drop_sound guard_depart_sound
    del: frame_ok.simps\<close>)+

section \<open>Handles and interrupts\<close>

lemma swan_sound:
  assumes "swan_step t c h = Next h' gs" "heap_ok h" "words_ok h" "frame_ok h (Swan c)"
  shows "step_sound h (Swan c) h' gs"
proof (cases c)
  case (HandleClone n)
  have "same_all h (upd_node n (in_swansong_count_update Suc) h)"
    by (rule same_all_node) simp_all
  with HandleClone assms show ?thesis
    by (intro sound_plain) (auto simp: swansong_clone_def plain_frame_def simp del: upd_node_def)
next
  case (HandleCloneArc n)
  note same = same_arc_clone [of h n]
  have ok: "heap_ok (arc_clone n h)" "words_ok (arc_clone n h)" "valid_node (arc_clone n h) n"
    using same same_heap_ok same_counts_words same_nodes_simps(2) assms HandleCloneArc by fastforce+
  have "step_sound (arc_clone n h) (Swan c) h' gs"
    using assms(1) ok by (auto simp: HandleCloneArc swansong_clone_arc_def plain_frame_def
        intro!: alloc_handle_sound)
  then show ?thesis by (rule step_sound_after [OF same assms(2)])
next
  case (HandleDrop n)
  have "same_all h (upd_node n (in_swansong_count_update (\<lambda>k. k - 1)) h)"
    by (rule same_all_node) simp_all
  with HandleDrop assms show ?thesis
    by (intro sound_plain)
      (auto simp: handle_drop_def swansong_drop_def plain_frame_def simp del: upd_node_def)
next
  case (CompletionNew n)
  note same = same_arc_clone [of h n]
  have ok: "heap_ok (arc_clone n h)" "words_ok (arc_clone n h)" "valid_node (arc_clone n h) n"
    using same same_heap_ok same_counts_words same_nodes_simps(2) assms CompletionNew by fastforce+
  have "step_sound (arc_clone n h) (Swan c) (alloc_completion n (arc_clone n h)) []"
    using ok heap_okD(3,4,6) [OF ok(1)]
    by (intro sound_tables) (auto simp: CompletionNew plain_frame_def alloc_completion_def same_defs
        same_counts_def split: if_splits)
  then have "step_sound (arc_clone n h) (Swan c) h' gs"
    using assms(1) by (simp add: CompletionNew completion_new_def)
  then show ?thesis by (rule step_sound_after [OF same assms(2)])
next
  case (InterruptNew n)
  obtain h1 i where h1: "shard_index t n h = (h1, i)" by fastforce
  note same = shard_index_same(1) [OF h1]
  have ok: "heap_ok h1" "words_ok h1"
    using same same_heap_ok same_counts_words assms(2,3) by blast+
  have s: "valid_shard h1 (n, i)"
    using shard_index_same(2) [OF h1 assms(2)] same assms(4) InterruptNew
    by (auto simp: valid_shard_def valid_node_def same_nodes_def)
  let ?h = "alloc_interrupt (stop_listener_new (n, i)) h1"
  have "step_sound h1 (Swan c) ?h []"
    using ok s heap_okD(3,4,6) [OF ok(1)]
    by (intro sound_tables) (auto simp: InterruptNew plain_frame_def alloc_interrupt_def same_defs
        same_counts_def stop_listener_new_def less_Suc_eq split: if_splits)
  then have "step_sound h1 (Swan c) h' gs"
    using assms(1) h1 by (simp add: InterruptNew interrupt_new_def inner_shard_def)
  then show ?thesis by (rule step_sound_after [OF same assms(2)])
qed

text \<open>Writing an interrupt back, its shard unchanged.\<close>

lemma set_interrupt_sound:
  assumes ok: "heap_ok h" "words_ok h" and i: "interrupt_at h i = Some it" "it_shard it' = it_shard it"
    and f: "plain_frame f" "\<forall>g \<in> set gs. plain_frame g \<and> frame_ok h g"
  shows "step_sound h f (set_interrupt i it' h) gs"
  using ok f i heap_okD(3,4,6) [OF ok(1)]
  by (intro sound_tables) (auto simp: same_defs same_counts_def split: if_splits)

lemma waiters_sound:
  assumes ok: "heap_ok h" "words_ok h" "valid_shard h s" and slab: "slab_ok ws"
    and f: "plain_frame f" "\<forall>g \<in> set gs. plain_frame g \<and> frame_ok h g"
  shows "step_sound h f (upd_shard s (sh_waiters_update (\<lambda>_. ws)) h) gs"
proof (rule sound_slabs [OF _ _ _ ok(1,2) f])
  fix s'
  assume v: "valid_shard h s'"
  show "slab_ok (sh_children (shard_at (upd_shard s (sh_waiters_update (\<lambda>_. ws)) h) s')) \<and>
      slab_ok (sh_waiters (shard_at (upd_shard s (sh_waiters_update (\<lambda>_. ws)) h) s')) \<and>
      (\<forall>c \<in> set (slab_values (sh_children (shard_at (upd_shard s (sh_waiters_update (\<lambda>_. ws)) h) s'))).
        c < n_nodes h)"
    using shard_slabs [OF ok(1) v] slab by (cases "s' = s") simp_all
qed (simp_all add: same_defs same_counts_def)

lemma poll_returns_sound:
  assumes "poll_returns i w r it' h = Next h' gs" "heap_ok h" "words_ok h"
    "interrupt_at h i = Some it" "it_shard it' = it_shard it" "plain_frame f"
  shows "step_sound h f h' gs"
  using assms set_interrupt_sound [OF assms(2,3,4), of "it'\<lparr>it_last := Some (w, r)\<rparr>" f "[]"]
  by (simp add: poll_returns_def)

lemma poll_register_sound:
  assumes step: "poll_register i w h = Next h' gs" and ok: "heap_ok h" "words_ok h"
  shows "step_sound h (Intr (PollRegister i w)) h' gs"
proof -
  from step obtain it where it: "interrupt_at h i = Some it"
    by (auto simp: poll_register_def on_interrupt_def split: option.splits)
  define s where "s = it_shard it"
  define ws where "ws = (case it_registration it of None \<Rightarrow> sh_waiters (shard_at h s)
    | Some r \<Rightarrow> fst (slab_remove (sh_waiters (shard_at h s)) (rn_key r)))"
  have s: "valid_shard h s" using heap_okD(6) [OF ok(1) it] by (simp add: s_def)
  have ws: "slab_ok ws"
    using shard_slabs(2) [OF ok(1) s] by (auto simp: ws_def slab.remove_ok split: option.split)
  have "(case slab_insert ws w of None \<Rightarrow> Panic
      | Some (ws', k) \<Rightarrow> poll_returns i w Pending (it\<lparr>it_registration := Some \<lparr>rn_key = k, rn_waker = w\<rparr>\<rparr>)
          (lock_release s (upd_shard s (sh_waiters_update (\<lambda>_. ws')) h))) = Next h' gs"
    using step it unfolding poll_register_def on_interrupt_def Let_def s_def ws_def
    by (simp del: upd_shard_def)
  then obtain ws' k where i: "slab_insert ws w = Some (ws', k)"
    and p: "poll_returns i w Pending (it\<lparr>it_registration := Some \<lparr>rn_key = k, rn_waker = w\<rparr>\<rparr>)
      (lock_release s (upd_shard s (sh_waiters_update (\<lambda>_. ws')) h)) = Next h' gs"
    by (auto simp del: upd_shard_def split: option.splits)
  define h1 where "h1 = upd_shard s (sh_waiters_update (\<lambda>_. ws')) h"
  note same = same_lock(2) [of h1 s]
  have h1: "step_sound h (Intr (PollRegister i w)) h1 []"
    unfolding h1_def by (rule waiters_sound [OF ok s slab.insert_ok [OF ws i]]) (simp_all add: plain_frame_def)
  then have ok1: "heap_ok (lock_release s h1)" "words_ok (lock_release s h1)"
    using same_heap_ok same_counts_words same by (auto simp: step_sound_def)
  have it1: "interrupt_at (lock_release s h1) i = Some it"
    using it by (simp add: h1_def lock_release_def)
  have h': "h' = set_interrupt i (it\<lparr>it_registration := Some \<lparr>rn_key = k, rn_waker = w\<rparr>,
      it_last := Some (w, Pending)\<rparr>) (lock_release s h1)" "gs = []"
    using p by (simp_all add: poll_returns_def h1_def)
  show ?thesis
  proof (rule sound_same_counts [OF _ _ ok(2)])
    show "heap_ok h'"
      unfolding h' by (rule heap_ok_set_interrupt [OF ok1(1) it1]) simp
    show "same_nodes h h'" "same_counts h h'"
      by (simp_all add: h' h1_def lock_release_def same_defs same_counts_def)
  qed (simp_all add: h')
qed

lemma intr_sound:
  assumes "intr_step t b c h = Next h' gs" "heap_ok h" "words_ok h" "frame_ok h (Intr c)"
  shows "step_sound h (Intr c) h' gs"
proof (cases "\<exists>i w. c = PollRegister i w \<or> c = PollLocked i w \<or> c = PollLock i w")
  case True
  then obtain i w where c: "c = PollRegister i w \<or> c = PollLocked i w \<or> c = PollLock i w" by blast
  then consider "c = PollRegister i w" | "c = PollLocked i w" | "c = PollLock i w" by blast
  then show ?thesis
  proof cases
    case 1
    with assms poll_register_sound show ?thesis by simp
  next
    case 2
    with assms obtain it where it: "interrupt_at h i = Some it"
      by (auto simp: poll_locked_def on_interrupt_def split: option.splits)
    note same = same_lock(2) [of h "it_shard it"]
    have ok: "heap_ok (lock_release (it_shard it) h)" "words_ok (lock_release (it_shard it) h)"
      using same same_heap_ok same_counts_words assms(2,3) by blast+
    show ?thesis
    proof (cases "is_stopped (it_shard it) h")
      case True
      have "step_sound (lock_release (it_shard it) h) (Intr c) h' gs"
        using assms(1) 2 it True ok by (intro poll_returns_sound)
          (auto simp: poll_locked_def on_interrupt_def plain_frame_def lock_release_def)
      then show ?thesis by (rule step_sound_after [OF same assms(2)])
    next
      case False
      with assms 2 it show ?thesis
        by (intro sound_plain) (auto simp: poll_locked_def on_interrupt_def plain_frame_def same_refl)
    qed
  next
    case 3
    with assms show ?thesis
      by (intro sound_plain) (auto simp: poll_lock_def on_interrupt_def plain_frame_def same_lock
          split: option.splits)
  qed
next
  case False
  show ?thesis
  proof (cases "\<exists>i w. c = Poll i w \<or> c = PollWrapped i w \<or> c = PollRecheck i w \<or> c = PollStopped i w")
    case True
    with assms(1) obtain i w it where it: "interrupt_at h i = Some it"
      and c: "c = Poll i w \<or> c = PollWrapped i w \<or> c = PollRecheck i w \<or> c = PollStopped i w"
      by (auto simp: poll_interrupt_def poll_wrapped_def poll_recheck_def poll_stopped_def
          on_interrupt_def split: option.splits)
    then have "(\<exists>r. poll_returns i w r it h = Next h' gs) \<or>
        h' = h \<and> (\<forall>g \<in> set gs. plain_frame g \<and> frame_ok h g)"
      using assms(1) by (auto simp: poll_interrupt_def poll_wrapped_def poll_recheck_def
          poll_stopped_def on_interrupt_def plain_frame_def split: if_splits option.splits)
    moreover have "plain_frame (Intr c)" using c by (auto simp: plain_frame_def)
    ultimately show ?thesis
      using it assms(2,3) by (auto intro: poll_returns_sound sound_plain simp: same_refl)
  next
    case no: False
    with False obtain s k where c: "c = ListenerDrop s k" by (cases c) auto
    have h': "h' = upd_shard s (sh_waiters_update (\<lambda>_. fst (slab_remove (sh_waiters (shard_at h s)) k))) h"
      "gs = []"
      using assms(1) by (cases "shard_at h s"; auto simp: c listener_drop_def)+
    show ?thesis
      unfolding h' using assms(4) shard_slabs(2) [OF assms(2)]
      by (intro waiters_sound assms slab.remove_ok) (auto simp: c plain_frame_def)
  qed
qed

section \<open>Every step\<close>

theorem exec_sound:
  assumes "exec t b f h = Next h' gs" "heap_ok h" "words_ok h" "frame_ok h f" "room h f"
  shows "step_sound h f h' gs"
proof (cases f)
  case (Borrow x)
  with assms show ?thesis by (intro sound_plain) (auto simp: plain_frame_def same_refl)
qed (use assms in \<open>simp add: count_sound stop_sound life_sound guard_sound swan_sound intr_sound
    del: frame_ok.simps\<close>)+

end
