(* ===== verification/Invariant.thy ===== *)
theory Invariant
  imports Preservation
begin

text \<open>
  The invariant of the whole machine, in every reachable state: the heap and every stack are
  well formed and every count of a packed word is exactly the number of its objects and of
  the threads that hold one of its tokens.
\<close>

definition holder :: "sys \<Rightarrow> tid \<Rightarrow> token option" where
  "holder \<sigma> t = entry (stack \<sigma> t) None"

definition stacks_ok :: "sys \<Rightarrow> bool" where
  "stacks_ok \<sigma> \<longleftrightarrow> (\<forall>t<n_threads \<sigma>. chain (stack \<sigma> t) None \<and> (\<forall>f \<in> set (stack \<sigma> t). frame_ok (mem \<sigma>) f))"

definition accounted :: "sys \<Rightarrow> bool" where
  "accounted \<sigma> \<longleftrightarrow> (\<forall>k. valid_token (mem \<sigma>) k \<longrightarrow>
     counted (mem \<sigma>) k = owned (mem \<sigma>) k + tally (n_threads \<sigma>) (\<lambda>t. holder \<sigma> t = Some k))"

definition sys_ok :: "sys \<Rightarrow> bool" where
  "sys_ok \<sigma> \<longleftrightarrow> heap_ok (mem \<sigma>) \<and> words_ok (mem \<sigma>) \<and> stacks_ok \<sigma> \<and> accounted \<sigma>"

section \<open>Calls\<close>

lemma new_root_sound:
  assumes ok: "heap_ok h" "words_ok h" and f: "plain_frame f"
  shows "step_sound h f (new_root report h) []"
proof -
  obtain h1 n where h1: "alloc_node None (root_shard_count h) report h = (h1, n)" by fastforce
  have a: "step_sound h f h1 []"
    using root_shard_count_bounds [of h] f
    by (intro sound_alloc_node [OF h1 ok]) (auto simp: link_ok_def)
  then have ok1: "heap_ok h1" "words_ok h1" by (simp_all add: step_sound_def)
  have b: "step_sound h1 f (alloc_handle n h1) []"
    using alloc_node_extends(4) [OF h1] f by (intro alloc_handle_sound ok1) auto
  have same: "same_nodes h1 (alloc_handle n h1)" "same_counts h1 (alloc_handle n h1)"
    by (simp_all add: alloc_handle_def same_defs same_counts_def)
  have tokens: "valid_token (alloc_handle n h1) k = valid_token h1 k" for k
    by (cases k) (simp_all add: same_nodes_simps [OF same(1)])
  have "counted (alloc_handle n h1) k = counted h1 k \<and> owned (alloc_handle n h1) k = owned h1 k" for k
    by (cases k) (simp_all add: alloc_handle_def shard_arrived_def kid_of_def guard_of_def parent_of_def)
  then show ?thesis
    using a b tokens extends_trans
    by (auto simp: step_sound_def new_root_def h1 balanced_def fresh_clean_def)
qed

lemma begin_call_sound:
  assumes call: "begin_call c h = Some (h', fs)" and ok: "heap_ok h" "words_ok h"
  shows "step_sound h (Borrow x) h' fs"
proof -
  have p: "plain_frame (Borrow x)" by (simp add: plain_frame_def)
  note tables = heap_okD(3-6) [OF ok(1)]
  show ?thesis
  proof (cases c)
    case (CallNew report)
    with call new_root_sound [OF ok p] show ?thesis by auto
  next
    case (CallDrop y)
    with call tables ok show ?thesis
      by (intro sound_tables p) (auto simp: on_handle_def same_defs same_counts_def plain_frame_def
          split: option.splits if_splits)
  next
    case (CallIntoFuture y)
    with call tables ok show ?thesis
      by (intro sound_tables p) (auto simp: on_handle_def same_defs same_counts_def plain_frame_def
          split: option.splits if_splits)
  next
    case (CallCompletionDrop y)
    with call tables ok show ?thesis
      by (intro sound_tables p) (auto simp: same_defs same_counts_def plain_frame_def
          split: option.splits if_splits)
  next
    case (CallInterruptDrop y)
    with call tables ok show ?thesis
      by (intro sound_tables p) (auto simp: same_defs same_counts_def plain_frame_def drop_frames_def
          split: option.splits if_splits)
  next
    case (CallPoll i w)
    with call obtain it where it: "interrupt_at h i = Some it"
      "h' = set_interrupt i (it\<lparr>it_last := None\<rparr>) h" "fs = [Intr (Poll i w), Borrow (OInterrupt i)]"
      by (auto split: option.splits)
    then show ?thesis
      using set_interrupt_sound [OF ok it(1) _ p] by (simp add: plain_frame_def)
  next
    case (CallGuardClone g)
    with call obtain gd where gd: "guard_at h g = Some gd" "h' = h"
      "fs = [Grd (Provenance (gd_shard gd) (gd_location gd) (ToClone (gd_pin gd))), Borrow (OGuard g)]"
      by (auto split: option.splits if_splits)
    with tables(3) [OF gd(1)] ok show ?thesis
      by (intro sound_plain p) (auto simp: plain_frame_def guard_ok_def pin_ok_def same_refl)
  next
    case (CallGuarded i loc)
    with call tables ok show ?thesis
      by (intro sound_plain p) (auto simp: plain_frame_def same_refl split: option.splits)
  qed (use call tables ok in \<open>intro sound_plain p; auto simp: on_handle_def plain_frame_def same_refl
      split: option.splits if_splits\<close>)+
qed

section \<open>Steps\<close>

text \<open>Replacing one thread's stack.\<close>

lemma tally_holder:
  assumes "t < n" "\<And>u. u \<noteq> t \<Longrightarrow> g u = f u"
  shows "tally n (\<lambda>u. g u = Some k) + of_bool (f t = Some k) =
    tally n (\<lambda>u. f u = Some k) + of_bool (g t = Some (k :: token))"
  using addup_change [OF assms(1), of "\<lambda>u. of_bool (g u = Some k)" "\<lambda>u. of_bool (f u = Some k)"] assms(2)
  by simp

lemma replace_stack:
  assumes ok: "sys_ok \<sigma>" and t: "t < n_threads \<sigma>"
    and sound: "extends (mem \<sigma>) h" "heap_ok h" "words_ok h"
      "balanced (mem \<sigma>) h (holder \<sigma> t) (entry fs None)" "fresh_clean (mem \<sigma>) h (entry fs None)"
    and fs: "chain fs None" "\<forall>f \<in> set fs. frame_ok h f"
  shows "sys_ok (\<sigma>\<lparr>mem := h, stack := (stack \<sigma>)(t := fs)\<rparr>)"
proof -
  let ?\<sigma> = "\<sigma>\<lparr>mem := h, stack := (stack \<sigma>)(t := fs)\<rparr>"
  have stacks: "stacks_ok ?\<sigma>"
    using ok fs frame_ok_extends [OF sound(1)] by (auto simp: sys_ok_def stacks_ok_def)
  have held: "valid_token (mem \<sigma>) k" if u: "u < n_threads \<sigma>" "holder \<sigma> u = Some k" for u k
  proof -
    obtain f gs where f: "stack \<sigma> u = f # gs" "held f = Some k"
      using u(2) by (cases "stack \<sigma> u") (auto simp: holder_def)
    then have "frame_ok (mem \<sigma>) f" using ok u(1) by (fastforce simp: sys_ok_def stacks_ok_def)
    with f(2) show ?thesis
      by (cases f rule: held.cases) (auto simp: valid_shard_def valid_node_def)
  qed
  have "accounted ?\<sigma>"
    unfolding accounted_def
  proof (intro allI impI)
    fix k
    assume k: "valid_token (mem ?\<sigma>) k"
    have change: "tally (n_threads \<sigma>) (\<lambda>u. holder ?\<sigma> u = Some k) + of_bool (holder \<sigma> t = Some k) =
        tally (n_threads \<sigma>) (\<lambda>u. holder \<sigma> u = Some k) + of_bool (entry fs None = Some k)"
      using tally_holder [OF t, of "holder ?\<sigma>" "holder \<sigma>"] by (simp add: holder_def)
    show "counted (mem ?\<sigma>) k = owned (mem ?\<sigma>) k + tally (n_threads ?\<sigma>) (\<lambda>t. holder ?\<sigma> t = Some k)"
    proof (cases "valid_token (mem \<sigma>) k")
      case True
      then have "counted (mem \<sigma>) k = owned (mem \<sigma>) k + tally (n_threads \<sigma>) (\<lambda>u. holder \<sigma> u = Some k)"
        using ok by (simp add: sys_ok_def accounted_def)
      moreover have "counted h k + owned (mem \<sigma>) k + of_bool (holder \<sigma> t = Some k) =
          counted (mem \<sigma>) k + owned h k + of_bool (entry fs None = Some k)"
        using sound(4) True by (simp add: balanced_def)
      ultimately show ?thesis using change by simp
    next
      case False
      then have "tally (n_threads \<sigma>) (\<lambda>u. holder \<sigma> u = Some k) = 0"
        using held by (auto simp: addup_eq_0_iff)
      moreover have "counted h k = 0" "owned h k = 0" "entry fs None \<noteq> Some k"
        using sound(5) False k by (simp_all add: fresh_clean_def)
      ultimately show ?thesis using change by simp
    qed
  qed
  with stacks sound(2,3) show ?thesis by (simp add: sys_ok_def)
qed

lemma owned_bound:
  assumes "heap_ok h" "valid_token h k"
    and that: "tally (n_guards h) (guard_live h) + n < 2 ^ 32"
      "tally (n_nodes h) (child_arrived h) + n < 2 ^ 30"
  shows "owned h k + n < count_limit k"
proof (cases k)
  case (NodeToken m)
  then have "owned h k \<le> in_shards (node_at h m)" by simp
  also have "\<dots> \<le> 256" using heap_okD(2) [OF assms(1), of m] assms(2) NodeToken by (simp add: node_ok_def)
  finally show ?thesis using that(2) NodeToken by simp
next
  case (KidToken s)
  have "owned h k \<le> tally (n_nodes h) (child_arrived h)"
    unfolding KidToken owned.simps
    by (intro addup_mono) (auto simp: kid_of_def child_arrived_def parent_of_def)
  then show ?thesis using that(2) KidToken by simp
next
  case (LocalToken s)
  have "owned h k \<le> tally (n_guards h) (guard_live h)"
    unfolding LocalToken owned.simps
    by (intro addup_mono) (auto simp: guard_of_def guard_live_def)
  then show ?thesis using that(1) LocalToken by simp
qed

lemma limits_room:
  assumes ok: "sys_ok \<sigma>" and limits: "within_limits \<sigma>"
    and t: "t < n_threads \<sigma>" "stack \<sigma> t = f # fs"
  shows "room (mem \<sigma>) f"
  unfolding room_def
proof (intro allI impI)
  fix k
  assume k: "valid_token (mem \<sigma>) k"
  let ?P = "\<lambda>u. holder \<sigma> u = Some k"
  have c: "counted (mem \<sigma>) k = owned (mem \<sigma>) k + tally (n_threads \<sigma>) ?P"
    using ok k by (simp add: sys_ok_def accounted_def)
  have h: "holder \<sigma> t = held f" by (simp add: holder_def t(2))
  show "if held f = Some k then 0 < counted (mem \<sigma>) k else counted (mem \<sigma>) k + 1 < count_limit k"
  proof (cases "held f = Some k")
    case True
    then have "0 < tally (n_threads \<sigma>) ?P" using t(1) h by (auto simp: tally_pos_iff)
    with c True show ?thesis by simp
  next
    case False
    then have "tally (n_threads \<sigma>) ?P < n_threads \<sigma>"
      using h by (intro addup_less_bound [OF t(1)]) auto
    moreover have "owned (mem \<sigma>) k + n_threads \<sigma> < count_limit k"
      using ok limits k by (intro owned_bound) (auto simp: sys_ok_def within_limits_def)
    ultimately show ?thesis using c False by simp
  qed
qed

theorem step_sys_ok:
  assumes "step \<sigma> a \<sigma>'" "sys_ok \<sigma>" "within_limits \<sigma>"
  shows "sys_ok \<sigma>'"
  using assms
proof (cases rule: step.cases)
  case (call t c h fs)
  then have "step_sound (mem \<sigma>) (Borrow undefined) h fs"
    using assms(2) begin_call_sound by (auto simp: sys_ok_def)
  then show ?thesis
    unfolding call(1,2) using call(4) by (intro replace_stack assms call) (auto simp: step_sound_def holder_def)
next
  case (run t f fs b h gs)
  have f: "frame_ok (mem \<sigma>) f" "yields f = entry fs None" "chain fs None" "\<forall>g \<in> set fs. frame_ok (mem \<sigma>) g"
    using assms(2) run(3,4) by (auto simp: sys_ok_def stacks_ok_def dest!: spec [of _ t])
  have "step_sound (mem \<sigma>) f h gs"
    using assms(2) f(1) limits_room [OF assms(2,3) run(3,4)] by (intro exec_sound [OF run(5)]) (auto simp: sys_ok_def)
  then show ?thesis
    unfolding run(1,2) using f assms(2) frame_ok_extends run(4)
    by (intro replace_stack assms run(3))
      (auto simp: step_sound_def holder_def chain_append entry_append sys_ok_def)
next
  case (tick d)
  let ?h = "(mem \<sigma>)\<lparr>clock := clock (mem \<sigma>) + d\<rparr>"
  have same: "same_all (mem \<sigma>) ?h" by (simp add: same_defs same_counts_def)
  have n: "same_nodes (mem \<sigma>) ?h" using same by blast
  have "valid_token ?h k = valid_token (mem \<sigma>) k \<and> counted ?h k = counted (mem \<sigma>) k \<and> owned ?h k = owned (mem \<sigma>) k" for k
    using same_nodes_simps [OF n]
    by (cases k; simp add: shard_arrived_def kid_of_def guard_of_def)
  moreover have "heap_ok ?h" "words_ok ?h"
    using same same_heap_ok same_counts_words assms(2) unfolding sys_ok_def by blast+
  ultimately show ?thesis
    unfolding tick(2) using assms(2) same_frames [OF n]
    by (auto simp: sys_ok_def stacks_ok_def accounted_def holder_def)
qed

lemma sys_ok_init: "sys_ok (sys_init threads par)"
  by (auto simp: sys_ok_def stacks_ok_def accounted_def sys_init_def heap_init_def heap_ok_def objects_ok_def
      words_ok_def valid_shard_def valid_node_def elim!: valid_token.elims)

theorem reachable_sys_ok: "reachable \<sigma> \<Longrightarrow> sys_ok \<sigma>"
  by (induction rule: reachable.induct) (auto intro: sys_ok_init step_sys_ok)

end
