(* ===== verification/Latch.thy ===== *)
theory Latch
  imports Invariant
begin

text \<open>
  The stop bits. A step leaves every stop bit as it is, except that stopping a node or a
  shard sets its own: the bits are latches, and no arrival, departure or flush touches them.
\<close>

section \<open>Steps that write no word\<close>

fun writes_word :: "frame \<Rightarrow> bool" where
  "writes_word (Count (ShardArrive s u)) = False"
| "writes_word (Count (NodeDepartNotify n w)) = False"
| "writes_word (Count f) = True"
| "writes_word (Stop (NodeStop n)) = True"
| "writes_word (Stop (ShardStop s)) = True"
| "writes_word (Grd (ArriveIfArrived s loc i w)) = True"
| "writes_word (Grd (GuardCloneArrive s pin loc info)) = True"
| "writes_word (Grd (GuardDepart s pin)) = True"
| "writes_word f = False"

text \<open>What a step that writes no word keeps.\<close>

definition same_words :: "heap \<Rightarrow> heap \<Rightarrow> bool" where
  "same_words h h' \<longleftrightarrow> n_nodes h \<le> n_nodes h' \<and>
     (\<forall>n<n_nodes h. node_word h' n = node_word h n) \<and>
     (\<forall>s. fst s < n_nodes h \<longrightarrow> shard_word h' s = shard_word h s) \<and>
     (\<forall>n<n_nodes h'. n_nodes h \<le> n \<longrightarrow> node_word h' n = 0)"

lemma same_words_refl [simp]: "same_words h h"
  by (simp add: same_words_def)

lemma same_words_trans:
  assumes "same_words h h'" "same_words h' h''"
  shows "same_words h h''"
proof -
  have "node_word h'' n = 0" if "n < n_nodes h''" "n_nodes h \<le> n" for n
    using assms that by (cases "n < n_nodes h'") (auto simp: same_words_def)
  then show ?thesis using assms by (auto simp: same_words_def)
qed

lemma same_words_thread:
  assumes "thread_index t h = (h', w)"
  shows "same_words h h' \<and> n_nodes h' = n_nodes h"
  using assms by (cases "index_of h t = of_nat usize_max") (auto simp: thread_index_def same_words_def Let_def)

lemma same_words_index:
  assumes "shard_index t n h = (h', i)"
  shows "same_words h h'" "n_nodes h' = n_nodes h"
  using assms same_words_thread by (auto simp: shard_index_def split: prod.splits)

lemma same_words_node:
  "in_state (f (node_at h n)) = in_state (node_at h n) \<Longrightarrow> same_words h (upd_node n f h)"
  by (simp add: same_words_def)

lemma same_words_shard:
  "sh_state (f (shard_at h s)) = sh_state (shard_at h s) \<Longrightarrow> same_words h (upd_shard s f h)"
  by (simp add: same_words_def)

lemmas same_words_memory = same_words_node same_words_shard same_words_index(1)

lemma same_words_arc [simp]: "same_words h (arc_clone n h)" "n_nodes (arc_clone n h) = n_nodes h"
  by (simp_all add: arc_clone_def same_words_def)

lemma same_words_alloc:
  "alloc_node link k rep h = (h', n) \<Longrightarrow> same_words h h'"
  by (auto simp: alloc_node_def Let_def same_words_def inner_new_def)

lemma same_words_tables [simp]:
  "same_words h (alloc_handle n h)" "same_words h (alloc_completion n h)"
  "same_words h (alloc_interrupt it h)" "same_words h (set_interrupt i it h)"
  "same_words h (lock_acquire t s h)" "same_words h (lock_release s h)"
  "same_words h (h\<lparr>guard_at := G\<rparr>)" "same_words h (h\<lparr>info_strong := I\<rparr>)" "same_words h (h\<lparr>woken := W\<rparr>)"
  by (simp_all add: alloc_handle_def alloc_completion_def alloc_interrupt_def lock_acquire_def
      lock_release_def same_words_def)

lemma same_words_slot [simp]:
  "same_words h (upd_node n (in_zero_notified_update g) h)"
  "same_words h (upd_node n (in_stop_notified_update g) h)"
  "same_words h (upd_node n (in_strong_update g) h)"
  "same_words h (upd_node n (in_swansong_count_update g) h)"
  "same_words h (upd_node n (in_parent_update l) h)"
  "same_words h (upd_shard s (sh_waiters_update ws) h)"
  "same_words h (upd_shard s (sh_children_update cs) h)"
  "same_words h (upd_shard s (sh_guards_update gs) h)"
  by (simp_all add: same_words_def)

lemma same_words_via_arc:
  "same_words (arc_clone n h) h' \<Longrightarrow> same_words h h'"
  by (rule same_words_trans [of h "arc_clone n h"]) simp_all

lemma same_words_after_arc [simp]:
  "same_words h (alloc_handle n (arc_clone m h))" "same_words h (alloc_completion n (arc_clone m h))"
  by (simp_all add: same_words_def arc_clone_def alloc_handle_def alloc_completion_def)

lemma same_words_info [simp]:
  "same_words h (h\<lparr>info_at := A, info_strong := S, n_infos := N\<rparr>)"
  by (simp add: same_words_def)

lemma count_words:
  "count_step t b c h = Next h' gs \<Longrightarrow> \<not> writes_word (Count c) \<Longrightarrow> same_words h h'"
  by (cases c) (auto simp: shard_arrive_def node_depart_notify_def notify_zero_def simp del: upd_node_def)

lemma stop_words:
  "stop_step t c h = Next h' gs \<Longrightarrow> \<not> writes_word (Stop c) \<Longrightarrow> same_words h h'"
proof (induction t c h rule: stop_step.induct)
  case (4 t s w ws h)
  then show ?case by (cases ws) auto
next
  case (7 t n i cs live h)
  then show ?case by (cases cs) (auto simp: weak_upgrade_def split: if_splits)
qed (auto simp: shard_drain_def stop_notify_def stop_children_def stop_zero_def notify_zero_def
    simp del: upd_node_def upd_shard_def split: if_splits)

lemma life_words:
  "life_step t c h = Next h' gs \<Longrightarrow> same_words h h'"
proof (induction t c h rule: life_step.induct)
  case (3 t n h)
  then obtain h1 i c link rep where h1: "shard_index t n h = (h1, i)"
    and c: "alloc_node link 1 rep (arc_clone n h1) = (h', c)"
    by (auto simp: child_new_def Let_def split: prod.splits)
  show ?case
    by (rule same_words_trans [OF same_words_index(1) [OF h1] same_words_via_arc [OF same_words_alloc [OF c]]])
qed (auto simp: drop_arc_def deregister_def child_register_def child_store_key_def
    child_check_def child_return_def Let_def
    simp del: upd_node_def upd_shard_def split: if_splits option.splits prod.splits)

lemma guard_build_words:
  assumes "guard_build s pin loc info dst h = Next h' gs"
  shows "same_words h h'"
proof -
  define h1 where "h1 = (case pin of None \<Rightarrow> h | Some n \<Rightarrow> arc_clone n h)"
  have "same_words h h1" "n_nodes h1 = n_nodes h"
    by (auto simp: h1_def split: option.split)
  moreover have "same_words h1 h'"
    using assms unfolding guard_build_def h1_def [symmetric]
    by (auto simp: alloc_guard_def same_words_def Let_def split: option.splits)
  ultimately show ?thesis using same_words_trans [of h h1 h'] by simp
qed

lemma guard_words:
  "guard_step t b c h = Next h' gs \<Longrightarrow> \<not> writes_word (Grd c) \<Longrightarrow> same_words h h'"
  by (induction t b c h rule: guard_step.induct)
    (auto simp: guard_at_location_def inner_shard_def provenance_def alloc_info_def
      provenance_register_def guard_for_shard_def guard_upgrade_def guard_drop_def guard_flush_weak_def
      drop_info_def weak_upgrade_def Let_def same_words_index guard_build_words
      simp del: upd_shard_def split: if_splits option.splits prod.splits)

lemma swan_words:
  "swan_step t c h = Next h' gs \<Longrightarrow> same_words h h'"
  by (induction t c h rule: swan_step.induct)
    (auto simp: swansong_clone_def swansong_clone_arc_def handle_drop_def swansong_drop_def
      completion_new_def interrupt_new_def inner_shard_def
      simp del: upd_node_def split: prod.splits
      intro: same_words_via_arc same_words_trans [OF same_words_index(1)])

lemma intr_words:
  "intr_step t b c h = Next h' gs \<Longrightarrow> same_words h h'"
  by (induction t b c h rule: intr_step.induct)
    (auto simp: poll_interrupt_def poll_wrapped_def poll_stopped_def poll_recheck_def poll_lock_def
      poll_locked_def poll_register_def poll_returns_def listener_drop_def on_interrupt_def Let_def
      lock_acquire_def lock_release_def same_words_def
      split: if_splits option.splits prod.splits)

lemma words_kept:
  "exec t b f h = Next h' gs \<Longrightarrow> \<not> writes_word f \<Longrightarrow> same_words h h'"
  by (cases f) (auto intro: count_words stop_words life_words guard_words swan_words intr_words)

section \<open>The stop bits\<close>

definition stop_effect :: "heap \<Rightarrow> frame \<Rightarrow> heap \<Rightarrow> bool" where
  "stop_effect h f h' \<longleftrightarrow>
     (\<forall>n<n_nodes h. stopped_bit (node_word h' n) \<longleftrightarrow>
        stopped_bit (node_word h n) \<or> f = Stop (NodeStop n)) \<and>
     (\<forall>s. fst s < n_nodes h \<longrightarrow> (stopped_bit (shard_word h' s) \<longleftrightarrow>
        stopped_bit (shard_word h s) \<or> f = Stop (ShardStop s)))"

lemma stop_effect_refl [simp]: "stop_effect h (Count c) h" "stop_effect h (Grd g) h"
  by (simp_all add: stop_effect_def)

lemma stop_effect_shard_word:
  "stopped_bit w = stopped_bit (shard_word h s) \<Longrightarrow> (\<And>n. f \<noteq> Stop (NodeStop n)) \<Longrightarrow>
   (\<And>s. f \<noteq> Stop (ShardStop s)) \<Longrightarrow> stop_effect h f (set_shard_word s w h)"
  by (simp add: stop_effect_def)

lemma stop_effect_node_word:
  "stopped_bit w = stopped_bit (node_word h n) \<Longrightarrow> (\<And>n. f \<noteq> Stop (NodeStop n)) \<Longrightarrow>
   (\<And>s. f \<noteq> Stop (ShardStop s)) \<Longrightarrow> stop_effect h f (set_node_word n w h)"
  by (simp add: stop_effect_def)

lemma room_fields:
  assumes "room h f" "valid_shard h s"
  shows "held f \<noteq> Some (LocalToken s) \<Longrightarrow> low (shard_word h s) + 1 < 2 ^ 32"
    "held f \<noteq> Some (KidToken s) \<Longrightarrow> mid (shard_word h s) + 1 < 2 ^ 30"
    "held f = Some (LocalToken s) \<Longrightarrow> 0 < low (shard_word h s)"
    "held f = Some (KidToken s) \<Longrightarrow> 0 < mid (shard_word h s)"
  using roomD [OF assms(1), of "LocalToken s"] roomD [OF assms(1), of "KidToken s"] assms(2) by auto

lemma add_unit_stopped:
  assumes "room h f" "valid_shard h s" "unit_ok u" "held f = None"
  shows "stopped_bit (shard_word h s + u) = stopped_bit (shard_word h s)"
  using assms(3) room_fields(1,2) [OF assms(1,2)] assms(4)
    fields_add_local(3) [of "shard_word h s"] fields_add_kids(3) [of "shard_word h s"]
  by (auto simp: unit_ok_def)

lemma count_stop_effect:
  assumes step: "count_step t b c h = Next h' gs" and ok: "heap_ok h" "frame_ok h (Count c)" "room h (Count c)"
  shows "stop_effect h (Count c) h'"
proof (cases "writes_word (Count c)")
  case False
  have "exec t b (Count c) h = Next h' gs" using step by simp
  from words_kept [OF this False] show ?thesis by (simp add: same_words_def stop_effect_def)
next
  case True
  show ?thesis
  proof (cases c)
    case (ShardArriveLoop s u st)
    then have "stopped_bit (shard_word h s + u) = stopped_bit (shard_word h s)"
      using ok by (intro add_unit_stopped) auto
    with step show ?thesis
      by (auto simp: ShardArriveLoop shard_arrive_loop_def atomic_defs split: if_splits
          intro!: stop_effect_shard_word)
  next
    case (ShardArriveCommit s u st)
    then have "\<not> stopped_bit u" using ok by (auto simp: unit_ok_def)
    with step show ?thesis
      by (auto simp: ShardArriveCommit shard_arrive_commit_def atomic_defs fields_or split: if_splits
          intro!: stop_effect_shard_word)
  next
    case (ShardDepart s u)
    then have "stopped_bit (shard_word h s - u) = stopped_bit (shard_word h s)"
      using ok room_fields(4) [OF ok(3)] fields_sub_kids(3) [of "shard_word h s"] by auto
    with step show ?thesis
      by (auto simp: ShardDepart shard_depart_flush_def shard_depart_def intro!: stop_effect_shard_word)
  next
    case (ShardFlush s)
    with step show ?thesis
      by (auto simp: shard_flush_def atomic_defs fields_or split: if_splits
          intro!: stop_effect_shard_word)
  next
    case (NodeArrive n)
    then have "stopped_bit (node_word h n + 1) = stopped_bit (node_word h n)"
      using ok roomD(2) [OF ok(3), of "NodeToken n"] fields_add_local(3) [of "node_word h n"]
      by (simp add: one_LOCAL_ONE)
    with step show ?thesis
      by (auto simp: NodeArrive node_arrive_def split: option.splits intro!: stop_effect_node_word)
  next
    case (NodeArriveLoop n st)
    then have "stopped_bit (node_word h n + 1) = stopped_bit (node_word h n)"
      using ok roomD(2) [OF ok(3), of "NodeToken n"] fields_add_local(3) [of "node_word h n"]
      by (simp add: one_LOCAL_ONE)
    with step show ?thesis
      by (auto simp: NodeArriveLoop node_arrive_loop_def atomic_defs shard_ref_def
          split: option.splits if_splits prod.splits intro!: stop_effect_node_word)
        (auto simp: stop_effect_def same_words_def dest!: same_words_index(1))
  next
    case (NodeArriveCommit n s st)
    then have "stopped_bit (st OR ARRIVED OR push_bit PARENT_SHARD_SHIFT (of_nat (snd s)) OR 1) =
        stopped_bit st"
      using ok parent_valid(3) [OF ok(1), of n "fst s"]
      by (intro arrived_node_word(4)) (auto simp: valid_shard_def)
    with step show ?thesis
      by (auto simp: NodeArriveCommit node_arrive_commit_def atomic_defs Let_def split: if_splits
          intro!: stop_effect_node_word)
  next
    case (NodeDepart n)
    then have "stopped_bit (node_word h n - 1) = stopped_bit (node_word h n)"
      using ok roomD(1) [OF ok(3), of "NodeToken n"] fields_sub_local(3) [of "node_word h n"]
      by (simp add: one_LOCAL_ONE)
    with step show ?thesis
      by (auto simp: NodeDepart node_depart_def Let_def split: if_splits intro!: stop_effect_node_word)
  next
    case (NodeDepartRelease n st)
    with step show ?thesis
      by (auto simp: node_depart_release_def atomic_defs shard_ref_def fields_and
          split: option.splits if_splits intro!: stop_effect_node_word)
  qed (use True in auto)
qed

theorem exec_stop_effect:
  assumes step: "exec t b f h = Next h' gs" and ok: "heap_ok h" "frame_ok h f" "room h f"
  shows "stop_effect h f h'"
proof (cases "writes_word f")
  case False
  have "f \<noteq> Stop (NodeStop n)" "f \<noteq> Stop (ShardStop s)" for n s using False by auto
  with words_kept [OF step False] show ?thesis by (simp add: same_words_def stop_effect_def)
next
  case True
  show ?thesis
  proof (cases f)
    case (Count c)
    with step ok count_stop_effect show ?thesis by simp
  next
    case (Stop c)
    with True step show ?thesis
      by (cases c) (auto simp: node_stop_def shard_stop_def Let_def stop_effect_def fields_or split: if_splits)
  next
    case (Grd c)
    then consider s loc i st where "c = ArriveIfArrived s loc i st"
      | s pin loc info where "c = GuardCloneArrive s pin loc info" | s pin where "c = GuardDepart s pin"
      using True by (cases c) auto
    then show ?thesis
    proof cases
      case 1
      then have "stopped_bit (shard_word h s + LOCAL_ONE) = stopped_bit (shard_word h s)"
        using ok Grd by (intro add_unit_stopped [OF ok(3)]) (auto simp: unit_ok_def)
      with 1 step Grd show ?thesis
        by (auto simp: arrive_if_arrived_def atomic_defs split: if_splits intro!: stop_effect_shard_word)
    next
      case 2
      then have "stopped_bit (shard_word h s + LOCAL_ONE) = stopped_bit (shard_word h s)"
        using ok Grd by (intro add_unit_stopped [OF ok(3)]) (auto simp: unit_ok_def)
      with 2 step Grd show ?thesis
        by (auto simp: guard_clone_arrive_def Let_def split: if_splits intro!: stop_effect_shard_word)
    next
      case 3
      then have "stopped_bit (shard_word h s - LOCAL_ONE) = stopped_bit (shard_word h s)"
        using ok Grd room_fields(3) [OF ok(3)] fields_sub_local(3) [of "shard_word h s"] by auto
      with 3 step Grd show ?thesis
        by (auto simp: guard_depart_def shard_depart_def intro!: stop_effect_shard_word)
    qed
  qed (use True in auto)
qed

section \<open>The latch\<close>

lemma begin_call_words:
  assumes "begin_call c h = Some (h', fs)"
  shows "same_words h h'"
proof (cases c)
  case (CallNew report)
  then obtain h1 n where h1: "alloc_node None (root_shard_count h) report h = (h1, n)"
    and h': "h' = alloc_handle n h1"
    using assms by (cases report) (auto simp: new_root_def split: prod.splits)
  show ?thesis unfolding h' by (rule same_words_trans [OF same_words_alloc [OF h1]]) simp
qed (use assms in \<open>auto simp: on_handle_def same_words_def split: option.splits if_splits\<close>)

theorem step_stop_effect:
  assumes step: "step \<sigma> a \<sigma>'" and ok: "sys_ok \<sigma>" "within_limits \<sigma>"
  shows "valid_node (mem \<sigma>) n \<Longrightarrow> node_is_stopped n (mem \<sigma>') \<longleftrightarrow>
      node_is_stopped n (mem \<sigma>) \<or> (\<exists>t b fs. a = Run t b \<and> stack \<sigma> t = Stop (NodeStop n) # fs)"
    "valid_shard (mem \<sigma>) s \<Longrightarrow> is_stopped s (mem \<sigma>') \<longleftrightarrow>
      is_stopped s (mem \<sigma>) \<or> (\<exists>t b fs. a = Run t b \<and> stack \<sigma> t = Stop (ShardStop s) # fs)"
proof -
  have "(valid_node (mem \<sigma>) n \<longrightarrow> (node_is_stopped n (mem \<sigma>') \<longleftrightarrow>
      node_is_stopped n (mem \<sigma>) \<or> (\<exists>t b fs. a = Run t b \<and> stack \<sigma> t = Stop (NodeStop n) # fs))) \<and>
    (valid_shard (mem \<sigma>) s \<longrightarrow> (is_stopped s (mem \<sigma>') \<longleftrightarrow>
      is_stopped s (mem \<sigma>) \<or> (\<exists>t b fs. a = Run t b \<and> stack \<sigma> t = Stop (ShardStop s) # fs)))"
    using step
  proof (cases rule: step.cases)
    case (call t c h fs)
    with begin_call_words [OF call(6)] show ?thesis
      by (auto simp: same_words_def node_is_stopped_def is_stopped_def valid_node_def valid_shard_def)
  next
    case (run t f fs b h gs)
    have "frame_ok (mem \<sigma>) f"
      using ok(1) run(3,4) by (fastforce simp: sys_ok_def stacks_ok_def)
    then have "stop_effect (mem \<sigma>) f h"
      using ok limits_room [OF ok run(3,4)] by (intro exec_stop_effect [OF run(5)]) (auto simp: sys_ok_def)
    with run(4) show ?thesis
      by (auto simp: run(1,2) stop_effect_def node_is_stopped_def is_stopped_def stopped_test
          valid_node_def valid_shard_def)
  next
    case (tick d)
    then show ?thesis by (auto simp: node_is_stopped_def is_stopped_def)
  qed
  then show "valid_node (mem \<sigma>) n \<Longrightarrow> node_is_stopped n (mem \<sigma>') \<longleftrightarrow>
      node_is_stopped n (mem \<sigma>) \<or> (\<exists>t b fs. a = Run t b \<and> stack \<sigma> t = Stop (NodeStop n) # fs)"
    "valid_shard (mem \<sigma>) s \<Longrightarrow> is_stopped s (mem \<sigma>') \<longleftrightarrow>
      is_stopped s (mem \<sigma>) \<or> (\<exists>t b fs. a = Run t b \<and> stack \<sigma> t = Stop (ShardStop s) # fs)"
    by simp_all
qed

section \<open>A stopped node stops its shards\<close>

definition pending :: "sys \<Rightarrow> frame \<Rightarrow> bool" where
  "pending \<sigma> f \<longleftrightarrow> (\<exists>t<n_threads \<sigma>. f \<in> set (stack \<sigma> t))"

text \<open>Running a thread keeps what is pending, except its top frame.\<close>

lemma pending_run:
  assumes "t < n_threads \<sigma>" "stack \<sigma> t = f # fs"
  shows "g \<in> set gs \<Longrightarrow> pending (\<sigma>\<lparr>mem := h, stack := (stack \<sigma>)(t := gs @ fs)\<rparr>) g"
    "pending \<sigma> g \<Longrightarrow> g \<noteq> f \<Longrightarrow> pending (\<sigma>\<lparr>mem := h, stack := (stack \<sigma>)(t := gs @ fs)\<rparr>) g"
proof -
  let ?\<sigma> = "\<sigma>\<lparr>mem := h, stack := (stack \<sigma>)(t := gs @ fs)\<rparr>"
  show "g \<in> set gs \<Longrightarrow> pending ?\<sigma> g"
    using assms(1) by (auto simp: pending_def intro!: exI [of _ t])
  show "pending ?\<sigma> g" if p: "pending \<sigma> g" "g \<noteq> f"
  proof -
    obtain u where "u < n_threads \<sigma>" "g \<in> set (stack \<sigma> u)" using p(1) by (auto simp: pending_def)
    then show ?thesis
      using assms p(2) by (cases "u = t") (auto simp: pending_def intro!: exI [of _ u])
  qed
qed

lemma pending_call:
  "stack \<sigma> t = [] \<Longrightarrow> pending \<sigma> g \<Longrightarrow> pending (\<sigma>\<lparr>mem := h, stack := (stack \<sigma>)(t := fs)\<rparr>) g"
  unfolding pending_def by fastforce

definition stop_reaches_shards :: "sys \<Rightarrow> bool" where
  "stop_reaches_shards \<sigma> \<longleftrightarrow> (\<forall>s. valid_shard (mem \<sigma>) s \<longrightarrow> node_is_stopped (fst s) (mem \<sigma>) \<longrightarrow>
     is_stopped s (mem \<sigma>) \<or> pending \<sigma> (Stop (ShardStop s)))"

lemma exec_fresh:
  assumes step: "exec t b f h = Next h' gs" and ok: "heap_ok h" "words_ok h" "frame_ok h f" "room h f"
    and n: "n < n_nodes h'" "\<not> n < n_nodes h"
  shows "node_word h' n = 0"
proof (cases "writes_word f")
  case False
  with words_kept [OF step False] n show ?thesis by (simp add: same_words_def)
next
  case True
  have "n_nodes h' = n_nodes h"
  proof (cases f)
    case (Count c)
    with step show ?thesis
      by (cases c) (auto simp: step_defs atomic_defs shard_ref_def Let_def notify_zero_def
          split: if_splits option.splits prod.splits dest: same_words_index(2))
  next
    case (Stop c)
    with True step show ?thesis by (cases c) (auto simp: step_defs Let_def split: if_splits)
  next
    case (Grd c)
    with True step show ?thesis
      by (cases c) (auto simp: step_defs atomic_defs Let_def split: if_splits)
  qed (use True in auto)
  with n show ?thesis by simp
qed

text \<open>Which nodes exist and are stopped after a step.\<close>

lemma step_stopped_cases:
  assumes step: "step \<sigma> a \<sigma>'" and ok: "sys_ok \<sigma>" "within_limits \<sigma>"
    and n: "valid_node (mem \<sigma>') n" "node_is_stopped n (mem \<sigma>')"
  shows "valid_node (mem \<sigma>) n \<and> (node_is_stopped n (mem \<sigma>) \<or>
    (\<exists>t b fs. a = Run t b \<and> stack \<sigma> t = Stop (NodeStop n) # fs))"
proof -
  have "valid_node (mem \<sigma>) n"
  proof (rule ccontr)
    assume new: "\<not> valid_node (mem \<sigma>) n"
    have "node_word (mem \<sigma>') n = 0"
      using step
    proof (cases rule: step.cases)
      case (call t c h fs)
      with begin_call_words [OF call(6)] new n(1) show ?thesis by (simp add: same_words_def valid_node_def)
    next
      case (run t f fs b h gs)
      have "frame_ok (mem \<sigma>) f"
        using ok(1) run(3,4) by (fastforce simp: sys_ok_def stacks_ok_def)
      then show ?thesis
        using ok limits_room [OF ok run(3,4)] new n(1) run(2)
        by (auto intro!: exec_fresh [OF run(5)] simp: sys_ok_def valid_node_def)
    next
      case (tick d)
      with new n(1) show ?thesis by (simp add: valid_node_def)
    qed
    with n(2) show False by (simp add: node_is_stopped_def)
  qed
  then show ?thesis using step_stop_effect(1) [OF step ok] n(2) by blast
qed

lemma step_extends:
  assumes step: "step \<sigma> a \<sigma>'" and ok: "sys_ok \<sigma>" "within_limits \<sigma>"
  shows "extends (mem \<sigma>) (mem \<sigma>')"
  using step
proof (cases rule: step.cases)
  case (call t c h fs)
  then show ?thesis using ok(1) begin_call_sound [OF call(6)] by (auto simp: sys_ok_def step_sound_def)
next
  case (run t f fs b h gs)
  have "frame_ok (mem \<sigma>) f"
    using ok(1) run(3,4) by (fastforce simp: sys_ok_def stacks_ok_def)
  then show ?thesis
    using ok exec_sound [OF run(5)] limits_room [OF ok run(3,4)] run(2) by (auto simp: sys_ok_def step_sound_def)
next
  case (tick d)
  then show ?thesis by (simp add: extends_def parent_of_def)
qed

lemma stop_reaches_shards_step:
  assumes step: "step \<sigma> a \<sigma>'" and ok: "sys_ok \<sigma>" "within_limits \<sigma>" and inv: "stop_reaches_shards \<sigma>"
  shows "stop_reaches_shards \<sigma>'"
  unfolding stop_reaches_shards_def
proof (intro allI impI)
  fix s
  assume s': "valid_shard (mem \<sigma>') s" "node_is_stopped (fst s) (mem \<sigma>')"
  note ext = step_extends [OF step ok]
  have n: "valid_node (mem \<sigma>) (fst s)"
    using step_stopped_cases [OF step ok _ s'(2)] s'(1) by (simp add: valid_shard_def valid_node_def)
  then have s: "valid_shard (mem \<sigma>) s"
    using s'(1) ext by (auto simp: valid_shard_def valid_node_def extends_def)
  note effect = step_stop_effect [OF step ok]
  from step show "is_stopped s (mem \<sigma>') \<or> pending \<sigma>' (Stop (ShardStop s))"
  proof (cases rule: step.cases)
    case (call t c h fs)
    have "node_is_stopped (fst s) (mem \<sigma>)"
      using effect(1) [OF n] s'(2) call by auto
    then show ?thesis
      using inv s effect(2) [OF s] pending_call [OF call(4)] by (auto simp: stop_reaches_shards_def call(2))
  next
    case (run t f fs b h gs)
    show ?thesis
    proof (cases "node_is_stopped (fst s) (mem \<sigma>)")
      case True
      then have "is_stopped s (mem \<sigma>) \<or> pending \<sigma> (Stop (ShardStop s))"
        using inv s by (simp add: stop_reaches_shards_def)
      then show ?thesis
        using effect(2) [OF s] pending_run(2) [OF run(3,4)] run(1,2,4) by auto
    next
      case False
      then have f: "f = Stop (NodeStop (fst s))"
        using effect(1) [OF n] s'(2) run by auto
      have "Stop (ShardStop s) \<in> set (stop_shards (fst s) (mem \<sigma>))"
        using s by (cases s) (auto simp: stop_shards_def valid_shard_def)
      then have "Stop (ShardStop s) \<in> set gs"
        using run(5) False by (auto simp: f node_stop_def Let_def node_is_stopped_def stop_shards_def split: if_splits)
      then show ?thesis using pending_run(1) [OF run(3,4)] run(2) by blast
    qed
  next
    case (tick d)
    have "node_is_stopped (fst s) (mem \<sigma>)" using effect(1) [OF n] s'(2) tick by auto
    then show ?thesis
      using inv s tick by (auto simp: stop_reaches_shards_def pending_def is_stopped_def)
  qed
qed

lemma reachable_stop_reaches_shards: "reachable \<sigma> \<Longrightarrow> stop_reaches_shards \<sigma>"
proof (induction rule: reachable.induct)
  case (init threads par)
  then show ?case
    by (simp add: stop_reaches_shards_def sys_init_def heap_init_def valid_shard_def)
next
  case (step \<sigma> a \<sigma>')
  then show ?case using stop_reaches_shards_step reachable_sys_ok by blast
qed

end
