(* ===== verification/Safety.thy ===== *)
theory Safety
  imports Latch
begin

text \<open>
  What the invariant says of a reachable state: a live guard keeps every node above it from
  reading as complete, the counts are exact, and the counting protocol neither blocks nor
  panics.
\<close>

section \<open>A live guard holds up its ancestors\<close>

text \<open>\<open>ancestor h a n\<close>: \<open>a\<close> is \<open>n\<close> or an ancestor of \<open>n\<close>.\<close>

inductive ancestor :: "heap \<Rightarrow> nid \<Rightarrow> nid \<Rightarrow> bool" for h where
  self: "ancestor h n n"
| up: "ancestor h m n \<Longrightarrow> parent_of h m = Some a \<Longrightarrow> ancestor h a n"

inductive_cases ancestor_cases: "ancestor h a n"

lemma accountedD:
  assumes "sys_ok \<sigma>" "valid_token (mem \<sigma>) k"
  shows "counted (mem \<sigma>) k = owned (mem \<sigma>) k + tally (n_threads \<sigma>) (\<lambda>t. holder \<sigma> t = Some k)"
  using assms by (simp add: sys_ok_def accounted_def)

lemma guard_counted:
  assumes ok: "sys_ok \<sigma>" and g: "guard_at (mem \<sigma>) g = Some gd"
  shows "0 < low (shard_word (mem \<sigma>) (gd_shard gd))" "valid_shard (mem \<sigma>) (gd_shard gd)"
proof -
  have h: "g < n_guards (mem \<sigma>)" "valid_shard (mem \<sigma>) (gd_shard gd)"
    using ok g heap_okD(5) [of "mem \<sigma>" g gd] by (auto simp: sys_ok_def guard_ok_def)
  then have "0 < owned (mem \<sigma>) (LocalToken (gd_shard gd))"
    using g by (auto simp: tally_pos_iff guard_of_def)
  then show "0 < low (shard_word (mem \<sigma>) (gd_shard gd))"
    using accountedD [OF ok, of "LocalToken (gd_shard gd)"] h(2) by simp
  show "valid_shard (mem \<sigma>) (gd_shard gd)" by (rule h(2))
qed

lemma shard_counted_up:
  assumes ok: "sys_ok \<sigma>" and s: "valid_shard (mem \<sigma>) s"
    and pos: "0 < low (shard_word (mem \<sigma>) s) \<or> 0 < mid (shard_word (mem \<sigma>) s)"
  shows "0 < low (node_word (mem \<sigma>) (fst s))"
proof -
  have "arrived_bit (shard_word (mem \<sigma>) s)"
    using ok words_okD(1) [of "mem \<sigma>" s] s pos by (auto simp: sys_ok_def unarrived_empty_def)
  then have "0 < owned (mem \<sigma>) (NodeToken (fst s))"
    using s by (cases s) (auto simp: tally_pos_iff shard_arrived_def valid_shard_def)
  then show ?thesis
    using accountedD [OF ok, of "NodeToken (fst s)"] s by (simp add: valid_shard_def valid_node_def)
qed

lemma node_counted_up:
  assumes ok: "sys_ok \<sigma>" and n: "valid_node (mem \<sigma>) n" "parent_of (mem \<sigma>) n = Some p"
    and pos: "0 < low (node_word (mem \<sigma>) n)"
  shows "0 < low (node_word (mem \<sigma>) p)"
proof -
  have w: "heap_ok (mem \<sigma>)" "words_ok (mem \<sigma>)" using ok by (simp_all add: sys_ok_def)
  have a: "arrived_bit (node_word (mem \<sigma>) n)"
    using words_okD(2) [OF w(2) n] pos by (auto simp: unarrived_empty_def)
  let ?s = "(p, mid (node_word (mem \<sigma>) n))"
  have s: "valid_shard (mem \<sigma>) ?s"
    using words_okD(3) [OF w(2) n a] parent_valid(1) [OF w(1) n] by (simp add: valid_shard_def valid_node_def)
  have "0 < owned (mem \<sigma>) (KidToken ?s)"
    using n a by (auto simp: tally_pos_iff kid_of_def valid_node_def)
  then have "0 < mid (shard_word (mem \<sigma>) ?s)"
    using accountedD [OF ok, of "KidToken ?s"] s by simp
  then show ?thesis using shard_counted_up [OF ok s] by simp
qed

lemma ancestor_counted:
  assumes "ancestor (mem \<sigma>) a n" "sys_ok \<sigma>" "valid_node (mem \<sigma>) n" "0 < low (node_word (mem \<sigma>) n)"
  shows "valid_node (mem \<sigma>) a \<and> 0 < low (node_word (mem \<sigma>) a)"
  using assms
proof (induction rule: ancestor.induct)
  case (up m n a)
  then show ?case using node_counted_up parent_valid(1) [of "mem \<sigma>" m a] by (auto simp: sys_ok_def)
qed simp

lemma guard_ancestors_counted:
  assumes "sys_ok \<sigma>" "guard_at (mem \<sigma>) g = Some gd" "ancestor (mem \<sigma>) a (fst (gd_shard gd))"
  shows "0 < low (node_word (mem \<sigma>) a)"
proof -
  note g = guard_counted [OF assms(1,2)]
  have "0 < low (node_word (mem \<sigma>) (fst (gd_shard gd)))"
    using shard_counted_up [OF assms(1) g(2)] g(1) by simp
  then show ?thesis
    using ancestor_counted [OF assms(3,1)] g(2) by (simp add: valid_shard_def valid_node_def)
qed

text \<open>And without work below it, nothing holds up a node.\<close>

definition idle :: "sys \<Rightarrow> bool" where
  "idle \<sigma> \<longleftrightarrow> (\<forall>t<n_threads \<sigma>. stack \<sigma> t = [])"

lemma idle_exact:
  assumes "sys_ok \<sigma>" "idle \<sigma>" "valid_token (mem \<sigma>) k"
  shows "counted (mem \<sigma>) k = owned (mem \<sigma>) k"
proof -
  have "tally (n_threads \<sigma>) (\<lambda>t. holder \<sigma> t = Some k) = 0"
    using assms(2) by (simp add: addup_eq_0_iff idle_def holder_def)
  then show ?thesis using accountedD [OF assms(1,3)] by simp
qed

section \<open>Later states\<close>

text \<open>\<open>later \<sigma> \<sigma>'\<close>: the program gets from \<open>\<sigma>\<close> to \<open>\<sigma>'\<close> by steps taken within the limits.\<close>

inductive later :: "sys \<Rightarrow> sys \<Rightarrow> bool" for \<sigma> where
  now: "later \<sigma> \<sigma>"
| on: "later \<sigma> \<sigma>' \<Longrightarrow> within_limits \<sigma>' \<Longrightarrow> step \<sigma>' a \<sigma>'' \<Longrightarrow> later \<sigma> \<sigma>''"

lemma later_reachable: "later \<sigma> \<sigma>' \<Longrightarrow> reachable \<sigma> \<Longrightarrow> reachable \<sigma>'"
  by (induction rule: later.induct) (auto intro: reachable.step)

lemma later_extends: "later \<sigma> \<sigma>' \<Longrightarrow> reachable \<sigma> \<Longrightarrow> extends (mem \<sigma>) (mem \<sigma>')"
proof (induction rule: later.induct)
  case (on \<sigma>' a \<sigma>'')
  then have "sys_ok \<sigma>'" using later_reachable reachable_sys_ok by blast
  then have "extends (mem \<sigma>') (mem \<sigma>'')" using step_extends on by blast
  with on show ?case using extends_trans by blast
qed simp

lemma later_stopped:
  "later \<sigma> \<sigma>' \<Longrightarrow> reachable \<sigma> \<Longrightarrow> valid_shard (mem \<sigma>) s \<Longrightarrow> is_stopped s (mem \<sigma>) \<Longrightarrow> is_stopped s (mem \<sigma>')"
proof (induction rule: later.induct)
  case (on \<sigma>' a \<sigma>'')
  have "sys_ok \<sigma>'" using on later_reachable reachable_sys_ok by blast
  moreover have "valid_shard (mem \<sigma>') s" using on later_extends valid_shard_extends by blast
  ultimately show ?case using on step_stop_effect(2) by blast
qed simp

lemma later_node_stopped:
  "later \<sigma> \<sigma>' \<Longrightarrow> reachable \<sigma> \<Longrightarrow> valid_node (mem \<sigma>) n \<Longrightarrow> node_is_stopped n (mem \<sigma>) \<Longrightarrow>
   node_is_stopped n (mem \<sigma>')"
proof (induction rule: later.induct)
  case (on \<sigma>' a \<sigma>'')
  have "sys_ok \<sigma>'" using on later_reachable reachable_sys_ok by blast
  moreover have "valid_node (mem \<sigma>') n" using on later_extends valid_node_extends by blast
  ultimately show ?case using on step_stop_effect(1) by blast
qed simp

section \<open>Counting always goes on\<close>

lemma shard_ref_Next: "i < in_shards (node_at h n) \<Longrightarrow> shard_ref n i h k = k (n, i)"
  by (simp add: shard_ref_def)

lemma compare_exchange_cases:
  "\<exists>w r. compare_exchange c e n = (w, r)" "\<exists>w r. compare_exchange_weak sp c e n = (w, r)"
  by (simp_all add: compare_exchange_def compare_exchange_weak_def)

theorem count_progress:
  assumes ok: "heap_ok h" "frame_ok h (Count c)"
  shows "\<exists>h' gs. count_step t b c h = Next h' gs"
proof (cases c)
  case (ShardArriveLoop s u st)
  with ok(2) show ?thesis
    by (auto simp: shard_arrive_loop_def unarrived_empty_def unarrived_test arrived_test atomic_defs)
next
  case (ShardArriveCommit s u st)
  then show ?thesis by (auto simp: shard_arrive_commit_def atomic_defs)
next
  case (NodeArriveLoop n st)
  with ok(2) obtain p where p: "in_parent (node_at h n) = Some p" "parent_of h n = Some (p_node p)"
    by (auto simp: parent_of_def)
  obtain h1 i where h1: "shard_index t (p_node p) h = (h1, i)" by fastforce
  have v: "valid_node h (p_node p)"
    using parent_valid(1) [OF ok(1) _ p(2)] ok(2) NodeArriveLoop by simp
  have "i < in_shards (node_at h1 (p_node p))"
    using shard_index_same [OF h1] ok(1) v by (simp add: same_nodes_def)
  with p h1 ok(2) show ?thesis
    by (auto simp: NodeArriveLoop node_arrive_loop_def unarrived_empty_def unarrived_test arrived_test
        atomic_defs shard_ref_Next)
next
  case (NodeDepartRelease n st)
  show ?thesis
  proof (cases "in_parent (node_at h n)")
    case (Some p)
    with ok(2) have e: "arrived_bit st" "mid st < in_shards (node_at h (p_node p))" "valid_node h n"
      by (auto simp: NodeDepartRelease emptied_child_def parent_of_def)
    then have "mid st < 2 ^ 16"
      using parent_valid(3) [OF ok(1) e(3), of "p_node p"] Some by (simp add: parent_of_def)
    then have "unat (drop_bit PARENT_SHARD_SHIFT st AND PARENT_SHARD_MASK) = mid st"
      unfolding parent_shard_mask by (rule mod_less)
    with e(1,2) Some show ?thesis
      by (auto simp: NodeDepartRelease node_depart_release_def arrived_test atomic_defs shard_ref_Next)
  qed (simp add: NodeDepartRelease node_depart_release_def)
qed (auto simp: shard_arrive_def node_arrive_def node_arrive_commit_def shard_depart_flush_def shard_depart_def
    shard_flush_def node_depart_def node_depart_notify_def atomic_defs Let_def split: option.split)

end
