(* ===== verification/Examples.thy ===== *)
theory Examples
  imports Safety
begin

text \<open>
  Concrete schedules of the machine, evaluated once: a tree of a root and a child with a
  guard on the child, before and after the guard is dropped. They show that the hypotheses
  of the properties hold in states the program reaches.
\<close>

definition runs :: "nat \<Rightarrow> action list" where
  "runs k = replicate k (Run 0 False)"

text \<open>A root, a child, a guard on the child, and the root shut down.\<close>

definition held_schedule :: "action list" where
  "held_schedule =
     [Call 0 (CallNew False), Call 0 (CallChild 0)] @ runs 6 @
     [Call 0 (CallGuard 1 (Location ''main.rs'' 7 9))] @ runs 14 @
     [Call 0 (CallShutDown 0)] @ runs 22"

lemma held_run:
  "\<exists>\<sigma>. perform_all held_schedule (sys_init 1 (Some 1)) = Some \<sigma> \<and>
     map_option gd_shard (guard_at (mem \<sigma>) 0) = Some (1, 0) \<and> parent_of (mem \<sigma>) 1 = Some 0 \<and>
     node_is_stopped 0 (mem \<sigma>) \<and> n_nodes (mem \<sigma>) = 2 \<and> in_shards (node_at (mem \<sigma>) 1) = 1 \<and>
     within_limits \<sigma> \<and> n_threads \<sigma> = 1 \<and> stack \<sigma> 0 = [] \<and>
     next_index (mem \<sigma>) \<noteq> of_nat usize_max \<and> is_stopped (0, 0) (mem \<sigma>) \<and>
     handle_at (mem \<sigma>) 0 = Some 0 \<and> swansong_state 0 (mem \<sigma>) (mem \<sigma>) = ShuttingDown"
  by (simp add: run_eval held_schedule_def runs_def parent_of_def)

lemma held_state:
  obtains \<sigma> gd where "reachable \<sigma>" "within_limits \<sigma>" "guard_at (mem \<sigma>) 0 = Some gd" "gd_shard gd = (1, 0)"
    "parent_of (mem \<sigma>) 1 = Some 0" "node_is_stopped 0 (mem \<sigma>)" "n_nodes (mem \<sigma>) = 2"
    "in_shards (node_at (mem \<sigma>) 1) = 1" "n_threads \<sigma> = 1" "stack \<sigma> 0 = []"
proof -
  obtain \<sigma> where s: "perform_all held_schedule (sys_init 1 (Some 1)) = Some \<sigma>"
    "map_option gd_shard (guard_at (mem \<sigma>) 0) = Some (1, 0)" "parent_of (mem \<sigma>) 1 = Some 0"
    "node_is_stopped 0 (mem \<sigma>)" "n_nodes (mem \<sigma>) = 2" "in_shards (node_at (mem \<sigma>) 1) = 1"
    "within_limits \<sigma>" "n_threads \<sigma> = 1" "stack \<sigma> 0 = []"
    using held_run by blast
  then obtain gd where "guard_at (mem \<sigma>) 0 = Some gd" "gd_shard gd = (1, 0)" by auto
  with s show thesis using that perform_all_reachable [OF reachable.init s(1)] by blast
qed

lemma stopped_shard_state: "\<exists>\<sigma>. reachable \<sigma> \<and> is_stopped (0, 0) (mem \<sigma>)"
  using held_run perform_all_reachable [OF reachable.init] by blast

text \<open>The top of the stack while the guard arrives at its shard.\<close>

definition arriving_schedule :: "action list" where
  "arriving_schedule =
     [Call 0 (CallNew False), Call 0 (CallGuard 0 (Location ''main.rs'' 3 5))] @ runs 3"

lemma arriving_run:
  "\<exists>\<sigma>. perform_all arriving_schedule (sys_init 1 (Some 1)) = Some \<sigma> \<and>
     n_threads \<sigma> = 1 \<and> within_limits \<sigma> \<and>
     stack \<sigma> 0 = [Count (ShardArriveLoop (0, 0) LOCAL_ONE 0),
       Grd (GuardBuild (0, 0) None (Location ''main.rs'' 3 5) None None), Borrow (OHandle 0)]"
  by (simp add: run_eval arriving_schedule_def runs_def)

text \<open>A root that is about to stop.\<close>

definition stopping_schedule :: "action list" where
  "stopping_schedule = [Call 0 (CallNew False), Call 0 (CallShutDown 0)]"

lemma stopping_run:
  "\<exists>\<sigma>. perform_all stopping_schedule (sys_init 1 (Some 1)) = Some \<sigma> \<and> within_limits \<sigma> \<and>
     n_threads \<sigma> = 1 \<and> n_nodes (mem \<sigma>) = 1 \<and> in_shards (node_at (mem \<sigma>) 0) = 1 \<and>
     \<not> node_is_stopped 0 (mem \<sigma>) \<and>
     stack \<sigma> 0 = [Stop (NodeStop 0), Swan (CompletionNew 0), Borrow (OHandle 0)] \<and>
     (\<exists>\<sigma>'. perform (Run 0 False) \<sigma> = Some \<sigma>')"
  by (simp add: run_eval stopping_schedule_def)

text \<open>The same, and then the guard is dropped: the tree completes.\<close>

definition finished_schedule :: "action list" where
  "finished_schedule = held_schedule @ [Call 0 (CallGuardDrop 0)] @ runs 12"

lemma finished_run:
  "\<exists>\<sigma>. perform_all finished_schedule (sys_init 1 (Some 1)) = Some \<sigma> \<and>
     within_limits \<sigma> \<and> n_threads \<sigma> = 1 \<and> idle \<sigma> \<and> n_nodes (mem \<sigma>) = 2 \<and> n_guards (mem \<sigma>) = 1 \<and>
     guard_at (mem \<sigma>) 0 = None \<and> handle_at (mem \<sigma>) 0 = Some 0 \<and>
     node_is_stopped 0 (mem \<sigma>) \<and> node_is_stopped 1 (mem \<sigma>) \<and> node_is_zero 0 (mem \<sigma>) \<and>
     parent_of (mem \<sigma>) 1 = Some 0 \<and> in_strong (node_at (mem \<sigma>) 1) = 1 \<and>
     map_option p_shard (in_parent (node_at (mem \<sigma>) 1)) = Some 0"
  by (simp add: run_eval finished_schedule_def held_schedule_def runs_def idle_def parent_of_def)

text \<open>The guard is about to be dropped.\<close>

definition dropping_schedule :: "action list" where
  "dropping_schedule = held_schedule @ [Call 0 (CallGuardDrop 0)]"

lemma dropping_run:
  "\<exists>\<sigma>. perform_all dropping_schedule (sys_init 1 (Some 1)) = Some \<sigma> \<and> n_threads \<sigma> = 1 \<and>
     stack \<sigma> 0 = [Grd (GuardDrop 0)]"
  by (simp add: run_eval dropping_schedule_def held_schedule_def runs_def)

text \<open>A child is made and its handle dropped: the node is collected.\<close>

definition collected_schedule :: "action list" where
  "collected_schedule = [Call 0 (CallNew False), Call 0 (CallChild 0)] @ runs 6 @ [Call 0 (CallDrop 1)] @ runs 2"

lemma collected_run:
  "\<exists>\<sigma>. perform_all collected_schedule (sys_init 1 (Some 1)) = Some \<sigma> \<and> within_limits \<sigma> \<and>
     n_nodes (mem \<sigma>) = 2 \<and> in_strong (node_at (mem \<sigma>) 1) = 0"
  by (simp add: run_eval collected_schedule_def runs_def)

text \<open>An interrupt is polled to \<^verbatim>\<open>Pending\<close>, and then its node is stopped.\<close>

definition woken_schedule :: "action list" where
  "woken_schedule =
     [Call 0 (CallNew False), Call 0 (CallInterrupt 0)] @ runs 2 @ [Call 0 (CallPoll 0 7)] @ runs 7 @
     [Call 0 (CallShutDown 0)] @ runs 12"

lemma woken_run:
  "\<exists>\<sigma> it. perform_all woken_schedule (sys_init 1 (Some 1)) = Some \<sigma> \<and> idle \<sigma> \<and>
     interrupt_at (mem \<sigma>) 0 = Some it \<and> it_shard it = (0, 0) \<and> it_last it = Some (7, Pending) \<and>
     is_stopped (0, 0) (mem \<sigma>)"
  by (simp add: run_eval woken_schedule_def runs_def idle_def)

text \<open>One thread polls inside the mutex while another waits for it to drain the waiters.\<close>

definition contended_schedule :: "action list" where
  "contended_schedule =
     [Call 0 (CallNew False), Call 0 (CallInterrupt 0)] @ runs 2 @ [Call 0 (CallPoll 0 7)] @ runs 4 @
     [Call 1 (CallShutDown 0), Run 1 False, Run 1 False]"

lemma contended_run:
  "\<exists>\<sigma> fs. perform_all contended_schedule (sys_init 2 (Some 1)) = Some \<sigma> \<and> within_limits \<sigma> \<and> n_threads \<sigma> = 2 \<and>
     stack \<sigma> 0 = [Intr (PollLocked 0 7), Borrow (OInterrupt 0)] \<and> stack \<sigma> 1 = Stop (ShardDrain (0, 0) 0) # fs \<and>
     exec 1 False (Stop (ShardDrain (0, 0) 0)) (mem \<sigma>) = Blocked \<and> sh_lock (shard_at (mem \<sigma>) (0, 0)) = Some 0"
  by (simp add: run_eval contended_schedule_def runs_def)

text \<open>A tree that reports, with a guard on the child.\<close>

definition reported_schedule :: "action list" where
  "reported_schedule =
     [Call 0 (CallNew True), Call 0 (CallChild 0)] @ runs 6 @
     [Call 0 (CallGuard 1 (Location ''main.rs'' 7 9))] @ runs 15"

lemma reported_run:
  "\<exists>\<sigma>. perform_all reported_schedule (sys_init 1 (Some 1)) = Some \<sigma> \<and> idle \<sigma> \<and> n_nodes (mem \<sigma>) = 2 \<and>
     n_guards (mem \<sigma>) = 1 \<and> map_option gd_shard (guard_at (mem \<sigma>) 0) = Some (1, 0) \<and>
     map_option gd_location (guard_at (mem \<sigma>) 0) = Some (Location ''main.rs'' 7 9) \<and>
     parent_of (mem \<sigma>) 1 = Some 0 \<and> handle_at (mem \<sigma>) 0 = Some 0 \<and> keeps_guard_report 0 (mem \<sigma>)"
  by (simp add: run_eval reported_schedule_def runs_def idle_def parent_of_def keeps_guard_report_def)

text \<open>Two children of a root, and then the first of them is shut down.\<close>

definition sibling_schedule :: "action list" where
  "sibling_schedule = [Call 0 (CallNew False), Call 0 (CallChild 0)] @ runs 6 @ [Call 0 (CallChild 0)] @ runs 6"

lemma sibling_run:
  "\<exists>\<sigma> \<sigma>' \<sigma>''. perform_all sibling_schedule (sys_init 1 (Some 1)) = Some \<sigma> \<and>
     perform (Call 0 (CallShutDown 1)) \<sigma> = Some \<sigma>' \<and> perform (Run 0 False) \<sigma>' = Some \<sigma>'' \<and>
     within_limits \<sigma> \<and> within_limits \<sigma>' \<and> idle \<sigma> \<and> n_nodes (mem \<sigma>) = 3 \<and> handle_at (mem \<sigma>) 1 = Some 1 \<and>
     parent_of (mem \<sigma>) 2 = Some 0 \<and> parent_of (mem \<sigma>) 0 = None \<and>
     \<not> node_is_stopped 0 (mem \<sigma>) \<and> \<not> node_is_stopped 2 (mem \<sigma>) \<and>
     parent_of (mem \<sigma>') 2 = Some 0 \<and> parent_of (mem \<sigma>') 0 = None \<and> in_swansong_count (node_at (mem \<sigma>') 0) = 1 \<and>
     parent_of (mem \<sigma>'') 2 = Some 0 \<and> parent_of (mem \<sigma>'') 0 = None \<and> in_swansong_count (node_at (mem \<sigma>'') 0) = 1 \<and>
     node_is_stopped 1 (mem \<sigma>'')"
  by (simp add: run_eval sibling_schedule_def runs_def idle_def parent_of_def)

text \<open>A root's handle is cloned, and both handles are dropped.\<close>

definition cloned_schedule :: "action list" where
  "cloned_schedule =
     [Call 0 (CallNew False), Call 0 (CallClone 0)] @ runs 3 @ [Call 0 (CallDrop 0)] @ runs 2 @
     [Call 0 (CallDrop 1)] @ runs 15"

lemma cloned_run:
  "\<exists>\<sigma>. perform_all cloned_schedule (sys_init 1 (Some 1)) = Some \<sigma> \<and> idle \<sigma> \<and> n_nodes (mem \<sigma>) = 1 \<and>
     parent_of (mem \<sigma>) 0 = None \<and> handle_at (mem \<sigma>) = Map.empty"
  by (simp add: run_eval cloned_schedule_def runs_def idle_def parent_of_def fun_eq_iff)

text \<open>An interrupt is polled after its node was stopped.\<close>

definition ended_schedule :: "action list" where
  "ended_schedule =
     [Call 0 (CallNew False), Call 0 (CallInterrupt 0)] @ runs 2 @ [Call 0 (CallShutDown 0)] @ runs 11 @
     [Call 0 (CallPoll 0 7)] @ runs 2"

lemma ended_run:
  "\<exists>\<sigma> it. perform_all ended_schedule (sys_init 1 (Some 1)) = Some \<sigma> \<and>
     interrupt_at (mem \<sigma>) 0 = Some it \<and> it_shard it = (0, 0) \<and> it_last it = Some (7, Ready None)"
  by (simp add: run_eval ended_schedule_def runs_def idle_def)

end
