(* ===== verification/Completion.thy ===== *)
theory Completion
  imports Packed_State
begin

text \<open>
  \<^verbatim>\<open>ShutdownCompletion\<close> and \<^verbatim>\<open>ShuttingDown\<close>: the loops of \<^verbatim>\<open>poll\<close> and \<^verbatim>\<open>block\<close> over an event of
  the \<^verbatim>\<open>event_listener\<close> crate. Other threads run in between, so a loop is modelled against time:
  each access has a time, the checks read what the node's word holds then, and the crate is
  given by three parameters, \<open>listen\<close>, \<open>ready\<close> and \<open>wait\<close>. \<open>event_contract\<close> and \<open>wait_contract\<close>
  are its documented behaviour.
\<close>

section \<open>The checks\<close>

text \<open>
  What a check at a time reads: the word for the stop bit, and then the word for the count.
  The relaxed and the sequentially consistent reads are the same here.
\<close>

type_synonym reads = "nat \<Rightarrow> u64 \<times> u64"

definition complete_at :: "reads \<Rightarrow> nat \<Rightarrow> bool" where
  "complete_at r k \<longleftrightarrow> fst (r k) AND STOPPED \<noteq> 0 \<and> snd (r k) AND SHARDS_MASK = 0"

definition stopped_at :: "reads \<Rightarrow> nat \<Rightarrow> bool" where
  "stopped_at r k \<longleftrightarrow> fst (r k) AND STOPPED \<noteq> 0"

section \<open>Polling\<close>

text \<open>
  The loop of \<^verbatim>\<open>poll\<close> from time \<open>k\<close> with the listener \<open>l\<close> kept from the last poll: the result,
  the listener kept, and the time afterwards. \<open>None\<close> means that the fuel ran out.
\<close>

fun await_poll ::
  "nat \<Rightarrow> (nat \<Rightarrow> bool) \<Rightarrow> (nat \<Rightarrow> 'l) \<Rightarrow> ('l \<Rightarrow> nat \<Rightarrow> bool) \<Rightarrow> nat \<Rightarrow> 'l option \<Rightarrow>
   (unit poll \<times> 'l option \<times> nat) option" where
  "await_poll 0 check listen ready k l = None"
| "await_poll (Suc fuel) check listen ready k l =
     (if check k then Some (Ready (), l, k + 1)
      else
        (case l of
           Some x \<Rightarrow>
             if ready x (k + 1) then await_poll fuel check listen ready (k + 2) None
             else Some (Pending, Some x, k + 2)
         | None \<Rightarrow>
             let x = listen (k + 1) in
             if check (k + 2) then Some (Ready (), Some x, k + 3)
             else if ready x (k + 3) then await_poll fuel check listen ready (k + 4) None
             else Some (Pending, Some x, k + 4)))"

definition completion_poll ::
  "nat \<Rightarrow> reads \<Rightarrow> (nat \<Rightarrow> 'l) \<Rightarrow> ('l \<Rightarrow> nat \<Rightarrow> bool) \<Rightarrow> nat \<Rightarrow> 'l option \<Rightarrow>
   (unit poll \<times> 'l option \<times> nat) option" where
  "completion_poll fuel r = await_poll fuel (complete_at r)"

definition shutting_down_poll ::
  "nat \<Rightarrow> reads \<Rightarrow> (nat \<Rightarrow> 'l) \<Rightarrow> ('l \<Rightarrow> nat \<Rightarrow> bool) \<Rightarrow> nat \<Rightarrow> 'l option \<Rightarrow>
   (unit poll \<times> 'l option \<times> nat) option" where
  "shutting_down_poll fuel r = await_poll fuel (stopped_at r)"

section \<open>Blocking\<close>

datatype blocking = Returned nat | Waiting_forever nat | Out_of_fuel

text \<open>\<open>wait x k\<close> is the time at which waiting for \<open>x\<close> from time \<open>k\<close> returns, if it does.\<close>

fun await_block ::
  "nat \<Rightarrow> (nat \<Rightarrow> bool) \<Rightarrow> (nat \<Rightarrow> 'l) \<Rightarrow> ('l \<Rightarrow> nat \<Rightarrow> nat option) \<Rightarrow> nat \<Rightarrow> 'l option \<Rightarrow> blocking" where
  "await_block 0 check listen wait k l = Out_of_fuel"
| "await_block (Suc fuel) check listen wait k l =
     (if check k then Returned k
      else
        (case l of
           Some x \<Rightarrow>
             (case wait x (k + 1) of
                None \<Rightarrow> Waiting_forever (k + 1)
              | Some k' \<Rightarrow> await_block fuel check listen wait (k' + 1) None)
         | None \<Rightarrow>
             let x = listen (k + 1) in
             if check (k + 2) then Returned (k + 2)
             else
               (case wait x (k + 3) of
                  None \<Rightarrow> Waiting_forever (k + 3)
                | Some k' \<Rightarrow> await_block fuel check listen wait (k' + 1) None)))"

definition completion_block ::
  "nat \<Rightarrow> reads \<Rightarrow> (nat \<Rightarrow> 'l) \<Rightarrow> ('l \<Rightarrow> nat \<Rightarrow> nat option) \<Rightarrow> nat \<Rightarrow> 'l option \<Rightarrow> blocking" where
  "completion_block fuel r = await_block fuel (complete_at r)"

definition shutting_down_block ::
  "nat \<Rightarrow> reads \<Rightarrow> (nat \<Rightarrow> 'l) \<Rightarrow> ('l \<Rightarrow> nat \<Rightarrow> nat option) \<Rightarrow> nat \<Rightarrow> 'l option \<Rightarrow> blocking" where
  "shutting_down_block fuel r = await_block fuel (stopped_at r)"

text \<open>\<^verbatim>\<open>Swansong::block_on_shutdown_completion\<close> blocks on a new completion of its node.\<close>

definition block_on_shutdown_completion ::
  "nat \<Rightarrow> reads \<Rightarrow> (nat \<Rightarrow> 'l) \<Rightarrow> ('l \<Rightarrow> nat \<Rightarrow> nat option) \<Rightarrow> nat \<Rightarrow> blocking" where
  "block_on_shutdown_completion fuel r listen wait k = completion_block fuel r listen wait k None"

section \<open>What the crate promises\<close>

text \<open>
  A listener is ready once the event has notified all its listeners after it was created, and
  not before. \<open>notified\<close> holds the times of the notifications.
\<close>

definition event_contract :: "(nat \<Rightarrow> 'l) \<Rightarrow> ('l \<Rightarrow> nat \<Rightarrow> bool) \<Rightarrow> nat set \<Rightarrow> bool" where
  "event_contract listen ready notified \<longleftrightarrow>
     (\<forall>i k. ready (listen i) k \<longleftrightarrow> (\<exists>j \<in> notified. i < j \<and> j < k))"

definition wait_contract :: "('l \<Rightarrow> nat \<Rightarrow> bool) \<Rightarrow> ('l \<Rightarrow> nat \<Rightarrow> nat option) \<Rightarrow> bool" where
  "wait_contract ready wait \<longleftrightarrow>
     (\<forall>x k. case wait x k of None \<Rightarrow> \<forall>k' \<ge> k. \<not> ready x k' | Some k' \<Rightarrow> k \<le> k' \<and> ready x k')"

text \<open>
  What the node promises: if a check fails and a later one would succeed, the event is
  notified after the first.
\<close>

definition notifies :: "(nat \<Rightarrow> bool) \<Rightarrow> nat set \<Rightarrow> bool" where
  "notifies check notified \<longleftrightarrow>
     (\<forall>i j. i < j \<longrightarrow> \<not> check i \<longrightarrow> check j \<longrightarrow> (\<exists>m \<in> notified. i < m))"

section \<open>Properties of the loops\<close>

text \<open>The six ways in which an iteration of \<^verbatim>\<open>poll\<close> goes.\<close>

lemma await_poll_step:
  obtains (checked) "check k" "await_poll (Suc fuel) check listen ready k l = Some (Ready (), l, k + 1)"
  | (notified) x where "l = Some x" "\<not> check k" "ready x (k + 1)"
      "await_poll (Suc fuel) check listen ready k l = await_poll fuel check listen ready (k + 2) None"
  | (kept) x where "l = Some x" "\<not> check k" "\<not> ready x (k + 1)"
      "await_poll (Suc fuel) check listen ready k l = Some (Pending, Some x, k + 2)"
  | (rechecked) "l = None" "\<not> check k" "check (k + 2)"
      "await_poll (Suc fuel) check listen ready k l = Some (Ready (), Some (listen (k + 1)), k + 3)"
  | (renewed) "l = None" "\<not> check k" "\<not> check (k + 2)" "ready (listen (k + 1)) (k + 3)"
      "await_poll (Suc fuel) check listen ready k l = await_poll fuel check listen ready (k + 4) None"
  | (registered) "l = None" "\<not> check k" "\<not> check (k + 2)" "\<not> ready (listen (k + 1)) (k + 3)"
      "await_poll (Suc fuel) check listen ready k l = Some (Pending, Some (listen (k + 1)), k + 4)"
proof (cases "check k")
  case True
  show thesis by (rule checked) (simp_all add: True)
next
  case no: False
  show thesis
  proof (cases l)
    case (Some x)
    show thesis
    proof (cases "ready x (k + 1)")
      case True
      show thesis by (rule notified [of x]) (use Some no True in simp_all)
    next
      case False
      show thesis by (rule kept [of x]) (use Some no False in simp_all)
    qed
  next
    case None
    show thesis
    proof (cases "check (k + 2)")
      case True
      show thesis by (rule rechecked) (use None no True in simp_all)
    next
      case again: False
      show thesis
      proof (cases "ready (listen (k + 1)) (k + 3)")
        case True
        show thesis by (rule renewed) (use None no again True in simp_all)
      next
        case False
        show thesis by (rule registered) (use None no again False in simp_all)
      qed
    qed
  qed
qed

declare await_poll.simps(2) [simp del]

declare await_poll.simps(2) [simp del]

lemma await_poll_ready:
  "await_poll fuel check listen ready k l = Some (Ready (), l', k') \<Longrightarrow> \<exists>j. k \<le> j \<and> j < k' \<and> check j"
proof (induction fuel arbitrary: k l)
  case (Suc fuel)
  have later: ?case if eq: "await_poll (Suc fuel) check listen ready k l = await_poll fuel check listen ready (k + d) None" for d
  proof -
    obtain j where "k + d \<le> j" "j < k'" "check j"
      using Suc.IH [of "k + d" None] Suc.prems unfolding eq by blast
    then show ?thesis by (intro exI [of _ j]) simp
  qed
  have now: ?case if "await_poll (Suc fuel) check listen ready k l = Some (Ready (), x, k + d + 1)" "check (k + d)" for x d
    using Suc.prems that by (intro exI [of _ "k + d"]) simp
  show ?case
  proof (cases rule: await_poll_step [of check k fuel listen ready l])
    case checked
    with now [of l 0] show ?thesis by (simp only: add_0_right)
  next
    case rechecked
    have "k + 2 + 1 = k + 3" by simp
    with rechecked(3,4) show ?thesis using now [of "Some (listen (k + 1))" 2] by (simp only:)
  next
    case notified
    from notified(4) show ?thesis by (rule later)
  next
    case renewed
    from renewed(5) show ?thesis by (rule later)
  next
    case kept
    with Suc.prems show ?thesis by simp
  next
    case registered
    with Suc.prems show ?thesis by simp
  qed
qed simp

lemma await_poll_pending:
  "await_poll fuel check listen ready k l = Some (Pending, l', k') \<Longrightarrow>
   \<exists>x. l' = Some x \<and> \<not> ready x (k' - 1) \<and>
     (l = Some x \<and> k' = k + 2 \<or> (\<exists>i. x = listen i \<and> k < i \<and> i + 3 = k' \<and> \<not> check (i + 1)))"
proof (induction fuel arbitrary: k l)
  case (Suc fuel)
  have later: ?case if eq: "await_poll (Suc fuel) check listen ready k l = await_poll fuel check listen ready (k + d) None" for d
  proof -
    obtain x i where "l' = Some x" "\<not> ready x (k' - 1)" "x = listen i" "k + d < i" "i + 3 = k'" "\<not> check (i + 1)"
      using Suc.IH [of "k + d" None] Suc.prems unfolding eq by auto
    then show ?thesis by (intro exI [of _ x] conjI disjI2 exI [of _ i]) simp_all
  qed
  show ?case
  proof (cases rule: await_poll_step [of check k fuel listen ready l])
    case (kept x)
    with Suc.prems show ?thesis by simp
  next
    case registered
    have "l' = Some (listen (k + 1))" "k' = k + 4"
      using Suc.prems unfolding registered(5) by simp_all
    then show ?thesis
      using registered(3,4)
      by (intro exI [of _ "listen (k + 1)"] conjI disjI2 exI [of _ "k + 1"]) (simp_all add: add.commute)
  next
    case notified
    from notified(4) show ?thesis by (rule later)
  next
    case renewed
    from renewed(5) show ?thesis by (rule later)
  next
    case checked
    with Suc.prems show ?thesis by simp
  next
    case rechecked
    with Suc.prems show ?thesis by simp
  qed
qed simp

text \<open>A poll that returns pending is woken if the check comes to succeed.\<close>

lemma await_poll_woken:
  assumes poll: "await_poll fuel check listen ready k None = Some (Pending, l', k')"
    and contract: "event_contract listen ready notified" "notifies check notified"
    and later: "check j" "k' \<le> j"
  shows "\<exists>x m. l' = Some x \<and> ready x m"
proof -
  obtain x i where x: "l' = Some x" "x = listen i" "i + 3 = k'" "\<not> check (i + 1)"
    using await_poll_pending [OF poll] by auto
  then have "i + 1 < j" using later(2) by simp
  then obtain m where m: "m \<in> notified" "i + 1 < m"
    using contract(2) later(1) x(4) unfolding notifies_def by blast
  have "i < m \<and> m < Suc m" using m(2) by simp
  then have "ready x (Suc m)"
    using contract(1) m(1) unfolding event_contract_def x(2) by blast
  with x(1) show ?thesis by blast
qed

text \<open>
  Each further iteration uses up a notification, so a loop over an event that is notified
  finitely often returns: one unit of fuel per notification to come and two more are enough.
\<close>

lemma await_poll_fresh_terminates:
  assumes contract: "event_contract listen ready notified" and fin: "finite notified"
  shows "card {m \<in> notified. k < m} < fuel \<Longrightarrow> await_poll fuel check listen ready k None \<noteq> None"
proof (induction fuel arbitrary: k)
  case (Suc fuel)
  show ?case
  proof (cases rule: await_poll_step [of check k fuel listen ready None])
    case renewed
    then obtain m where m: "m \<in> notified" "k + 1 < m" "m < k + 3"
      using contract unfolding event_contract_def by blast
    have "m \<in> {m \<in> notified. k < m}" "m \<notin> {m \<in> notified. k + 4 < m}" using m by auto
    moreover have "{m \<in> notified. k + 4 < m} \<subseteq> {m \<in> notified. k < m}" by auto
    ultimately have "{m \<in> notified. k + 4 < m} \<subset> {m \<in> notified. k < m}" by blast
    then have "card {m \<in> notified. k + 4 < m} < card {m \<in> notified. k < m}"
      using fin by (intro psubset_card_mono) auto
    then show ?thesis using Suc.IH [of "k + 4"] Suc.prems unfolding renewed(5) by linarith
  qed simp_all
qed simp

theorem await_poll_terminates:
  assumes contract: "event_contract listen ready notified" and fin: "finite notified"
    and fuel: "card {m \<in> notified. k < m} + 2 \<le> fuel"
  shows "await_poll fuel check listen ready k l \<noteq> None"
proof -
  obtain f where f: "fuel = Suc f" using fuel by (cases fuel) auto
  have "card {m \<in> notified. k + 2 < m} \<le> card {m \<in> notified. k < m}"
    using fin by (intro card_mono) auto
  then have "card {m \<in> notified. k + 2 < m} < f" using fuel f by simp
  note fresh = await_poll_fresh_terminates [OF contract fin this, of check]
  show ?thesis
  proof (cases l)
    case None
    then show ?thesis
      using await_poll_fresh_terminates [OF contract fin, of k fuel check] fuel by simp
  next
    case (Some x)
    show ?thesis
    proof (cases rule: await_poll_step [of check k f listen ready l])
      case notified
      show ?thesis unfolding f notified(4) by (rule fresh)
    qed (simp_all add: Some f)
  qed
qed

section \<open>Properties of blocking\<close>

lemma await_block_returned:
  "await_block fuel check listen wait k l = Returned k' \<Longrightarrow> check k'"
proof (induction fuel arbitrary: k l)
  case (Suc fuel)
  then show ?case by (auto simp: Let_def split: if_splits option.splits)
qed simp

text \<open>
  A thread that waits forever waits on a listener it registered before a check that failed;
  if the check ever succeeded after that, the event would have been notified.
\<close>

lemma await_block_waiting:
  assumes contract: "event_contract listen ready notified" "wait_contract ready wait" "notifies check notified"
  shows "await_block fuel check listen wait k None = Waiting_forever k' \<Longrightarrow> k' \<le> j \<Longrightarrow> \<not> check j"
proof (induction fuel arbitrary: k)
  case (Suc fuel)
  show ?case
  proof (cases "check k \<or> check (k + 2)")
    case True
    with Suc.prems show ?thesis by (auto simp: Let_def split: if_splits)
  next
    case False
    show ?thesis
    proof (cases "wait (listen (k + 1)) (k + 3)")
      case None
      have never: "\<not> ready (listen (k + 1)) m" if "k + 3 \<le> m" for m
        using spec [OF spec [OF contract(2) [unfolded wait_contract_def], of "listen (k + 1)"], of "k + 3"] that
        unfolding None by simp
      have k': "k' = k + 3" using Suc.prems(1) None False by (simp add: Let_def)
      show ?thesis
      proof
        assume "check j"
        moreover have "k + 2 < j" using Suc.prems(2) k' by simp
        ultimately obtain m where m: "m \<in> notified" "k + 2 < m"
          using contract(3) False unfolding notifies_def by blast
        then have "k + 1 < m \<and> m < Suc m" by simp
        then have "ready (listen (k + 1)) (Suc m)"
          using contract(1) m(1) unfolding event_contract_def by blast
        with never [of "Suc m"] m(2) show False by simp
      qed
    next
      case (Some k'')
      have "await_block fuel check listen wait (k'' + 1) None = Waiting_forever k'"
        using Suc.prems(1) False Some by (simp add: Let_def)
      then show ?thesis using Suc.IH Suc.prems(2) by blast
    qed
  qed
qed simp

lemmas [run_eval] =
  complete_at_def stopped_at_def completion_poll_def shutting_down_poll_def
  completion_block_def shutting_down_block_def block_on_shutdown_completion_def

end
