(* ===== verification/Wrappers.thy ===== *)
theory Wrappers
  imports Handles
begin

text \<open>
  What an \<^verbatim>\<open>Interrupt<T>\<close> does for a stream, an iterator, a reader or a writer, and what a
  \<^verbatim>\<open>Guarded<T>\<close> does. The methods of the wrapped type are parameters: a method takes its
  argument and the wrapped value and gives its result and the wrapped value afterwards. The
  stop bit is read from the heap at the time of the call.

  Iterators, readers and writers are sealed alike: the locale \<open>sealing\<close> states it once, and
  each of them is an interpretation.
\<close>

type_synonym byte = "8 word"

text \<open>The result of an I/O method, as \<^verbatim>\<open>Poll<std::io::Result<_>>\<close>.\<close>

type_synonym ('a, 'e) io = "('a, 'e) res poll"

type_synonym ('i, 'o, 'w) operation = "'i \<Rightarrow> 'w \<Rightarrow> 'o \<times> 'w"

section \<open>Interrupt\<close>

definition interrupt_is_stopped :: "interrupt \<Rightarrow> heap \<Rightarrow> bool" where
  "interrupt_is_stopped it h \<longleftrightarrow> is_stopped (it_shard it) h"

text \<open>\<^verbatim>\<open>into_inner\<close>: the wrapped value, and the frames that drop the rest of the interrupt.\<close>

definition interrupt_into_inner :: "interrupt \<Rightarrow> 'w \<Rightarrow> 'w \<times> frame list" where
  "interrupt_into_inner it w = (w, drop_frames it)"

definition interrupt_deref :: "interrupt \<times> 'w \<Rightarrow> 'w" where
  "interrupt_deref x = snd x"

subsection \<open>Iterators\<close>

definition interrupt_next ::
  "(unit, 'a option, 'w) operation \<Rightarrow> interrupt \<Rightarrow> unit \<Rightarrow> heap \<Rightarrow> 'w \<Rightarrow> 'a option \<times> 'w" where
  "interrupt_next next it u h w =
     (if interrupt_is_stopped it h then (None, w) else next u w)"

definition interrupt_size_hint :: "('w \<Rightarrow> nat \<times> nat option) \<Rightarrow> 'w \<Rightarrow> nat \<times> nat option" where
  "interrupt_size_hint size_hint w = (0, snd (size_hint w))"

subsection \<open>Streams\<close>

text \<open>
  What \<^verbatim>\<open>poll_stopped\<close> returns when it reads the stop bit from \<open>h\<close>; what it does to the
  registration is in the theory of interrupts.
\<close>

definition poll_stopped_result :: "interrupt \<Rightarrow> heap \<Rightarrow> unit poll" where
  "poll_stopped_result it h = (if interrupt_is_stopped it h then Ready () else Pending)"

text \<open>The stop bit is read from \<open>h\<close>, and again from \<open>h'\<close> if the wrapped stream is pending.\<close>

definition interrupt_poll_next ::
  "(unit, 'a option poll, 'w) operation \<Rightarrow> interrupt \<Rightarrow> heap \<Rightarrow> heap \<Rightarrow> 'w \<Rightarrow> 'a option poll \<times> 'w" where
  "interrupt_poll_next poll_next it h h' w =
     (if interrupt_is_stopped it h then (Ready None, w)
      else
        (case poll_next () w of
           (Ready item, w) \<Rightarrow> (Ready item, w)
         | (Pending, w) \<Rightarrow> (map_poll (\<lambda>_. None) (poll_stopped_result it h'), w)))"

definition interrupt_stream_size_hint :: "('w \<Rightarrow> nat \<times> nat option) \<Rightarrow> 'w \<Rightarrow> nat \<times> nat option" where
  "interrupt_stream_size_hint size_hint w = (0, snd (size_hint w))"

subsection \<open>Readers\<close>

text \<open>A buffer is a list of bytes: a read gives its result and the buffer afterwards.\<close>

definition interrupt_poll_read ::
  "(byte list, (nat, 'e) io \<times> byte list, 'w) operation \<Rightarrow> interrupt \<Rightarrow>
   byte list \<Rightarrow> heap \<Rightarrow> 'w \<Rightarrow> ((nat, 'e) io \<times> byte list) \<times> 'w" where
  "interrupt_poll_read poll_read it buf h w =
     (if interrupt_is_stopped it h then ((Ready (Ok 0), buf), w) else poll_read buf w)"

definition interrupt_poll_read_vectored ::
  "(byte list list, (nat, 'e) io \<times> byte list list, 'w) operation \<Rightarrow> interrupt \<Rightarrow>
   byte list list \<Rightarrow> heap \<Rightarrow> 'w \<Rightarrow> ((nat, 'e) io \<times> byte list list) \<times> 'w" where
  "interrupt_poll_read_vectored poll_read_vectored it bufs h w =
     (if interrupt_is_stopped it h then ((Ready (Ok 0), bufs), w) else poll_read_vectored bufs w)"

text \<open>The reader of \<^verbatim>\<open>tokio\<close> reports how much it read in the buffer, here what it appended.\<close>

definition interrupt_tokio_poll_read ::
  "(byte list, (unit, 'e) io \<times> byte list, 'w) operation \<Rightarrow> interrupt \<Rightarrow>
   byte list \<Rightarrow> heap \<Rightarrow> 'w \<Rightarrow> ((unit, 'e) io \<times> byte list) \<times> 'w" where
  "interrupt_tokio_poll_read poll_read it buf h w =
     (if interrupt_is_stopped it h then ((Ready (Ok ()), buf), w) else poll_read buf w)"

subsection \<open>Writers\<close>

definition interrupt_poll_write ::
  "(byte list, (nat, 'e) io, 'w) operation \<Rightarrow> interrupt \<Rightarrow> byte list \<Rightarrow> heap \<Rightarrow> 'w \<Rightarrow> (nat, 'e) io \<times> 'w" where
  "interrupt_poll_write poll_write it buf h w =
     (if interrupt_is_stopped it h then (Ready (Ok 0), w) else poll_write buf w)"

definition interrupt_poll_write_vectored ::
  "(byte list list, (nat, 'e) io, 'w) operation \<Rightarrow> interrupt \<Rightarrow>
   byte list list \<Rightarrow> heap \<Rightarrow> 'w \<Rightarrow> (nat, 'e) io \<times> 'w" where
  "interrupt_poll_write_vectored poll_write_vectored it bufs h w =
     (if interrupt_is_stopped it h then (Ready (Ok 0), w) else poll_write_vectored bufs w)"

text \<open>Flushing and closing are not sealed.\<close>

definition interrupt_poll_flush :: "(unit, (unit, 'e) io, 'w) operation \<Rightarrow> 'w \<Rightarrow> (unit, 'e) io \<times> 'w" where
  "interrupt_poll_flush poll_flush w = poll_flush () w"

definition interrupt_poll_close :: "(unit, (unit, 'e) io, 'w) operation \<Rightarrow> 'w \<Rightarrow> (unit, 'e) io \<times> 'w" where
  "interrupt_poll_close poll_close w = poll_close () w"

text \<open>The implementation for \<^verbatim>\<open>tokio\<close>.\<close>

definition interrupt_tokio_poll_write ::
  "(byte list, (nat, 'e) io, 'w) operation \<Rightarrow> interrupt \<Rightarrow> byte list \<Rightarrow> heap \<Rightarrow> 'w \<Rightarrow> (nat, 'e) io \<times> 'w" where
  "interrupt_tokio_poll_write poll_write it buf h w =
     (if interrupt_is_stopped it h then (Ready (Ok 0), w) else poll_write buf w)"

definition interrupt_tokio_poll_flush :: "(unit, (unit, 'e) io, 'w) operation \<Rightarrow> 'w \<Rightarrow> (unit, 'e) io \<times> 'w" where
  "interrupt_tokio_poll_flush poll_flush w = poll_flush () w"

definition interrupt_poll_shutdown :: "(unit, (unit, 'e) io, 'w) operation \<Rightarrow> 'w \<Rightarrow> (unit, 'e) io \<times> 'w" where
  "interrupt_poll_shutdown poll_shutdown w = poll_shutdown () w"

definition interrupt_tokio_poll_write_vectored ::
  "(byte list list, (nat, 'e) io, 'w) operation \<Rightarrow> interrupt \<Rightarrow>
   byte list list \<Rightarrow> heap \<Rightarrow> 'w \<Rightarrow> (nat, 'e) io \<times> 'w" where
  "interrupt_tokio_poll_write_vectored poll_write_vectored it bufs h w =
     (if interrupt_is_stopped it h then (Ready (Ok 0), w) else poll_write_vectored bufs w)"

definition interrupt_is_write_vectored :: "('w \<Rightarrow> bool) \<Rightarrow> 'w \<Rightarrow> bool" where
  "interrupt_is_write_vectored is_write_vectored w = is_write_vectored w"

section \<open>Guarded\<close>

record 'w guarded =
  gu_guard :: gid
  gu_wrapped :: 'w

text \<open>\<^verbatim>\<open>Guarded::new\<close> creates a guard and stores it beside the value.\<close>

definition swansong_guarded :: "nid \<Rightarrow> location \<Rightarrow> frame list" where
  "swansong_guarded n loc = swansong_guard n loc"

definition guarded_new :: "heap \<Rightarrow> 'w \<Rightarrow> 'w guarded" where
  "guarded_new h w = \<lparr>gu_guard = n_guards h - 1, gu_wrapped = w\<rparr>"

text \<open>The value, and the frames that drop the guard.\<close>

definition guarded_into_inner :: "'w guarded \<Rightarrow> 'w \<times> frame list" where
  "guarded_into_inner x = (gu_wrapped x, [Grd (GuardDrop (gu_guard x))])"

definition guarded_deref :: "'w guarded \<Rightarrow> 'w" where
  "guarded_deref x = gu_wrapped x"

text \<open>The methods: each runs that of the wrapped value in place.\<close>

definition project :: "('i, 'o, 'w) operation \<Rightarrow> ('i, 'o, 'w guarded) operation" where
  "project f i x = (case f i (gu_wrapped x) of (r, w) \<Rightarrow> (r, x\<lparr>gu_wrapped := w\<rparr>))"

definition guarded_poll :: "(unit, 'a poll, 'w) operation \<Rightarrow> (unit, 'a poll, 'w guarded) operation" where
  "guarded_poll poll = project poll"

definition guarded_poll_next ::
  "(unit, 'a option poll, 'w) operation \<Rightarrow> (unit, 'a option poll, 'w guarded) operation" where
  "guarded_poll_next poll_next = project poll_next"

definition guarded_size_hint :: "('w \<Rightarrow> nat \<times> nat option) \<Rightarrow> 'w guarded \<Rightarrow> nat \<times> nat option" where
  "guarded_size_hint size_hint x = size_hint (gu_wrapped x)"

definition guarded_poll_read ::
  "(byte list, (nat, 'e) io \<times> byte list, 'w) operation \<Rightarrow>
   (byte list, (nat, 'e) io \<times> byte list, 'w guarded) operation" where
  "guarded_poll_read poll_read = project poll_read"

definition guarded_poll_read_vectored ::
  "(byte list list, (nat, 'e) io \<times> byte list list, 'w) operation \<Rightarrow>
   (byte list list, (nat, 'e) io \<times> byte list list, 'w guarded) operation" where
  "guarded_poll_read_vectored poll_read_vectored = project poll_read_vectored"

definition guarded_poll_write ::
  "(byte list, (nat, 'e) io, 'w) operation \<Rightarrow> (byte list, (nat, 'e) io, 'w guarded) operation" where
  "guarded_poll_write poll_write = project poll_write"

definition guarded_poll_flush ::
  "(unit, (unit, 'e) io, 'w) operation \<Rightarrow> (unit, (unit, 'e) io, 'w guarded) operation" where
  "guarded_poll_flush poll_flush = project poll_flush"

definition guarded_poll_close ::
  "(unit, (unit, 'e) io, 'w) operation \<Rightarrow> (unit, (unit, 'e) io, 'w guarded) operation" where
  "guarded_poll_close poll_close = project poll_close"

definition guarded_poll_write_vectored ::
  "(byte list list, (nat, 'e) io, 'w) operation \<Rightarrow> (byte list list, (nat, 'e) io, 'w guarded) operation" where
  "guarded_poll_write_vectored poll_write_vectored = project poll_write_vectored"

definition guarded_poll_fill_buf ::
  "(unit, (byte list, 'e) io, 'w) operation \<Rightarrow> (unit, (byte list, 'e) io, 'w guarded) operation" where
  "guarded_poll_fill_buf poll_fill_buf = project poll_fill_buf"

definition guarded_consume :: "(nat, unit, 'w) operation \<Rightarrow> (nat, unit, 'w guarded) operation" where
  "guarded_consume consume = project consume"

definition guarded_tokio_poll_read ::
  "(byte list, (unit, 'e) io \<times> byte list, 'w) operation \<Rightarrow>
   (byte list, (unit, 'e) io \<times> byte list, 'w guarded) operation" where
  "guarded_tokio_poll_read poll_read = project poll_read"

definition guarded_tokio_poll_write ::
  "(byte list, (nat, 'e) io, 'w) operation \<Rightarrow> (byte list, (nat, 'e) io, 'w guarded) operation" where
  "guarded_tokio_poll_write poll_write = project poll_write"

definition guarded_tokio_poll_flush ::
  "(unit, (unit, 'e) io, 'w) operation \<Rightarrow> (unit, (unit, 'e) io, 'w guarded) operation" where
  "guarded_tokio_poll_flush poll_flush = project poll_flush"

definition guarded_poll_shutdown ::
  "(unit, (unit, 'e) io, 'w) operation \<Rightarrow> (unit, (unit, 'e) io, 'w guarded) operation" where
  "guarded_poll_shutdown poll_shutdown = project poll_shutdown"

definition guarded_tokio_poll_write_vectored ::
  "(byte list list, (nat, 'e) io, 'w) operation \<Rightarrow> (byte list list, (nat, 'e) io, 'w guarded) operation" where
  "guarded_tokio_poll_write_vectored poll_write_vectored = project poll_write_vectored"

definition guarded_is_write_vectored :: "('w \<Rightarrow> bool) \<Rightarrow> 'w guarded \<Rightarrow> bool" where
  "guarded_is_write_vectored is_write_vectored x = is_write_vectored (gu_wrapped x)"

definition guarded_tokio_poll_fill_buf ::
  "(unit, (byte list, 'e) io, 'w) operation \<Rightarrow> (unit, (byte list, 'e) io, 'w guarded) operation" where
  "guarded_tokio_poll_fill_buf poll_fill_buf = project poll_fill_buf"

definition guarded_tokio_consume :: "(nat, unit, 'w) operation \<Rightarrow> (nat, unit, 'w guarded) operation" where
  "guarded_tokio_consume consume = project consume"

section \<open>Equality\<close>

text \<open>\<^verbatim>\<open>Weak::ptr_eq\<close> on the nodes of the shards.\<close>

definition same_node :: "sid \<Rightarrow> sid \<Rightarrow> heap \<Rightarrow> bool" where
  "same_node s s' h \<longleftrightarrow> sh_node (shard_at h s) = sh_node (shard_at h s')"

definition listener_same_node :: "interrupt \<Rightarrow> interrupt \<Rightarrow> heap \<Rightarrow> bool" where
  "listener_same_node it it' h \<longleftrightarrow> same_node (it_shard it) (it_shard it') h"

definition interrupt_eq :: "('w \<Rightarrow> 'u \<Rightarrow> bool) \<Rightarrow> interrupt \<times> 'w \<Rightarrow> interrupt \<times> 'u \<Rightarrow> heap \<Rightarrow> bool" where
  "interrupt_eq eq x y h \<longleftrightarrow> listener_same_node (fst x) (fst y) h \<and> eq (snd x) (snd y)"

definition guard_eq :: "guard \<Rightarrow> guard \<Rightarrow> heap \<Rightarrow> bool" where
  "guard_eq g g' h \<longleftrightarrow> same_node (gd_shard g) (gd_shard g') h"

text \<open>\<^verbatim>\<open>Arc::ptr_eq\<close> on the nodes of the handles.\<close>

definition swansong_eq :: "nid \<Rightarrow> nid \<Rightarrow> bool" where
  "swansong_eq n n' \<longleftrightarrow> n = n'"

section \<open>Sealing\<close>

text \<open>Calling operations one after the other: the results, and the value afterwards.\<close>

fun calls :: "('w \<Rightarrow> 'o \<times> 'w) list \<Rightarrow> 'w \<Rightarrow> 'o list \<times> 'w" where
  "calls [] w = ([], w)"
| "calls (f # fs) w = (case f w of (r, w) \<Rightarrow> map_prod (Cons r) id (calls fs w))"

lemma calls_append:
  "calls (fs @ gs) w =
     (case calls fs w of (rs, w) \<Rightarrow> (case calls gs w of (ss, w) \<Rightarrow> (rs @ ss, w)))"
  by (induction fs arbitrary: w) (auto split: prod.splits)

lemma calls_const: "calls (map (\<lambda>x w. (f x, w)) xs) w = (map f xs, w)"
  by (induction xs) simp_all

text \<open>
  The heaps at which a sequence of calls is made. A stop bit never clears, so a call that
  finds it set is followed by such calls only.
\<close>

definition latched :: "('h \<Rightarrow> bool) \<Rightarrow> 'h list \<Rightarrow> bool" where
  "latched P hs \<longleftrightarrow> sorted_wrt (\<lambda>h h'. P h \<longrightarrow> P h') hs"

text \<open>The number of calls made before the stop bit is seen.\<close>

definition unsealed :: "('h \<Rightarrow> bool) \<Rightarrow> 'h list \<Rightarrow> nat" where
  "unsealed P hs = length (takeWhile (Not \<circ> P) hs)"

lemma latched_Cons: "latched P (h # hs) \<longleftrightarrow> (P h \<longrightarrow> list_all P hs) \<and> latched P hs"
  unfolding latched_def list_all_iff by (simp only: sorted_wrt.simps) blast

lemma unsealed_le: "unsealed P hs \<le> length hs"
  by (simp add: unsealed_def length_takeWhile_le)

locale sealing =
  fixes stopped :: "heap \<Rightarrow> bool"
    and operation :: "'i \<Rightarrow> 'w \<Rightarrow> 'o \<times> 'w"
    and terminal :: "'i \<Rightarrow> 'o"
    and interrupted :: "'i \<Rightarrow> heap \<Rightarrow> 'w \<Rightarrow> 'o \<times> 'w"
  assumes running: "\<not> stopped h \<Longrightarrow> interrupted i h w = operation i w"
    and sealed: "stopped h \<Longrightarrow> interrupted i h w = (terminal i, w)"
begin

lemma calls_sealed:
  "length xs = length hs \<Longrightarrow> list_all stopped hs \<Longrightarrow>
   calls (map2 interrupted xs hs) w = (map terminal xs, w)"
  by (induction xs hs rule: list_induct2) (auto simp: sealed)

lemma calls_interrupted:
  "length xs = length hs \<Longrightarrow> latched stopped hs \<Longrightarrow>
   calls (map2 interrupted xs hs) w =
     (let k = unsealed stopped hs
      in (fst (calls (map operation (take k xs)) w) @ map terminal (drop k xs),
          snd (calls (map operation (take k xs)) w)))"
proof (induction xs hs arbitrary: w rule: list_induct2)
  case (Cons x xs h hs)
  show ?case
  proof (cases "stopped h")
    case True
    then have "list_all stopped hs" using Cons.prems by (simp add: latched_Cons)
    then show ?thesis
      using True Cons.hyps by (simp add: unsealed_def sealed calls_sealed)
  next
    case False
    have "latched stopped hs" using Cons.prems by (simp add: latched_Cons)
    moreover obtain r v where "operation x w = (r, v)" by (cases "operation x w")
    ultimately show ?thesis
      using False Cons.IH [of v] by (simp add: unsealed_def running Let_def)
  qed
qed (simp add: unsealed_def)

end

text \<open>The sealed operations of the library.\<close>

interpretation iterator: sealing "interrupt_is_stopped it" "next" "\<lambda>_. None" "interrupt_next next it"
  for it "next"
  by unfold_locales (simp_all add: interrupt_next_def)

interpretation reader: sealing "interrupt_is_stopped it" poll_read "\<lambda>buf. (Ready (Ok 0), buf)"
    "interrupt_poll_read poll_read it" for it poll_read
  by unfold_locales (simp_all add: interrupt_poll_read_def)

interpretation vectored_reader: sealing "interrupt_is_stopped it" poll_read "\<lambda>buf. (Ready (Ok 0), buf)"
    "interrupt_poll_read_vectored poll_read it" for it poll_read
  by unfold_locales (simp_all add: interrupt_poll_read_vectored_def)

interpretation tokio_reader: sealing "interrupt_is_stopped it" poll_read "\<lambda>buf. (Ready (Ok ()), buf)"
    "interrupt_tokio_poll_read poll_read it" for it poll_read
  by unfold_locales (simp_all add: interrupt_tokio_poll_read_def)

interpretation writer: sealing "interrupt_is_stopped it" poll_write "\<lambda>_. Ready (Ok 0)"
    "interrupt_poll_write poll_write it" for it poll_write
  by unfold_locales (simp_all add: interrupt_poll_write_def)

interpretation vectored_writer: sealing "interrupt_is_stopped it" poll_write "\<lambda>_. Ready (Ok 0)"
    "interrupt_poll_write_vectored poll_write it" for it poll_write
  by unfold_locales (simp_all add: interrupt_poll_write_vectored_def)

interpretation tokio_writer: sealing "interrupt_is_stopped it" poll_write "\<lambda>_. Ready (Ok 0)"
    "interrupt_tokio_poll_write poll_write it" for it poll_write
  by unfold_locales (simp_all add: interrupt_tokio_poll_write_def)

interpretation tokio_vectored_writer: sealing "interrupt_is_stopped it" poll_write "\<lambda>_. Ready (Ok 0)"
    "interrupt_tokio_poll_write_vectored poll_write it" for it poll_write
  by unfold_locales (simp_all add: interrupt_tokio_poll_write_vectored_def)

end
