(* ===== verification/Ownership.thy ===== *)
theory Ownership
  imports Safety "HOL-Library.Multiset"
begin

text \<open>
  Who owns what. The strong count of a node is the number of handles, completions, guards and
  child nodes that hold it, together with the references that running functions hold. A
  function that uses an object does so under a borrow or a reference further down its stack,
  so a node, a guard or an interrupt that is used is there, and no count is ever decremented
  below zero or raised from it.
\<close>

section \<open>References to nodes\<close>

text \<open>The strong references a frame holds and gives up or hands on.\<close>

fun frame_refs :: "frame \<Rightarrow> nid multiset" where
  "frame_refs (Stop (StopChildren n i live)) = mset live"
| "frame_refs (Stop (StopUpgrade n i cs live)) = mset live"
| "frame_refs (Life (DropArc n)) = {#n#}"
| "frame_refs (Life (ChildRegister c)) = {#c#}"
| "frame_refs (Life (ChildStoreKey c k)) = {#c#}"
| "frame_refs (Life (ChildCheck c)) = {#c#}"
| "frame_refs (Life (ChildReturn c)) = {#c#}"
| "frame_refs (Swan (HandleDrop n)) = {#n#}"
| "frame_refs _ = {#}"

definition stack_refs :: "frame list \<Rightarrow> nid multiset" where
  "stack_refs fs = sum_list (map frame_refs fs)"

lemma stack_refs_simps [simp]:
  "stack_refs [] = {#}" "stack_refs (f # fs) = frame_refs f + stack_refs fs"
  "stack_refs (fs @ gs) = stack_refs fs + stack_refs gs"
  by (simp_all add: stack_refs_def)

definition strong :: "heap \<Rightarrow> nid \<Rightarrow> nat" where
  "strong h n = in_strong (node_at h n)"

definition pins :: "heap \<Rightarrow> nid \<Rightarrow> gid \<Rightarrow> bool" where
  "pins h n g \<longleftrightarrow> (\<exists>gd. guard_at h g = Some gd \<and> gd_pin gd = Some n)"

text \<open>A child holds its parent for as long as it is alive.\<close>

definition linked :: "heap \<Rightarrow> nid \<Rightarrow> nid \<Rightarrow> bool" where
  "linked h n c \<longleftrightarrow> parent_of h c = Some n \<and> 0 < strong h c"

definition arc_owned :: "heap \<Rightarrow> nid \<Rightarrow> nat" where
  "arc_owned h n =
     tally (n_handles h) (\<lambda>x. handle_at h x = Some n) +
     tally (n_completions h) (\<lambda>x. completion_at h x = Some n) +
     tally (n_guards h) (pins h n) + tally (n_nodes h) (linked h n)"

text \<open>A step that takes the references \<open>A\<close> and leaves the references \<open>B\<close>.\<close>

definition arc_balanced :: "heap \<Rightarrow> heap \<Rightarrow> nid multiset \<Rightarrow> nid multiset \<Rightarrow> bool" where
  "arc_balanced h h' A B \<longleftrightarrow>
     (\<forall>n<n_nodes h. strong h' n + arc_owned h n + count A n = strong h n + arc_owned h' n + count B n) \<and>
     (\<forall>n<n_nodes h'. n_nodes h \<le> n \<longrightarrow> strong h' n = arc_owned h' n + count B n)"

definition tables_bounded :: "heap \<Rightarrow> bool" where
  "tables_bounded h \<longleftrightarrow> (\<forall>x. handle_at h x \<noteq> None \<longrightarrow> x < n_handles h) \<and>
     (\<forall>x. completion_at h x \<noteq> None \<longrightarrow> x < n_completions h)"

section \<open>Steps that change no owner\<close>

definition same_owners :: "heap \<Rightarrow> heap \<Rightarrow> bool" where
  "same_owners h h' \<longleftrightarrow> n_nodes h' = n_nodes h \<and> strong h' = strong h \<and> parent_of h' = parent_of h \<and>
     handle_at h' = handle_at h \<and> n_handles h' = n_handles h \<and>
     completion_at h' = completion_at h \<and> n_completions h' = n_completions h \<and>
     guard_at h' = guard_at h \<and> n_guards h' = n_guards h \<and> n_interrupts h' = n_interrupts h \<and>
     (\<forall>i. map_option it_guard (interrupt_at h' i) = map_option it_guard (interrupt_at h i))"

lemma same_owners_refl [simp]: "same_owners h h"
  by (simp add: same_owners_def)

lemma same_owners_trans: "same_owners h h' \<Longrightarrow> same_owners h' h'' \<Longrightarrow> same_owners h h''"
  by (simp add: same_owners_def)

lemma same_owners_balanced: "same_owners h h' \<Longrightarrow> arc_balanced h h' A A"
proof -
  assume s: "same_owners h h'"
  then have "linked h' = linked h" "pins h' = pins h"
    by (simp_all add: same_owners_def linked_def pins_def fun_eq_iff)
  with s show ?thesis by (simp add: arc_balanced_def arc_owned_def same_owners_def)
qed

lemma same_owners_upd [simp]:
  "same_owners h (set_shard_word s w h)" "same_owners h (set_node_word n w h)"
  "same_owners h (upd_shard s f h)" "same_owners h (upd_node n (in_swansong_count_update g) h)"
  "same_owners h (upd_node n (in_zero_notified_update g) h)"
  "same_owners h (upd_node n (in_stop_notified_update g) h)"
  "same_owners h (upd_node n (in_parent_update (map_option (p_key_update k))) h)"
  "same_owners h (lock_acquire t s h)" "same_owners h (lock_release s h)"
  "same_owners h (h\<lparr>info_strong := I\<rparr>)" "same_owners h (h\<lparr>woken := W\<rparr>)" "same_owners h (h\<lparr>clock := C\<rparr>)"
  "same_owners h (h\<lparr>info_at := A, info_strong := I, n_infos := N\<rparr>)"
  by (simp_all add: same_owners_def set_shard_word_def set_node_word_def lock_acquire_def
      lock_release_def strong_def parent_of_def fun_eq_iff option.map_comp comp_def)

lemma same_owners_thread:
  "thread_index t h = (h', w) \<Longrightarrow> same_owners h h'"
  by (auto simp: thread_index_def Let_def same_owners_def strong_def parent_of_def fun_eq_iff split: if_splits)

lemma same_owners_index:
  "shard_index t n h = (h', i) \<Longrightarrow> same_owners h h'"
  using same_owners_thread by (auto simp: shard_index_def split: prod.splits)

lemma same_owners_interrupt:
  "interrupt_at h i = Some it \<Longrightarrow> it_guard it' = it_guard it \<Longrightarrow> same_owners h (set_interrupt i it' h)"
  by (auto simp: same_owners_def strong_def parent_of_def fun_eq_iff)

lemma same_owners_count: "count_step t b c h = Next h' gs \<Longrightarrow> same_owners h h'"
proof (induction t b c h rule: count_step.induct)
  case (5 t sp n st h)
  then show ?case
    by (auto simp: node_arrive_loop_def shard_ref_def atomic_defs same_owners_index
        split: option.splits if_splits prod.splits)
qed (auto simp: step_defs shard_ref_def notify_zero_def atomic_defs Let_def
    simp del: upd_node_def upd_shard_def split: option.splits if_splits)

section \<open>Steps that move references\<close>

lemma arc_balanced_trans:
  assumes "arc_balanced h h' A B" "arc_balanced h' h'' B C" "n_nodes h \<le> n_nodes h'" "n_nodes h' \<le> n_nodes h''"
  shows "arc_balanced h h'' A C"
  unfolding arc_balanced_def
proof (intro conjI allI impI)
  fix n
  assume n: "n < n_nodes h"
  with assms have "strong h' n + arc_owned h n + count A n = strong h n + arc_owned h' n + count B n"
    "strong h'' n + arc_owned h' n + count B n = strong h' n + arc_owned h'' n + count C n"
    by (simp_all add: arc_balanced_def)
  then show "strong h'' n + arc_owned h n + count A n = strong h n + arc_owned h'' n + count C n" by linarith
next
  fix n
  assume n: "n < n_nodes h''" "n_nodes h \<le> n"
  show "strong h'' n = arc_owned h'' n + count C n"
  proof (cases "n < n_nodes h'")
    case True
    with n assms have "strong h' n = arc_owned h' n + count B n"
      "strong h'' n + arc_owned h' n + count B n = strong h' n + arc_owned h'' n + count C n"
      by (simp_all add: arc_balanced_def)
    then show ?thesis by linarith
  next
    case False
    with n assms(2) show ?thesis by (simp add: arc_balanced_def)
  qed
qed

lemma strong_arc_clone: "strong (arc_clone n h) m = (if m = n then Suc (strong h n) else strong h m)"
  by (simp add: strong_def arc_clone_def)

lemma arc_clone_balanced:
  assumes "0 < strong h n"
  shows "arc_balanced h (arc_clone n h) A (add_mset n A)"
proof -
  have "linked (arc_clone n h) = linked h"
    using assms by (auto simp: linked_def strong_arc_clone fun_eq_iff parent_of_def) (auto simp: arc_clone_def)
  moreover have "pins (arc_clone n h) = pins h"
    by (simp add: pins_def arc_clone_def fun_eq_iff)
  ultimately have "arc_owned (arc_clone n h) = arc_owned h"
    by (simp add: arc_owned_def fun_eq_iff) (simp add: arc_clone_def)
  moreover have "n_nodes (arc_clone n h) = n_nodes h" by (simp add: arc_clone_def)
  ultimately show ?thesis by (simp add: arc_balanced_def strong_arc_clone)
qed

lemma tally_alloc:
  "(\<And>x. x < k \<Longrightarrow> P' x = P x) \<Longrightarrow> tally (Suc k) P' = tally k P + of_bool (P' k)"
  by simp

lemma alloc_handle_balanced:
  assumes "tables_bounded h"
  shows "arc_balanced h (alloc_handle n h) (add_mset n A) A" "tables_bounded (alloc_handle n h)"
proof -
  have "linked (alloc_handle n h) = linked h" "pins (alloc_handle n h) = pins h" "strong (alloc_handle n h) = strong h"
    "n_nodes (alloc_handle n h) = n_nodes h"
    by (simp_all add: linked_def pins_def strong_def parent_of_def alloc_handle_def fun_eq_iff)
  moreover have "tally (n_handles (alloc_handle n h)) (\<lambda>x. handle_at (alloc_handle n h) x = Some m) =
      tally (n_handles h) (\<lambda>x. handle_at h x = Some m) + of_bool (m = n)" for m
    by (auto simp: alloc_handle_def intro!: addup_cong)
  ultimately show "arc_balanced h (alloc_handle n h) (add_mset n A) A"
    by (simp add: arc_balanced_def arc_owned_def) (simp add: alloc_handle_def)
  show "tables_bounded (alloc_handle n h)"
    using assms by (auto simp: tables_bounded_def alloc_handle_def less_Suc_eq)
qed

lemma alloc_completion_balanced:
  assumes "tables_bounded h"
  shows "arc_balanced h (alloc_completion n h) (add_mset n A) A" "tables_bounded (alloc_completion n h)"
proof -
  have "linked (alloc_completion n h) = linked h" "pins (alloc_completion n h) = pins h"
    "strong (alloc_completion n h) = strong h" "n_nodes (alloc_completion n h) = n_nodes h"
    by (simp_all add: linked_def pins_def strong_def parent_of_def alloc_completion_def fun_eq_iff)
  moreover have "tally (n_completions (alloc_completion n h)) (\<lambda>x. completion_at (alloc_completion n h) x = Some m) =
      tally (n_completions h) (\<lambda>x. completion_at h x = Some m) + of_bool (m = n)" for m
    by (auto simp: alloc_completion_def intro!: addup_cong)
  ultimately show "arc_balanced h (alloc_completion n h) (add_mset n A) A"
    by (simp add: arc_balanced_def arc_owned_def) (simp add: alloc_completion_def)
  show "tables_bounded (alloc_completion n h)"
    using assms by (auto simp: tables_bounded_def alloc_completion_def less_Suc_eq)
qed

text \<open>Taking an entry out of a table.\<close>

lemma tally_remove:
  assumes "x < k" "P x"
  shows "tally k P = Suc (tally k (\<lambda>y. y \<noteq> x \<and> P y))"
  using addup_change [of x k "\<lambda>y. of_bool (y \<noteq> x \<and> P y)" "\<lambda>y. of_bool (P y)"] assms by simp

lemma drop_handle_balanced:
  assumes "tables_bounded h" "handle_at h x = Some n"
  shows "arc_balanced h (h\<lparr>handle_at := (handle_at h)(x := None)\<rparr>) A (add_mset n A)"
    "tables_bounded (h\<lparr>handle_at := (handle_at h)(x := None)\<rparr>)"
proof -
  let ?h = "h\<lparr>handle_at := (handle_at h)(x := None)\<rparr>"
  have x: "x < n_handles h" using assms by (simp add: tables_bounded_def)
  have "linked ?h = linked h" "pins ?h = pins h" "strong ?h = strong h"
    by (simp_all add: linked_def pins_def strong_def parent_of_def fun_eq_iff)
  moreover have "tally (n_handles h) (\<lambda>y. handle_at h y = Some m) =
      tally (n_handles h) (\<lambda>y. handle_at ?h y = Some m) + of_bool (m = n)" for m
    using tally_remove [OF x, of "\<lambda>y. handle_at h y = Some m"] assms(2)
    by (cases "m = n") (auto intro!: addup_cong)
  ultimately show "arc_balanced h ?h A (add_mset n A)"
    by (simp add: arc_balanced_def arc_owned_def)
  show "tables_bounded ?h" using assms(1) by (simp add: tables_bounded_def)
qed

lemma drop_completion_balanced:
  assumes "tables_bounded h" "completion_at h x = Some n"
  shows "arc_balanced h (h\<lparr>completion_at := (completion_at h)(x := None)\<rparr>) A (add_mset n A)"
    "tables_bounded (h\<lparr>completion_at := (completion_at h)(x := None)\<rparr>)"
proof -
  let ?h = "h\<lparr>completion_at := (completion_at h)(x := None)\<rparr>"
  have x: "x < n_completions h" using assms by (simp add: tables_bounded_def)
  have "linked ?h = linked h" "pins ?h = pins h" "strong ?h = strong h"
    by (simp_all add: linked_def pins_def strong_def parent_of_def fun_eq_iff)
  moreover have "tally (n_completions h) (\<lambda>y. completion_at h y = Some m) =
      tally (n_completions h) (\<lambda>y. completion_at ?h y = Some m) + of_bool (m = n)" for m
    using tally_remove [OF x, of "\<lambda>y. completion_at h y = Some m"] assms(2)
    by (cases "m = n") (auto intro!: addup_cong)
  ultimately show "arc_balanced h ?h A (add_mset n A)"
    by (simp add: arc_balanced_def arc_owned_def)
  show "tables_bounded ?h" using assms(1) by (simp add: tables_bounded_def)
qed

fun pin_refs :: "nid option \<Rightarrow> nid multiset" where
  "pin_refs None = {#}"
| "pin_refs (Some n) = {#n#}"

lemma count_pin_refs [simp]: "count (pin_refs pin) m = of_bool (pin = Some m)"
  by (cases pin) auto

lemma alloc_guard_balanced:
  assumes "alloc_guard gd h = (h', g)"
  shows "arc_balanced h h' (A + pin_refs (gd_pin gd)) A"
proof -
  have h': "h' = h\<lparr>guard_at := (guard_at h)(n_guards h \<mapsto> gd), n_guards := Suc (n_guards h)\<rparr>"
    using assms by (auto simp: alloc_guard_def)
  have "linked h' = linked h" "strong h' = strong h"
    by (simp_all add: h' linked_def strong_def parent_of_def fun_eq_iff)
  moreover have "tally (n_guards h') (pins h' m) = tally (n_guards h) (pins h m) + of_bool (gd_pin gd = Some m)" for m
    by (auto simp: h' pins_def intro!: addup_cong)
  ultimately show ?thesis
    by (simp add: arc_balanced_def arc_owned_def) (simp add: h')
qed

lemma drop_guard_balanced:
  assumes "guard_at h g = Some gd" "g < n_guards h"
  shows "arc_balanced h (h\<lparr>guard_at := (guard_at h)(g := None)\<rparr>) A (A + pin_refs (gd_pin gd))"
proof -
  let ?h = "h\<lparr>guard_at := (guard_at h)(g := None)\<rparr>"
  have "linked ?h = linked h" "strong ?h = strong h"
    by (simp_all add: linked_def strong_def parent_of_def fun_eq_iff)
  moreover have "tally (n_guards h) (pins h m) = tally (n_guards h) (pins ?h m) + of_bool (gd_pin gd = Some m)" for m
    using tally_remove [OF assms(2), of "pins h m"] assms(1)
    by (cases "pins h m g") (auto simp: pins_def intro!: addup_cong)
  ultimately show ?thesis by (simp add: arc_balanced_def arc_owned_def)
qed

text \<open>Dropping a reference; the last one takes the parent's reference with it.\<close>

lemma drop_arc_balanced:
  assumes n: "n < n_nodes h" and pos: "0 < strong h n"
  shows "arc_balanced h (upd_node n (in_strong_update (\<lambda>k. k - 1)) h) (add_mset n A)
    (A + (if strong h n = 1 then pin_refs (parent_of h n) else {#}))"
proof -
  define h' where "h' = upd_node n (in_strong_update (\<lambda>k. k - 1)) h"
  have s: "strong h' m = (if m = n then strong h n - 1 else strong h m)" for m
    by (simp add: strong_def h'_def)
  have p: "parent_of h' = parent_of h" by (simp add: parent_of_def fun_eq_iff h'_def)
  have tables: "n_nodes h' = n_nodes h" "handle_at h' = handle_at h" "n_handles h' = n_handles h"
    "completion_at h' = completion_at h" "n_completions h' = n_completions h" "n_guards h' = n_guards h"
    "pins h' = pins h"
    by (simp_all add: h'_def pins_def fun_eq_iff)
  have "tally (n_nodes h) (linked h m) = tally (n_nodes h) (linked h' m) +
      of_bool (strong h n = 1 \<and> parent_of h n = Some m)" for m
  proof (cases "strong h n = 1 \<and> parent_of h n = Some m")
    case True
    have "tally (n_nodes h) (linked h' m) = tally (n_nodes h) (\<lambda>c. c \<noteq> n \<and> linked h m c)"
      using True by (intro addup_cong) (auto simp: linked_def s p)
    with True pos tally_remove [OF n, of "linked h m"] show ?thesis by (simp add: linked_def)
  next
    case False
    then have "linked h' m = linked h m"
      using pos by (auto simp: linked_def s p fun_eq_iff)
    with False show ?thesis by simp
  qed
  then have "arc_owned h m = arc_owned h' m + of_bool (strong h n = 1 \<and> parent_of h n = Some m)" for m
    by (simp add: arc_owned_def tables)
  then show ?thesis
    unfolding h'_def [symmetric] using pos by (simp add: arc_balanced_def s tables)
qed

text \<open>Nothing owns an address that is not allocated.\<close>

lemma owned_fresh: "heap_ok h \<Longrightarrow> arc_owned h (n_nodes h) = 0"
proof -
  assume ok: "heap_ok h"
  have "handle_at h x \<noteq> Some (n_nodes h)" "completion_at h x \<noteq> Some (n_nodes h)" for x
    using heap_okD(3,4) [OF ok] by (auto simp: valid_node_def)
  moreover have "\<not> pins h (n_nodes h) g" for g
    using heap_okD(5) [OF ok, of g] by (auto simp: pins_def guard_ok_def valid_shard_def)
  moreover have "\<not> linked h (n_nodes h) c" if "c < n_nodes h" for c
    using parent_valid(1) [OF ok, of c] that by (auto simp: linked_def valid_node_def)
  ultimately show ?thesis by (simp add: arc_owned_def addup_eq_0_iff)
qed

text \<open>A new node has one reference, and holds its parent.\<close>

lemma alloc_node_balanced:
  assumes a: "alloc_node link k rep h = (h', n)" and ok: "heap_ok h" "tables_bounded h"
    and fresh: "count A n = 0" and link: "map_option p_node link \<noteq> Some n"
  shows "arc_balanced h h' (A + pin_refs (map_option p_node link)) (add_mset n A)" "tables_bounded h'"
proof -
  show "tables_bounded h'"
    using ok(2) a by (auto simp: alloc_node_def Let_def tables_bounded_def)
  have n: "n = n_nodes h" using a by (auto simp: alloc_node_def Let_def)
  have h': "node_at h' = (node_at h)(n := inner_new link k)" "n_nodes h' = Suc n"
    "handle_at h' = handle_at h" "n_handles h' = n_handles h" "completion_at h' = completion_at h"
    "n_completions h' = n_completions h" "guard_at h' = guard_at h" "n_guards h' = n_guards h"
    using a by (auto simp: alloc_node_def Let_def)
  have s: "strong h' m = (if m = n then 1 else strong h m)" for m
    by (simp add: strong_def h' inner_new_def)
  have pn: "parent_of h' m = (if m = n then map_option p_node link else parent_of h m)" for m
    by (simp add: parent_of_def h' inner_new_def)
  have "tally (n_nodes h') (linked h' m) = tally (n_nodes h) (linked h m) + of_bool (map_option p_node link = Some m)" for m
    by (auto simp: h' n [symmetric] linked_def s pn intro!: addup_cong)
  then have owned: "arc_owned h' m = arc_owned h m + of_bool (map_option p_node link = Some m)" for m
    by (simp add: arc_owned_def h' pins_def)
  show "arc_balanced h h' (A + pin_refs (map_option p_node link)) (add_mset n A)"
    unfolding arc_balanced_def h'(2)
  proof (intro conjI allI impI)
    fix m
    assume "m < n_nodes h"
    then show "strong h' m + arc_owned h m + count (A + pin_refs (map_option p_node link)) m =
        strong h m + arc_owned h' m + count (add_mset n A) m"
      by (simp add: s n owned)
  next
    fix m
    assume m: "m < Suc n" "n_nodes h \<le> m"
    show "strong h' m = arc_owned h' m + count (add_mset n A) m"
    proof -
      have "m = n" using m n by simp
      then show ?thesis using n owned_fresh [OF ok(1)] fresh link by (auto simp: owned s)
    qed
  qed
qed

section \<open>What a frame relies on\<close>

text \<open>
  The node a frame is going to use, the interrupt it borrows mutably, and the guard it clones,
  given by its shard and its pin.
\<close>

fun provenance_needs :: "provenance_to \<Rightarrow> nid option" where
  "provenance_needs (ToAtLocation n dst) = Some n"
| "provenance_needs _ = None"

fun provenance_uses :: "provenance_to \<Rightarrow> iid option" where
  "provenance_uses (ToAtLocation n dst) = dst"
| "provenance_uses (ToForShard i) = Some i"
| "provenance_uses (ToClone pin) = None"

fun provenance_clones :: "sid \<Rightarrow> provenance_to \<Rightarrow> (sid \<times> nid option) option" where
  "provenance_clones s (ToClone pin) = Some (s, pin)"
| "provenance_clones s _ = None"

fun needs :: "frame \<Rightarrow> nid option" where
  "needs (Stop (NodeStop n)) = Some n"
| "needs (Stop (StopNotify n)) = Some n"
| "needs (Stop (StopChildren n i live)) = Some n"
| "needs (Stop (StopUpgrade n i cs live)) = Some n"
| "needs (Stop (StopZero n w)) = Some n"
| "needs (Life (ChildNew n)) = Some n"
| "needs (Grd (GuardAtLocation n loc dst)) = Some n"
| "needs (Grd (Provenance s loc to)) = provenance_needs to"
| "needs (Grd (ProvenanceRegister s loc info to)) = provenance_needs to"
| "needs (Grd (GuardBuild s pin loc info dst)) = pin"
| "needs (Swan (HandleClone n)) = Some n"
| "needs (Swan (HandleCloneArc n)) = Some n"
| "needs (Swan (CompletionNew n)) = Some n"
| "needs (Swan (InterruptNew n)) = Some n"
| "needs _ = None"

fun uses :: "frame \<Rightarrow> iid option" where
  "uses (Grd (GuardAtLocation n loc dst)) = dst"
| "uses (Grd (Provenance s loc to)) = provenance_uses to"
| "uses (Grd (ProvenanceRegister s loc info to)) = provenance_uses to"
| "uses (Grd (GuardBuild s pin loc info dst)) = dst"
| "uses (Grd (GuardForShard s loc i)) = Some i"
| "uses (Grd (ArriveIfArrived s loc i w)) = Some i"
| "uses (Grd (GuardUpgrade s loc i)) = Some i"
| "uses (Intr (Poll i w)) = Some i"
| "uses (Intr (PollWrapped i w)) = Some i"
| "uses (Intr (PollStopped i w)) = Some i"
| "uses (Intr (PollRecheck i w)) = Some i"
| "uses (Intr (PollLock i w)) = Some i"
| "uses (Intr (PollLocked i w)) = Some i"
| "uses (Intr (PollRegister i w)) = Some i"
| "uses _ = None"

fun clones :: "frame \<Rightarrow> (sid \<times> nid option) option" where
  "clones (Grd (Provenance s loc to)) = provenance_clones s to"
| "clones (Grd (ProvenanceRegister s loc info to)) = provenance_clones s to"
| "clones (Grd (GuardCloneArrive s pin loc info)) = Some (s, pin)"
| "clones _ = None"

text \<open>A frame further down that holds the node \<open>n\<close>.\<close>

definition holds :: "heap \<Rightarrow> frame \<Rightarrow> nid \<Rightarrow> bool" where
  "holds h g n \<longleftrightarrow> n \<in># frame_refs g \<or> (\<exists>x. g = Borrow (OHandle x) \<and> handle_at h x = Some n) \<or>
     (\<exists>g'. g = Borrow (OGuard g') \<and> pins h n g')"

definition backed :: "heap \<Rightarrow> frame list \<Rightarrow> frame \<Rightarrow> bool" where
  "backed h fs f \<longleftrightarrow>
     (\<forall>n. needs f = Some n \<longrightarrow> (\<exists>g \<in> set fs. holds h g n)) \<and>
     (\<forall>i. uses f = Some i \<longrightarrow> Borrow (OInterrupt i) \<in> set fs) \<and>
     (\<forall>s pin. clones f = Some (s, pin) \<longrightarrow>
        (\<exists>g gd. Borrow (OGuard g) \<in> set fs \<and> guard_at h g = Some gd \<and> gd_shard gd = s \<and> gd_pin gd = pin))"

fun backed_stack :: "heap \<Rightarrow> frame list \<Rightarrow> bool" where
  "backed_stack h [] = True"
| "backed_stack h (f # fs) = (backed h fs f \<and> backed_stack h fs)"

lemma backed_more: "backed h fs f \<Longrightarrow> set fs \<subseteq> set fs' \<Longrightarrow> backed h fs' f"
  unfolding backed_def by blast

lemma backed_stack_append:
  "\<forall>g \<in> set gs. backed h fs g \<Longrightarrow> backed_stack h fs \<Longrightarrow> backed_stack h (gs @ fs)"
  by (induction gs) (auto intro: backed_more)

text \<open>A frame that relies on nothing.\<close>

definition carefree :: "frame \<Rightarrow> bool" where
  "carefree f \<longleftrightarrow> needs f = None \<and> uses f = None \<and> clones f = None"

lemma carefree_backed: "carefree f \<Longrightarrow> backed h fs f"
  by (simp add: carefree_def backed_def)

lemma carefree_simps [simp]:
  "carefree (Count cf)" "carefree (Borrow x)" "carefree (Stop (ShardStop s))" "carefree (Stop (ShardDrain s w))"
  "carefree (Stop (ShardWake s w ws))" "carefree (Life (DropArc n))" "carefree (Life (Deregister n))"
  "carefree (Life (ChildRegister c))" "carefree (Life (ChildStoreKey c k))" "carefree (Life (ChildCheck c))"
  "carefree (Life (ChildReturn c))" "carefree (Grd (GuardDrop g))" "carefree (Grd (GuardDepart s pin))"
  "carefree (Grd (GuardFlushWeak s))" "carefree (Grd (DropInfo a))" "carefree (Swan (HandleDrop n))"
  "carefree (Intr (ListenerDrop s k))"
  by (simp_all add: carefree_def)

text \<open>What a step keeps: an object stays, unless the step drops the guard itself.\<close>

definition kept :: "heap \<Rightarrow> heap \<Rightarrow> frame \<Rightarrow> bool" where
  "kept h h' f \<longleftrightarrow> (\<forall>x n. handle_at h x = Some n \<longrightarrow> handle_at h' x = Some n) \<and>
     (\<forall>g gd. guard_at h g = Some gd \<longrightarrow> f \<noteq> Grd (GuardDrop g) \<longrightarrow> guard_at h' g = Some gd) \<and>
     (\<forall>i. interrupt_at h i \<noteq> None \<longrightarrow> interrupt_at h' i \<noteq> None)"

lemma holds_kept:
  assumes "kept h h' f" "holds h g n" "\<And>g'. f = Grd (GuardDrop g') \<Longrightarrow> g \<noteq> Borrow (OGuard g')"
  shows "holds h' g n"
  using assms unfolding holds_def kept_def pins_def by blast

lemma backed_kept:
  assumes "kept h h' f" "backed h fs g" "\<And>g'. f = Grd (GuardDrop g') \<Longrightarrow> Borrow (OGuard g') \<notin> set fs"
  shows "backed h' fs g"
  unfolding backed_def
proof (intro conjI allI impI)
  fix n
  assume "needs g = Some n"
  then obtain x where x: "x \<in> set fs" "holds h x n" using assms(2) by (auto simp: backed_def)
  have "holds h' x n"
    by (rule holds_kept [OF assms(1) x(2)]) (use assms(3) x(1) in blast)
  with x(1) show "\<exists>x \<in> set fs. holds h' x n" by blast
next
  fix i
  assume "uses g = Some i"
  then show "Borrow (OInterrupt i) \<in> set fs" using assms(2) by (auto simp: backed_def)
next
  fix s pin
  assume "clones g = Some (s, pin)"
  then show "\<exists>g gd. Borrow (OGuard g) \<in> set fs \<and> guard_at h' g = Some gd \<and> gd_shard gd = s \<and> gd_pin gd = pin"
    using assms unfolding backed_def kept_def by blast
qed

lemma backed_stack_kept:
  "backed_stack h fs \<Longrightarrow> kept h h' f \<Longrightarrow> (\<And>g'. f = Grd (GuardDrop g') \<Longrightarrow> Borrow (OGuard g') \<notin> set fs) \<Longrightarrow>
   backed_stack h' fs"
  by (induction fs) (auto intro: backed_kept)

lemma same_owners_kept: "same_owners h h' \<Longrightarrow> kept h h' f"
  unfolding same_owners_def kept_def by (metis option.map_disc_iff)

section \<open>Every step keeps the accounts\<close>

definition owned_step :: "heap \<Rightarrow> frame \<Rightarrow> heap \<Rightarrow> frame list \<Rightarrow> frame list \<Rightarrow> bool" where
  "owned_step h f h' gs fs \<longleftrightarrow> arc_balanced h h' (frame_refs f) (stack_refs gs) \<and>
     tables_bounded h' \<and> kept h h' f \<and> backed_stack h' (gs @ fs)"

lemma owned_same:
  assumes "same_owners h h'" "tables_bounded h" "backed_stack h fs"
    and "stack_refs gs = frame_refs f" "\<forall>g \<in> set gs. backed h fs g"
  shows "owned_step h f h' gs fs"
proof -
  have k: "kept h h' (Borrow x)" for x using same_owners_kept assms(1) by blast
  have "backed_stack h' (gs @ fs)"
    using backed_stack_kept [OF backed_stack_append [OF assms(5,3)] k] by simp
  moreover have "tables_bounded h'" using assms(1,2) by (simp add: same_owners_def tables_bounded_def)
  moreover have "arc_balanced h h' (frame_refs f) (stack_refs gs)"
    unfolding assms(4) by (rule same_owners_balanced [OF assms(1)])
  moreover have "kept h h' f" by (rule same_owners_kept [OF assms(1)])
  ultimately show ?thesis unfolding owned_step_def by blast
qed

lemma kept_refl [simp]: "kept h h f"
  by (simp add: kept_def)

lemma kept_arc [simp]: "kept h (arc_clone n h) f"
  by (simp add: kept_def arc_clone_def)

lemma bounded_arc [simp]: "tables_bounded (arc_clone n h) = tables_bounded h"
  by (simp add: tables_bounded_def arc_clone_def)

text \<open>A frame hands on what it relied on.\<close>

lemma hands_on:
  assumes "backed h fs f" "needs g = None \<or> needs g = needs f" "uses g = None \<or> uses g = uses f"
    "clones g = None \<or> clones g = clones f"
  shows "backed h fs g"
  using assms unfolding backed_def by auto

lemma owned_upgrade:
  assumes alive: "0 < strong h n" and ok: "tables_bounded h" "backed_stack h fs"
    and gs: "stack_refs gs = add_mset n (frame_refs f)" "backed_stack (arc_clone n h) fs \<Longrightarrow> backed_stack (arc_clone n h) (gs @ fs)"
  shows "owned_step h f (arc_clone n h) gs fs"
proof -
  have "backed_stack (arc_clone n h) fs" by (rule backed_stack_kept [OF ok(2) kept_arc [of h n "Borrow undefined"]]) simp
  with gs alive ok(1) show ?thesis by (simp add: owned_step_def arc_clone_balanced)
qed

lemma count_frames: "count_step t b c h = Next h' gs \<Longrightarrow> \<forall>g \<in> set gs. \<exists>c. g = Count c"
  by (induction t b c h rule: count_step.induct)
    (auto simp: step_defs shard_ref_def atomic_defs Let_def simp del: upd_node_def upd_shard_def
      split: option.splits if_splits prod.splits)

lemma carefree_refs: "\<forall>g \<in> set gs. frame_refs g = {#} \<Longrightarrow> stack_refs gs = {#}"
  by (induction gs) auto

lemma count_owned:
  assumes "count_step t b c h = Next h' gs" "tables_bounded h" "backed_stack h fs"
  shows "owned_step h (Count c) h' gs fs"
proof -
  have g: "frame_refs g = {#} \<and> backed h fs g" if i: "g \<in> set gs" for g
  proof -
    obtain cf where "g = Count cf" using count_frames [OF assms(1)] i by blast
    then show ?thesis by (simp add: carefree_backed)
  qed
  then have "stack_refs gs = {#}" by (intro carefree_refs) blast
  with g show ?thesis
    by (intro owned_same [OF same_owners_count [OF assms(1)] assms(2,3)]) simp_all
qed

lemma stop_shards_refs [simp]: "stack_refs (stop_shards n h) = {#}"
  by (rule carefree_refs) (auto simp: stop_shards_def)

lemma stop_shards_backed: "g \<in> set (stop_shards n h) \<Longrightarrow> backed h' fs g"
  by (auto simp: stop_shards_def intro: carefree_backed)

lemma stop_live_refs: "stack_refs (concat (map (\<lambda>c. [Stop (NodeStop c), Life (DropArc c)]) live)) = mset live"
  by (induction live) simp_all

lemma stop_live_backed:
  "backed_stack h fs \<Longrightarrow>
   backed_stack h (concat (map (\<lambda>c. [Stop (NodeStop c), Life (DropArc c)]) live) @ fs)"
  by (induction live) (auto simp: carefree_backed backed_def holds_def)

lemma stop_owned:
  assumes "stop_step t c h = Next h' gs" "tables_bounded h" "backed_stack h fs" "backed h fs (Stop c)"
  shows "owned_step h (Stop c) h' gs fs"
proof (cases c)
  case (NodeStop n)
  have "backed h fs (Stop (StopNotify n))" "backed h fs (Stop (StopChildren n 0 []))"
    "backed h fs (Stop (StopZero n w))" for w
    using assms(4) NodeStop by (auto simp: backed_def)
  with assms NodeStop show ?thesis
    by (intro owned_same) (auto simp: node_stop_def Let_def stop_shards_backed split: if_splits)
next
  case (StopChildren n i live)
  show ?thesis
  proof (cases "i < in_shards (node_at h n)")
    case True
    have "backed h fs (Stop (StopUpgrade n i cs live))" for cs
      using assms(4) StopChildren by (auto simp: backed_def)
    with True assms StopChildren show ?thesis
      by (intro owned_same) (auto simp: stop_children_def)
  next
    case False
    with assms StopChildren show ?thesis
      by (auto simp: stop_children_def owned_step_def same_owners_balanced stop_live_refs stop_live_backed)
  qed
next
  case (StopUpgrade n i cs live)
  have b: "backed h fs (Stop (StopUpgrade n i cs' live'))" "backed h fs (Stop (StopChildren n j live'))" for cs' j live'
    using assms(4) StopUpgrade by (auto simp: backed_def)
  show ?thesis
  proof (cases cs)
    case Nil
    with assms StopUpgrade b show ?thesis by (intro owned_same) auto
  next
    case (Cons d ds)
    show ?thesis
    proof (cases "in_strong (node_at h d) = 0")
      case True
      with assms StopUpgrade Cons b show ?thesis by (intro owned_same) (auto simp: weak_upgrade_def)
    next
      case False
      have "backed (arc_clone d h) fs (Stop (StopUpgrade n i ds (live @ [d])))"
        using b(1) by (rule backed_kept [OF kept_arc [of h d "Borrow undefined"]]) simp
      with False assms StopUpgrade Cons have "owned_step h (Stop c) (arc_clone d h) gs fs"
        by (intro owned_upgrade) (auto simp: weak_upgrade_def strong_def)
      with False assms(1) StopUpgrade Cons show ?thesis by (simp add: weak_upgrade_def)
    qed
  qed
next
  case (ShardWake s w ws)
  with assms show ?thesis
    by (cases ws; intro owned_same) (auto intro!: carefree_backed)
qed (use assms in \<open>auto intro!: owned_same carefree_backed simp: shard_stop_def shard_drain_def stop_notify_def
    stop_zero_def notify_zero_def Let_def simp del: upd_node_def upd_shard_def split: if_splits\<close>)

text \<open>Chaining a memory step that moves nothing before one that does.\<close>

lemma owned_after:
  assumes same: "same_owners h h1" and step: "owned_step h1 f h' gs fs"
  shows "owned_step h f h' gs fs"
proof -
  have "n_nodes h1 = n_nodes h" using same by (simp add: same_owners_def)
  moreover have "arc_owned h1 = arc_owned h" "strong h1 = strong h"
    using same by (simp_all add: same_owners_def arc_owned_def linked_def pins_def fun_eq_iff)
  moreover have "kept h h' f"
    using same step unfolding owned_step_def kept_def same_owners_def by (metis option.map_disc_iff)
  ultimately show ?thesis using step by (simp add: owned_step_def arc_balanced_def)
qed

lemma backed_stack_same:
  "same_owners h h1 \<Longrightarrow> backed_stack h fs \<Longrightarrow> backed_stack h1 fs"
  by (rule backed_stack_kept [OF _ same_owners_kept [of h h1 "Borrow undefined"]]) simp_all

lemma backed_same: "same_owners h h1 \<Longrightarrow> backed h fs f \<Longrightarrow> backed h1 fs f"
  by (rule backed_kept [OF same_owners_kept [of h h1 "Borrow undefined"]]) simp_all

lemma drop_arc_owned:
  assumes "drop_arc n h = Next h' gs" "tables_bounded h" "backed_stack h fs"
    and "n < n_nodes h" "0 < strong h n"
  shows "owned_step h (Life (DropArc n)) h' gs fs"
proof -
  define h1 where "h1 = upd_node n (in_strong_update (\<lambda>k. k - 1)) h"
  have h': "h' = h1" and gs: "gs = (if strong h n \<noteq> 1 then [] else stop_shards n h1 @ [Life (Deregister n)] @
      (case in_parent (node_at h1 n) of None \<Rightarrow> [] | Some link \<Rightarrow> [Life (DropArc (p_node link))]))"
    using assms(1) by (auto simp: drop_arc_def h1_def Let_def strong_def simp del: upd_node_def split: if_splits)
  have k: "kept h h1 f" for f by (simp add: kept_def h1_def)
  have "stack_refs gs = (if strong h n = 1 then pin_refs (parent_of h n) else {#})"
    by (auto simp: gs h1_def parent_of_def split: option.split)
  then have "arc_balanced h h' (frame_refs (Life (DropArc n))) (stack_refs gs)"
    using drop_arc_balanced [OF assms(4,5), of "{#}"] by (simp add: h' h1_def del: upd_node_def)
  moreover have "backed_stack h1 fs" by (rule backed_stack_kept [OF assms(3) k [of "Borrow undefined"]]) simp
  then have "backed_stack h1 (gs @ fs)"
    by (rule backed_stack_append [rotated]) (auto simp: gs stop_shards_backed carefree_backed split: option.split)
  moreover have "tables_bounded h1" using assms(2) by (simp add: h1_def tables_bounded_def)
  ultimately show ?thesis using k by (simp add: owned_step_def h')
qed

lemma child_new_owned:
  assumes "child_new t n h = Next h' gs" and ok: "heap_ok h" "tables_bounded h" "backed_stack h fs"
    and n: "n < n_nodes h" "0 < strong h n"
  shows "owned_step h (Life (ChildNew n)) h' gs fs"
proof -
  obtain h1 i where h1: "shard_index t n h = (h1, i)" by (cases "shard_index t n h")
  define link where "link = \<lparr>p_node = n, p_shard = i, p_key = usize_max\<rparr>"
  obtain c where c: "alloc_node (Some link) 1 (keeps_guard_report n (arc_clone n h1)) (arc_clone n h1) = (h', c)"
    and gs: "gs = [Life (ChildRegister c)]"
    using assms(1) h1 by (auto simp: child_new_def Let_def link_def split: prod.splits)
  note same = same_owners_index [OF h1]
  have ok1: "heap_ok h1" using shard_index_same(1) [OF h1] same_heap_ok ok(1) by blast
  have ok2: "heap_ok (arc_clone n h1)" using same_arc_clone [of h1 n] same_heap_ok ok1 by blast
  have b: "tables_bounded h1" using same ok(2) by (simp add: same_owners_def tables_bounded_def)
  have nn: "n_nodes (arc_clone n h1) = n_nodes h1" "n_nodes h1 = n_nodes h" "strong h1 = strong h"
    using same by (simp_all add: arc_clone_def same_owners_def)
  have c': "c = n_nodes h" "n_nodes h' = Suc (n_nodes h)"
    using alloc_node_extends(2,3) [OF c] nn by simp_all
  have "arc_balanced (arc_clone n h1) h' ({#} + pin_refs (map_option p_node (Some link))) {#c#}"
    using alloc_node_balanced(1) [OF c ok2, of "{#}"] b n(1) nn c' by (simp add: link_def)
  moreover have "arc_balanced h1 (arc_clone n h1) {#} {#n#}"
    using arc_clone_balanced [of h1 n "{#}"] n(2) nn by simp
  ultimately have "arc_balanced h1 h' {#} {#c#}"
    using nn c' by (intro arc_balanced_trans [of h1 "arc_clone n h1" "{#}" "{#n#}" h']) (simp_all add: link_def)
  moreover have bounded: "tables_bounded h'"
    using alloc_node_balanced(2) [OF c ok2, of "{#}"] b n(1) nn c' by (simp add: link_def)
  moreover have k: "kept h1 h' f" for f
    using c by (auto simp: kept_def alloc_node_def Let_def arc_clone_def)
  have "backed_stack h' fs"
    by (rule backed_stack_kept [OF backed_stack_same [OF same ok(3)] k [of "Borrow undefined"]]) simp
  ultimately have "owned_step h1 (Life (ChildNew n)) h' gs fs"
    using k by (simp add: owned_step_def gs carefree_backed)
  then show ?thesis by (rule owned_after [OF same])
qed

lemma alloc_handle_kept: "tables_bounded h \<Longrightarrow> kept h (alloc_handle n h) f"
  by (auto simp: kept_def alloc_handle_def tables_bounded_def)

lemma alloc_handle_owned:
  assumes "tables_bounded h" "backed_stack h fs" "frame_refs f = {#n#}"
  shows "owned_step h f (alloc_handle n h) [] fs"
  using alloc_handle_balanced(1) [OF assms(1), of n "{#}"] alloc_handle_balanced(2) [OF assms(1)]
    alloc_handle_kept [OF assms(1)] assms
    backed_stack_kept [OF assms(2) alloc_handle_kept [OF assms(1), of n "Borrow undefined"]]
  by (simp add: owned_step_def)

lemma life_owned:
  assumes "life_step t c h = Next h' gs" and ok: "heap_ok h" "frame_ok h (Life c)" "tables_bounded h"
      "backed_stack h fs" "backed h fs (Life c)"
    and alive: "\<forall>n. needs (Life c) = Some n \<longrightarrow> 0 < strong h n" "\<forall>n. n \<in># frame_refs (Life c) \<longrightarrow> 0 < strong h n"
  shows "owned_step h (Life c) h' gs fs"
proof (cases c)
  case (DropArc n)
  with assms show ?thesis by (auto intro!: drop_arc_owned simp: valid_node_def)
next
  case (ChildNew n)
  with assms show ?thesis by (auto intro!: child_new_owned simp: valid_node_def)
next
  case (ChildCheck d)
  have "owned_step h (Life c) h [Life (ChildReturn d)] fs"
    using ok ChildCheck by (intro owned_same) (simp_all add: carefree_backed)
  then have "owned_step h (Life c) h [Stop (NodeStop d), Life (ChildReturn d)] fs"
    by (auto simp: owned_step_def backed_def holds_def)
  with \<open>owned_step h (Life c) h [Life (ChildReturn d)] fs\<close> assms(1) ChildCheck show ?thesis
    by (auto simp: child_check_def split: option.splits if_splits)
next
  case (ChildReturn d)
  with assms show ?thesis by (auto simp: child_return_def intro!: alloc_handle_owned)
qed (use assms in \<open>auto intro!: owned_same carefree_backed simp: deregister_def child_register_def child_store_key_def Let_def
    simp del: upd_node_def upd_shard_def split: if_splits option.splits prod.splits\<close>)

lemma guard_build_owned:
  assumes step: "guard_build s pin loc info dst h = Next h' gs"
    and ok: "tables_bounded h" "backed_stack h fs"
    and pin: "\<forall>n. pin = Some n \<longrightarrow> n < n_nodes h \<and> 0 < strong h n"
    and fresh: "guard_at h (n_guards h) = None"
  shows "owned_step h (Grd (GuardBuild s pin loc info dst)) h' gs fs"
proof -
  define h1 where "h1 = (case pin of None \<Rightarrow> h | Some n \<Rightarrow> arc_clone n h)"
  define gd where "gd = \<lparr>gd_shard = s, gd_pin = pin, gd_location = loc, gd_info = info\<rparr>"
  obtain h2 g where h2: "alloc_guard gd h1 = (h2, g)" by (cases "alloc_guard gd h1")
  have b1: "arc_balanced h h1 {#} (pin_refs pin)"
    using pin same_owners_balanced [of h h "{#}"] arc_clone_balanced [of h _ "{#}"]
    by (auto simp: h1_def split: option.split)
  have b2: "arc_balanced h1 h2 (pin_refs pin) {#}"
    using alloc_guard_balanced [OF h2, of "{#}"] by (simp add: gd_def)
  have n: "n_nodes h1 = n_nodes h" "n_nodes h2 = n_nodes h1" "n_guards h1 = n_guards h" "guard_at h1 = guard_at h"
    "handle_at h1 = handle_at h" "interrupt_at h1 = interrupt_at h"
    using h2 by (auto simp: h1_def arc_clone_def alloc_guard_def split: option.split)
  have k2: "kept h h2 f" "tables_bounded h2" for f
    using h2 n ok(1) fresh by (auto simp: kept_def alloc_guard_def tables_bounded_def h1_def arc_clone_def split: option.split)
  have "guard_build s pin loc info dst h = (case dst of None \<Rightarrow> Next h2 [] | Some i \<Rightarrow>
      (case interrupt_at h2 i of None \<Rightarrow> Next h2 []
       | Some it \<Rightarrow> Next (h2\<lparr>interrupt_at := (interrupt_at h2)(i \<mapsto> it\<lparr>it_guard := Some g\<rparr>)\<rparr>)
           (case it_guard it of None \<Rightarrow> [] | Some g' \<Rightarrow> [Grd (GuardDrop g')])))"
    using h2 unfolding guard_build_def h1_def gd_def by (simp split: prod.split option.split)
  with step have e: "(h' = h2 \<or> (\<exists>i it. h' = h2\<lparr>interrupt_at := (interrupt_at h2)(i \<mapsto> it)\<rparr>)) \<and>
      (\<forall>f \<in> set gs. \<exists>g'. f = Grd (GuardDrop g'))"
    by (auto split: option.splits)
  then have "arc_owned h' = arc_owned h2" "strong h' = strong h2" "n_nodes h' = n_nodes h2" "tables_bounded h' = tables_bounded h2"
    by (auto simp: arc_owned_def strong_def linked_def pins_def parent_of_def tables_bounded_def fun_eq_iff)
  moreover have k': "kept h h' f" for f using e k2(1) [of f] unfolding kept_def by auto
  moreover have "arc_balanced h h2 {#} {#}"
    using arc_balanced_trans [OF b1 b2] n by simp
  moreover have "stack_refs gs = {#}" using e by (intro carefree_refs) auto
  moreover have "backed_stack h' fs" by (rule backed_stack_kept [OF ok(2) k' [of "Borrow undefined"]]) simp
  then have "backed_stack h' (gs @ fs)"
    using e by (intro backed_stack_append) (auto intro!: carefree_backed)
  ultimately show ?thesis using k2(2) by (simp add: owned_step_def arc_balanced_def)
qed

lemma guard_drop_owned:
  assumes step: "guard_drop g h = Next h' gs" and ok: "heap_ok h" "tables_bounded h" "backed_stack h fs"
    and free: "Borrow (OGuard g) \<notin> set fs"
  shows "owned_step h (Grd (GuardDrop g)) h' gs fs"
proof -
  obtain gd where gd: "guard_at h g = Some gd" and h': "h' = h\<lparr>guard_at := (guard_at h)(g := None)\<rparr>"
    and gs: "gs = [Grd (GuardDepart (gd_shard gd) (gd_pin gd))] @
      (case gd_pin gd of None \<Rightarrow> [] | Some n \<Rightarrow> [Life (DropArc n)]) @
      (case gd_info gd of None \<Rightarrow> [] | Some a \<Rightarrow> [Grd (DropInfo a)])"
    using step by (auto simp: guard_drop_def split: option.splits)
  have "stack_refs gs = pin_refs (gd_pin gd)" by (auto simp: gs split: option.split)
  moreover have "arc_balanced h h' {#} (pin_refs (gd_pin gd))"
    using drop_guard_balanced [OF gd, of "{#}"] heap_okD(5) [OF ok(1) gd] by (simp add: h')
  moreover have k: "kept h h' (Grd (GuardDrop g))" by (simp add: kept_def h')
  moreover have "backed_stack h' fs" by (rule backed_stack_kept [OF ok(3) k]) (use free in auto)
  then have "backed_stack h' (gs @ fs)"
    by (rule backed_stack_append [rotated]) (auto simp: gs carefree_backed split: option.splits)
  moreover have "tables_bounded h'" using ok(2) by (simp add: h' tables_bounded_def)
  ultimately show ?thesis by (simp add: owned_step_def)
qed

lemma provenance_return_backed:
  assumes "backed h fs f" "needs f = provenance_needs to" "uses f = provenance_uses to"
    "clones f = provenance_clones s to"
  shows "\<forall>g \<in> set (provenance_return s loc info to h'). backed h fs g"
    "stack_refs (provenance_return s loc info to h') = {#}"
  using assms by (cases to; auto simp: carefree_backed backed_def)+

lemma flush_owned:
  assumes "weak_upgrade m h = Some (h', n)" "tables_bounded h" "backed_stack h fs" "frame_refs f = {#}"
    and "backed_stack h' fs \<Longrightarrow> backed_stack h' (gs @ fs)" "stack_refs gs = {#n#}"
  shows "owned_step h f h' gs fs"
  using assms by (auto simp: weak_upgrade_Some strong_def intro!: owned_upgrade)

lemma guard_owned:
  assumes step: "guard_step t sp c h = Next h' gs" and ok: "heap_ok h" "frame_ok h (Grd c)" "tables_bounded h"
      "backed_stack h fs" "backed h fs (Grd c)"
    and alive: "\<forall>n. needs (Grd c) = Some n \<longrightarrow> 0 < strong h n"
    and free: "\<forall>g. Grd c = Grd (GuardDrop g) \<longrightarrow> Borrow (OGuard g) \<notin> set fs"
  shows "owned_step h (Grd c) h' gs fs"
proof (cases c)
  case (GuardAtLocation n loc dst)
  obtain h1 i where h1: "shard_index t n h = (h1, i)" by (cases "shard_index t n h")
  have "backed h fs (Grd (Provenance s loc (ToAtLocation n dst)))" for s
    using ok(5) GuardAtLocation by (auto simp: backed_def)
  with step ok h1 GuardAtLocation show ?thesis
    by (intro owned_same) (auto simp: guard_at_location_def inner_shard_def same_owners_index)
next
  case (Provenance s loc to)
  have "same_owners h h1" if "alloc_info i h = (h1, a)" for i h1 a
    using that by (auto simp: alloc_info_def)
  moreover have "backed h fs (Grd (ProvenanceRegister s loc a to))" for a
    using ok(5) Provenance by (auto simp: backed_def)
  ultimately show ?thesis
    using step ok Provenance provenance_return_backed [OF ok(5), of to s]
    by (intro owned_same) (auto simp: provenance_def split: if_splits prod.splits)
next
  case (ProvenanceRegister s loc a to)
  with step ok provenance_return_backed [OF ok(5), of to s] show ?thesis
    by (intro owned_same) (auto simp: provenance_register_def Let_def simp del: upd_shard_def)
next
  case (GuardBuild s pin loc info dst)
  have "guard_at h (n_guards h) = None" using heap_okD(5) [OF ok(1), of "n_guards h"] by fastforce
  with assms GuardBuild show ?thesis
    by (auto intro!: guard_build_owned simp: pin_ok_def valid_shard_def)
next
  case (GuardForShard s loc i)
  have "backed h fs (Grd (ArriveIfArrived s loc i w))" "backed h fs (Grd (GuardUpgrade s loc i))" for w
    using ok(5) GuardForShard by (auto simp: backed_def)
  with step ok GuardForShard show ?thesis
    by (intro owned_same) (auto simp: guard_for_shard_def split: if_splits)
next
  case (ArriveIfArrived s loc i st)
  have "backed h fs (Grd (ArriveIfArrived s loc i w))" "backed h fs (Grd (GuardUpgrade s loc i))"
    "backed h fs (Grd (Provenance s loc (ToForShard i)))" for w
    using ok(5) ArriveIfArrived by (auto simp: backed_def)
  with step ok ArriveIfArrived show ?thesis
    by (intro owned_same) (auto simp: arrive_if_arrived_def atomic_defs split: if_splits)
next
  case (GuardUpgrade s loc i)
  show ?thesis
  proof (cases "weak_upgrade (sh_node (shard_at h s)) h")
    case None
    with step ok GuardUpgrade show ?thesis by (intro owned_same) (auto simp: guard_upgrade_def)
  next
    case (Some r)
    obtain h1 n where r: "r = (h1, n)" by (cases r)
    have "gs = [Grd (GuardAtLocation n loc (Some i)), Life (DropArc n)]" "h1 = h'"
      using step GuardUpgrade Some by (auto simp: guard_upgrade_def r)
    moreover have "Borrow (OInterrupt i) \<in> set fs" using ok(5) GuardUpgrade by (auto simp: backed_def)
    ultimately show ?thesis
      using ok(3,4) Some by (intro flush_owned) (auto simp: r GuardUpgrade backed_def holds_def carefree_backed)
  qed
next
  case (GuardCloneArrive s pin loc info)
  obtain g gd where g: "Borrow (OGuard g) \<in> set fs" "guard_at h g = Some gd" "gd_pin gd = pin"
    using ok(5) GuardCloneArrive by (auto simp: backed_def)
  then have "backed h fs (Grd (GuardBuild s pin loc info None))"
    by (auto simp: backed_def holds_def pins_def)
  with step ok GuardCloneArrive show ?thesis
    by (intro owned_same) (auto simp: guard_clone_arrive_def Let_def split: if_splits)
next
  case (GuardDrop g)
  with assms show ?thesis by (auto intro!: guard_drop_owned)
next
  case (GuardDepart s pin)
  with step ok show ?thesis
    by (intro owned_same) (auto simp: guard_depart_def shard_depart_def carefree_backed Let_def split: if_splits option.splits)
next
  case (GuardFlushWeak s)
  show ?thesis
  proof (cases "weak_upgrade (sh_node (shard_at h s)) h")
    case None
    with step ok GuardFlushWeak show ?thesis by (intro owned_same) (auto simp: guard_flush_weak_def)
  next
    case (Some r)
    obtain h1 n where r: "r = (h1, n)" by (cases r)
    have "gs = [Count (ShardFlush s), Life (DropArc n)]" "h1 = h'"
      using step GuardFlushWeak Some by (auto simp: guard_flush_weak_def r)
    then show ?thesis
      using ok(3,4) Some by (intro flush_owned) (auto simp: r GuardFlushWeak carefree_backed)
  qed
next
  case (DropInfo a)
  with step ok show ?thesis by (intro owned_same) (auto simp: drop_info_def)
qed

lemma alloc_interrupt_owned:
  assumes "tables_bounded h" "backed_stack h fs" "frame_refs f = {#}"
    and "interrupt_at h (n_interrupts h) = None"
  shows "owned_step h f (alloc_interrupt it h) [] fs"
proof -
  have k: "kept h (alloc_interrupt it h) f" for f by (simp add: kept_def alloc_interrupt_def)
  have "arc_owned (alloc_interrupt it h) = arc_owned h" "strong (alloc_interrupt it h) = strong h"
    "n_nodes (alloc_interrupt it h) = n_nodes h" "tables_bounded (alloc_interrupt it h)"
    using assms(1) by (auto simp: arc_owned_def strong_def linked_def pins_def parent_of_def alloc_interrupt_def
        tables_bounded_def fun_eq_iff)
  moreover have "backed_stack (alloc_interrupt it h) fs"
    by (rule backed_stack_kept [OF assms(2) k [of "Borrow undefined"]]) simp
  ultimately show ?thesis using k assms(3) by (simp add: owned_step_def arc_balanced_def)
qed

lemma swan_owned:
  assumes step: "swan_step t c h = Next h' gs" and ok: "heap_ok h" "tables_bounded h" "backed_stack h fs"
      "backed h fs (Swan c)"
    and alive: "\<forall>n. needs (Swan c) = Some n \<longrightarrow> 0 < strong h n"
  shows "owned_step h (Swan c) h' gs fs"
proof (cases c)
  case (HandleClone n)
  have "backed h fs (Swan (HandleCloneArc n))" using ok(4) HandleClone by (auto simp: backed_def)
  with step ok HandleClone show ?thesis
    by (intro owned_same) (auto simp: swansong_clone_def simp del: upd_node_def)
next
  case (HandleCloneArc n)
  have b: "arc_balanced h (arc_clone n h) {#} {#n#}" "backed_stack (arc_clone n h) fs"
    using alive HandleCloneArc arc_clone_balanced [of h n "{#}"]
      backed_stack_kept [OF ok(3) kept_arc [of h n "Borrow undefined"]] by simp_all
  have "owned_step (arc_clone n h) (Life (DropArc n)) h' gs fs"
    using step HandleCloneArc ok b(2) by (auto simp: swansong_clone_arc_def intro!: alloc_handle_owned)
  moreover have "n_nodes (arc_clone n h) = n_nodes h" "n_nodes h' = n_nodes h"
    using step HandleCloneArc by (auto simp: swansong_clone_arc_def arc_clone_def alloc_handle_def)
  ultimately show ?thesis
    using arc_balanced_trans [OF b(1), of h' "stack_refs gs"] HandleCloneArc
    by (auto simp: owned_step_def kept_def arc_clone_def)
next
  case (HandleDrop n)
  have "owned_step h (Swan c) (upd_node n (in_swansong_count_update (\<lambda>k. k - 1)) h) [Life (DropArc n)] fs"
    using ok HandleDrop by (intro owned_same) (simp_all add: carefree_backed del: upd_node_def)
  then show ?thesis
    using step HandleDrop by (auto simp: handle_drop_def swansong_drop_def owned_step_def backed_def holds_def
        simp del: upd_node_def)
next
  case (CompletionNew n)
  have b: "arc_balanced h (arc_clone n h) {#} {#n#}" "backed_stack (arc_clone n h) fs"
    using alive CompletionNew arc_clone_balanced [of h n "{#}"]
      backed_stack_kept [OF ok(3) kept_arc [of h n "Borrow undefined"]] by simp_all
  have t: "tables_bounded (arc_clone n h)" using ok(2) by simp
  have h': "h' = alloc_completion n (arc_clone n h)" "gs = []"
    using step CompletionNew by (auto simp: completion_new_def)
  have k: "kept h h' f" for f by (simp add: h' kept_def alloc_completion_def arc_clone_def)
  have "arc_balanced h h' {#} {#}"
    using arc_balanced_trans [OF b(1) alloc_completion_balanced(1) [OF t, of n "{#}"]]
    by (simp add: h' alloc_completion_def arc_clone_def)
  moreover have "backed_stack h' fs"
    by (rule backed_stack_kept [OF ok(3) k [of "Borrow undefined"]]) simp
  ultimately show ?thesis
    using k alloc_completion_balanced(2) [OF t, of n] CompletionNew by (simp add: owned_step_def h')
next
  case (InterruptNew n)
  obtain h1 i where h1: "shard_index t n h = (h1, i)" by (cases "shard_index t n h")
  note same = same_owners_index [OF h1]
  have "tables_bounded h1" using same ok(2) by (simp add: same_owners_def tables_bounded_def)
  moreover have "interrupt_at h (n_interrupts h) = None"
    using heap_okD(6) [OF ok(1), of "n_interrupts h"] by (cases "interrupt_at h (n_interrupts h)") auto
  then have "interrupt_at h1 (n_interrupts h1) = None"
    using same unfolding same_owners_def by (metis option.map_disc_iff)
  ultimately have "owned_step h1 (Swan c) h' gs fs"
    using step h1 InterruptNew backed_stack_same [OF same ok(3)]
    by (auto simp: interrupt_new_def inner_shard_def intro!: alloc_interrupt_owned)
  then show ?thesis by (rule owned_after [OF same])
qed

text \<open>Polling an interrupt changes no owner: its guard stays in it.\<close>

lemma same_owners_poll_returns:
  assumes "poll_returns i w r it' h = Next h' gs" "interrupt_at h i = Some it" "it_guard it' = it_guard it"
  shows "same_owners h h' \<and> gs = []"
  using assms same_owners_interrupt [of h i it "it'\<lparr>it_last := Some (w, r)\<rparr>"] by (auto simp: poll_returns_def)

lemma intr_same_owners: "intr_step t b c h = Next h' gs \<Longrightarrow> same_owners h h'"
proof (induction t b c h rule: intr_step.induct)
  case (7 t ready i w h)
  then obtain it where it: "interrupt_at h i = Some it"
    by (auto simp: poll_register_def on_interrupt_def split: option.splits)
  from 7 it obtain ws k where p: "poll_returns i w Pending (it\<lparr>it_registration := Some \<lparr>rn_key = k, rn_waker = w\<rparr>\<rparr>)
      (lock_release (it_shard it) (upd_shard (it_shard it) (sh_waiters_update (\<lambda>_. ws)) h)) = Next h' gs"
    by (auto simp: poll_register_def on_interrupt_def Let_def simp del: upd_shard_def split: option.splits)
  have "interrupt_at (lock_release (it_shard it) (upd_shard (it_shard it) (sh_waiters_update (\<lambda>_. ws)) h)) i = Some it"
    using it by (simp add: lock_release_def)
  from same_owners_poll_returns [OF p this] same_owners_trans [OF same_owners_upd(3) same_owners_upd(9)]
  show ?case using same_owners_trans by fastforce
next
  case (6 t ready i w h)
  then obtain it where it: "interrupt_at h i = Some it"
    by (auto simp: poll_locked_def on_interrupt_def split: option.splits)
  then have l: "interrupt_at (lock_release (it_shard it) h) i = Some it" by (simp add: lock_release_def)
  show ?case
  proof (cases "is_stopped (it_shard it) h")
    case True
    with 6 it have "poll_returns i w (Ready None) it (lock_release (it_shard it) h) = Next h' gs"
      by (auto simp: poll_locked_def on_interrupt_def)
    from same_owners_poll_returns [OF this l] have "same_owners (lock_release (it_shard it) h) h'" by simp
    then show ?thesis by (rule same_owners_trans [OF same_owners_upd(9)])
  next
    case False
    with 6 it show ?thesis by (auto simp: poll_locked_def on_interrupt_def)
  qed
qed (auto simp: poll_interrupt_def poll_wrapped_def poll_stopped_def poll_recheck_def poll_lock_def listener_drop_def
    on_interrupt_def dest: same_owners_poll_returns simp del: upd_shard_def split: option.splits if_splits)

lemma intr_frames:
  assumes "intr_step t b c h = Next h' gs" "g \<in> set gs"
  shows "frame_refs g = {#} \<and> uses g = uses (Intr c) \<and> needs g = None \<and> clones g = None"
  using assms
  by (cases "(t, b, c, h)" rule: intr_step.cases)
    (auto simp: poll_interrupt_def poll_wrapped_def poll_stopped_def poll_recheck_def poll_lock_def listener_drop_def
      poll_locked_def poll_register_def poll_returns_def on_interrupt_def Let_def
      simp del: upd_shard_def split: option.splits if_splits)

lemma intr_owned:
  assumes step: "intr_step t b c h = Next h' gs" and ok: "tables_bounded h" "backed_stack h fs" "backed h fs (Intr c)"
  shows "owned_step h (Intr c) h' gs fs"
proof (rule owned_same [OF intr_same_owners [OF step] ok(1,2)])
  have "stack_refs gs = {#}" using intr_frames [OF step] by (intro carefree_refs) blast
  then show "stack_refs gs = frame_refs (Intr c)" by simp
  show "\<forall>g \<in> set gs. backed h fs g"
  proof
    fix g
    assume "g \<in> set gs"
    from intr_frames [OF step this] show "backed h fs g" by (intro hands_on [OF ok(3)]) simp_all
  qed
qed

theorem exec_owned:
  assumes step: "exec t b f h = Next h' gs" and ok: "heap_ok h" "frame_ok h f" "tables_bounded h" "backed_stack h (f # fs)"
    and alive: "\<forall>n. needs f = Some n \<longrightarrow> 0 < strong h n" "\<forall>n. n \<in># frame_refs f \<longrightarrow> 0 < strong h n"
    and free: "\<forall>g. f = Grd (GuardDrop g) \<longrightarrow> Borrow (OGuard g) \<notin> set fs"
  shows "owned_step h f h' gs fs"
proof (cases f)
  case (Borrow x)
  with assms show ?thesis by (intro owned_same) auto
qed (use assms in \<open>auto intro!: count_owned stop_owned life_owned guard_owned swan_owned intr_owned\<close>)

end
