(* ===== verification/Exclusion.thy ===== *)
theory Exclusion
  imports Ownership
begin

text \<open>
  Ownership across threads. A borrowed object is there, an interrupt is borrowed mutably by at
  most one call, and a guard is dropped once: it belongs to the client, to one interrupt or to
  one running drop. Together with the accounts of the strong counts this is the invariant
  \<open>owner_ok\<close> of every reachable state.
\<close>

section \<open>Claims to guards\<close>

definition frames_count :: "sys \<Rightarrow> frame \<Rightarrow> nat" where
  "frames_count \<sigma> f = addup (n_threads \<sigma>) (\<lambda>t. count_list (stack \<sigma> t) f)"

definition guard_in :: "heap \<Rightarrow> iid \<Rightarrow> gid option" where
  "guard_in h i = Option.bind (interrupt_at h i) it_guard"

definition interrupt_claims :: "heap \<Rightarrow> gid \<Rightarrow> nat" where
  "interrupt_claims h g = tally (n_interrupts h) (\<lambda>i. guard_in h i = Some g)"

definition guard_claims :: "sys \<Rightarrow> gid \<Rightarrow> nat" where
  "guard_claims \<sigma> g = frames_count \<sigma> (Grd (GuardDrop g)) + interrupt_claims (mem \<sigma>) g"

fun present :: "heap \<Rightarrow> object \<Rightarrow> bool" where
  "present h (OHandle x) = (handle_at h x \<noteq> None)"
| "present h (OGuard g) = (guard_at h g \<noteq> None)"
| "present h (OInterrupt i) = (interrupt_at h i \<noteq> None)"
| "present h (OCompletion c) = True"

definition owner_ok :: "sys \<Rightarrow> bool" where
  "owner_ok \<sigma> \<longleftrightarrow> tables_bounded (mem \<sigma>) \<and>
     (\<forall>n<n_nodes (mem \<sigma>). strong (mem \<sigma>) n =
        arc_owned (mem \<sigma>) n + addup (n_threads \<sigma>) (\<lambda>t. count (stack_refs (stack \<sigma> t)) n)) \<and>
     (\<forall>t<n_threads \<sigma>. backed_stack (mem \<sigma>) (stack \<sigma> t)) \<and>
     (\<forall>x. borrowed x \<sigma> \<longrightarrow> present (mem \<sigma>) x) \<and>
     (\<forall>i. frames_count \<sigma> (Borrow (OInterrupt i)) \<le> 1) \<and>
     (\<forall>g. guard_claims \<sigma> g \<le> 1 \<and>
        (0 < guard_claims \<sigma> g \<longrightarrow> guard_at (mem \<sigma>) g \<noteq> None \<and> \<not> borrowed (OGuard g) \<sigma>))"

lemma frames_count_pos: "0 < frames_count \<sigma> f \<longleftrightarrow> (\<exists>t<n_threads \<sigma>. f \<in> set (stack \<sigma> t))"
proof -
  have "0 < frames_count \<sigma> f \<longleftrightarrow> (\<exists>t<n_threads \<sigma>. count_list (stack \<sigma> t) f \<noteq> 0)"
    using addup_eq_0_iff [of "n_threads \<sigma>" "\<lambda>t. count_list (stack \<sigma> t) f"]
    by (auto simp: frames_count_def simp del: addup_eq_0_iff)
  then show ?thesis by (simp add: count_list_0_iff)
qed

lemma borrowed_count: "borrowed x \<sigma> \<longleftrightarrow> 0 < frames_count \<sigma> (Borrow x)"
  by (simp add: borrowed_def frames_count_pos)

lemma dropping_count: "dropping g \<sigma> \<longleftrightarrow> 0 < frames_count \<sigma> (Grd (GuardDrop g))"
  by (simp add: dropping_def frames_count_pos)

section \<open>What a step does to claims and borrows\<close>

definition plain_new :: "frame list \<Rightarrow> bool" where
  "plain_new gs \<longleftrightarrow> (\<forall>g \<in> set gs. (\<forall>x. g \<noteq> Borrow x) \<and> (\<forall>x. g \<noteq> Grd (GuardDrop x)))"

lemma plain_new_simps [simp]:
  "plain_new []" "plain_new (g # gs) \<longleftrightarrow> (\<forall>x. g \<noteq> Borrow x) \<and> (\<forall>x. g \<noteq> Grd (GuardDrop x)) \<and> plain_new gs"
  "plain_new (gs @ gs') \<longleftrightarrow> plain_new gs \<and> plain_new gs'" "plain_new (stop_shards n h)"
  by (auto simp: plain_new_def stop_shards_def)

lemma count_plain_new: "count_step t b c h = Next h' gs \<Longrightarrow> plain_new gs"
  using count_frames by (fastforce simp: plain_new_def)

lemma stop_plain_new: "stop_step t c h = Next h' gs \<Longrightarrow> plain_new gs"
proof (cases c)
  case (ShardWake s w ws)
  then show "stop_step t c h = Next h' gs \<Longrightarrow> plain_new gs" by (cases ws) auto
next
  case (StopUpgrade n i cs live)
  then show "stop_step t c h = Next h' gs \<Longrightarrow> plain_new gs"
    by (cases cs) (auto simp: weak_upgrade_def split: if_splits)
next
  case (StopChildren n i live)
  have "plain_new (concat (map (\<lambda>c. [Stop (NodeStop c), Life (DropArc c)]) live))"
    by (induction live) simp_all
  with StopChildren show "stop_step t c h = Next h' gs \<Longrightarrow> plain_new gs"
    by (auto simp: stop_children_def split: if_splits)
qed (auto simp: shard_stop_def shard_drain_def node_stop_def stop_notify_def stop_zero_def Let_def
    simp del: upd_shard_def upd_node_def split: if_splits)

lemma life_plain_new: "life_step t c h = Next h' gs \<Longrightarrow> plain_new gs"
  by (cases c) (auto simp: drop_arc_def deregister_def child_new_def child_register_def child_store_key_def
      child_check_def child_return_def Let_def simp del: upd_shard_def upd_node_def split: if_splits option.splits prod.splits)

lemma provenance_return_plain [simp]: "plain_new (provenance_return s loc info to h)"
  by (cases to) simp_all

text \<open>Only a new guard that replaces another in an interrupt starts a drop.\<close>

fun builds :: "frame \<Rightarrow> bool" where
  "builds (Grd (GuardBuild s pin loc info dst)) = True"
| "builds _ = False"

lemma guard_plain_new: "guard_step t b c h = Next h' gs \<Longrightarrow> \<not> builds (Grd c) \<Longrightarrow> plain_new gs"
  by (cases c) (auto simp: guard_at_location_def provenance_def provenance_register_def guard_for_shard_def
      arrive_if_arrived_def guard_upgrade_def guard_clone_arrive_def guard_drop_def guard_depart_def
      guard_flush_weak_def drop_info_def atomic_defs Let_def
      simp del: upd_shard_def split: if_splits option.splits prod.splits)

lemma swan_plain_new: "swan_step t c h = Next h' gs \<Longrightarrow> plain_new gs"
  by (cases c) (auto simp: swansong_clone_def swansong_clone_arc_def handle_drop_def completion_new_def
      interrupt_new_def simp del: upd_node_def split: if_splits prod.splits)

lemma intr_plain_new: "intr_step t b c h = Next h' gs \<Longrightarrow> plain_new gs"
  by (cases "(t, b, c, h)" rule: intr_step.cases)
    (auto simp: poll_interrupt_def poll_wrapped_def poll_stopped_def poll_recheck_def poll_lock_def listener_drop_def
      poll_locked_def poll_register_def poll_returns_def on_interrupt_def Let_def
      simp del: upd_shard_def split: option.splits if_splits)

lemma exec_plain_new:
  "exec t b f h = Next h' gs \<Longrightarrow> \<not> builds f \<Longrightarrow> plain_new gs"
  by (cases f) (auto intro: count_plain_new stop_plain_new life_plain_new guard_plain_new swan_plain_new intr_plain_new)

definition same_guards_in :: "heap \<Rightarrow> heap \<Rightarrow> bool" where
  "same_guards_in h h' \<longleftrightarrow> guard_in h' = guard_in h \<and> n_interrupts h' = n_interrupts h"

lemma same_owners_guards_in: "same_owners h h' \<Longrightarrow> same_guards_in h h'"
proof -
  assume s: "same_owners h h'"
  have "guard_in h i = Option.bind (map_option it_guard (interrupt_at h i)) id" for h i
    by (cases "interrupt_at h i") (simp_all add: guard_in_def)
  with s show ?thesis by (simp add: same_guards_in_def same_owners_def fun_eq_iff)
qed

lemma same_guards_in_upd [simp]:
  "same_guards_in h h" "same_guards_in h (upd_shard s f h)" "same_guards_in h (upd_node n k h)"
  "same_guards_in h (set_shard_word s w h)" "same_guards_in h (set_node_word n w h)"
  "same_guards_in h (lock_acquire t s h)" "same_guards_in h (lock_release s h)" "same_guards_in h (arc_clone n h)"
  "same_guards_in h (h\<lparr>info_strong := I\<rparr>)" "same_guards_in h (h\<lparr>woken := W\<rparr>)"
  "same_guards_in h (h\<lparr>guard_at := G\<rparr>)"
  "same_guards_in h (alloc_handle n h)" "same_guards_in h (alloc_completion n h)"
  "same_guards_in h (alloc_handle n (arc_clone m h))" "same_guards_in h (alloc_completion n (arc_clone m h))"
  "same_guards_in h (h\<lparr>handle_at := H\<rparr>)" "same_guards_in h (h\<lparr>completion_at := C\<rparr>)"
  "same_guards_in h (h\<lparr>info_at := A, info_strong := I, n_infos := N\<rparr>)"
  by (simp_all add: same_guards_in_def guard_in_def fun_eq_iff set_shard_word_def set_node_word_def lock_acquire_def
      lock_release_def arc_clone_def alloc_handle_def alloc_completion_def)

lemma same_guards_in_trans: "same_guards_in h h' \<Longrightarrow> same_guards_in h' h'' \<Longrightarrow> same_guards_in h h''"
  by (simp add: same_guards_in_def)

lemma alloc_node_guards_in: "alloc_node link k rep h = (h', n) \<Longrightarrow> same_guards_in h h'"
  by (auto simp: alloc_node_def Let_def same_guards_in_def guard_in_def fun_eq_iff)

lemma index_guards_in: "shard_index t n h = (h', i) \<Longrightarrow> same_guards_in h h'"
  using same_owners_index same_owners_guards_in by blast

lemma stop_guards_in: "stop_step t c h = Next h' gs \<Longrightarrow> same_guards_in h h'"
proof (cases c)
  case (ShardWake s w ws)
  then show "stop_step t c h = Next h' gs \<Longrightarrow> same_guards_in h h'" by (cases ws) auto
next
  case (StopUpgrade n i cs live)
  then show "stop_step t c h = Next h' gs \<Longrightarrow> same_guards_in h h'"
    by (cases cs) (auto simp: weak_upgrade_def split: if_splits)
qed (auto simp: shard_stop_def shard_drain_def node_stop_def stop_notify_def stop_zero_def stop_children_def notify_zero_def
    Let_def simp del: upd_shard_def upd_node_def split: if_splits)

lemma life_guards_in: "life_step t c h = Next h' gs \<Longrightarrow> same_guards_in h h'"
proof (cases c)
  case (ChildNew n)
  assume step: "life_step t c h = Next h' gs"
  obtain h1 i where h1: "shard_index t n h = (h1, i)" by (cases "shard_index t n h")
  then obtain link rep d where d: "alloc_node link 1 rep (arc_clone n h1) = (h', d)"
    using step ChildNew by (auto simp: child_new_def Let_def split: prod.splits)
  show ?thesis
    using index_guards_in [OF h1] same_guards_in_upd(8) [of h1 n] alloc_node_guards_in [OF d]
      same_guards_in_trans by blast
qed (auto simp: drop_arc_def deregister_def child_register_def child_store_key_def child_check_def child_return_def
    Let_def simp del: upd_shard_def upd_node_def split: if_splits option.splits prod.splits)

lemma guard_guards_in: "guard_step t b c h = Next h' gs \<Longrightarrow> \<not> builds (Grd c) \<Longrightarrow> same_guards_in h h'"
  by (cases c) (auto simp: guard_at_location_def inner_shard_def provenance_def alloc_info_def provenance_register_def
      guard_for_shard_def arrive_if_arrived_def guard_upgrade_def guard_clone_arrive_def guard_drop_def guard_depart_def
      guard_flush_weak_def drop_info_def atomic_defs weak_upgrade_def Let_def index_guards_in
      simp del: upd_shard_def split: if_splits option.splits prod.splits)

definition claims_move :: "heap \<Rightarrow> frame \<Rightarrow> heap \<Rightarrow> frame list \<Rightarrow> bool" where
  "claims_move h f h' gs \<longleftrightarrow>
     (\<forall>g. interrupt_claims h' g + count_list gs (Grd (GuardDrop g)) \<le>
        interrupt_claims h g + of_bool (builds f \<and> g = n_guards h)) \<and>
     (builds f \<longrightarrow> guard_at h' (n_guards h) \<noteq> None)"

lemma claims_same:
  assumes "same_guards_in h h'" "plain_new gs" "\<not> builds f"
  shows "claims_move h f h' gs"
proof -
  have "count_list gs (Grd (GuardDrop g)) = 0" for g
    using assms(2) by (auto simp: plain_new_def count_list_0_iff)
  then show ?thesis
    using assms(1,3) by (simp add: claims_move_def interrupt_claims_def same_guards_in_def)
qed

lemma guard_build_claims:
  assumes step: "guard_build s pin loc info dst h = Next h' gs" and ok: "heap_ok h"
  shows "claims_move h (Grd (GuardBuild s pin loc info dst)) h' gs"
proof -
  define h1 where "h1 = (case pin of None \<Rightarrow> h | Some n \<Rightarrow> arc_clone n h)"
  define gd where "gd = \<lparr>gd_shard = s, gd_pin = pin, gd_location = loc, gd_info = info\<rparr>"
  define h2 where "h2 = h1\<lparr>guard_at := (guard_at h1)(n_guards h1 \<mapsto> gd), n_guards := Suc (n_guards h1)\<rparr>"
  have n: "n_guards h1 = n_guards h" "interrupt_at h2 = interrupt_at h" "n_interrupts h2 = n_interrupts h"
    "guard_at h2 (n_guards h) \<noteq> None"
    by (auto simp: h2_def h1_def arc_clone_def split: option.split)
  have e: "guard_build s pin loc info dst h = (case dst of None \<Rightarrow> Next h2 [] | Some i \<Rightarrow>
      (case interrupt_at h2 i of None \<Rightarrow> Next h2 []
       | Some it \<Rightarrow> Next (h2\<lparr>interrupt_at := (interrupt_at h2)(i \<mapsto> it\<lparr>it_guard := Some (n_guards h)\<rparr>)\<rparr>)
           (case it_guard it of None \<Rightarrow> [] | Some g' \<Rightarrow> [Grd (GuardDrop g')])))"
    unfolding guard_build_def h1_def [symmetric] alloc_guard_def gd_def [symmetric] h2_def
    using n(1) by (simp split: option.split)
  have same: "guard_in h2 = guard_in h" by (simp add: guard_in_def n fun_eq_iff)
  show ?thesis
  proof (cases "\<exists>i it. dst = Some i \<and> interrupt_at h i = Some it")
    case False
    then have "h' = h2" "gs = []" using step e n by (auto split: option.splits)
    with same n show ?thesis by (simp add: claims_move_def interrupt_claims_def)
  next
    case True
    then obtain i it where it: "dst = Some i" "interrupt_at h i = Some it" by blast
    then have h': "h' = h2\<lparr>interrupt_at := (interrupt_at h2)(i \<mapsto> it\<lparr>it_guard := Some (n_guards h)\<rparr>)\<rparr>"
      and gs: "gs = (case it_guard it of None \<Rightarrow> [] | Some g' \<Rightarrow> [Grd (GuardDrop g')])"
      using step e n by auto
    have i: "i < n_interrupts h" using heap_okD(6) [OF ok it(2)] by simp
    have "interrupt_claims h' g + of_bool (guard_in h i = Some g) =
        interrupt_claims h g + of_bool (guard_in h' i = Some g)" for g
      unfolding interrupt_claims_def
      using addup_change [OF i, of "\<lambda>j. of_bool (guard_in h' j = Some g)" "\<lambda>j. of_bool (guard_in h j = Some g)"]
      by (simp add: h' n guard_in_def)
    moreover have "count_list gs (Grd (GuardDrop g)) = of_bool (guard_in h i = Some g)" for g
      by (auto simp: gs guard_in_def it split: option.split)
    moreover have "guard_in h' i = Some g \<longleftrightarrow> g = n_guards h" for g
      by (auto simp: h' guard_in_def)
    ultimately show ?thesis
      using n(4) by (auto simp: claims_move_def h')
  qed
qed

lemma exec_claims:
  assumes step: "exec t b f h = Next h' gs" and ok: "heap_ok h"
  shows "claims_move h f h' gs"
proof (cases "builds f")
  case True
  with step ok guard_build_claims show ?thesis by (cases f rule: builds.cases) auto
next
  case False
  note plain = exec_plain_new [OF step False]
  show ?thesis
  proof (cases "\<exists>n. f = Swan (InterruptNew n)")
    case True
    then obtain n where f: "f = Swan (InterruptNew n)" by blast
    obtain h1 i where h1: "shard_index t n h = (h1, i)" by (cases "shard_index t n h")
    have h': "h' = alloc_interrupt (stop_listener_new (n, i)) h1"
      using step h1 by (simp add: f interrupt_new_def inner_shard_def)
    have none: "interrupt_at h (n_interrupts h) = None"
      using heap_okD(6) [OF ok, of "n_interrupts h"] by (cases "interrupt_at h (n_interrupts h)") auto
    have "guard_in h1 = guard_in h" "n_interrupts h1 = n_interrupts h"
      using index_guards_in [OF h1] by (simp_all add: same_guards_in_def)
    moreover have "guard_in h' j = (if j = n_interrupts h1 then None else guard_in h1 j)" for j
      by (simp add: h' guard_in_def alloc_interrupt_def stop_listener_new_def)
    moreover have "n_interrupts h' = Suc (n_interrupts h1)" by (simp add: h' alloc_interrupt_def)
    ultimately have "interrupt_claims h' = interrupt_claims h"
      by (auto simp: interrupt_claims_def fun_eq_iff intro!: addup_cong)
    moreover have "count_list gs (Grd (GuardDrop g)) = 0" for g
      using plain by (auto simp: plain_new_def count_list_0_iff)
    ultimately show ?thesis using False by (simp add: claims_move_def)
  next
    case other: False
    have "same_guards_in h h'"
    proof (cases f)
      case (Swan c)
      with step other show ?thesis
        by (cases c) (auto simp: swansong_clone_def swansong_clone_arc_def handle_drop_def swansong_drop_def
            completion_new_def simp del: upd_node_def)
    next
      case (Intr c)
      with step show ?thesis by (auto intro: same_owners_guards_in intr_same_owners)
    next
      case (Count c)
      with step show ?thesis by (auto intro: same_owners_guards_in same_owners_count)
    qed (use step False in \<open>auto intro: stop_guards_in life_guards_in guard_guards_in\<close>)
    then show ?thesis using plain False by (rule claims_same)
  qed
qed

section \<open>Calls\<close>

definition call_kept :: "heap \<Rightarrow> heap \<Rightarrow> call \<Rightarrow> bool" where
  "call_kept h h' c \<longleftrightarrow>
     (\<forall>x n. handle_at h x = Some n \<longrightarrow> exclusive c \<noteq> Some (OHandle x) \<longrightarrow> handle_at h' x = Some n) \<and>
     (\<forall>g gd. guard_at h g = Some gd \<longrightarrow> guard_at h' g = Some gd) \<and>
     (\<forall>i. interrupt_at h i \<noteq> None \<longrightarrow> exclusive c \<noteq> Some (OInterrupt i) \<longrightarrow> interrupt_at h' i \<noteq> None)"

definition call_owned :: "heap \<Rightarrow> call \<Rightarrow> heap \<Rightarrow> frame list \<Rightarrow> bool" where
  "call_owned h c h' fs \<longleftrightarrow>
     arc_balanced h h' {#} (stack_refs fs) \<and> tables_bounded h' \<and> backed_stack h' fs \<and> call_kept h h' c \<and>
     (\<forall>g. interrupt_claims h' g + count_list fs (Grd (GuardDrop g)) \<le>
        interrupt_claims h g + of_bool (c = CallGuardDrop g)) \<and>
     (\<forall>x. Borrow x \<in> set fs \<longrightarrow> present h' x) \<and>
     (\<forall>i. count_list fs (Borrow (OInterrupt i)) \<le> of_bool (exclusive c = Some (OInterrupt i))) \<and>
     (\<forall>g. Borrow (OGuard g) \<in> set fs \<longrightarrow> c = CallGuardClone g)"

lemma new_root_owned:
  assumes ok: "heap_ok h" "tables_bounded h"
  shows "call_owned h (CallNew rep) (new_root report h) []"
proof -
  obtain h1 n where h1: "alloc_node None (root_shard_count h) report h = (h1, n)"
    by (cases "alloc_node None (root_shard_count h) report h")
  have b: "arc_balanced h h1 {#} {#n#}" "tables_bounded h1"
    using alloc_node_balanced [OF h1 ok, of "{#}"] by simp_all
  have "arc_balanced h (alloc_handle n h1) {#} {#}"
    using arc_balanced_trans [OF b(1) alloc_handle_balanced(1) [OF b(2), of n "{#}"]] alloc_node_extends(1) [OF h1]
    by (simp add: alloc_handle_def extends_def)
  moreover have "guard_at (alloc_handle n h1) = guard_at h" "interrupt_at (alloc_handle n h1) = interrupt_at h"
    using h1 by (auto simp: alloc_handle_def alloc_node_def Let_def)
  moreover have "handle_at (alloc_handle n h1) x = Some m" if "handle_at h x = Some m" for x m
    using h1 that ok(2) by (auto simp: alloc_handle_def alloc_node_def Let_def tables_bounded_def)
  moreover have "interrupt_claims (alloc_handle n h1) = interrupt_claims h"
    using h1 by (auto simp: interrupt_claims_def guard_in_def alloc_handle_def alloc_node_def Let_def fun_eq_iff)
  ultimately show ?thesis
    using h1 alloc_handle_balanced(2) [OF b(2), of n] by (simp add: call_owned_def call_kept_def new_root_def)
qed

text \<open>A call that takes nothing.\<close>

lemma call_owned_same:
  assumes "same_owners h h'" "tables_bounded h" "stack_refs fs = {#}" "backed_stack h' fs"
    and "\<forall>g. Grd (GuardDrop g) \<in> set fs \<longrightarrow> c = CallGuardDrop g" "distinct fs"
    and "\<forall>x. Borrow x \<in> set fs \<longrightarrow> present h' x"
    and "\<forall>i. Borrow (OInterrupt i) \<in> set fs \<longrightarrow> exclusive c = Some (OInterrupt i)"
    and "\<forall>g. Borrow (OGuard g) \<in> set fs \<longrightarrow> c = CallGuardClone g"
  shows "call_owned h c h' fs"
proof -
  have "interrupt_claims h' = interrupt_claims h"
    using same_owners_guards_in [OF assms(1)] by (simp add: interrupt_claims_def same_guards_in_def fun_eq_iff)
  moreover have "tables_bounded h'" using assms(1,2) by (simp add: same_owners_def tables_bounded_def)
  moreover have "call_kept h h' c"
    using same_owners_kept [OF assms(1), of "Borrow undefined"] by (auto simp: call_kept_def kept_def)
  moreover have "count_list fs x = of_bool (x \<in> set fs)" for x
    using assms(6) by (induction fs) auto
  ultimately show ?thesis
    using assms same_owners_balanced by (auto simp: call_owned_def)
qed

lemma begin_call_owned:
  assumes call: "begin_call c h = Some (h', fs)" and ok: "heap_ok h" "tables_bounded h"
  shows "call_owned h c h' fs"
proof (cases c)
  case (CallNew report)
  with call ok show ?thesis by (auto intro: new_root_owned)
next
  case (CallDrop x)
  with call obtain n where n: "handle_at h x = Some n" "h' = h\<lparr>handle_at := (handle_at h)(x := None)\<rparr>"
    "fs = [Swan (HandleDrop n)]"
    by (auto simp: on_handle_def split: option.splits)
  have "interrupt_claims h' = interrupt_claims h" by (simp add: n interrupt_claims_def guard_in_def fun_eq_iff)
  with drop_handle_balanced(1) [OF ok(2) n(1), of "{#}"] drop_handle_balanced(2) [OF ok(2) n(1)] show ?thesis
    by (auto simp: call_owned_def n CallDrop call_kept_def carefree_backed)
next
  case (CallIntoFuture x)
  with call obtain n where n: "handle_at h x = Some n" "h' = h\<lparr>handle_at := (handle_at h)(x := None)\<rparr>"
    "fs = [Swan (CompletionNew n), Swan (HandleDrop n)]"
    by (auto simp: on_handle_def split: option.splits)
  have "interrupt_claims h' = interrupt_claims h" by (simp add: n interrupt_claims_def guard_in_def fun_eq_iff)
  with drop_handle_balanced(1) [OF ok(2) n(1), of "{#}"] drop_handle_balanced(2) [OF ok(2) n(1)] show ?thesis
    by (auto simp: call_owned_def n CallIntoFuture call_kept_def carefree_backed) (simp add: backed_def holds_def)
next
  case (CallCompletionDrop x)
  with call obtain n where n: "completion_at h x = Some n" "h' = h\<lparr>completion_at := (completion_at h)(x := None)\<rparr>"
    "fs = [Life (DropArc n)]"
    by (auto split: option.splits)
  have "interrupt_claims h' = interrupt_claims h" by (simp add: n interrupt_claims_def guard_in_def fun_eq_iff)
  with drop_completion_balanced(1) [OF ok(2) n(1), of "{#}"] drop_completion_balanced(2) [OF ok(2) n(1)] show ?thesis
    by (auto simp: call_owned_def n CallCompletionDrop call_kept_def carefree_backed)
next
  case (CallInterruptDrop i)
  with call obtain it where it: "interrupt_at h i = Some it" "h' = h\<lparr>interrupt_at := (interrupt_at h)(i := None)\<rparr>"
    "fs = drop_frames it"
    by (auto split: option.splits)
  have i: "i < n_interrupts h" using heap_okD(6) [OF ok(1) it(1)] by simp
  have "interrupt_claims h' g + of_bool (it_guard it = Some g) = interrupt_claims h g" for g
    unfolding interrupt_claims_def
    using addup_change [OF i, of "\<lambda>j. of_bool (guard_in h' j = Some g)" "\<lambda>j. of_bool (guard_in h j = Some g)"]
    by (simp add: it guard_in_def)
  moreover have "count_list fs (Grd (GuardDrop g)) = of_bool (it_guard it = Some g)" for g
    by (auto simp: it drop_frames_def split: option.split)
  moreover have "arc_owned h' = arc_owned h" "strong h' = strong h" "n_nodes h' = n_nodes h" "tables_bounded h'"
    using ok(2) by (auto simp: it arc_owned_def strong_def linked_def pins_def parent_of_def tables_bounded_def fun_eq_iff)
  moreover have "stack_refs fs = {#}" "backed_stack h' fs" "\<forall>x. Borrow x \<notin> set fs"
    by (auto simp: it drop_frames_def carefree_backed split: option.split)
  ultimately show ?thesis
    by (auto simp: call_owned_def arc_balanced_def call_kept_def CallInterruptDrop) (simp_all add: it)
next
  case (CallPoll i w)
  with call obtain it where it: "interrupt_at h i = Some it" "h' = set_interrupt i (it\<lparr>it_last := None\<rparr>) h"
    "fs = [Intr (Poll i w), Borrow (OInterrupt i)]"
    by (auto split: option.splits)
  have "same_owners h h'" unfolding it(2) by (rule same_owners_interrupt [OF it(1)]) simp
  then show ?thesis
    using ok(2) by (intro call_owned_same) (auto simp: it CallPoll backed_def)
next
  case (CallGuardClone g)
  with call obtain gd where "guard_at h g = Some gd" "h' = h" "fs = guard_clone gd @ [Borrow (OGuard g)]"
    by (auto split: option.splits if_splits)
  with ok(2) show ?thesis by (intro call_owned_same) (auto simp: CallGuardClone backed_def)
qed (use call ok in \<open>auto simp: on_handle_def backed_def holds_def free_guard_def intro!: call_owned_same split: option.splits if_splits\<close>)

section \<open>The invariant\<close>

lemma owner_okD:
  assumes "owner_ok \<sigma>"
  shows "tables_bounded (mem \<sigma>)"
    "n < n_nodes (mem \<sigma>) \<Longrightarrow> strong (mem \<sigma>) n =
       arc_owned (mem \<sigma>) n + addup (n_threads \<sigma>) (\<lambda>t. count (stack_refs (stack \<sigma> t)) n)"
    "t < n_threads \<sigma> \<Longrightarrow> backed_stack (mem \<sigma>) (stack \<sigma> t)"
    "borrowed x \<sigma> \<Longrightarrow> present (mem \<sigma>) x"
    "frames_count \<sigma> (Borrow (OInterrupt i)) \<le> 1"
    "guard_claims \<sigma> g \<le> 1"
    "0 < guard_claims \<sigma> g \<Longrightarrow> guard_at (mem \<sigma>) g \<noteq> None \<and> \<not> borrowed (OGuard g) \<sigma>"
  using assms by (simp_all add: owner_ok_def)

lemma stack_refs_member: "f \<in> set fs \<Longrightarrow> n \<in># frame_refs f \<Longrightarrow> n \<in># stack_refs fs"
  by (induction fs) auto

text \<open>A node that somebody holds is alive.\<close>

lemma held_alive:
  assumes ok: "owner_ok \<sigma>" "sys_ok \<sigma>" and t: "t < n_threads \<sigma>" "g \<in> set (stack \<sigma> t)"
    and h: "holds (mem \<sigma>) g n" "n < n_nodes (mem \<sigma>)"
  shows "0 < strong (mem \<sigma>) n"
proof -
  consider "n \<in># frame_refs g" | x where "handle_at (mem \<sigma>) x = Some n" | g' where "pins (mem \<sigma>) n g'"
    using h(1) by (auto simp: holds_def)
  then have "0 < arc_owned (mem \<sigma>) n \<or> 0 < addup (n_threads \<sigma>) (\<lambda>t. count (stack_refs (stack \<sigma> t)) n)"
  proof cases
    case 1
    then have "0 < count (stack_refs (stack \<sigma> t)) n" using stack_refs_member [OF t(2)] by simp
    then have "0 < addup (n_threads \<sigma>) (\<lambda>t. count (stack_refs (stack \<sigma> t)) n)"
      using member_le_addup [OF t(1), of "\<lambda>t. count (stack_refs (stack \<sigma> t)) n"] by (rule less_le_trans)
    then show ?thesis ..
  next
    case 2
    then have "x < n_handles (mem \<sigma>)" using owner_okD(1) [OF ok(1)] by (simp add: tables_bounded_def)
    with 2 show ?thesis by (auto simp: arc_owned_def tally_pos_iff)
  next
    case 3
    then have "g' < n_guards (mem \<sigma>)"
      using ok(2) heap_okD(5) [of "mem \<sigma>" g'] by (auto simp: pins_def sys_ok_def)
    with 3 show ?thesis by (auto simp: arc_owned_def tally_pos_iff)
  qed
  then show ?thesis using owner_okD(2) [OF ok(1) h(2)] by linarith
qed

lemma frame_refs_valid: "frame_ok h f \<Longrightarrow> n \<in># frame_refs f \<Longrightarrow> n < n_nodes h"
  by (cases f rule: frame_refs.cases) (auto simp: valid_node_def)

lemma needs_valid: "frame_ok h f \<Longrightarrow> needs f = Some n \<Longrightarrow> n < n_nodes h"
proof (cases f rule: needs.cases)
  fix s loc to
  assume "frame_ok h f" "needs f = Some n" "f = Grd (Provenance s loc to)"
  then show ?thesis by (cases to) (auto simp: valid_shard_def)
next
  fix s loc info to
  assume "frame_ok h f" "needs f = Some n" "f = Grd (ProvenanceRegister s loc info to)"
  then show ?thesis by (cases to) (auto simp: valid_shard_def)
qed (auto simp: valid_node_def valid_shard_def pin_ok_def)

lemma stack_refs_valid: "\<forall>f \<in> set fs. frame_ok h f \<Longrightarrow> n_nodes h \<le> n \<Longrightarrow> count (stack_refs fs) n = 0"
  by (induction fs) (use frame_refs_valid in \<open>fastforce simp: count_eq_zero_iff\<close>)+

lemma frames_count_change:
  assumes "t < n_threads \<sigma>"
  shows "frames_count (\<sigma>\<lparr>mem := h, stack := (stack \<sigma>)(t := fs)\<rparr>) f + count_list (stack \<sigma> t) f =
    frames_count \<sigma> f + count_list fs f"
  using addup_change [OF assms, of "\<lambda>u. count_list (((stack \<sigma>)(t := fs)) u) f" "\<lambda>u. count_list (stack \<sigma> u) f"]
  by (simp add: frames_count_def)

text \<open>The strong counts when one thread replaces the references \<open>A\<close> by \<open>B\<close>.\<close>

lemma arcs_replace:
  assumes ok: "sys_ok \<sigma>" "owner_ok \<sigma>" and t: "t < n_threads \<sigma>"
    and stack: "stack_refs (stack \<sigma> t) = A + R" "stack_refs fs = B + R"
    and b: "arc_balanced (mem \<sigma>) h A B"
    and n: "n < n_nodes h"
  shows "strong h n = arc_owned h n + addup (n_threads \<sigma>) (\<lambda>u. count (stack_refs (((stack \<sigma>)(t := fs)) u)) n)"
proof -
  let ?new = "\<lambda>u. count (stack_refs (((stack \<sigma>)(t := fs)) u)) n" and ?old = "\<lambda>u. count (stack_refs (stack \<sigma> u)) n"
  have change: "addup (n_threads \<sigma>) ?new + count (A + R) n = addup (n_threads \<sigma>) ?old + count (B + R) n"
    using addup_change [OF t, of ?new ?old] stack by simp
  show ?thesis
  proof (cases "n < n_nodes (mem \<sigma>)")
    case True
    then have "strong h n + arc_owned (mem \<sigma>) n + count A n = strong (mem \<sigma>) n + arc_owned h n + count B n"
      using b by (simp add: arc_balanced_def)
    then show ?thesis using change owner_okD(2) [OF ok(2) True] by simp
  next
    case False
    have "\<forall>u<n_threads \<sigma>. ?old u = 0"
      using ok(1) False by (auto simp: sys_ok_def stacks_ok_def intro!: stack_refs_valid)
    then have "addup (n_threads \<sigma>) ?old = 0" "count (A + R) n = 0"
      unfolding stack(1) [symmetric] using t by (simp_all only: addup_eq_0_iff)
    moreover have "strong h n = arc_owned h n + count B n"
      using b n False by (simp add: arc_balanced_def)
    ultimately show ?thesis using change by simp
  qed
qed

text \<open>A step keeps what its thread relies on, and borrows nothing.\<close>

lemma run_owned:
  assumes ok: "sys_ok \<sigma>" "owner_ok \<sigma>" and t: "t < n_threads \<sigma>" "stack \<sigma> t = f # fs"
    and step: "exec t b f (mem \<sigma>) = Next h gs"
  shows "owned_step (mem \<sigma>) f h gs fs"
proof -
  have heap: "heap_ok (mem \<sigma>)" and f: "frame_ok (mem \<sigma>) f"
    using ok(1) t by (fastforce simp: sys_ok_def stacks_ok_def)+
  have below: "backed_stack (mem \<sigma>) (f # fs)" using owner_okD(3) [OF ok(2) t(1)] t(2) by simp
  have needs: "0 < strong (mem \<sigma>) n" if n: "needs f = Some n" for n
  proof -
    obtain g where g: "g \<in> set fs" "holds (mem \<sigma>) g n" using below n by (auto simp: backed_def)
    then have "g \<in> set (stack \<sigma> t)" using t(2) by simp
    then show ?thesis by (rule held_alive [OF ok(2,1) t(1) _ g(2) needs_valid [OF f n]])
  qed
  have refs: "0 < strong (mem \<sigma>) n" if "n \<in># frame_refs f" for n
    using held_alive [OF ok(2,1) t(1), of f n] t(2) frame_refs_valid [OF f that] that by (simp add: holds_def)
  have claim: "0 < guard_claims \<sigma> g" if "f = Grd (GuardDrop g)" for g
    using frames_count_pos [of \<sigma> f] t that by (auto simp: guard_claims_def)
  have free: "Borrow (OGuard g) \<notin> set fs" if "f = Grd (GuardDrop g)" for g
    using owner_okD(7) [OF ok(2) claim [OF that]] t by (auto simp: borrowed_def)
  show ?thesis using needs refs free by (intro exec_owned [OF step heap f owner_okD(1) [OF ok(2)] below]) auto
qed

lemma run_borrows_nothing:
  assumes "exec t b f h = Next h' gs"
  shows "Borrow x \<notin> set gs"
proof (cases "builds f")
  case True
  then show ?thesis
    using assms by (cases f rule: builds.cases) (auto simp: guard_build_def alloc_guard_def Let_def split: option.splits)
next
  case False
  then show ?thesis using exec_plain_new [OF assms] by (auto simp: plain_new_def)
qed

lemma borrowed_run:
  assumes t: "t < n_threads \<sigma>" "stack \<sigma> t = f # fs" and step: "exec t b f (mem \<sigma>) = Next h gs"
  shows "frames_count (\<sigma>\<lparr>mem := h, stack := (stack \<sigma>)(t := gs @ fs)\<rparr>) (Borrow x) \<le> frames_count \<sigma> (Borrow x)"
    "borrowed x (\<sigma>\<lparr>mem := h, stack := (stack \<sigma>)(t := gs @ fs)\<rparr>) \<Longrightarrow> borrowed x \<sigma>"
proof -
  show count: "frames_count (\<sigma>\<lparr>mem := h, stack := (stack \<sigma>)(t := gs @ fs)\<rparr>) (Borrow x) \<le> frames_count \<sigma> (Borrow x)"
    using frames_count_change [OF t(1), of "gs @ fs" h "Borrow x"] run_borrows_nothing [OF step, of x] t(2)
    by (auto simp: count_list_0_iff split: if_splits)
  then show "borrowed x (\<sigma>\<lparr>mem := h, stack := (stack \<sigma>)(t := gs @ fs)\<rparr>) \<Longrightarrow> borrowed x \<sigma>"
    using le_less_trans by (fastforce simp: borrowed_count)
qed

lemma dropped_unborrowed:
  assumes ok: "owner_ok \<sigma>" and t: "t < n_threads \<sigma>" "stack \<sigma> t = Grd (GuardDrop g) # fs"
  shows "\<not> borrowed (OGuard g) \<sigma>"
  using owner_okD(7) [OF ok, of g] frames_count_pos [of \<sigma> "Grd (GuardDrop g)"] t by (auto simp: guard_claims_def)

lemma claims_run:
  assumes ok: "sys_ok \<sigma>" "owner_ok \<sigma>" and t: "t < n_threads \<sigma>" "stack \<sigma> t = f # fs"
    and step: "exec t b f (mem \<sigma>) = Next h gs"
  shows "guard_claims (\<sigma>\<lparr>mem := h, stack := (stack \<sigma>)(t := gs @ fs)\<rparr>) g \<le> 1 \<and>
    (0 < guard_claims (\<sigma>\<lparr>mem := h, stack := (stack \<sigma>)(t := gs @ fs)\<rparr>) g \<longrightarrow>
       guard_at h g \<noteq> None \<and> \<not> borrowed (OGuard g) (\<sigma>\<lparr>mem := h, stack := (stack \<sigma>)(t := gs @ fs)\<rparr>))"
proof -
  let ?\<sigma> = "\<sigma>\<lparr>mem := h, stack := (stack \<sigma>)(t := gs @ fs)\<rparr>"
  have heap: "heap_ok (mem \<sigma>)" using ok(1) by (simp add: sys_ok_def)
  note claims = exec_claims [OF step heap] and borrowed = borrowed_run(2) [OF t step]
  have k: "kept (mem \<sigma>) h f" using run_owned [OF ok t step] by (simp add: owned_step_def)
  have change: "guard_claims ?\<sigma> g + of_bool (f = Grd (GuardDrop g)) \<le>
      guard_claims \<sigma> g + of_bool (builds f \<and> g = n_guards (mem \<sigma>))"
    using claims frames_count_change [OF t(1), of "gs @ fs" h "Grd (GuardDrop g)"] t(2)
    by (auto simp: claims_move_def guard_claims_def split: if_splits dest!: spec [of _ g])
  show ?thesis
  proof (cases "builds f \<and> g = n_guards (mem \<sigma>)")
    case True
    then have none: "guard_at (mem \<sigma>) g = None"
      using heap_okD(5) [OF heap, of g] by (cases "guard_at (mem \<sigma>) g") auto
    then have "guard_claims \<sigma> g = 0" "\<not> borrowed (OGuard g) \<sigma>"
      using owner_okD(7) [OF ok(2), of g] owner_okD(4) [OF ok(2), of "OGuard g"] by auto
    then show ?thesis using change True claims borrowed by (auto simp: claims_move_def)
  next
    case False
    then have "of_bool (builds f \<and> g = n_guards (mem \<sigma>)) = (0 :: nat)" by (simp only: of_bool_eq_0_iff not_False_eq_True)
    then have le: "guard_claims ?\<sigma> g + of_bool (f = Grd (GuardDrop g)) \<le> guard_claims \<sigma> g"
      using change by linarith
    moreover have one: "guard_claims \<sigma> g \<le> 1" by (rule owner_okD(6) [OF ok(2)])
    moreover have "guard_at h g \<noteq> None \<and> \<not> borrowed (OGuard g) ?\<sigma>" if "0 < guard_claims ?\<sigma> g"
    proof -
      have "f \<noteq> Grd (GuardDrop g)" "0 < guard_claims \<sigma> g" using le one that by (auto split: if_splits)
      then show ?thesis using owner_okD(7) [OF ok(2), of g] k borrowed by (auto simp: kept_def)
    qed
    ultimately show ?thesis by linarith
  qed
qed

lemma owner_ok_run:
  assumes ok: "sys_ok \<sigma>" "owner_ok \<sigma>" and t: "t < n_threads \<sigma>" "stack \<sigma> t = f # fs"
    and step: "exec t b f (mem \<sigma>) = Next h gs"
  shows "owner_ok (\<sigma>\<lparr>mem := h, stack := (stack \<sigma>)(t := gs @ fs)\<rparr>)"
proof -
  let ?\<sigma> = "\<sigma>\<lparr>mem := h, stack := (stack \<sigma>)(t := gs @ fs)\<rparr>"
  note owned = run_owned [OF ok t step] and borrowed = borrowed_run(2) [OF t step]
  have k: "kept (mem \<sigma>) h f" using owned by (simp add: owned_step_def)
  have drop: "\<not> borrowed (OGuard g) \<sigma>" if "f = Grd (GuardDrop g)" for g
    using dropped_unborrowed [OF ok(2) t(1)] t(2) that by blast
  have present: "present h x" if x: "borrowed x \<sigma>" for x
  proof -
    have "f \<noteq> Grd (GuardDrop g)" if "x = OGuard g" for g using drop x that by blast
    then show ?thesis using owner_okD(4) [OF ok(2) x] k by (cases x) (auto simp: kept_def)
  qed
  have others: "backed_stack h (stack \<sigma> u)" if u: "u < n_threads \<sigma>" for u
    by (rule backed_stack_kept [OF owner_okD(3) [OF ok(2) u] k]) (use drop u in \<open>auto simp: borrowed_def\<close>)
  have "strong h n = arc_owned h n + addup (n_threads \<sigma>) (\<lambda>u. count (stack_refs (((stack \<sigma>)(t := gs @ fs)) u)) n)"
    if n: "n < n_nodes h" for n
  proof -
    have "arc_balanced (mem \<sigma>) h (frame_refs f) (stack_refs gs)" using owned by (simp add: owned_step_def)
    then show ?thesis
      using t(2) by (intro arcs_replace [OF ok t(1) _ _ _ n, of "frame_refs f" "stack_refs fs" "gs @ fs" "stack_refs gs"]) simp_all
  qed
  moreover have "frames_count ?\<sigma> (Borrow (OInterrupt i)) \<le> 1" for i
    using borrowed_run(1) [OF t step] owner_okD(5) [OF ok(2)] order_trans by blast
  ultimately show ?thesis
    using owned others present borrowed claims_run [OF ok t step] by (auto simp: owner_ok_def owned_step_def)
qed

lemma backed_borrows:
  assumes "backed h fs f"
    and handles: "\<And>x n. Borrow (OHandle x) \<in> set fs \<Longrightarrow> handle_at h x = Some n \<Longrightarrow> handle_at h' x = Some n"
    and guards: "\<And>g gd. guard_at h g = Some gd \<Longrightarrow> guard_at h' g = Some gd"
  shows "backed h' fs f"
  unfolding backed_def
proof (intro conjI allI impI)
  fix n
  assume "needs f = Some n"
  then obtain g where g: "g \<in> set fs" "holds h g n" using assms(1) by (auto simp: backed_def)
  from g(2) have "holds h' g n"
    unfolding holds_def pins_def using handles guards g(1) by blast
  with g(1) show "\<exists>g \<in> set fs. holds h' g n" by blast
next
  fix i
  assume "uses f = Some i"
  then show "Borrow (OInterrupt i) \<in> set fs" using assms(1) by (simp add: backed_def)
next
  fix s pin
  assume "clones f = Some (s, pin)"
  then show "\<exists>g gd. Borrow (OGuard g) \<in> set fs \<and> guard_at h' g = Some gd \<and> gd_shard gd = s \<and> gd_pin gd = pin"
    using assms(1) guards unfolding backed_def by blast
qed

lemma backed_stack_borrows:
  assumes "backed_stack h fs"
    and "\<And>x n. Borrow (OHandle x) \<in> set fs \<Longrightarrow> handle_at h x = Some n \<Longrightarrow> handle_at h' x = Some n"
    and "\<And>g gd. guard_at h g = Some gd \<Longrightarrow> guard_at h' g = Some gd"
  shows "backed_stack h' fs"
  using assms(1,2)
proof (induction fs)
  case (Cons f fs)
  have "backed h' fs f"
    by (rule backed_borrows [of h fs f h']) (use Cons.prems assms(3) in auto)
  with Cons show ?case by auto
qed simp

lemma frames_call:
  assumes "t < n_threads \<sigma>" "stack \<sigma> t = []"
  shows "frames_count (\<sigma>\<lparr>mem := h, stack := (stack \<sigma>)(t := fs)\<rparr>) f = frames_count \<sigma> f + count_list fs f"
    "borrowed x (\<sigma>\<lparr>mem := h, stack := (stack \<sigma>)(t := fs)\<rparr>) \<longleftrightarrow> borrowed x \<sigma> \<or> Borrow x \<in> set fs"
proof -
  show change: "frames_count (\<sigma>\<lparr>mem := h, stack := (stack \<sigma>)(t := fs)\<rparr>) f = frames_count \<sigma> f + count_list fs f" for f
    using frames_count_change [OF assms(1), of fs h f] assms(2) by simp
  show "borrowed x (\<sigma>\<lparr>mem := h, stack := (stack \<sigma>)(t := fs)\<rparr>) \<longleftrightarrow> borrowed x \<sigma> \<or> Borrow x \<in> set fs"
    using count_list_0_iff [of fs "Borrow x"] by (auto simp: borrowed_count change)
qed

text \<open>A call that uses a guard finds it unclaimed.\<close>

lemma used_guard_unclaimed:
  assumes "may_call c \<sigma>" "begin_call c (mem \<sigma>) = Some (h, fs)" "uses_guard c = Some g"
  shows "guard_claims \<sigma> g = 0 \<and> guard_at (mem \<sigma>) g \<noteq> None"
proof -
  have "\<not> dropping g \<sigma>" using assms(1,3) by (simp add: may_call_def)
  moreover have free: "free_guard g (mem \<sigma>)" using assms(2,3) by (cases c) (auto split: option.splits if_splits)
  then have "interrupt_claims (mem \<sigma>) g = 0"
    by (auto simp: interrupt_claims_def addup_eq_0_iff free_guard_def guard_in_def Option.bind_eq_Some_conv split: option.splits)
  ultimately show ?thesis using free by (simp add: guard_claims_def dropping_count free_guard_def)
qed

lemma claims_call:
  assumes ok: "owner_ok \<sigma>" and t: "t < n_threads \<sigma>" "stack \<sigma> t = []" and may: "may_call c \<sigma>"
    and call: "begin_call c (mem \<sigma>) = Some (h, fs)" and co: "call_owned (mem \<sigma>) c h fs"
  shows "guard_claims (\<sigma>\<lparr>mem := h, stack := (stack \<sigma>)(t := fs)\<rparr>) g \<le> 1 \<and>
    (0 < guard_claims (\<sigma>\<lparr>mem := h, stack := (stack \<sigma>)(t := fs)\<rparr>) g \<longrightarrow>
       guard_at h g \<noteq> None \<and> \<not> borrowed (OGuard g) (\<sigma>\<lparr>mem := h, stack := (stack \<sigma>)(t := fs)\<rparr>))"
proof -
  let ?\<sigma> = "\<sigma>\<lparr>mem := h, stack := (stack \<sigma>)(t := fs)\<rparr>"
  note change = frames_call(1) [OF t] and borrowed = frames_call(2) [OF t]
  have le: "guard_claims ?\<sigma> g \<le> guard_claims \<sigma> g + of_bool (c = CallGuardDrop g)"
    using co by (auto simp: call_owned_def guard_claims_def change dest!: spec [of _ g])
  have alive: "guard_at h g \<noteq> None" if "guard_at (mem \<sigma>) g \<noteq> None"
    using co that by (auto simp: call_owned_def call_kept_def)
  note unclaimed = used_guard_unclaimed [OF may call]
  show ?thesis
  proof (cases "c = CallGuardDrop g")
    case True
    have "Borrow (OGuard g) \<notin> set fs" using co True by (auto simp: call_owned_def)
    then have "\<not> borrowed (OGuard g) ?\<sigma>" using may True by (simp add: borrowed may_call_def)
    then show ?thesis using unclaimed [of g] alive le True by simp
  next
    case False
    then have le': "guard_claims ?\<sigma> g \<le> guard_claims \<sigma> g" using le by simp
    moreover have "guard_at h g \<noteq> None \<and> \<not> borrowed (OGuard g) ?\<sigma>" if "0 < guard_claims ?\<sigma> g"
    proof -
      have pos: "0 < guard_claims \<sigma> g" using le' that by linarith
      then have "c \<noteq> CallGuardClone g" using unclaimed by auto
      then have "Borrow (OGuard g) \<notin> set fs" using co by (auto simp: call_owned_def)
      then show ?thesis using owner_okD(7) [OF ok pos] alive by (simp add: borrowed)
    qed
    ultimately show ?thesis using owner_okD(6) [OF ok, of g] by linarith
  qed
qed

lemma owner_ok_call:
  assumes ok: "sys_ok \<sigma>" "owner_ok \<sigma>" and t: "t < n_threads \<sigma>" "stack \<sigma> t = []" and may: "may_call c \<sigma>"
    and call: "begin_call c (mem \<sigma>) = Some (h, fs)"
  shows "owner_ok (\<sigma>\<lparr>mem := h, stack := (stack \<sigma>)(t := fs)\<rparr>)"
proof -
  let ?\<sigma> = "\<sigma>\<lparr>mem := h, stack := (stack \<sigma>)(t := fs)\<rparr>"
  have heap: "heap_ok (mem \<sigma>)" using ok(1) by (simp add: sys_ok_def)
  have co: "call_owned (mem \<sigma>) c h fs" by (rule begin_call_owned [OF call heap owner_okD(1) [OF ok(2)]])
  note change = frames_call(1) [OF t] and borrowed = frames_call(2) [OF t]
  have excl: "exclusive c \<noteq> Some x" if "borrowed x \<sigma>" for x using may that by (auto simp: may_call_def)
  have kept: "call_kept (mem \<sigma>) h c" using co by (simp add: call_owned_def)
  have present: "present h x" if "borrowed x \<sigma>" for x
    using owner_okD(4) [OF ok(2) that] kept excl [OF that] by (cases x) (auto simp: call_kept_def)
  have "backed_stack h (stack \<sigma> u)" if u: "u < n_threads \<sigma>" for u
  proof (rule backed_stack_borrows [OF owner_okD(3) [OF ok(2) u]])
    fix x n
    assume x: "Borrow (OHandle x) \<in> set (stack \<sigma> u)" "handle_at (mem \<sigma>) x = Some n"
    then have "exclusive c \<noteq> Some (OHandle x)" using excl u by (auto simp: borrowed_def)
    then show "handle_at h x = Some n" using kept x(2) by (simp add: call_kept_def)
  next
    fix g gd
    assume "guard_at (mem \<sigma>) g = Some gd"
    then show "guard_at h g = Some gd" using kept by (simp add: call_kept_def)
  qed
  moreover have "strong h n = arc_owned h n + addup (n_threads \<sigma>) (\<lambda>u. count (stack_refs (((stack \<sigma>)(t := fs)) u)) n)"
    if n: "n < n_nodes h" for n
  proof -
    have "arc_balanced (mem \<sigma>) h {#} (stack_refs fs)" using co by (simp add: call_owned_def)
    then show ?thesis
      using t(2) by (intro arcs_replace [OF ok t(1) _ _ _ n, of "{#}" "{#}" fs "stack_refs fs"]) simp_all
  qed
  moreover have "frames_count ?\<sigma> (Borrow (OInterrupt i)) \<le> 1" for i
  proof -
    have "exclusive c = Some (OInterrupt i) \<longrightarrow> frames_count \<sigma> (Borrow (OInterrupt i)) = 0"
      using excl [of "OInterrupt i"] by (auto simp: borrowed_count)
    moreover have "count_list fs (Borrow (OInterrupt i)) \<le> of_bool (exclusive c = Some (OInterrupt i))"
      using co by (simp add: call_owned_def)
    ultimately show ?thesis
      using owner_okD(5) [OF ok(2), of i] by (cases "exclusive c = Some (OInterrupt i)") (simp_all add: change)
  qed
  moreover have "present h x" if "borrowed x ?\<sigma>" for x
    using that present co by (auto simp: borrowed call_owned_def)
  ultimately show ?thesis
    using co claims_call [OF ok(2) t may call co] by (auto simp: owner_ok_def call_owned_def)
qed

theorem step_owner_ok:
  assumes "step \<sigma> a \<sigma>'" "sys_ok \<sigma>" "owner_ok \<sigma>"
  shows "owner_ok \<sigma>'"
  using assms(1)
proof (cases rule: step.cases)
  case (call t c h fs)
  then show ?thesis using owner_ok_call [OF assms(2,3)] by blast
next
  case (run t f fs b h gs)
  then show ?thesis using owner_ok_run [OF assms(2,3)] by blast
next
  case (tick d)
  let ?h = "(mem \<sigma>)\<lparr>clock := clock (mem \<sigma>) + d\<rparr>"
  have "strong ?h = strong (mem \<sigma>)" "arc_owned ?h = arc_owned (mem \<sigma>)" "interrupt_claims ?h = interrupt_claims (mem \<sigma>)"
    by (simp_all add: strong_def arc_owned_def pins_def linked_def parent_of_def interrupt_claims_def guard_in_def fun_eq_iff)
  moreover have "backed_stack ?h fs = backed_stack (mem \<sigma>) fs" for fs
    by (induction fs) (auto simp: backed_def holds_def pins_def)
  moreover have "present ?h x = present (mem \<sigma>) x" for x by (cases x) auto
  ultimately show ?thesis
    using assms(3) unfolding tick(2) owner_ok_def
    by (simp add: tables_bounded_def frames_count_def guard_claims_def borrowed_def)
qed

lemma owner_ok_init: "owner_ok (sys_init threads par)"
  by (auto simp: owner_ok_def sys_init_def heap_init_def tables_bounded_def borrowed_def frames_count_def
      guard_claims_def interrupt_claims_def)

theorem reachable_owner_ok: "reachable \<sigma> \<Longrightarrow> owner_ok \<sigma>"
  by (induction rule: reachable.induct) (auto intro: owner_ok_init step_owner_ok reachable_sys_ok)

end
