(* ===== verification/Registration.thy ===== *)
theory Registration
  imports Exclusion
begin

text \<open>
  The registration of children with their parents. A child is entered into the slab of one of
  its parent's shards when it is made and taken out when its last strong reference goes; in
  between its key leads to it. At most one thread is in the middle of that for a given child.
  The theory also holds the interface \<open>system_invariant\<close>, by which a property of the states
  is shown to hold in every reachable one.
\<close>

section \<open>Invariants of the machine\<close>

locale system_invariant =
  fixes inv :: "sys \<Rightarrow> bool"
  assumes inv_init: "inv (sys_init threads par)"
    and inv_call: "reachable \<sigma> \<Longrightarrow> within_limits \<sigma> \<Longrightarrow> inv \<sigma> \<Longrightarrow> t < n_threads \<sigma> \<Longrightarrow> stack \<sigma> t = [] \<Longrightarrow>
      may_call c \<sigma> \<Longrightarrow> begin_call c (mem \<sigma>) = Some (h, fs) \<Longrightarrow>
      reachable (\<sigma>\<lparr>mem := h, stack := (stack \<sigma>)(t := fs)\<rparr>) \<Longrightarrow>
      inv (\<sigma>\<lparr>mem := h, stack := (stack \<sigma>)(t := fs)\<rparr>)"
    and inv_run: "reachable \<sigma> \<Longrightarrow> within_limits \<sigma> \<Longrightarrow> inv \<sigma> \<Longrightarrow> t < n_threads \<sigma> \<Longrightarrow> stack \<sigma> t = f # fs \<Longrightarrow>
      exec t b f (mem \<sigma>) = Next h gs \<Longrightarrow>
      reachable (\<sigma>\<lparr>mem := h, stack := (stack \<sigma>)(t := gs @ fs)\<rparr>) \<Longrightarrow>
      inv (\<sigma>\<lparr>mem := h, stack := (stack \<sigma>)(t := gs @ fs)\<rparr>)"
    and inv_tick: "inv \<sigma> \<Longrightarrow> inv (\<sigma>\<lparr>mem := (mem \<sigma>)\<lparr>clock := clock (mem \<sigma>) + d\<rparr>\<rparr>)"
begin

lemma always: "reachable \<sigma> \<Longrightarrow> inv \<sigma>"
proof (induction rule: reachable.induct)
  case (init threads par)
  show ?case by (rule inv_init)
next
  case (step \<sigma> a \<sigma>')
  note r = reachable.step [OF step.hyps]
  from step.hyps(3) show ?case
  proof (cases rule: step.cases)
    case (call t c h fs)
    then show ?thesis using inv_call [OF step.hyps(1,2) step.IH] r by blast
  next
    case (run t f fs b h gs)
    then show ?thesis using inv_run [OF step.hyps(1,2) step.IH] r by blast
  next
    case (tick d)
    then show ?thesis using inv_tick [OF step.IH] by simp
  qed
qed

end

text \<open>What every reachable state offers to a proof about its next step.\<close>

lemma reachable_heap_ok: "reachable \<sigma> \<Longrightarrow> heap_ok (mem \<sigma>)"
  using reachable_sys_ok by (simp add: sys_ok_def)

lemma reachable_frame_ok: "reachable \<sigma> \<Longrightarrow> t < n_threads \<sigma> \<Longrightarrow> f \<in> set (stack \<sigma> t) \<Longrightarrow> frame_ok (mem \<sigma>) f"
  using reachable_sys_ok by (fastforce simp: sys_ok_def stacks_ok_def)

lemma reachable_top_ok: "reachable \<sigma> \<Longrightarrow> t < n_threads \<sigma> \<Longrightarrow> stack \<sigma> t = f # fs \<Longrightarrow> frame_ok (mem \<sigma>) f"
  using reachable_frame_ok [of \<sigma> t f] by simp

lemma reachable_held:
  assumes "reachable \<sigma>" "t < n_threads \<sigma>" "f \<in> set (stack \<sigma> t)" "n \<in># frame_refs f"
  shows "0 < strong (mem \<sigma>) n"
  using held_alive [OF reachable_owner_ok reachable_sys_ok assms(2,3), of n]
    frame_refs_valid [OF reachable_frame_ok [OF assms(1-3)] assms(4)] assms(1,4) by (simp add: holds_def)

lemma reachable_needs:
  assumes "reachable \<sigma>" "t < n_threads \<sigma>" "stack \<sigma> t = f # fs" "needs f = Some n"
  shows "0 < strong (mem \<sigma>) n"
proof -
  obtain g where g: "g \<in> set fs" "holds (mem \<sigma>) g n"
    using owner_okD(3) [OF reachable_owner_ok [OF assms(1)] assms(2)] assms(3,4) by (auto simp: backed_def)
  then show ?thesis
    using held_alive [OF reachable_owner_ok [OF assms(1)] reachable_sys_ok [OF assms(1)] assms(2) _ g(2)]
      needs_valid [OF reachable_top_ok [OF assms(1-3)] assms(4)] assms(3) by simp
qed

section \<open>Strong counts do not come back from zero\<close>

lemma strong_thread [simp]: "strong (h\<lparr>woken := W\<rparr>) = strong h" "strong (h\<lparr>clock := C\<rparr>) = strong h"
  by (simp_all add: strong_def fun_eq_iff)

lemma strong_upd:
  "strong (upd_node n (in_strong_update g) h) m = (if m = n then g (strong h n) else strong h m)"
  "strong (upd_node n (in_swansong_count_update g') h) m = strong h m"
  "strong (upd_node n (in_parent_update g'') h) m = strong h m"
  "strong (upd_shard s f h) m = strong h m"
  "strong (alloc_handle n h) m = strong h m" "strong (alloc_completion n h) m = strong h m"
  "strong (alloc_interrupt it h) m = strong h m"
  by (simp_all add: strong_def alloc_handle_def alloc_completion_def alloc_interrupt_def)

lemma strong_alloc_node:
  "alloc_node link k rep h = (h', n) \<Longrightarrow> strong h' m = (if m = n_nodes h then 1 else strong h m)"
  by (auto simp: alloc_node_def strong_def Let_def inner_new_def)

definition same_strong_zero :: "heap \<Rightarrow> heap \<Rightarrow> frame \<Rightarrow> bool" where
  "same_strong_zero h h' f \<longleftrightarrow> (\<forall>n<n_nodes h. strong h' n = 0 \<longleftrightarrow>
     strong h n = 0 \<or> (f = Life (DropArc n) \<and> strong h n = 1))"

lemma zero_same: "strong h' = strong h \<Longrightarrow> f \<notin> range (\<lambda>n. Life (DropArc n)) \<Longrightarrow> same_strong_zero h h' f"
  by (auto simp: same_strong_zero_def)

lemma zero_clone:
  "0 < strong h m \<Longrightarrow> (\<And>n. strong h' n = (if n = m then Suc (strong h n) else strong h n)) \<Longrightarrow>
   f \<notin> range (\<lambda>n. Life (DropArc n)) \<Longrightarrow> same_strong_zero h h' f"
  by (auto simp: same_strong_zero_def)

lemma same_owners_zero:
  "same_owners h h' \<Longrightarrow> f \<notin> range (\<lambda>n. Life (DropArc n)) \<Longrightarrow> same_strong_zero h h' f"
  by (rule zero_same) (simp_all add: same_owners_def)

lemma stop_zero_kept:
  assumes step: "stop_step t c h = Next h' gs"
  shows "same_strong_zero h h' (Stop c)"
proof (cases c)
  case (ShardWake s w ws)
  then show ?thesis using step by (cases ws) (auto intro!: zero_same)
next
  case (StopUpgrade n i cs live)
  then show ?thesis using step
    by (cases cs) (auto simp: weak_upgrade_def strong_arc_clone strong_def [symmetric] lock_release_def strong_upd fun_eq_iff
        same_strong_zero_def simp del: upd_shard_def split: if_splits)
qed (use step in \<open>auto simp: shard_stop_def shard_drain_def node_stop_def stop_notify_def stop_zero_def stop_children_def
      notify_zero_def Let_def simp del: upd_shard_def upd_node_def split: if_splits intro!: same_owners_zero\<close>)

lemma life_zero_kept:
  assumes step: "life_step t c h = Next h' gs" and alive: "\<And>n. needs (Life c) = Some n \<Longrightarrow> 0 < strong h n"
    "\<And>n. n \<in># frame_refs (Life c) \<Longrightarrow> 0 < strong h n"
  shows "same_strong_zero h h' (Life c)"
proof (cases c)
  case (DropArc n)
  then have "0 < strong h n" using alive(2) by simp
  then show ?thesis
    using step DropArc by (auto simp: drop_arc_def Let_def same_strong_zero_def strong_upd strong_def [symmetric]
        simp del: upd_node_def split: if_splits)
next
  case (ChildNew n)
  obtain h1 i where h1: "shard_index t n h = (h1, i)" by fastforce
  then have s: "same_owners h h1" by (rule same_owners_index)
  obtain h2 m where h2: "alloc_node (Some \<lparr>p_node = n, p_shard = i, p_key = usize_max\<rparr>) 1 (keeps_guard_report n (arc_clone n h1)) (arc_clone n h1) = (h2, m)"
    by fastforce
  then have "h' = h2" using step ChildNew h1 by (simp add: child_new_def Let_def)
  moreover have "0 < strong h n" using alive(1) ChildNew by simp
  moreover have "n_nodes (arc_clone n h1) = n_nodes h" "strong h1 = strong h" using s by (simp_all add: same_owners_def arc_clone_def)
  ultimately show ?thesis
    using ChildNew by (auto simp: same_strong_zero_def strong_alloc_node [OF h2] strong_arc_clone)
next
  case (ChildReturn n)
  then show ?thesis using step by (auto simp: child_return_def strong_upd fun_eq_iff intro!: zero_same)
qed (use step in \<open>auto simp: deregister_def child_register_def child_store_key_def child_check_def Let_def
      simp del: upd_shard_def upd_node_def split: if_splits option.splits prod.splits intro!: same_owners_zero\<close>)

lemma strong_same_tables:
  "strong (h\<lparr>guard_at := G\<rparr>) = strong h" "strong (h\<lparr>guard_at := G, n_guards := N\<rparr>) = strong h"
  "strong (h\<lparr>interrupt_at := I\<rparr>) = strong h" "strong (h\<lparr>info_strong := S\<rparr>) = strong h"
  by (simp_all add: strong_def fun_eq_iff)

lemma guard_zero_kept:
  assumes step: "guard_step t sp c h = Next h' gs" and alive: "\<And>n. needs (Grd c) = Some n \<Longrightarrow> 0 < strong h n"
  shows "same_strong_zero h h' (Grd c)"
proof (cases c)
  case (GuardBuild s pin loc info dst)
  have "strong h' = strong (case pin of None \<Rightarrow> h | Some n \<Rightarrow> arc_clone n h)"
    using step GuardBuild by (auto simp: guard_build_def alloc_guard_def Let_def strong_same_tables split: option.splits)
  then show ?thesis
    using alive GuardBuild by (cases pin) (auto simp: strong_arc_clone same_strong_zero_def)
next
  case (GuardUpgrade s loc i)
  then show ?thesis using step
    by (auto simp: guard_upgrade_def weak_upgrade_def strong_arc_clone strong_def [symmetric] same_strong_zero_def split: if_splits)
next
  case (GuardFlushWeak s)
  then show ?thesis using step
    by (auto simp: guard_flush_weak_def weak_upgrade_def strong_arc_clone strong_def [symmetric] same_strong_zero_def split: if_splits)
next
  case (GuardAtLocation n loc dst)
  then show ?thesis using step same_owners_index
    by (auto simp: guard_at_location_def inner_shard_def split: prod.splits intro!: same_owners_zero)
qed (use step in \<open>auto simp: provenance_def provenance_register_def guard_for_shard_def arrive_if_arrived_def
      guard_clone_arrive_def guard_drop_def guard_depart_def drop_info_def atomic_defs Let_def strong_same_tables
      alloc_info_def shard_depart_def
      simp del: upd_shard_def split: if_splits option.splits prod.splits intro!: same_owners_zero zero_same [OF strong_same_tables(1)] zero_same [OF strong_same_tables(4)]\<close>)

lemma swan_zero_kept:
  assumes step: "swan_step t c h = Next h' gs" and alive: "\<And>n. needs (Swan c) = Some n \<Longrightarrow> 0 < strong h n"
  shows "same_strong_zero h h' (Swan c)"
proof (cases c)
  case (InterruptNew n)
  obtain h1 i where h1: "shard_index t n h = (h1, i)" by fastforce
  then have "strong h1 = strong h" using same_owners_index by (simp add: same_owners_def)
  then show ?thesis using step h1 InterruptNew
    by (auto simp: interrupt_new_def inner_shard_def strong_upd fun_eq_iff intro!: zero_same)
qed (use step alive in \<open>auto simp: swansong_clone_def swansong_clone_arc_def handle_drop_def swansong_drop_def
      completion_new_def strong_upd strong_arc_clone same_strong_zero_def simp del: upd_node_def split: if_splits\<close>)

lemma exec_strong_zero:
  assumes r: "reachable \<sigma>" "t < n_threads \<sigma>" "stack \<sigma> t = f # fs" and step: "exec t b f (mem \<sigma>) = Next h gs"
  shows "same_strong_zero (mem \<sigma>) h f"
proof -
  note needs = reachable_needs [OF r]
  have refs: "n \<in># frame_refs f \<Longrightarrow> 0 < strong (mem \<sigma>) n" for n
    using reachable_held [OF r(1,2), of f n] r(3) by simp
  show ?thesis
  proof (cases f)
    case (Count c)
    then show ?thesis using step same_owners_count by (auto intro!: same_owners_zero)
  next
    case (Intr c)
    then show ?thesis using step intr_same_owners by (auto intro!: same_owners_zero)
  next
    case (Borrow x)
    then show ?thesis using step by (auto intro!: zero_same)
  qed (use step needs refs in \<open>auto intro!: stop_zero_kept life_zero_kept guard_zero_kept swan_zero_kept\<close>)
qed

section \<open>What registers a child\<close>

definition same_links :: "heap \<Rightarrow> heap \<Rightarrow> bool" where
  "same_links h h' \<longleftrightarrow> n_nodes h' = n_nodes h \<and> (\<forall>n. in_parent (node_at h' n) = in_parent (node_at h n)) \<and>
     (\<forall>s. sh_children (shard_at h' s) = sh_children (shard_at h s))"

lemma same_links_refl [simp]: "same_links h h"
  by (simp add: same_links_def)

lemma same_links_trans: "same_links h h' \<Longrightarrow> same_links h' h'' \<Longrightarrow> same_links h h''"
  by (simp add: same_links_def)

lemma same_links_upd [simp]:
  "same_links h (set_shard_word s w h)" "same_links h (set_node_word n w h)"
  "same_links h (upd_shard s (sh_waiters_update fw) h)" "same_links h (upd_shard s (sh_guards_update fg) h)"
  "same_links h (upd_node n (in_swansong_count_update g) h)" "same_links h (upd_node n (in_strong_update g) h)"
  "same_links h (upd_node n (in_zero_notified_update g) h)"
  "same_links h (upd_node n (in_stop_notified_update g) h)"
  "same_links h (arc_clone n h)"
  "same_links h (lock_acquire t s h)" "same_links h (lock_release s h)"
  "same_links h (lock_release s (upd_shard s (sh_waiters_update fw) h))"
  "same_links h (alloc_handle n h)" "same_links h (alloc_completion n h)" "same_links h (alloc_interrupt it h)"
  "same_links h (h\<lparr>info_strong := I\<rparr>)" "same_links h (h\<lparr>woken := W\<rparr>)" "same_links h (h\<lparr>clock := C\<rparr>)"
  "same_links h (h\<lparr>info_at := A, info_strong := I, n_infos := N\<rparr>)"
  "same_links h (h\<lparr>guard_at := G\<rparr>)" "same_links h (h\<lparr>interrupt_at := IA\<rparr>)"
  "same_links h (h\<lparr>handle_at := HA\<rparr>)" "same_links h (h\<lparr>completion_at := CA\<rparr>)"
  "same_links h (h\<lparr>index_of := IX, next_index := NX\<rparr>)"
  "same_links h (h\<lparr>guard_at := G, n_guards := M\<rparr>)"
  "same_links h (alloc_handle n (arc_clone m h))" "same_links h (alloc_completion n (arc_clone m h))"
  by (simp_all add: same_links_def set_shard_word_def set_node_word_def lock_acquire_def
      lock_release_def arc_clone_def alloc_handle_def alloc_completion_def alloc_interrupt_def)

lemma same_links_index: "shard_index t n h = (h', i) \<Longrightarrow> same_links h h'"
  by (auto simp: shard_index_def thread_index_def Let_def split: prod.splits if_splits)

lemma same_links_inner: "inner_shard t n h = (h', s) \<Longrightarrow> same_links h h'"
  using same_links_index by (auto simp: inner_shard_def split: prod.splits)

fun registers :: "frame \<Rightarrow> bool" where
  "registers (Life (ChildNew n)) = True"
| "registers (Life (ChildRegister c)) = True"
| "registers (Life (ChildStoreKey c k)) = True"
| "registers (Life (Deregister c)) = True"
| "registers _ = False"

lemma count_links: "count_step t b c h = Next h' gs \<Longrightarrow> same_links h h'"
proof (induction t b c h rule: count_step.induct)
  case (5 t sp n st h)
  then show ?case
    by (auto simp: node_arrive_loop_def shard_ref_def atomic_defs same_links_index
        split: option.splits if_splits prod.splits)
qed (auto simp: step_defs shard_ref_def notify_zero_def atomic_defs Let_def
    simp del: upd_node_def upd_shard_def split: option.splits if_splits)

lemma stop_links: "stop_step t c h = Next h' gs \<Longrightarrow> same_links h h'"
proof (induction t c h rule: stop_step.induct)
  case (4 t s w ws h)
  then show ?case by (cases ws) auto
next
  case (7 t n i cs live h)
  then show ?case by (cases cs) (auto simp: weak_upgrade_def split: if_splits)
qed (auto simp: step_defs notify_zero_def Let_def simp del: upd_node_def upd_shard_def split: if_splits)

lemma life_links: "life_step t c h = Next h' gs \<Longrightarrow> \<not> registers (Life c) \<Longrightarrow> same_links h h'"
  by (cases c) (auto simp: drop_arc_def child_check_def child_return_def Let_def
      simp del: upd_node_def upd_shard_def split: if_splits option.splits)

lemma guard_links: "guard_step t b c h = Next h' gs \<Longrightarrow> same_links h h'"
proof (cases c)
  case (GuardBuild s pin loc info dst)
  let ?h = "case pin of None \<Rightarrow> h | Some n \<Rightarrow> arc_clone n h"
  have "same_links h ?h" by (simp split: option.splits)
  moreover assume "guard_step t b c h = Next h' gs"
  then have "\<exists>G N I. h' = ?h\<lparr>guard_at := G, n_guards := N\<rparr> \<or> h' = ?h\<lparr>guard_at := G, n_guards := N\<rparr>\<lparr>interrupt_at := I\<rparr>"
    using GuardBuild by (auto simp: guard_build_def alloc_guard_def Let_def split: option.splits)
  then have "same_links ?h h'" by (auto intro: same_links_trans [OF same_links_upd(25) same_links_upd(21)])
  ultimately show ?thesis by (rule same_links_trans)
qed (auto simp: guard_at_location_def provenance_def provenance_register_def guard_for_shard_def arrive_if_arrived_def
      guard_upgrade_def weak_upgrade_def guard_flush_weak_def alloc_info_def
      guard_clone_arrive_def guard_drop_def guard_depart_def drop_info_def atomic_defs Let_def shard_depart_def
      simp del: upd_shard_def split: if_splits option.splits prod.splits dest: same_links_inner)

lemma swan_links: "swan_step t c h = Next h' gs \<Longrightarrow> same_links h h'"
  by (cases c) (auto simp: swansong_clone_def swansong_clone_arc_def handle_drop_def swansong_drop_def
      completion_new_def interrupt_new_def simp del: upd_node_def split: if_splits prod.splits
      intro: same_links_trans [OF same_links_inner])

lemma intr_links: "intr_step t b c h = Next h' gs \<Longrightarrow> same_links h h'"
  by (cases "(t, b, c, h)" rule: intr_step.cases)
    (auto simp: poll_interrupt_def poll_wrapped_def poll_stopped_def poll_recheck_def poll_lock_def listener_drop_def
      poll_locked_def poll_register_def poll_returns_def on_interrupt_def Let_def set_interrupt_def
      simp del: upd_shard_def split: option.splits if_splits
      intro: same_links_trans [OF same_links_upd(11) same_links_upd(21)] same_links_trans [OF same_links_upd(12) same_links_upd(21)])

lemma links_kept:
  assumes "exec t b f h = Next h' gs" "\<not> registers f"
  shows "same_links h h'"
  using assms by (cases f) (auto dest: count_links stop_links life_links guard_links swan_links intr_links)

section \<open>Who is registering or deregistering a child\<close>

fun duty :: "frame \<Rightarrow> nid option" where
  "duty (Life (ChildRegister c)) = Some c"
| "duty (Life (ChildStoreKey c k)) = Some c"
| "duty (Life (Deregister c)) = Some c"
| "duty _ = None"

definition duties :: "frame list \<Rightarrow> nid \<Rightarrow> frame multiset" where
  "duties fs c = filter_mset (\<lambda>f. duty f = Some c) (mset fs)"

definition tasks :: "sys \<Rightarrow> nid \<Rightarrow> frame multiset" where
  "tasks \<sigma> c = (\<Sum>t\<in>{..<n_threads \<sigma>}. duties (stack \<sigma> t) c)"

lemma duties_simps [simp]:
  "duties [] c = {#}" "duties (f # fs) c = (if duty f = Some c then {#f#} else {#}) + duties fs c"
  "duties (fs @ gs) c = duties fs c + duties gs c"
  by (simp_all add: duties_def)

lemma duties_none: "\<forall>g \<in> set gs. duty g = None \<Longrightarrow> duties gs c = {#}"
  by (induction gs) auto

lemma tasks_change:
  assumes "t < n_threads \<sigma>"
  shows "tasks (\<sigma>\<lparr>mem := h, stack := (stack \<sigma>)(t := fs)\<rparr>) c + duties (stack \<sigma> t) c = tasks \<sigma> c + duties fs c"
proof -
  have t: "t \<in> {..<n_threads \<sigma>}" using assms by simp
  have "(\<Sum>u\<in>{..<n_threads \<sigma>} - {t}. duties (((stack \<sigma>)(t := fs)) u) c) = (\<Sum>u\<in>{..<n_threads \<sigma>} - {t}. duties (stack \<sigma> u) c)"
    by (rule sum.cong) auto
  then show ?thesis
    using sum.remove [OF _ t, of "\<lambda>u. duties (((stack \<sigma>)(t := fs)) u) c"] sum.remove [OF _ t, of "\<lambda>u. duties (stack \<sigma> u) c"]
    by (simp add: tasks_def)
qed

lemma in_tasks: "f \<in># tasks \<sigma> c \<longleftrightarrow> duty f = Some c \<and> pending \<sigma> f"
  by (auto simp: tasks_def pending_def duties_def set_mset_sum)

text \<open>The frames a step starts that register or deregister a child.\<close>

fun starts_duty :: "frame \<Rightarrow> bool" where
  "starts_duty (Life (ChildNew n)) = True"
| "starts_duty (Life (ChildRegister c)) = True"
| "starts_duty (Life (DropArc n)) = True"
| "starts_duty _ = False"

lemma stop_shards_duties [simp]: "duties (stop_shards n h) c = {#}"
  by (rule duties_none) (auto simp: stop_shards_def)

lemma count_no_duty: "count_step t b c h = Next h' gs \<Longrightarrow> duties gs m = {#}"
  using count_frames by (intro duties_none) fastforce

lemma stop_no_duty: "stop_step t c h = Next h' gs \<Longrightarrow> duties gs m = {#}"
proof (induction t c h rule: stop_step.induct)
  case (4 t s w ws h)
  then show ?case by (cases ws) auto
next
  case (6 t n i live h)
  have "duties (concat (map (\<lambda>c. [Stop (NodeStop c), Life (DropArc c)]) live)) m = {#}"
    by (induction live) simp_all
  with 6 show ?case by (auto simp: stop_children_def split: if_splits)
next
  case (7 t n i cs live h)
  then show ?case by (cases cs) (auto simp: weak_upgrade_def split: if_splits)
qed (auto simp: step_defs Let_def simp del: upd_node_def upd_shard_def split: if_splits)

lemma life_no_duty: "life_step t c h = Next h' gs \<Longrightarrow> \<not> starts_duty (Life c) \<Longrightarrow> duties gs m = {#}"
  by (cases c) (auto simp: deregister_def child_store_key_def child_check_def child_return_def Let_def
      simp del: upd_shard_def upd_node_def split: if_splits option.splits prod.splits)

lemma provenance_return_duties [simp]: "duties (provenance_return s loc info to h) m = {#}"
  by (cases to) simp_all

lemma guard_no_duty: "guard_step t b c h = Next h' gs \<Longrightarrow> duties gs m = {#}"
  by (cases c) (auto simp: guard_at_location_def provenance_def provenance_register_def guard_for_shard_def
      arrive_if_arrived_def guard_upgrade_def guard_clone_arrive_def guard_drop_def guard_depart_def
      guard_flush_weak_def drop_info_def atomic_defs Let_def guard_build_def alloc_guard_def
      simp del: upd_shard_def split: if_splits option.splits prod.splits)

lemma swan_no_duty: "swan_step t c h = Next h' gs \<Longrightarrow> duties gs m = {#}"
  by (cases c) (auto simp: swansong_clone_def swansong_clone_arc_def handle_drop_def completion_new_def
      interrupt_new_def simp del: upd_node_def split: if_splits prod.splits)

lemma intr_no_duty: "intr_step t b c h = Next h' gs \<Longrightarrow> duties gs m = {#}"
  by (cases "(t, b, c, h)" rule: intr_step.cases)
    (auto simp: poll_interrupt_def poll_wrapped_def poll_stopped_def poll_recheck_def poll_lock_def listener_drop_def
      poll_locked_def poll_register_def poll_returns_def on_interrupt_def Let_def
      simp del: upd_shard_def split: option.splits if_splits)

lemma exec_no_duty:
  "exec t b f h = Next h' gs \<Longrightarrow> \<not> starts_duty f \<Longrightarrow> duties gs m = {#}"
  by (cases f) (auto dest: count_no_duty stop_no_duty life_no_duty guard_no_duty swan_no_duty intr_no_duty)

lemma begin_call_duties: "begin_call c h = Some (h', fs) \<Longrightarrow> duties fs m = {#}"
  by (cases c) (auto simp: on_handle_def drop_frames_def split: option.splits if_splits)

section \<open>Where a child is in its life\<close>

definition child_slab :: "heap \<Rightarrow> sid \<Rightarrow> nat \<rightharpoonup> nid" where
  "child_slab h s = slab_lookup (sh_children (shard_at h s))"

definition child_keys :: "heap \<Rightarrow> nid \<Rightarrow> nat set" where
  "child_keys h c = {k. \<exists>s. link_of h c = Some s \<and> child_slab h s k = Some c}"

definition child_key :: "heap \<Rightarrow> nid \<Rightarrow> nat" where
  "child_key h c = (case in_parent (node_at h c) of None \<Rightarrow> usize_max | Some link \<Rightarrow> p_key link)"

text \<open>
  The phases of a child: made but not entered, entered but not told its key, entered and alive,
  dead but not yet taken out, and gone. A key of \<^verbatim>\<open>usize::MAX\<close> would be mistaken for none.
\<close>

definition child_ok :: "sys \<Rightarrow> nid \<Rightarrow> bool" where
  "child_ok \<sigma> c \<longleftrightarrow>
     (let keys = child_keys (mem \<sigma>) c; key = child_key (mem \<sigma>) c; alive = (0 < strong (mem \<sigma>) c); T = tasks \<sigma> c in
      (T = {#Life (ChildRegister c)#} \<and> keys = {}) \<or>
      (\<exists>k. T = {#Life (ChildStoreKey c k)#} \<and> keys = {k}) \<or>
      (T = {#} \<and> alive \<and> keys = {key}) \<or>
      (T = {#Life (Deregister c)#} \<and> \<not> alive \<and> keys = {key}) \<or>
      (T = {#} \<and> \<not> alive \<and> keys \<subseteq> {usize_max}))"

definition registration_ok :: "sys \<Rightarrow> bool" where
  "registration_ok \<sigma> \<longleftrightarrow>
     (\<forall>c<n_nodes (mem \<sigma>). link_of (mem \<sigma>) c \<noteq> None \<longrightarrow> child_ok \<sigma> c) \<and>
     (\<forall>s k c. valid_shard (mem \<sigma>) s \<longrightarrow> child_slab (mem \<sigma>) s k = Some c \<longrightarrow> link_of (mem \<sigma>) c = Some s)"

lemma same_links_child:
  assumes "same_links h h'"
  shows "link_of h' = link_of h" "child_slab h' = child_slab h" "child_keys h' = child_keys h" "child_key h' = child_key h"
    "n_nodes h' = n_nodes h"
  using assms by (simp_all add: same_links_def link_of_def child_slab_def child_keys_def child_key_def fun_eq_iff)

section \<open>The steps that register a child\<close>

lemma child_new_effect:
  assumes "life_step t (ChildNew n) h = Next h' gs"
  obtains i where "gs = [Life (ChildRegister (n_nodes h))]" "n_nodes h' = Suc (n_nodes h)"
    "link_of h' = (link_of h)(n_nodes h := Some (n, i))"
    "child_slab h' = (\<lambda>s. if fst s = n_nodes h then Map.empty else child_slab h s)"
    "\<forall>m. m \<noteq> n_nodes h \<longrightarrow> child_key h' m = child_key h m"
proof -
  obtain h1 i where h1: "shard_index t n h = (h1, i)" by fastforce
  then have s: "same_links h h1" by (rule same_links_index)
  have s2: "same_links h (arc_clone n h1)" using s same_links_upd(9) by (rule same_links_trans)
  obtain h2 m where h2: "alloc_node (Some \<lparr>p_node = n, p_shard = i, p_key = usize_max\<rparr>) 1
      (keeps_guard_report n (arc_clone n h1)) (arc_clone n h1) = (h2, m)" by fastforce
  have h': "h' = h2" "gs = [Life (ChildRegister m)]" using assms h1 h2 by (simp_all add: child_new_def Let_def)
  have m: "m = n_nodes h" using h2 s2 by (simp add: alloc_node_def Let_def same_links_def)
  note same = same_links_child [OF s2]
  show thesis
  proof (rule that [of i])
    show "gs = [Life (ChildRegister (n_nodes h))]" using h' m by simp
    show "n_nodes h' = Suc (n_nodes h)" using h2 h' same(5) by (auto simp: alloc_node_def Let_def)
    show "link_of h' = (link_of h)(n_nodes h := Some (n, i))"
      using h2 h' same(1,5) by (auto simp: alloc_node_def Let_def link_of_def inner_new_def fun_eq_iff)
    show "child_slab h' = (\<lambda>s. if fst s = n_nodes h then Map.empty else child_slab h s)"
      using h2 h' same(2,5)
      by (auto simp: alloc_node_def Let_def child_slab_def shard_new_def slab.lookup_empty fun_eq_iff)
    show "\<forall>m. m \<noteq> n_nodes h \<longrightarrow> child_key h' m = child_key h m"
      using h2 h' same(4,5) by (auto simp: alloc_node_def Let_def child_key_def fun_eq_iff)
  qed
qed

lemma child_register_effect:
  assumes step: "life_step t (ChildRegister c) h = Next h' gs" and ok: "heap_ok h" "valid_node h c"
  obtains s k where "gs = [Life (ChildStoreKey c k)]" "n_nodes h' = n_nodes h" "link_of h' = link_of h"
    "link_of h c = Some s" "child_key h' = child_key h" "child_slab h s k = None"
    "child_slab h' = (child_slab h)(s := (child_slab h s)(k \<mapsto> c))"
proof -
  obtain link where link: "in_parent (node_at h c) = Some link"
    using step by (auto simp: child_register_def split: option.splits)
  let ?s = "(p_node link, p_shard link)"
  have "valid_shard h ?s"
    using heap_okD(2) [OF ok] link ok(2) by (auto simp: node_ok_def valid_shard_def valid_node_def)
  then have slab: "slab_ok (sh_children (shard_at h ?s))" using heap_okD(1) [OF ok(1)] by (simp add: shard_ok_def)
  obtain S k where i: "slab_insert (sh_children (shard_at h ?s)) c = Some (S, k)"
    using slab.insert_total [OF slab] by blast
  then have h': "h' = upd_shard ?s (sh_children_update (\<lambda>_. S)) h" "gs = [Life (ChildStoreKey c k)]"
    using step link by (auto simp: child_register_def Let_def)
  show thesis
    by (rule that [of k ?s])
      (use h' link slab.insert_fresh [OF slab i] slab.insert_lookup [OF slab i] in
        \<open>auto simp: link_of_def child_slab_def child_key_def fun_eq_iff\<close>)
qed

lemma child_store_key_effect:
  assumes "life_step t (ChildStoreKey c k) h = Next h' gs"
  shows "gs = [Life (ChildCheck c)]" "n_nodes h' = n_nodes h" "link_of h' = link_of h" "child_slab h' = child_slab h"
    "child_key h' m = (if m = c \<and> link_of h c \<noteq> None then k else child_key h m)"
  using assms
  by (auto simp: child_store_key_def link_of_def child_slab_def child_key_def fun_eq_iff option.map_comp comp_def
      split: option.splits if_splits)

lemma deregister_effect:
  assumes step: "life_step t (Deregister c) h = Next h' gs"
  shows "gs = [] \<and> n_nodes h' = n_nodes h \<and> link_of h' = link_of h \<and> child_key h' = child_key h \<and>
    ((h' = h \<and> (link_of h c = None \<or> child_key h c = usize_max)) \<or>
     (\<exists>s. link_of h c = Some s \<and> child_key h c \<noteq> usize_max \<and>
        child_slab h' = (child_slab h)(s := (child_slab h s)(child_key h c := None))))"
proof (cases "in_parent (node_at h c)")
  case None
  then show ?thesis using step by (auto simp: deregister_def link_of_def)
next
  case (Some link)
  let ?s = "(p_node link, p_shard link)"
  obtain S v where r: "slab_remove (sh_children (shard_at h ?s)) (p_key link) = (S, v)" by fastforce
  then have l: "slab_lookup S = (slab_lookup (sh_children (shard_at h ?s)))(p_key link := None)"
    using slab.remove_lookup [of "sh_children (shard_at h ?s)" "p_key link"] by simp
  show ?thesis
  proof (cases "p_key link = usize_max")
    case True
    then show ?thesis using step Some by (auto simp: deregister_def child_key_def)
  next
    case False
    then have "h' = upd_shard ?s (sh_children_update (\<lambda>_. S)) h" "gs = []"
      using step Some r by (auto simp: deregister_def Let_def split: option.splits)
    then show ?thesis using Some l False
      by (auto simp: link_of_def child_slab_def child_key_def fun_eq_iff intro!: exI [of _ ?s])
  qed
qed

lemma drop_arc_effect:
  assumes "life_step t (DropArc n) h = Next h' gs"
  shows "duties gs c = (if c = n \<and> strong h n = 1 then {#Life (Deregister n)#} else {#})"
  using assms by (auto simp: drop_arc_def Let_def strong_def simp del: upd_node_def split: if_splits option.splits)

text \<open>Two references of running frames make a strong count of two.\<close>

lemma two_refs:
  assumes r: "reachable \<sigma>" "t < n_threads \<sigma>" "stack \<sigma> t = f # fs" "n \<in># frame_refs f"
    and g: "pending \<sigma> g" "g \<noteq> f" "n \<in># frame_refs g"
  shows "2 \<le> strong (mem \<sigma>) n"
proof -
  let ?c = "\<lambda>u. count (stack_refs (stack \<sigma> u)) n"
  have n: "n < n_nodes (mem \<sigma>)" using frame_refs_valid [OF reachable_top_ok [OF r(1-3)] r(4)] .
  obtain u where u: "u < n_threads \<sigma>" "g \<in> set (stack \<sigma> u)" using g(1) by (auto simp: pending_def)
  have top: "0 < count (frame_refs f) n" using r(4) by simp
  have "2 \<le> addup (n_threads \<sigma>) ?c"
  proof (cases "u = t")
    case True
    then have "g \<in> set fs" using u(2) r(3) g(2) by simp
    then have "0 < count (stack_refs fs) n" using stack_refs_member g(3) by simp
    moreover have "?c t = count (frame_refs f) n + count (stack_refs fs) n" using r(3) by simp
    ultimately have "2 \<le> ?c t" using top by linarith
    then show ?thesis using member_le_addup [OF r(2), of ?c] by linarith
  next
    case False
    have "0 < ?c u" using stack_refs_member [OF u(2) g(3)] by simp
    moreover have "0 < ?c t" using top r(3) by simp
    moreover have "addup (n_threads \<sigma>) ?c = ?c t + addup (n_threads \<sigma>) (?c(t := 0))" by (rule addup_split [OF r(2)])
    moreover have "(?c(t := 0)) u \<le> addup (n_threads \<sigma>) (?c(t := 0))" by (rule member_le_addup [OF u(1)])
    moreover have "(?c(t := 0)) u = ?c u" using False by simp
    ultimately show ?thesis by linarith
  qed
  then show ?thesis using owner_okD(2) [OF reachable_owner_ok [OF r(1)] n] by linarith
qed

section \<open>The invariant\<close>

lemma registration_okD:
  assumes "registration_ok \<sigma>"
  shows "c < n_nodes (mem \<sigma>) \<Longrightarrow> link_of (mem \<sigma>) c \<noteq> None \<Longrightarrow> child_ok \<sigma> c"
    "valid_shard (mem \<sigma>) s \<Longrightarrow> child_slab (mem \<sigma>) s k = Some c \<Longrightarrow> link_of (mem \<sigma>) c = Some s"
  using assms unfolding registration_ok_def by blast+

lemma child_ok_same:
  assumes "child_ok \<sigma> c" "child_keys (mem \<sigma>') c = child_keys (mem \<sigma>) c" "child_key (mem \<sigma>') c = child_key (mem \<sigma>) c"
    "strong (mem \<sigma>') c = 0 \<longleftrightarrow> strong (mem \<sigma>) c = 0" "tasks \<sigma>' c = tasks \<sigma> c"
  shows "child_ok \<sigma>' c"
proof -
  have "0 < strong (mem \<sigma>') c \<longleftrightarrow> 0 < strong (mem \<sigma>) c" using assms(4) by auto
  then show ?thesis using assms(1-3,5) unfolding child_ok_def by simp
qed

text \<open>The phase of a child that some frame is working on.\<close>

lemma child_phase:
  assumes "child_ok \<sigma> c" "pending \<sigma> f" "duty f = Some c"
  shows "tasks \<sigma> c = {#f#} \<and>
    (case f of Life (ChildRegister _) \<Rightarrow> child_keys (mem \<sigma>) c = {}
     | Life (ChildStoreKey _ k) \<Rightarrow> child_keys (mem \<sigma>) c = {k}
     | Life (Deregister _) \<Rightarrow> strong (mem \<sigma>) c = 0 \<and> child_keys (mem \<sigma>) c = {child_key (mem \<sigma>) c}
     | _ \<Rightarrow> False)"
proof -
  have "f \<in># tasks \<sigma> c" using assms(2,3) by (simp add: in_tasks)
  then show ?thesis using assms(1) by (auto simp: child_ok_def Let_def)
qed

lemma child_keys_update:
  assumes "child_slab h' = (child_slab h)(s := (child_slab h s)(k := v))" "link_of h' = link_of h"
    and "child_slab h s k \<noteq> Some c" "v \<noteq> Some c"
  shows "child_keys h' c = child_keys h c"
  using assms by (auto simp: child_keys_def split: if_splits)

lemma top_pending: "t < n_threads \<sigma> \<Longrightarrow> stack \<sigma> t = f # fs \<Longrightarrow> pending \<sigma> f"
  by (auto simp: pending_def intro!: exI [of _ t])

lemma tasks_run:
  assumes "t < n_threads \<sigma>" "stack \<sigma> t = f # fs"
  shows "tasks (\<sigma>\<lparr>mem := h, stack := (stack \<sigma>)(t := gs @ fs)\<rparr>) c + (if duty f = Some c then {#f#} else {#}) =
    tasks \<sigma> c + duties gs c"
  using tasks_change [OF assms(1), of "gs @ fs" h c] assms(2) by (simp add: union_ac)

text \<open>A step that is none of the registering ones, and not the drop of the child's last reference.\<close>

lemma child_ok_other:
  assumes r: "reachable \<sigma>" "t < n_threads \<sigma>" "stack \<sigma> t = f # fs" and step: "exec t b f (mem \<sigma>) = Next h gs"
    and inv: "child_ok \<sigma> c" and c: "c < n_nodes (mem \<sigma>)"
    and keys: "child_keys h c = child_keys (mem \<sigma>) c" "child_key h c = child_key (mem \<sigma>) c"
    and duty: "duty f \<noteq> Some c" "duties gs c = {#}" and last: "f = Life (DropArc c) \<Longrightarrow> strong (mem \<sigma>) c \<noteq> 1"
  shows "child_ok (\<sigma>\<lparr>mem := h, stack := (stack \<sigma>)(t := gs @ fs)\<rparr>) c"
  using inv
proof (rule child_ok_same)
  show "strong (mem (\<sigma>\<lparr>mem := h, stack := (stack \<sigma>)(t := gs @ fs)\<rparr>)) c = 0 \<longleftrightarrow> strong (mem \<sigma>) c = 0"
    using exec_strong_zero [OF r step] c last by (auto simp: same_strong_zero_def)
  show "tasks (\<sigma>\<lparr>mem := h, stack := (stack \<sigma>)(t := gs @ fs)\<rparr>) c = tasks \<sigma> c"
    using tasks_run [OF r(2,3), of gs h c] duty by simp
qed (use keys in simp_all)

lemma drop_arc_child:
  assumes r: "reachable \<sigma>" "t < n_threads \<sigma>" "stack \<sigma> t = Life (DropArc c) # fs"
    and step: "exec t b (Life (DropArc c)) (mem \<sigma>) = Next h gs"
    and inv: "child_ok \<sigma> c" and last: "strong (mem \<sigma>) c = 1"
  shows "child_ok (\<sigma>\<lparr>mem := h, stack := (stack \<sigma>)(t := gs @ fs)\<rparr>) c"
proof -
  let ?f = "Life (DropArc c)" and ?\<sigma> = "\<sigma>\<lparr>mem := h, stack := (stack \<sigma>)(t := gs @ fs)\<rparr>"
  have c: "c < n_nodes (mem \<sigma>)" using reachable_top_ok [OF r] by (simp add: valid_node_def)
  have alone: "\<not> pending \<sigma> g" if "g \<noteq> ?f" "c \<in># frame_refs g" for g
    using two_refs [OF r, of c g] that last by auto
  have "tasks \<sigma> c = {#} \<and> child_keys (mem \<sigma>) c = {child_key (mem \<sigma>) c}"
  proof -
    have "f \<notin># tasks \<sigma> c" if "f = Life (ChildRegister c) \<or> (\<exists>k. f = Life (ChildStoreKey c k))" for f
      using alone [of f] that by (auto simp: in_tasks)
    then have "tasks \<sigma> c \<noteq> {#Life (ChildRegister c)#}" "tasks \<sigma> c \<noteq> {#Life (ChildStoreKey c k)#}" for k
      by (metis multi_member_last)+
    then show ?thesis using inv last by (auto simp: child_ok_def Let_def)
  qed
  moreover have "tasks ?\<sigma> c = {#Life (Deregister c)#}"
    using tasks_run [OF r(2,3), of gs h c] drop_arc_effect [of t c "mem \<sigma>" h gs c] step last calculation by simp
  moreover have "strong h c = 0" using exec_strong_zero [OF r step] c last by (simp add: same_strong_zero_def)
  moreover have "same_links (mem \<sigma>) h" using links_kept [OF step] by simp
  ultimately show ?thesis using same_links_child [of "mem \<sigma>" h] by (simp add: child_ok_def)
qed

lemma child_ok_quiet:
  assumes r: "reachable \<sigma>" "t < n_threads \<sigma>" "stack \<sigma> t = f # fs" and step: "exec t b f (mem \<sigma>) = Next h gs"
    and inv: "registration_ok \<sigma>" and c: "c < n_nodes (mem \<sigma>)" "link_of (mem \<sigma>) c \<noteq> None" and none: "\<not> registers f"
  shows "child_ok (\<sigma>\<lparr>mem := h, stack := (stack \<sigma>)(t := gs @ fs)\<rparr>) c"
proof -
  have ok: "child_ok \<sigma> c" by (rule registration_okD(1) [OF inv c])
  note other = child_ok_other [OF r step ok c(1)]
  note same = same_links_child [OF links_kept [OF step none]]
  show ?thesis
  proof (cases "f = Life (DropArc c) \<and> strong (mem \<sigma>) c = 1")
    case True
    then show ?thesis using drop_arc_child [OF r(1,2) _ _ ok] r(3) step by blast
  next
    case no: False
    have "duties gs c = {#}"
    proof (cases "starts_duty f")
      case True
      with none obtain n where "f = Life (DropArc n)" by (cases f rule: starts_duty.cases) auto
      then show ?thesis using drop_arc_effect [of t n "mem \<sigma>" h gs c] step no by auto
    qed (use exec_no_duty [OF step] in simp)
    moreover have "duty f \<noteq> Some c" using none by (cases f rule: duty.cases) auto
    ultimately show ?thesis using other same no by auto
  qed
qed

lemma child_ok_create:
  assumes r: "reachable \<sigma>" "t < n_threads \<sigma>" "stack \<sigma> t = f # fs" and step: "exec t b f (mem \<sigma>) = Next h gs"
    and inv: "registration_ok \<sigma>" and c: "c < n_nodes (mem \<sigma>)" "link_of (mem \<sigma>) c \<noteq> None" and new: "f = Life (ChildNew n)"
  shows "child_ok (\<sigma>\<lparr>mem := h, stack := (stack \<sigma>)(t := gs @ fs)\<rparr>) c"
proof -
  note heap = reachable_heap_ok [OF r(1)]
  have ok: "child_ok \<sigma> c" by (rule registration_okD(1) [OF inv c])
  note other = child_ok_other [OF r step ok c(1)]
  obtain s where s: "link_of (mem \<sigma>) c = Some s" using c(2) by auto
  have s_old: "fst s < n_nodes (mem \<sigma>)"
    using heap_okD(2) [OF heap, of c] c(1) s by (auto simp: valid_node_def node_ok_def link_of_def)
  obtain i where e: "gs = [Life (ChildRegister (n_nodes (mem \<sigma>)))]"
    "link_of h = (link_of (mem \<sigma>))(n_nodes (mem \<sigma>) := Some (n, i))"
    "child_slab h = (\<lambda>s. if fst s = n_nodes (mem \<sigma>) then Map.empty else child_slab (mem \<sigma>) s)"
    "\<forall>m. m \<noteq> n_nodes (mem \<sigma>) \<longrightarrow> child_key h m = child_key (mem \<sigma>) m"
    using step new child_new_effect [of t n "mem \<sigma>" h gs] by auto
  have "child_keys h c = child_keys (mem \<sigma>) c" using e(2,3) c(1) s s_old by (simp add: child_keys_def)
  then show ?thesis using other e c(1) new by simp
qed

lemma child_ok_register:
  assumes r: "reachable \<sigma>" "t < n_threads \<sigma>" "stack \<sigma> t = f # fs" and step: "exec t b f (mem \<sigma>) = Next h gs"
    and inv: "registration_ok \<sigma>" and c: "c < n_nodes (mem \<sigma>)" "link_of (mem \<sigma>) c \<noteq> None" and reg: "f = Life (ChildRegister d)"
  shows "child_ok (\<sigma>\<lparr>mem := h, stack := (stack \<sigma>)(t := gs @ fs)\<rparr>) c"
proof -
  let ?\<sigma> = "\<sigma>\<lparr>mem := h, stack := (stack \<sigma>)(t := gs @ fs)\<rparr>"
  note heap = reachable_heap_ok [OF r(1)]
  note f = reachable_top_ok [OF r]
  have ok: "child_ok \<sigma> c" by (rule registration_okD(1) [OF inv c])
  note other = child_ok_other [OF r step ok c(1)]
  note change = tasks_run [OF r(2,3), of gs h]
  note p = top_pending [OF r(2,3)]
  have d: "valid_node (mem \<sigma>) d" using f reg by simp
  have st: "life_step t (ChildRegister d) (mem \<sigma>) = Next h gs" using step reg by simp
  obtain s' k where e: "gs = [Life (ChildStoreKey d k)]" "link_of h = link_of (mem \<sigma>)"
    "link_of (mem \<sigma>) d = Some s'" "child_key h = child_key (mem \<sigma>)" "child_slab (mem \<sigma>) s' k = None"
    "child_slab h = (child_slab (mem \<sigma>))(s' := (child_slab (mem \<sigma>) s')(k \<mapsto> d))"
    by (rule child_register_effect [OF st heap d])
  show ?thesis
  proof (cases "d = c")
    case False
    then have "child_keys h c = child_keys (mem \<sigma>) c"
      by (intro child_keys_update [OF e(6,2)]) (simp_all add: e(5))
    then show ?thesis using other e reg False by simp
  next
    case True
    have t: "tasks \<sigma> c = {#f#}" "child_keys (mem \<sigma>) c = {}"
      using child_phase [OF ok p] reg True by auto
    have "child_keys h c = {k}" using t(2) e(2,3,6) True
      by (cases s') (auto simp: child_keys_def split: if_splits)
    moreover have "tasks ?\<sigma> c = {#Life (ChildStoreKey c k)#}" using change [of c] t(1) e(1) reg True by simp
    ultimately show ?thesis by (simp add: child_ok_def)
  qed
qed

lemma child_ok_key:
  assumes r: "reachable \<sigma>" "t < n_threads \<sigma>" "stack \<sigma> t = f # fs" and step: "exec t b f (mem \<sigma>) = Next h gs"
    and inv: "registration_ok \<sigma>" and c: "c < n_nodes (mem \<sigma>)" "link_of (mem \<sigma>) c \<noteq> None" and key: "f = Life (ChildStoreKey d k)"
  shows "child_ok (\<sigma>\<lparr>mem := h, stack := (stack \<sigma>)(t := gs @ fs)\<rparr>) c"
proof -
  let ?\<sigma> = "\<sigma>\<lparr>mem := h, stack := (stack \<sigma>)(t := gs @ fs)\<rparr>"
  have ok: "child_ok \<sigma> c" by (rule registration_okD(1) [OF inv c])
  note other = child_ok_other [OF r step ok c(1)]
  note change = tasks_run [OF r(2,3), of gs h]
  note p = top_pending [OF r(2,3)]
  note e = child_store_key_effect [of t d k "mem \<sigma>" h gs]
  have st: "life_step t (ChildStoreKey d k) (mem \<sigma>) = Next h gs" using step key by simp
  have keys: "child_keys h c = child_keys (mem \<sigma>) c" using e(3,4) [OF st] by (simp add: child_keys_def)
  show ?thesis
  proof (cases "d = c")
    case False
    then show ?thesis using other keys e(1,5) [OF st] key by simp
  next
    case True
    have t: "tasks \<sigma> c = {#f#}" "child_keys (mem \<sigma>) c = {k}"
      using child_phase [OF ok p] key True by auto
    have "tasks ?\<sigma> c = {#}" using change [of c] t(1) e(1) [OF st] key True by simp
    moreover have "0 < strong h c"
      using reachable_held [OF r(1,2), of f c] r(3) key True exec_strong_zero [OF r step] c(1)
      by (auto simp: same_strong_zero_def)
    moreover have "child_key h c = k" using e(5) [OF st] True c(2) by simp
    ultimately show ?thesis using keys t(2) by (simp add: child_ok_def)
  qed
qed

lemma child_ok_deregister:
  assumes r: "reachable \<sigma>" "t < n_threads \<sigma>" "stack \<sigma> t = f # fs" and step: "exec t b f (mem \<sigma>) = Next h gs"
    and inv: "registration_ok \<sigma>" and c: "c < n_nodes (mem \<sigma>)" "link_of (mem \<sigma>) c \<noteq> None" and dereg: "f = Life (Deregister d)"
  shows "child_ok (\<sigma>\<lparr>mem := h, stack := (stack \<sigma>)(t := gs @ fs)\<rparr>) c"
proof -
  let ?\<sigma> = "\<sigma>\<lparr>mem := h, stack := (stack \<sigma>)(t := gs @ fs)\<rparr>"
  note f = reachable_top_ok [OF r]
  have ok: "child_ok \<sigma> c" by (rule registration_okD(1) [OF inv c])
  note other = child_ok_other [OF r step ok c(1)]
  note change = tasks_run [OF r(2,3), of gs h]
  note p = top_pending [OF r(2,3)]
  obtain s where s: "link_of (mem \<sigma>) c = Some s" using c(2) by auto
  have st: "life_step t (Deregister d) (mem \<sigma>) = Next h gs" using step dereg by simp
  note e = deregister_effect [OF st]
  show ?thesis
  proof (cases "d = c")
    case False
    have "child_keys h c = child_keys (mem \<sigma>) c"
    proof (cases "h = mem \<sigma>")
      case False
      then obtain s' where s': "link_of (mem \<sigma>) d = Some s'"
        "child_slab h = (child_slab (mem \<sigma>))(s' := (child_slab (mem \<sigma>) s')(child_key (mem \<sigma>) d := None))"
        "link_of h = link_of (mem \<sigma>)"
        using e by auto
      have "child_ok \<sigma> d" using registration_okD(1) [OF inv, of d] f dereg s'(1) by (simp add: valid_node_def)
      then have "child_key (mem \<sigma>) d \<in> child_keys (mem \<sigma>) d" using child_phase [OF _ p] dereg by auto
      then have "child_slab (mem \<sigma>) s' (child_key (mem \<sigma>) d) = Some d" using s'(1) by (auto simp: child_keys_def)
      then show ?thesis using \<open>d \<noteq> c\<close> by (intro child_keys_update [OF s'(2,3)]) simp_all
    qed simp
    then show ?thesis using other e dereg False by auto
  next
    case True
    have t: "tasks \<sigma> c = {#f#}" "strong (mem \<sigma>) c = 0" "child_keys (mem \<sigma>) c = {child_key (mem \<sigma>) c}"
      using child_phase [OF ok p] dereg True by auto
    have "tasks ?\<sigma> c = {#}" using change [of c] t(1) e dereg True by simp
    moreover have "strong h c = 0" using exec_strong_zero [OF r step] c(1) t(2) by (simp add: same_strong_zero_def)
    moreover have "child_keys h c \<subseteq> {usize_max}" using e t(3) True s by (auto simp: child_keys_def split: if_splits)
    ultimately show ?thesis by (simp add: child_ok_def)
  qed
qed

lemma child_ok_run:
  assumes r: "reachable \<sigma>" "t < n_threads \<sigma>" "stack \<sigma> t = f # fs" and step: "exec t b f (mem \<sigma>) = Next h gs"
    and inv: "registration_ok \<sigma>" and c: "c < n_nodes (mem \<sigma>)" "link_of (mem \<sigma>) c \<noteq> None"
  shows "child_ok (\<sigma>\<lparr>mem := h, stack := (stack \<sigma>)(t := gs @ fs)\<rparr>) c"
proof (cases "registers f")
  case True
  then consider (new) n where "f = Life (ChildNew n)" | (reg) d where "f = Life (ChildRegister d)"
    | (key) d k where "f = Life (ChildStoreKey d k)" | (dereg) d where "f = Life (Deregister d)"
    by (cases f rule: registers.cases) auto
  then show ?thesis
    by cases (use child_ok_create [OF assms] child_ok_register [OF assms] child_ok_key [OF assms] child_ok_deregister [OF assms] in \<open>blast+\<close>)
qed (rule child_ok_quiet [OF assms])

lemma tasks_old: "reachable \<sigma> \<Longrightarrow> \<not> c < n_nodes (mem \<sigma>) \<Longrightarrow> tasks \<sigma> c = {#}"
proof -
  assume r: "reachable \<sigma>" and c: "\<not> c < n_nodes (mem \<sigma>)"
  have "f \<notin># tasks \<sigma> c" for f
    using reachable_frame_ok [OF r] c
    by (cases f rule: duty.cases) (fastforce simp: in_tasks pending_def valid_node_def)+
  then show ?thesis by blast
qed

lemma child_slab_valid:
  assumes "heap_ok h" "valid_shard h s" "child_slab h s k = Some c"
  shows "c < n_nodes h"
  using heap_okD(1) [OF assms(1,2)] slab.lookup_in_values [of "sh_children (shard_at h s)" k c] assms(3)
  by (auto simp: shard_ok_def child_slab_def)

text \<open>The child that \<^verbatim>\<open>new_child\<close> just made.\<close>

lemma exec_n_nodes:
  assumes step: "exec t b f h = Next h' gs" and ok: "heap_ok h" "frame_ok h f" and f: "\<And>n. f \<noteq> Life (ChildNew n)"
  shows "n_nodes h' = n_nodes h"
proof (cases "registers f")
  case True
  with f consider (reg) d where "f = Life (ChildRegister d)" | (key) d k where "f = Life (ChildStoreKey d k)"
    | (dereg) d where "f = Life (Deregister d)"
    by (cases f rule: registers.cases) auto
  then show ?thesis
  proof cases
    case reg
    have "life_step t (ChildRegister d) h = Next h' gs" "valid_node h d" using step ok(2) reg by simp_all
    then show ?thesis using child_register_effect [OF _ ok(1)] by metis
  next
    case key
    with step child_store_key_effect(2) [of t d k h h' gs] show ?thesis by simp
  next
    case dereg
    with step deregister_effect [of t d h h' gs] show ?thesis by simp
  qed
qed (use links_kept [OF step] in \<open>simp add: same_links_def\<close>)

lemma run_extends:
  assumes "reachable \<sigma>" "within_limits \<sigma>" "t < n_threads \<sigma>" "stack \<sigma> t = f # fs" "exec t b f (mem \<sigma>) = Next h gs"
  shows "extends (mem \<sigma>) h"
  using step_extends [OF step.run [OF assms(3-5)] reachable_sys_ok [OF assms(1)] assms(2)] by simp

lemma child_ok_new:
  assumes r: "reachable \<sigma>" "t < n_threads \<sigma>" "stack \<sigma> t = f # fs" and step: "exec t b f (mem \<sigma>) = Next h gs"
    and after: "within_limits \<sigma>" "reachable (\<sigma>\<lparr>mem := h, stack := (stack \<sigma>)(t := gs @ fs)\<rparr>)"
    and c: "\<not> c < n_nodes (mem \<sigma>)" "c < n_nodes h"
  shows "child_ok (\<sigma>\<lparr>mem := h, stack := (stack \<sigma>)(t := gs @ fs)\<rparr>) c"
proof -
  have "\<exists>n. f = Life (ChildNew n)"
    using exec_n_nodes [OF step reachable_heap_ok [OF r(1)] reachable_top_ok [OF r]] c by auto
  then obtain n where n: "f = Life (ChildNew n)" by blast
  then obtain i where e: "gs = [Life (ChildRegister (n_nodes (mem \<sigma>)))]" "n_nodes h = Suc (n_nodes (mem \<sigma>))"
    "link_of h = (link_of (mem \<sigma>))(n_nodes (mem \<sigma>) := Some (n, i))"
    "child_slab h = (\<lambda>s. if fst s = n_nodes (mem \<sigma>) then Map.empty else child_slab (mem \<sigma>) s)"
    using step child_new_effect [of t n "mem \<sigma>" h gs] by auto
  have c_eq: "c = n_nodes (mem \<sigma>)" using c e(2) by simp
  have "link_of h c = Some (n, i)" using e(3) c_eq by simp
  then have "n < n_nodes (mem \<sigma>)" "i < in_shards (node_at h n)"
    using heap_okD(2) [of h c] reachable_heap_ok [OF after(2)] c c_eq
    by (auto simp: valid_node_def node_ok_def link_of_def)
  then have "valid_shard (mem \<sigma>) (n, i)"
    using run_extends [OF r(1) after(1) r(2,3) step] by (simp add: valid_shard_def extends_def)
  then have "child_slab (mem \<sigma>) (n, i) k \<noteq> Some c" for k
    using child_slab_valid [OF reachable_heap_ok [OF r(1)]] c(1) by blast
  then have "child_keys h c = {}" using e(3,4) c_eq by (auto simp: child_keys_def)
  moreover have "tasks (\<sigma>\<lparr>mem := h, stack := (stack \<sigma>)(t := gs @ fs)\<rparr>) c = {#Life (ChildRegister c)#}"
    using tasks_run [OF r(2,3), of gs h c] tasks_old [OF r(1) c(1)] e(1) c_eq n by simp
  ultimately show ?thesis by (simp add: child_ok_def)
qed

text \<open>A slab of children holds children of its shard only.\<close>

lemma child_link_run:
  assumes r: "reachable \<sigma>" "t < n_threads \<sigma>" "stack \<sigma> t = f # fs" and step: "exec t b f (mem \<sigma>) = Next h gs"
    and lim: "within_limits \<sigma>" and inv: "registration_ok \<sigma>"
    and s: "valid_shard h s" "child_slab h s k = Some c"
  shows "link_of h c = Some s"
proof -
  note heap = reachable_heap_ok [OF r(1)] and f = reachable_top_ok [OF r]
  note ext = run_extends [OF r(1) lim r(2,3) step]
  have old: "link_of (mem \<sigma>) c = Some s" if "child_slab (mem \<sigma>) s k = Some c" "fst s < n_nodes (mem \<sigma>)"
    using registration_okD(2) [OF inv _ that(1)] s(1) ext that(2) by (auto simp: valid_shard_def extends_def)
  have valid: "fst s < n_nodes (mem \<sigma>)" if "n_nodes h = n_nodes (mem \<sigma>)"
    using s(1) that by (simp add: valid_shard_def)
  show ?thesis
  proof (cases "registers f")
    case False
    then show ?thesis using same_links_child [OF links_kept [OF step False]] s(2) old valid by simp
  next
    case True
    then consider (new) n where "f = Life (ChildNew n)" | (reg) d where "f = Life (ChildRegister d)"
      | (key) d k where "f = Life (ChildStoreKey d k)" | (dereg) d where "f = Life (Deregister d)"
      by (cases f rule: registers.cases) auto
    then show ?thesis
    proof cases
      case new
      then obtain i where e: "n_nodes h = Suc (n_nodes (mem \<sigma>))"
        "link_of h = (link_of (mem \<sigma>))(n_nodes (mem \<sigma>) := Some (n, i))"
        "child_slab h = (\<lambda>s. if fst s = n_nodes (mem \<sigma>) then Map.empty else child_slab (mem \<sigma>) s)"
        using step child_new_effect [of t n "mem \<sigma>" h gs] by auto
      have i: "fst s < n_nodes (mem \<sigma>)" "child_slab (mem \<sigma>) s k = Some c"
        using s e(1,3) by (auto simp: valid_shard_def split: if_splits)
      then have "valid_shard (mem \<sigma>) s" using s(1) ext by (simp add: valid_shard_def extends_def)
      then have "c < n_nodes (mem \<sigma>)" by (rule child_slab_valid [OF heap _ i(2)])
      then show ?thesis using old [OF i(2,1)] e(2) by simp
    next
      case reg
      have st: "life_step t (ChildRegister d) (mem \<sigma>) = Next h gs" "valid_node (mem \<sigma>) d" using step f reg by simp_all
      obtain s' k' where e: "n_nodes h = n_nodes (mem \<sigma>)" "link_of h = link_of (mem \<sigma>)"
        "link_of (mem \<sigma>) d = Some s'" "child_slab h = (child_slab (mem \<sigma>))(s' := (child_slab (mem \<sigma>) s')(k' \<mapsto> d))"
        by (rule child_register_effect [OF st(1) heap st(2)])
      show ?thesis
      proof (cases "s = s' \<and> k = k'")
        case True
        then show ?thesis using s(2) e by simp
      next
        case False
        then have "child_slab (mem \<sigma>) s k = Some c" using s(2) e(4) by (auto simp: fun_upd_def split: if_splits)
        then show ?thesis using old valid e by simp
      qed
    next
      case key
      with step child_store_key_effect(2-4) [of t d _ "mem \<sigma>" h gs] show ?thesis using old valid s(2) by simp
    next
      case dereg
      then have st: "life_step t (Deregister d) (mem \<sigma>) = Next h gs" using step by simp
      then have "child_slab (mem \<sigma>) s k = Some c"
        using deregister_effect [OF st] s(2) by (cases s) (auto simp: fun_upd_def split: if_splits)
      then show ?thesis using old valid deregister_effect [OF st] by simp
    qed
  qed
qed

lemma registration_ok_run:
  assumes r: "reachable \<sigma>" "t < n_threads \<sigma>" "stack \<sigma> t = f # fs" and step: "exec t b f (mem \<sigma>) = Next h gs"
    and after: "within_limits \<sigma>" "reachable (\<sigma>\<lparr>mem := h, stack := (stack \<sigma>)(t := gs @ fs)\<rparr>)"
    and inv: "registration_ok \<sigma>"
  shows "registration_ok (\<sigma>\<lparr>mem := h, stack := (stack \<sigma>)(t := gs @ fs)\<rparr>)"
proof -
  have "child_ok (\<sigma>\<lparr>mem := h, stack := (stack \<sigma>)(t := gs @ fs)\<rparr>) c"
    if c: "c < n_nodes h" "link_of h c \<noteq> None" for c
  proof (cases "c < n_nodes (mem \<sigma>)")
    case True
    then have "parent_of h c = parent_of (mem \<sigma>) c"
      using run_extends [OF r(1) after(1) r(2,3) step] by (simp add: extends_def)
    then have "link_of (mem \<sigma>) c \<noteq> None" using c(2)
      by (cases "in_parent (node_at (mem \<sigma>) c)") (auto simp: parent_of_def link_of_def)
    then show ?thesis by (rule child_ok_run [OF r step inv True])
  qed (rule child_ok_new [OF r step after _ c(1)])
  then show ?thesis
    using child_link_run [OF r step after(1) inv] unfolding registration_ok_def by simp
qed

section \<open>Calls\<close>

lemma begin_call_links:
  assumes "begin_call c h = Some (h', fs)" "\<And>rep. c \<noteq> CallNew rep"
  shows "same_links h h'" "strong h' = strong h"
  using assms by (cases c; auto simp: on_handle_def strong_def fun_eq_iff set_interrupt_def split: option.splits if_splits)+

lemma new_root_effect:
  "n_nodes (new_root rep h) = Suc (n_nodes h)" "link_of (new_root rep h) = (link_of h)(n_nodes h := None)"
  "child_slab (new_root rep h) = (\<lambda>s. if fst s = n_nodes h then Map.empty else child_slab h s)"
  "m \<noteq> n_nodes h \<Longrightarrow> child_key (new_root rep h) m = child_key h m"
  "m \<noteq> n_nodes h \<Longrightarrow> strong (new_root rep h) m = strong h m"
  by (auto simp: new_root_def alloc_node_def alloc_handle_def Let_def link_of_def inner_new_def child_slab_def
      shard_new_def slab.lookup_empty child_key_def strong_def fun_eq_iff)

lemma registration_ok_call:
  assumes r: "reachable \<sigma>" "t < n_threads \<sigma>" "stack \<sigma> t = []" and call: "begin_call c (mem \<sigma>) = Some (h, fs)"
    and inv: "registration_ok \<sigma>" and lim: "within_limits \<sigma>" "may_call c \<sigma>"
  shows "registration_ok (\<sigma>\<lparr>mem := h, stack := (stack \<sigma>)(t := fs)\<rparr>)"
proof -
  let ?\<sigma> = "\<sigma>\<lparr>mem := h, stack := (stack \<sigma>)(t := fs)\<rparr>"
  have tasks: "tasks ?\<sigma> d = tasks \<sigma> d" for d
    using tasks_change [OF r(2), of fs h d] r(3) begin_call_duties [OF call] by simp
  have ext: "extends (mem \<sigma>) h"
    using step_extends [OF step.call [OF r(2,3) lim(2) call] reachable_sys_ok [OF r(1)] lim(1)] by simp
  note heap = reachable_heap_ok [OF r(1)]
  show ?thesis
  proof (cases "\<exists>rep. c = CallNew rep")
    case False
    then have "same_links (mem \<sigma>) h" "strong h = strong (mem \<sigma>)" using begin_call_links [OF call] by blast+
    moreover have "valid_shard h s = valid_shard (mem \<sigma>) s" for s
      using ext calculation(1) by (auto simp: valid_shard_def extends_def same_links_def)
    ultimately show ?thesis
      using inv same_links_child [of "mem \<sigma>" h] tasks
      by (auto simp: registration_ok_def child_ok_def simp del: split_paired_All)
  next
    case True
    then obtain rep where "c = CallNew rep" by blast
    then have h: "h = new_root rep (mem \<sigma>)" using call by (cases rep) auto
    note e = new_root_effect [where rep = rep and h = "mem \<sigma>", folded h]
    have old: "fst s < n_nodes (mem \<sigma>)" if "link_of (mem \<sigma>) d = Some s" "d < n_nodes (mem \<sigma>)" for d s
      using heap_okD(2) [OF heap, of d] that by (auto simp: valid_node_def node_ok_def link_of_def)
    have "child_ok ?\<sigma> d" if d: "d < n_nodes h" "link_of h d \<noteq> None" for d
    proof -
      have d': "d < n_nodes (mem \<sigma>)" "link_of (mem \<sigma>) d \<noteq> None" using d e(1,2) by (auto split: if_splits)
      then obtain s where s: "link_of (mem \<sigma>) d = Some s" by blast
      have "child_keys h d = child_keys (mem \<sigma>) d"
        using e(2,3) s old [OF s d'(1)] d'(1) by (simp add: child_keys_def)
      then show ?thesis
        using child_ok_same [OF registration_okD(1) [OF inv d'], of ?\<sigma>] e(4,5) d'(1) tasks by simp
    qed
    moreover have "link_of h d = Some s" if s: "valid_shard h s" "child_slab h s k = Some d" for s k d
    proof -
      have i: "fst s < n_nodes (mem \<sigma>)" "child_slab (mem \<sigma>) s k = Some d"
        using s e(1,3) by (auto simp: valid_shard_def split: if_splits)
      then have v: "valid_shard (mem \<sigma>) s" using s(1) ext by (simp add: valid_shard_def extends_def)
      then have "d < n_nodes (mem \<sigma>)" by (rule child_slab_valid [OF heap _ i(2)])
      then show ?thesis using registration_okD(2) [OF inv v i(2)] e(2) by simp
    qed
    ultimately show ?thesis by (simp add: registration_ok_def)
  qed
qed

interpretation registration: system_invariant registration_ok
proof
  show "registration_ok (sys_init threads par)" for threads par
    by (simp add: registration_ok_def sys_init_def heap_init_def valid_shard_def)
  show "registration_ok (\<sigma>\<lparr>mem := (mem \<sigma>)\<lparr>clock := clock (mem \<sigma>) + d\<rparr>\<rparr>)" if "registration_ok \<sigma>" for \<sigma> d
    using that by (simp add: registration_ok_def child_ok_def tasks_def link_of_def child_slab_def child_keys_def
        child_key_def valid_shard_def)
qed (use registration_ok_call registration_ok_run in \<open>blast+\<close>)

lemmas reachable_registration_ok = registration.always

end
