(* ===== verification/Pins.thy ===== *)
theory Pins
  imports Registration
begin

text \<open>
  Which guards hold their node. A guard of a child pins the child; only the guards of a root,
  whose shards nobody above counts, do without. So a departure that finds its node collected
  (\<^verbatim>\<open>shard.node()\<close> in \<^verbatim>\<open>Drop for Guard\<close>) has nothing left to flush.
\<close>

text \<open>The shard on which a frame creates or drops a guard that holds no node.\<close>

fun unpinned :: "frame \<Rightarrow> sid option" where
  "unpinned (Grd (Provenance s loc (ToForShard i))) = Some s"
| "unpinned (Grd (Provenance s loc (ToClone None))) = Some s"
| "unpinned (Grd (ProvenanceRegister s loc info (ToForShard i))) = Some s"
| "unpinned (Grd (ProvenanceRegister s loc info (ToClone None))) = Some s"
| "unpinned (Grd (GuardBuild s None loc info dst)) = Some s"
| "unpinned (Grd (GuardCloneArrive s None loc info)) = Some s"
| "unpinned (Grd (ArriveIfArrived s loc i st)) = Some s"
| "unpinned (Grd (GuardDepart s None)) = Some s"
| "unpinned (Grd (GuardFlushWeak s)) = Some s"
| "unpinned f = None"

definition rooted :: "heap \<Rightarrow> frame \<Rightarrow> bool" where
  "rooted h f \<longleftrightarrow> (\<forall>s. unpinned f = Some s \<longrightarrow> parent_of h (fst s) = None)"

definition guards_rooted :: "heap \<Rightarrow> bool" where
  "guards_rooted h \<longleftrightarrow> (\<forall>g gd. guard_at h g = Some gd \<longrightarrow> gd_pin gd = None \<longrightarrow> parent_of h (fst (gd_shard gd)) = None)"

definition pins_ok :: "sys \<Rightarrow> bool" where
  "pins_ok \<sigma> \<longleftrightarrow> guards_rooted (mem \<sigma>) \<and> (\<forall>f. pending \<sigma> f \<longrightarrow> rooted (mem \<sigma>) f)"

lemma guards_rootedD:
  "guards_rooted h \<Longrightarrow> guard_at h g = Some gd \<Longrightarrow> gd_pin gd = None \<Longrightarrow> parent_of h (fst (gd_shard gd)) = None"
  by (simp add: guards_rooted_def)

lemma rooted_none [simp]: "unpinned f = None \<Longrightarrow> rooted h f"
  by (simp add: rooted_def)

lemma unpinned_valid: "frame_ok h f \<Longrightarrow> unpinned f = Some s \<Longrightarrow> valid_shard h s"
  by (cases f rule: unpinned.cases) auto

lemma rooted_extends: "extends h h' \<Longrightarrow> frame_ok h f \<Longrightarrow> rooted h f \<Longrightarrow> rooted h' f"
  using unpinned_valid parent_of_extends by (fastforce simp: rooted_def valid_shard_def valid_node_def)

section \<open>Steps\<close>

lemma not_guard_unpinned:
  assumes "exec t b f h = Next h' gs" "g \<in> set gs" "\<And>c. f \<noteq> Grd c"
  shows "unpinned g = None"
proof (cases f)
  case (Count c)
  with assms show ?thesis
    by (cases c) (auto simp: step_defs atomic_defs shard_ref_def Let_def split: if_splits option.splits prod.splits)
next
  case (Stop c)
  with assms show ?thesis
  proof (cases c)
    case (ShardWake s w ws)
    with assms Stop show ?thesis by (cases ws) (auto split: if_splits)
  next
    case (StopUpgrade n i cs live)
    with assms Stop show ?thesis by (cases cs) (auto split: option.splits)
  qed (auto simp: step_defs stop_shards_def Let_def split: if_splits)
next
  case (Life c)
  with assms show ?thesis
    by (cases c) (auto simp: step_defs stop_shards_def Let_def split: if_splits option.splits prod.splits)
next
  case (Swan c)
  with assms show ?thesis by (cases c) (auto simp: step_defs split: if_splits prod.splits)
next
  case (Intr c)
  with assms show ?thesis
    by (cases "(t, b, c, h)" rule: intr_step.cases)
      (auto simp: step_defs on_interrupt_def poll_returns_def Let_def split: if_splits option.splits prod.splits)
qed (use assms in auto)

lemma guard_rooted:
  assumes step: "guard_step t b c h = Next h' gs" and ok: "heap_ok h" "frame_ok h (Grd c)"
    and inv: "rooted h (Grd c)" "guards_rooted h" and g: "g \<in> set gs"
  shows "rooted h g"
proof -
  have root: "parent_of h (fst s) = None \<longleftrightarrow> sh_root (shard_at h s)" if "valid_shard h s" for s
    using heap_okD(1) [OF ok(1) that] by (simp add: shard_ok_def parent_of_def)
  show ?thesis
  proof (cases c)
    case (Provenance s loc to)
    with step g inv ok(2) show ?thesis
      by (cases to) (auto simp: provenance_def rooted_def alloc_info_def Let_def is_root_def parent_of_def
        split: if_splits elim!: unpinned.elims)
  next
    case (ProvenanceRegister s loc info to)
    with step g inv ok(2) show ?thesis
      by (cases to) (auto simp: provenance_register_def rooted_def Let_def is_root_def parent_of_def
        split: if_splits elim!: unpinned.elims)
  next
    case (GuardForShard s loc i)
    with step g ok root [of s] show ?thesis by (auto simp: guard_for_shard_def rooted_def split: if_splits)
  next
    case (GuardDrop x)
    then obtain gd where gd: "guard_at h x = Some gd" using step by (auto simp: guard_drop_def split: option.splits)
    with step g GuardDrop show ?thesis
      using guards_rootedD [OF inv(2) gd]
      by (cases "gd_pin gd") (auto simp: guard_drop_def rooted_def split: option.splits)
  next
    case (GuardDepart s pin)
    with step g inv show ?thesis
      by (cases pin) (auto simp: guard_depart_def rooted_def shard_depart_def split: if_splits)
  next
    case (GuardCloneArrive s pin loc info)
    with step g inv show ?thesis
      by (cases pin) (auto simp: guard_clone_arrive_def rooted_def Let_def split: if_splits)
  qed (use step g inv in \<open>auto simp: guard_at_location_def guard_build_def arrive_if_arrived_def guard_upgrade_def
      guard_flush_weak_def drop_info_def rooted_def atomic_defs Let_def split: if_splits option.splits prod.splits\<close>)
qed

lemma guards_origin:
  assumes step: "exec t b f h = Next h' gs" and g: "guard_at h' g = Some gd"
  shows "guard_at h g = Some gd \<or> (\<exists>loc info dst. f = Grd (GuardBuild (gd_shard gd) (gd_pin gd) loc info dst))"
proof (cases f)
  case (Count c)
  then show ?thesis using step g same_owners_count by (auto simp: same_owners_def)
next
  case (Intr c)
  then show ?thesis using step g intr_same_owners by (auto simp: same_owners_def)
next
  case (Stop c)
  then show ?thesis
  proof (cases c)
    case (ShardWake s w ws)
    with step g Stop show ?thesis by (cases ws) auto
  next
    case (StopUpgrade n i cs live)
    with step g Stop show ?thesis
      by (cases cs) (auto simp: weak_upgrade_def arc_clone_def lock_release_def split: option.splits if_splits)
  qed (use step g in \<open>auto simp: step_defs notify_zero_def set_node_word_def set_shard_word_def lock_acquire_def Let_def split: if_splits\<close>)
next
  case (Life c)
  have "guard_at h1 = guard_at h" if "shard_index t n h = (h1, i)" for n h1 i
    using same_owners_index [OF that] by (simp add: same_owners_def)
  then show ?thesis using step g Life
    by (cases c) (auto simp: step_defs alloc_node_def arc_clone_def alloc_handle_def Let_def split: if_splits option.splits prod.splits)
next
  case (Swan c)
  have "guard_at h1 = guard_at h" if "shard_index t n h = (h1, i)" for n h1 i
    using same_owners_index [OF that] by (simp add: same_owners_def)
  then show ?thesis using step g Swan
    by (cases c) (auto simp: step_defs inner_shard_def alloc_handle_def alloc_completion_def alloc_interrupt_def arc_clone_def Let_def
        split: if_splits prod.splits)
next
  case (Grd c)
  have "guard_at h1 = guard_at h" if "shard_index t n h = (h1, i)" for n h1 i
    using same_owners_index [OF that] by (simp add: same_owners_def)
  then show ?thesis using step g Grd
    by (cases c) (auto simp: step_defs inner_shard_def alloc_guard_def alloc_info_def weak_upgrade_def arc_clone_def
        set_shard_word_def atomic_defs Let_def split: if_splits option.splits prod.splits)
qed (use step g in auto)

section \<open>Every reachable state\<close>

lemma pins_ok_run:
  assumes r: "reachable \<sigma>" "within_limits \<sigma>" "t < n_threads \<sigma>" "stack \<sigma> t = f # fs"
    and step: "exec t b f (mem \<sigma>) = Next h gs" and inv: "pins_ok \<sigma>"
    and after: "reachable (\<sigma>\<lparr>mem := h, stack := (stack \<sigma>)(t := gs @ fs)\<rparr>)"
  shows "pins_ok (\<sigma>\<lparr>mem := h, stack := (stack \<sigma>)(t := gs @ fs)\<rparr>)"
proof -
  let ?\<sigma> = "\<sigma>\<lparr>mem := h, stack := (stack \<sigma>)(t := gs @ fs)\<rparr>"
  note ext = run_extends [OF r step]
  note ok = reachable_heap_ok [OF r(1)]
  have f: "frame_ok (mem \<sigma>) f" "rooted (mem \<sigma>) f"
    using reachable_top_ok [OF r(1,3,4)] inv top_pending [OF r(3,4)] by (auto simp: pins_ok_def)
  have gs: "rooted h g" if g: "g \<in> set gs" for g
  proof (cases "\<exists>c. f = Grd c")
    case True
    then have "rooted (mem \<sigma>) g" using guard_rooted [OF _ ok _ _ _ g] f step inv by (auto simp: pins_ok_def)
    moreover have "n_nodes h = n_nodes (mem \<sigma>)" using exec_n_nodes [OF step ok f(1)] True by blast
    moreover have "frame_ok h g" using reachable_frame_ok [OF after, of t g] r(3) g by simp
    ultimately show ?thesis
      using unpinned_valid parent_of_extends [OF ext] by (fastforce simp: rooted_def valid_shard_def valid_node_def)
  next
    case False
    then show ?thesis using not_guard_unpinned [OF step g] by simp
  qed
  have "parent_of h (fst (gd_shard gd)) = None" if g: "guard_at h g = Some gd" "gd_pin gd = None" for g gd
  proof -
    consider "guard_at (mem \<sigma>) g = Some gd" | loc info dst where "f = Grd (GuardBuild (gd_shard gd) (gd_pin gd) loc info dst)"
      using guards_origin [OF step g(1)] by blast
    then have "parent_of (mem \<sigma>) (fst (gd_shard gd)) = None \<and> valid_shard (mem \<sigma>) (gd_shard gd)"
    proof cases
      case 1
      then show ?thesis using inv g(2) heap_okD(5) [OF ok] by (auto simp: pins_ok_def guards_rooted_def guard_ok_def)
    next
      case 2
      then show ?thesis using f g(2) by (auto simp: rooted_def)
    qed
    then show ?thesis using parent_of_extends [OF ext] by (simp add: valid_shard_def valid_node_def)
  qed
  moreover have "rooted h g" if g: "pending ?\<sigma> g" for g
  proof (cases "g \<in> set gs")
    case False
    then have "pending \<sigma> g" using g r(4) by (fastforce simp: pending_def split: if_splits)
    then show ?thesis
      using inv rooted_extends [OF ext] reachable_frame_ok [OF r(1)] by (auto simp: pins_ok_def pending_def)
  qed (rule gs)
  ultimately show ?thesis by (auto simp: pins_ok_def guards_rooted_def)
qed

lemma pins_ok_call:
  assumes r: "reachable \<sigma>" "within_limits \<sigma>" "t < n_threads \<sigma>" "stack \<sigma> t = []" and may: "may_call c \<sigma>"
    and call: "begin_call c (mem \<sigma>) = Some (h, fs)" and inv: "pins_ok \<sigma>"
  shows "pins_ok (\<sigma>\<lparr>mem := h, stack := (stack \<sigma>)(t := fs)\<rparr>)"
proof -
  have ext: "extends (mem \<sigma>) h"
    using step_extends [OF step.call [OF r(3,4) may call] reachable_sys_ok [OF r(1)] r(2)] by simp
  have guards: "guard_at h = guard_at (mem \<sigma>)"
    using call by (cases c)
      (auto simp: on_handle_def new_root_def alloc_node_def alloc_handle_def Let_def split: option.splits if_splits)
  have valid: "valid_shard (mem \<sigma>) (gd_shard gd)" if "guard_at (mem \<sigma>) g = Some gd" for g gd
    using heap_okD(5) [OF reachable_heap_ok [OF r(1)] that] by (simp add: guard_ok_def)
  have rooted: "guards_rooted h"
    using inv valid parent_of_extends [OF ext] guards
    by (fastforce simp: pins_ok_def guards_rooted_def valid_shard_def valid_node_def)
  have new: "rooted h g" if "g \<in> set fs" for g
  proof (cases "\<exists>x. c = CallGuardClone x")
    case True
    then obtain x gd where "guard_at (mem \<sigma>) x = Some gd" "fs = guard_clone gd @ [Borrow (OGuard x)]"
      using call by (auto split: option.splits if_splits)
    then show ?thesis
      using that guards_rootedD [OF rooted, of x gd] guards by (cases "gd_pin gd") (auto simp: rooted_def)
  next
    case False
    then show ?thesis
      using call that by (cases c) (auto simp: on_handle_def drop_frames_def split: option.splits if_splits)
  qed
  have "rooted h g" if g: "pending (\<sigma>\<lparr>mem := h, stack := (stack \<sigma>)(t := fs)\<rparr>) g" for g
  proof (cases "g \<in> set fs")
    case False
    then have "pending \<sigma> g" using g by (auto simp: pending_def split: if_splits)
    then show ?thesis
      using inv rooted_extends [OF ext] reachable_frame_ok [OF r(1)] by (auto simp: pins_ok_def pending_def)
  qed (rule new)
  then show ?thesis using rooted by (simp add: pins_ok_def)
qed

interpretation pins: system_invariant pins_ok
proof
  show "pins_ok (sys_init threads par)" for threads par
    by (simp add: pins_ok_def guards_rooted_def sys_init_def heap_init_def pending_def)
  show "pins_ok (\<sigma>\<lparr>mem := (mem \<sigma>)\<lparr>clock := clock (mem \<sigma>) + d\<rparr>\<rparr>)" if "pins_ok \<sigma>" for \<sigma> d
    using that by (simp add: pins_ok_def guards_rooted_def rooted_def pending_def parent_of_def)
qed (use pins_ok_call pins_ok_run in \<open>blast+\<close>)

lemmas reachable_pins_ok = pins.always

end
