(* ===== verification/Locks.thy ===== *)
theory Locks
  imports Registration
begin

text \<open>
  The mutexes of the shards, panics and deadlocks. A mutex is held exactly by the thread whose
  top frame is inside the critical section, a critical section never waits, and no operation
  panics: whenever some thread is in the middle of an operation, some thread can run.
\<close>

declare split_paired_All [simp del] split_paired_Ex [simp del]

section \<open>Critical sections\<close>

fun in_section :: "frame \<Rightarrow> bool" where
  "in_section (Stop (StopUpgrade n i cs live)) = True"
| "in_section (Intr (PollLocked i w)) = True"
| "in_section (Intr (PollRegister i w)) = True"
| "in_section _ = False"

text \<open>The shard whose mutex a frame is in the critical section of.\<close>

fun critical :: "heap \<Rightarrow> frame \<Rightarrow> sid option" where
  "critical h (Stop (StopUpgrade n i cs live)) = Some (n, i)"
| "critical h (Intr (PollLocked i w)) = map_option it_shard (interrupt_at h i)"
| "critical h (Intr (PollRegister i w)) = map_option it_shard (interrupt_at h i)"
| "critical h _ = None"

definition outside :: "frame list \<Rightarrow> bool" where
  "outside fs \<longleftrightarrow> (\<forall>f \<in> set fs. \<not> in_section f)"

lemma outside_simps [simp]:
  "outside []" "outside (f # fs) \<longleftrightarrow> \<not> in_section f \<and> outside fs" "outside (fs @ gs) \<longleftrightarrow> outside fs \<and> outside gs"
  by (auto simp: outside_def)

fun top_section :: "heap \<Rightarrow> frame list \<Rightarrow> sid option" where
  "top_section h [] = None"
| "top_section h (f # fs) = critical h f"

definition lock_ok :: "sys \<Rightarrow> bool" where
  "lock_ok \<sigma> \<longleftrightarrow> (\<forall>t<n_threads \<sigma>. outside (tl (stack \<sigma> t))) \<and>
     (\<forall>s t. sh_lock (shard_at (mem \<sigma>) s) = Some t \<longleftrightarrow> t < n_threads \<sigma> \<and> top_section (mem \<sigma>) (stack \<sigma> t) = Some s)"

lemma critical_outside: "\<not> in_section f \<Longrightarrow> critical h f = None"
  by (cases f rule: in_section.cases) auto

section \<open>Steps that leave the mutexes alone\<close>

text \<open>The mutexes of a new node are free.\<close>

definition same_locks :: "heap \<Rightarrow> heap \<Rightarrow> bool" where
  "same_locks h h' \<longleftrightarrow> (\<forall>s. sh_lock (shard_at h' s) = (if fst s \<in> {n_nodes h..<n_nodes h'} then None else sh_lock (shard_at h s)))"

definition same_lock_fields :: "heap \<Rightarrow> heap \<Rightarrow> bool" where
  "same_lock_fields h h' \<longleftrightarrow> n_nodes h' = n_nodes h \<and> (\<forall>s. sh_lock (shard_at h' s) = sh_lock (shard_at h s))"

lemma same_lock_fields_locks: "same_lock_fields h h' \<Longrightarrow> same_locks h h'"
  by (simp add: same_lock_fields_def same_locks_def)

lemma same_locks_refl [simp]: "same_lock_fields h h"
  by (simp add: same_lock_fields_def)

lemma same_locks_upd [simp]:
  "same_lock_fields h (set_shard_word s w h)" "same_lock_fields h (set_node_word n w h)"
  "same_lock_fields h (upd_shard s (sh_waiters_update fw) h)" "same_lock_fields h (upd_shard s (sh_guards_update fg) h)"
  "same_lock_fields h (upd_shard s (sh_children_update fc) h)" "same_lock_fields h (upd_node n g h)"
  "same_lock_fields h (arc_clone n h)"
  "same_lock_fields h (alloc_handle n h)" "same_lock_fields h (alloc_completion n h)"
  "same_lock_fields h (alloc_interrupt it h)"
  "same_lock_fields h (alloc_handle n (arc_clone m h))" "same_lock_fields h (alloc_completion n (arc_clone m h))"
  "same_lock_fields h (h\<lparr>info_strong := I\<rparr>)" "same_lock_fields h (h\<lparr>woken := W\<rparr>)" "same_lock_fields h (h\<lparr>clock := C\<rparr>)"
  "same_lock_fields h (h\<lparr>info_at := A, info_strong := I, n_infos := N\<rparr>)"
  "same_lock_fields h (h\<lparr>guard_at := G\<rparr>)" "same_lock_fields h (h\<lparr>interrupt_at := IA\<rparr>)"
  "same_lock_fields h (h\<lparr>handle_at := HA\<rparr>)" "same_lock_fields h (h\<lparr>completion_at := CA\<rparr>)"
  "same_lock_fields h (h\<lparr>index_of := IX, next_index := NX\<rparr>)"
  by (simp_all add: same_lock_fields_def set_shard_word_def set_node_word_def
      arc_clone_def alloc_handle_def alloc_completion_def alloc_interrupt_def)

lemma same_locks_index: "shard_index t n h = (h', i) \<Longrightarrow> same_lock_fields h h'"
  by (auto simp: shard_index_def thread_index_def Let_def split: prod.splits if_splits)

lemma same_locks_inner: "inner_shard t n h = (h', s) \<Longrightarrow> same_lock_fields h h'"
  using same_locks_index by (auto simp: inner_shard_def split: prod.splits)

fun takes_lock :: "frame \<Rightarrow> bool" where
  "takes_lock (Stop (StopChildren n i live)) = True"
| "takes_lock (Intr (PollLock i w)) = True"
| "takes_lock _ = False"

lemma count_locks: "count_step t b c h = Next h' gs \<Longrightarrow> same_lock_fields h h' \<and> outside gs"
  using count_frames [of t b c h h' gs]
proof (induction t b c h rule: count_step.induct)
  case (5 t sp n st h)
  then show ?case
    by (auto simp: node_arrive_loop_def shard_ref_def atomic_defs same_locks_index
        split: option.splits if_splits prod.splits)
qed (auto simp: step_defs shard_ref_def notify_zero_def atomic_defs Let_def
    simp del: upd_node_def upd_shard_def split: option.splits if_splits)

lemma outside_shards [simp]: "outside (stop_shards n h)"
  by (auto simp: outside_def stop_shards_def)

lemma outside_live: "outside (concat (map (\<lambda>c. [Stop (NodeStop c), Life (DropArc c)]) live))"
  by (induction live) simp_all

lemma stop_locks:
  "stop_step t c h = Next h' gs \<Longrightarrow> \<not> takes_lock (Stop c) \<Longrightarrow> \<not> in_section (Stop c) \<Longrightarrow> same_lock_fields h h' \<and> outside gs"
proof (induction t c h rule: stop_step.induct)
  case (4 t s w ws h)
  then show ?case by (cases ws) auto
qed (auto simp: step_defs notify_zero_def Let_def simp del: upd_node_def upd_shard_def split: if_splits)

lemma life_locks: "life_step t c h = Next h' gs \<Longrightarrow> same_locks h h' \<and> outside gs"
proof (cases c)
  case (ChildNew n)
  assume step: "life_step t c h = Next h' gs"
  obtain h1 i where h1: "shard_index t n h = (h1, i)" by fastforce
  then have "same_lock_fields h h1" by (rule same_locks_index)
  then have "same_lock_fields h (arc_clone n h1)" by (simp add: same_lock_fields_def arc_clone_def)
  then show ?thesis
    using step ChildNew h1
    by (auto simp: child_new_def Let_def alloc_node_def same_locks_def same_lock_fields_def shard_new_def less_Suc_eq_le
        split: prod.splits)
qed (auto simp: drop_arc_def child_check_def child_return_def child_register_def child_store_key_def deregister_def Let_def
      simp del: upd_node_def upd_shard_def split: if_splits option.splits prod.splits intro!: same_lock_fields_locks)

lemma provenance_return_outside [simp]: "outside (provenance_return s loc info to h)"
  by (cases to) simp_all

lemma guard_build_locks: "guard_build s pin loc info dst h = Next h' gs \<Longrightarrow> same_lock_fields h h' \<and> outside gs"
  by (auto simp: guard_build_def alloc_guard_def Let_def same_lock_fields_def arc_clone_def split: option.splits)

lemma guard_locks: "guard_step t b c h = Next h' gs \<Longrightarrow> same_lock_fields h h' \<and> outside gs"
  by (cases c) (auto simp: guard_at_location_def provenance_def provenance_register_def guard_for_shard_def arrive_if_arrived_def
      guard_upgrade_def weak_upgrade_def guard_flush_weak_def alloc_info_def
      guard_clone_arrive_def guard_drop_def guard_depart_def drop_info_def atomic_defs Let_def shard_depart_def
      simp del: upd_shard_def split: if_splits option.splits prod.splits dest: same_locks_inner guard_build_locks)

lemma swan_locks: "swan_step t c h = Next h' gs \<Longrightarrow> same_lock_fields h h' \<and> outside gs"
proof (cases c)
  case (InterruptNew n)
  assume "swan_step t c h = Next h' gs"
  with InterruptNew show ?thesis
    by (auto simp: interrupt_new_def same_lock_fields_def alloc_interrupt_def split: prod.splits dest!: same_locks_inner)
qed (auto simp: swansong_clone_def swansong_clone_arc_def handle_drop_def swansong_drop_def completion_new_def
      simp del: upd_node_def split: if_splits prod.splits)

lemma intr_locks:
  "intr_step t b c h = Next h' gs \<Longrightarrow> \<not> takes_lock (Intr c) \<Longrightarrow> \<not> in_section (Intr c) \<Longrightarrow> same_lock_fields h h' \<and> outside gs"
  by (cases "(t, b, c, h)" rule: intr_step.cases)
    (auto simp: poll_interrupt_def poll_wrapped_def poll_stopped_def poll_recheck_def listener_drop_def
      poll_returns_def on_interrupt_def Let_def set_interrupt_def
      simp del: upd_shard_def split: option.splits if_splits)

lemma locks_kept:
  assumes "exec t b f h = Next h' gs" "\<not> takes_lock f" "\<not> in_section f"
  shows "same_locks h h' \<and> outside gs"
  using assms count_locks stop_locks life_locks guard_locks swan_locks intr_locks same_lock_fields_locks
  by (cases f) fastforce+

section \<open>Interrupts stay on their shard\<close>

definition shards_kept :: "heap \<Rightarrow> heap \<Rightarrow> bool" where
  "shards_kept h h' \<longleftrightarrow> (\<forall>i it. interrupt_at h i = Some it \<longrightarrow>
     (\<exists>it'. interrupt_at h' i = Some it' \<and> it_shard it' = it_shard it))"

lemma shards_kept_same [simp]: "interrupt_at h' = interrupt_at h \<Longrightarrow> shards_kept h h'"
  by (simp add: shards_kept_def)

lemma interrupt_at_upd [simp]:
  "interrupt_at (set_shard_word s w h) = interrupt_at h" "interrupt_at (set_node_word n w h) = interrupt_at h"
  "interrupt_at (upd_shard s f h) = interrupt_at h" "interrupt_at (upd_node n g h) = interrupt_at h"
  "interrupt_at (arc_clone n h) = interrupt_at h" "interrupt_at (alloc_handle n h) = interrupt_at h"
  "interrupt_at (alloc_completion n h) = interrupt_at h" "interrupt_at (lock_acquire t s h) = interrupt_at h"
  "interrupt_at (lock_release s h) = interrupt_at h" "interrupt_at (notify_zero n h) = interrupt_at h"
  by (simp_all add: set_shard_word_def set_node_word_def arc_clone_def alloc_handle_def alloc_completion_def
      lock_acquire_def lock_release_def notify_zero_def)

lemma interrupt_at_index: "shard_index t n h = (h', i) \<Longrightarrow> interrupt_at h' = interrupt_at h"
  by (auto simp: shard_index_def thread_index_def Let_def split: prod.splits if_splits)

lemma interrupt_at_inner: "inner_shard t n h = (h', s) \<Longrightarrow> interrupt_at h' = interrupt_at h"
  using interrupt_at_index by (auto simp: inner_shard_def split: prod.splits)

lemma count_interrupts: "count_step t b c h = Next h' gs \<Longrightarrow> interrupt_at h' = interrupt_at h"
proof (induction t b c h rule: count_step.induct)
  case (5 t sp n st h)
  then show ?case
    by (auto simp: node_arrive_loop_def shard_ref_def atomic_defs interrupt_at_index
        split: option.splits if_splits prod.splits)
qed (auto simp: step_defs shard_ref_def atomic_defs Let_def
    simp del: upd_node_def upd_shard_def split: option.splits if_splits)

lemma stop_interrupts: "stop_step t c h = Next h' gs \<Longrightarrow> interrupt_at h' = interrupt_at h"
proof (induction t c h rule: stop_step.induct)
  case (4 t s w ws h)
  then show ?case by (cases ws) auto
next
  case (7 t n i cs live h)
  then show ?case by (cases cs) (auto simp: weak_upgrade_def split: if_splits)
qed (auto simp: step_defs Let_def simp del: upd_node_def upd_shard_def split: if_splits)

lemma life_interrupts: "life_step t c h = Next h' gs \<Longrightarrow> interrupt_at h' = interrupt_at h"
proof (cases c)
  case (ChildNew n)
  assume "life_step t c h = Next h' gs"
  with ChildNew show ?thesis
    by (auto simp: child_new_def Let_def alloc_node_def split: prod.splits dest!: interrupt_at_index)
qed (auto simp: drop_arc_def child_check_def child_return_def child_register_def child_store_key_def deregister_def Let_def
      simp del: upd_node_def upd_shard_def split: if_splits option.splits prod.splits)

lemma guard_build_shards: "guard_build s pin loc info dst h = Next h' gs \<Longrightarrow> shards_kept h h'"
  by (auto simp: guard_build_def alloc_guard_def Let_def shards_kept_def arc_clone_def split: option.splits)

lemma guard_shards: "guard_step t b c h = Next h' gs \<Longrightarrow> shards_kept h h'"
  by (cases c) (auto simp: guard_at_location_def provenance_def provenance_register_def guard_for_shard_def arrive_if_arrived_def
      guard_upgrade_def weak_upgrade_def guard_flush_weak_def alloc_info_def
      guard_clone_arrive_def guard_drop_def guard_depart_def drop_info_def atomic_defs Let_def shard_depart_def
      simp del: upd_shard_def split: if_splits option.splits prod.splits dest: interrupt_at_inner guard_build_shards)

lemma swan_shards:
  assumes step: "swan_step t c h = Next h' gs" and ok: "heap_ok h"
  shows "shards_kept h h'"
proof (cases c)
  case (InterruptNew n)
  then obtain h1 s where h1: "inner_shard t n h = (h1, s)" "h' = alloc_interrupt (stop_listener_new s) h1"
    using step by (auto simp: interrupt_new_def split: prod.splits)
  have "n_interrupts h1 = n_interrupts h"
    using h1(1) by (auto simp: inner_shard_def shard_index_def thread_index_def Let_def split: prod.splits if_splits)
  then show ?thesis
    using h1(2) interrupt_at_inner [OF h1(1)] heap_okD(6) [OF ok] by (fastforce simp: shards_kept_def alloc_interrupt_def)
qed (use step in \<open>auto simp: swansong_clone_def swansong_clone_arc_def handle_drop_def swansong_drop_def completion_new_def
      simp del: upd_node_def split: if_splits prod.splits\<close>)

lemma intr_shards: "intr_step t b c h = Next h' gs \<Longrightarrow> shards_kept h h'"
  by (cases "(t, b, c, h)" rule: intr_step.cases)
    (auto simp: poll_interrupt_def poll_wrapped_def poll_stopped_def poll_recheck_def listener_drop_def poll_lock_def
      poll_locked_def poll_register_def poll_returns_def on_interrupt_def Let_def set_interrupt_def shards_kept_def
      simp del: upd_shard_def split: option.splits if_splits)

lemma exec_shards_kept:
  assumes "exec t b f h = Next h' gs" "heap_ok h"
  shows "shards_kept h h'"
  using assms by (cases f) (auto dest: count_interrupts stop_interrupts life_interrupts guard_shards swan_shards intr_shards)

lemma critical_kept:
  "shards_kept h h' \<Longrightarrow> (\<And>i. uses f = Some i \<Longrightarrow> interrupt_at h i \<noteq> None) \<Longrightarrow> critical h' f = critical h f"
  by (cases "(h, f)" rule: critical.cases) (fastforce simp: shards_kept_def)+

text \<open>An interrupt that is used is there.\<close>

lemma used_present:
  assumes "reachable \<sigma>" "t < n_threads \<sigma>" "stack \<sigma> t = f # fs" "uses f = Some i"
  shows "Borrow (OInterrupt i) \<in> set fs" "borrowed (OInterrupt i) \<sigma>" "\<exists>it. interrupt_at (mem \<sigma>) i = Some it \<and> valid_shard (mem \<sigma>) (it_shard it)"
proof -
  show b: "Borrow (OInterrupt i) \<in> set fs"
    using owner_okD(3) [OF reachable_owner_ok [OF assms(1)] assms(2)] assms(3,4) by (simp add: backed_def)
  then show br: "borrowed (OInterrupt i) \<sigma>"
    using assms(2,3) by (auto simp: borrowed_def intro!: exI [of _ t])
  then show "\<exists>it. interrupt_at (mem \<sigma>) i = Some it \<and> valid_shard (mem \<sigma>) (it_shard it)"
    using owner_okD(4) [OF reachable_owner_ok [OF assms(1)] br] heap_okD(6) [OF reachable_heap_ok [OF assms(1)]]
    by auto
qed

section \<open>Steps that take or release a mutex\<close>

lemma lock_fields [simp]:
  "sh_lock (shard_at (lock_acquire t s h) s') = (if s' = s then Some t else sh_lock (shard_at h s'))"
  "sh_lock (shard_at (lock_release s h) s') = (if s' = s then None else sh_lock (shard_at h s'))"
  "n_nodes (lock_acquire t s h) = n_nodes h" "n_nodes (lock_release s h) = n_nodes h"
  by (simp_all add: lock_acquire_def lock_release_def)

text \<open>The mutex a frame takes, holds, or has released with the step.\<close>

lemma takes_lock_effect:
  assumes step: "exec t b f h = Next h' gs" and f: "takes_lock f"
  shows "same_lock_fields h h' \<and> outside gs \<or>
    (\<exists>s g. sh_lock (shard_at h s) = None \<and> gs = [g] \<and> critical h' g = Some s \<and>
       (\<forall>s'. sh_lock (shard_at h' s') = (if s' = s then Some t else sh_lock (shard_at h s'))))"
  using step f
  by (cases f rule: takes_lock.cases)
    (auto simp: stop_children_def poll_lock_def on_interrupt_def outside_live split: if_splits option.splits)

lemma section_effect:
  assumes step: "exec t b f h = Next h' gs" and f: "in_section f" and s: "critical h f = Some s"
  shows "(\<exists>g. gs = [g] \<and> critical h' g = Some s \<and> (\<forall>s'. sh_lock (shard_at h' s') = sh_lock (shard_at h s'))) \<or>
    (outside gs \<and> (\<forall>s'. sh_lock (shard_at h' s') = (if s' = s then None else sh_lock (shard_at h s'))))"
  using f
proof (cases f rule: in_section.cases)
  case (1 n i cs live)
  then show ?thesis using step s
    by (cases cs) (auto simp: weak_upgrade_def arc_clone_def split: if_splits)
next
  case (2 i w)
  then show ?thesis using step s
    by (auto simp: poll_locked_def on_interrupt_def poll_returns_def split: if_splits option.splits)
next
  case (3 i w)
  then show ?thesis using step s
    by (auto simp: poll_register_def on_interrupt_def poll_returns_def Let_def lock_release_def split: if_splits option.splits)
qed auto

section \<open>The mutex invariant\<close>

lemma lock_okD:
  assumes "lock_ok \<sigma>"
  shows "t < n_threads \<sigma> \<Longrightarrow> outside (tl (stack \<sigma> t))"
    "sh_lock (shard_at (mem \<sigma>) s) = Some t \<longleftrightarrow> t < n_threads \<sigma> \<and> top_section (mem \<sigma>) (stack \<sigma> t) = Some s"
  using assms unfolding lock_ok_def by blast+

lemma top_section_outside: "outside fs \<Longrightarrow> top_section h fs = None"
  by (cases fs) (auto simp: critical_outside)

lemma outside_tl: "outside fs \<Longrightarrow> outside (tl fs)"
  by (cases fs) auto

text \<open>A step of one thread leaves the sections of the others as they are.\<close>

lemma top_section_kept:
  assumes "reachable \<sigma>" "u < n_threads \<sigma>" "shards_kept (mem \<sigma>) h"
  shows "top_section h (stack \<sigma> u) = top_section (mem \<sigma>) (stack \<sigma> u)"
proof (cases "stack \<sigma> u")
  case (Cons f fs)
  show ?thesis
    using critical_kept [OF assms(3), of f] used_present(3) [OF assms(1,2) Cons] Cons by auto
qed simp

text \<open>No mutex of a node that does not exist yet is held.\<close>

lemma unborn_lock:
  assumes "reachable \<sigma>" "lock_ok \<sigma>" "\<not> fst s < n_nodes (mem \<sigma>)"
  shows "sh_lock (shard_at (mem \<sigma>) s) = None"
proof (rule ccontr)
  assume "sh_lock (shard_at (mem \<sigma>) s) \<noteq> None"
  then obtain t where t: "t < n_threads \<sigma>" "top_section (mem \<sigma>) (stack \<sigma> t) = Some s"
    using lock_okD(2) [OF assms(2)] by auto
  then obtain f fs where f: "stack \<sigma> t = f # fs" "critical (mem \<sigma>) f = Some s" by (cases "stack \<sigma> t") auto
  have "valid_shard (mem \<sigma>) s"
    using reachable_top_ok [OF assms(1) t(1) f(1)] used_present(3) [OF assms(1) t(1) f(1)] f(2)
    by (cases "(mem \<sigma>, f)" rule: critical.cases) auto
  then show False using assms(3) by (simp add: valid_shard_def)
qed

lemma lock_ok_replace:
  assumes inv: "lock_ok \<sigma>" and t: "t < n_threads \<sigma>" and out: "outside (tl fs)"
    and others: "\<And>u. u < n_threads \<sigma> \<Longrightarrow> u \<noteq> t \<Longrightarrow> top_section h (stack \<sigma> u) = top_section (mem \<sigma>) (stack \<sigma> u)"
    and locks: "\<And>s u. u \<noteq> t \<Longrightarrow> sh_lock (shard_at h s) = Some u \<longleftrightarrow> sh_lock (shard_at (mem \<sigma>) s) = Some u"
      "\<And>s. sh_lock (shard_at h s) = Some t \<longleftrightarrow> top_section h fs = Some s"
  shows "lock_ok (\<sigma>\<lparr>mem := h, stack := (stack \<sigma>)(t := fs)\<rparr>)"
proof -
  have "sh_lock (shard_at h s) = Some u \<longleftrightarrow> u < n_threads \<sigma> \<and> top_section h (((stack \<sigma>)(t := fs)) u) = Some s" for s u
  proof (cases "u = t")
    case True
    then show ?thesis using locks(2) t by simp
  next
    case False
    then show ?thesis using locks(1) [OF False] lock_okD(2) [OF inv] others [OF _ False] by auto
  qed
  moreover have "outside (tl (((stack \<sigma>)(t := fs)) u))" if "u < n_threads \<sigma>" for u
    using lock_okD(1) [OF inv that] out by simp
  ultimately show ?thesis by (simp add: lock_ok_def)
qed

lemma lock_ok_run:
  assumes r: "reachable \<sigma>" "t < n_threads \<sigma>" "stack \<sigma> t = f # fs" and step: "exec t b f (mem \<sigma>) = Next h gs"
    and inv: "lock_ok \<sigma>"
  shows "lock_ok (\<sigma>\<lparr>mem := h, stack := (stack \<sigma>)(t := gs @ fs)\<rparr>)"
proof -
  have kept: "shards_kept (mem \<sigma>) h" by (rule exec_shards_kept [OF step reachable_heap_ok [OF r(1)]])
  have fs: "outside fs" using lock_okD(1) [OF inv r(2)] r(3) by simp
  have none: "top_section h (gs @ fs) = None" if "outside gs" using that fs by (intro top_section_outside) simp
  have out: "outside (tl (gs @ fs))" if "outside gs \<or> (\<exists>g. gs = [g])"
    using that fs outside_tl by (cases gs) auto
  have mine: "sh_lock (shard_at (mem \<sigma>) s) = Some t \<longleftrightarrow> critical (mem \<sigma>) f = Some s" for s
    using lock_okD(2) [OF inv, of s t] r(2,3) by simp
  note replace = lock_ok_replace [OF inv r(2) out top_section_kept [OF r(1) _ kept]]
  have same: ?thesis if "same_locks (mem \<sigma>) h" "outside gs" "\<not> in_section f"
  proof (rule replace)
    have lock: "sh_lock (shard_at h s) = sh_lock (shard_at (mem \<sigma>) s)" for s
      using that(1) unborn_lock [OF r(1) inv, of s] by (auto simp: same_locks_def)
    then show "sh_lock (shard_at h s) = Some u \<longleftrightarrow> sh_lock (shard_at (mem \<sigma>) s) = Some u" for s u by simp
    show "sh_lock (shard_at h s) = Some t \<longleftrightarrow> top_section h (gs @ fs) = Some s" for s
      using lock none [OF that(2)] mine critical_outside [OF that(3)] by simp
  qed (use that(2) in auto)
  consider (plain) "\<not> takes_lock f" "\<not> in_section f" | (take) "takes_lock f" | (inside) "in_section f" by blast
  then show ?thesis
  proof cases
    case plain
    then show ?thesis using locks_kept [OF step plain] same by blast
  next
    case take
    then have f: "\<not> in_section f" by (cases f rule: takes_lock.cases) auto
    from takes_lock_effect [OF step take] show ?thesis
    proof (elim disjE exE conjE)
      assume "same_lock_fields (mem \<sigma>) h" "outside gs"
      then show ?thesis using same f same_lock_fields_locks by blast
    next
      fix s g
      assume e: "sh_lock (shard_at (mem \<sigma>) s) = None" "gs = [g]" "critical h g = Some s"
        "\<forall>s'. sh_lock (shard_at h s') = (if s' = s then Some t else sh_lock (shard_at (mem \<sigma>) s'))"
      show ?thesis
        by (rule replace) (use e mine critical_outside [OF f] in \<open>auto split: if_splits\<close>)
    qed
  next
    case inside
    have "critical (mem \<sigma>) f \<noteq> None"
      using inside used_present(3) [OF r] by (cases f rule: in_section.cases) auto
    then obtain s where s: "critical (mem \<sigma>) f = Some s" by blast
    from section_effect [OF step inside s] show ?thesis
    proof (elim disjE exE conjE)
      fix g
      assume e: "gs = [g]" "critical h g = Some s" "\<forall>s'. sh_lock (shard_at h s') = sh_lock (shard_at (mem \<sigma>) s')"
      show ?thesis by (rule replace) (use e mine s in auto)
    next
      assume e: "outside gs" "\<forall>s'. sh_lock (shard_at h s') = (if s' = s then None else sh_lock (shard_at (mem \<sigma>) s'))"
      have held: "sh_lock (shard_at (mem \<sigma>) s) = Some t" using mine s by simp
      show ?thesis
      proof (rule replace)
        show "sh_lock (shard_at h s') = Some u \<longleftrightarrow> sh_lock (shard_at (mem \<sigma>) s') = Some u" if "u \<noteq> t" for s' u
          using e(2) held that by (cases "s' = s") simp_all
        show "sh_lock (shard_at h s') = Some t \<longleftrightarrow> top_section h (gs @ fs) = Some s'" for s'
          using e(2) none [OF e(1)] mine s by (cases "s' = s") auto
      qed (use e(1) in auto)
    qed
  qed
qed

lemma begin_call_effect:
  assumes "begin_call c h = Some (h', fs)"
  shows "outside fs" "same_locks h h'"
  using assms
  by (cases c; auto simp: on_handle_def drop_frames_def same_locks_def set_interrupt_def new_root_def alloc_node_def
      alloc_handle_def Let_def shard_new_def less_Suc_eq_le split: option.splits if_splits)+

lemma begin_call_shards:
  assumes "begin_call c h = Some (h', fs)" "\<And>i. c \<noteq> CallInterruptDrop i"
  shows "shards_kept h h'"
  using assms
  by (cases c) (auto simp: on_handle_def shards_kept_def set_interrupt_def new_root_def alloc_node_def
      alloc_handle_def Let_def split: option.splits if_splits)

lemma lock_ok_call:
  assumes r: "reachable \<sigma>" "t < n_threads \<sigma>" "stack \<sigma> t = []" and may: "may_call c \<sigma>"
    and call: "begin_call c (mem \<sigma>) = Some (h, fs)" and inv: "lock_ok \<sigma>"
  shows "lock_ok (\<sigma>\<lparr>mem := h, stack := (stack \<sigma>)(t := fs)\<rparr>)"
proof (rule lock_ok_replace [OF inv r(2)])
  note out = begin_call_effect(1) [OF call]
  show "outside (tl fs)" using out by (rule outside_tl)
  have lock: "sh_lock (shard_at h s) = sh_lock (shard_at (mem \<sigma>) s)" for s
    using begin_call_effect(2) [OF call] unborn_lock [OF r(1) inv, of s] by (auto simp: same_locks_def)
  then show "sh_lock (shard_at h s) = Some u \<longleftrightarrow> sh_lock (shard_at (mem \<sigma>) s) = Some u" for s u by simp
  show "sh_lock (shard_at h s) = Some t \<longleftrightarrow> top_section h fs = Some s" for s
    using lock top_section_outside [OF out] lock_okD(2) [OF inv, of s t] r(3) by simp
  show "top_section h (stack \<sigma> u) = top_section (mem \<sigma>) (stack \<sigma> u)" if u: "u < n_threads \<sigma>" "u \<noteq> t" for u
  proof (cases "\<exists>i. c = CallInterruptDrop i")
    case False
    then show ?thesis by (intro top_section_kept [OF r(1) u(1)] begin_call_shards [OF call]) blast
  next
    case True
    then obtain i where c: "c = CallInterruptDrop i" by blast
    have h: "interrupt_at h = (interrupt_at (mem \<sigma>))(i := None)" using call c by (auto split: option.splits)
    show ?thesis
    proof (cases "stack \<sigma> u")
      case (Cons f gs)
      have "uses f \<noteq> Some i" using used_present(2) [OF r(1) u(1) Cons] may c by (auto simp: may_call_def)
      then show ?thesis using h Cons by (cases "(h, f)" rule: critical.cases) auto
    qed simp
  qed
qed

interpretation locks: system_invariant lock_ok
proof
  show "lock_ok (sys_init threads par)" for threads par
    by (simp add: lock_ok_def sys_init_def heap_init_def shard_new_def)
  show "lock_ok (\<sigma>\<lparr>mem := (mem \<sigma>)\<lparr>clock := clock (mem \<sigma>) + d\<rparr>\<rparr>)" if "lock_ok \<sigma>" for \<sigma> d
  proof -
    have "top_section ((mem \<sigma>)\<lparr>clock := clock (mem \<sigma>) + d\<rparr>) fs = top_section (mem \<sigma>) fs" for fs
    proof (cases fs)
      case (Cons f gs)
      then show ?thesis by (cases "(mem \<sigma>, f)" rule: critical.cases) auto
    qed simp
    with that show ?thesis by (simp add: lock_ok_def)
  qed
qed (use lock_ok_call lock_ok_run in \<open>blast+\<close>)

lemmas reachable_lock_ok = locks.always

section \<open>No panic\<close>

lemma life_no_panic:
  assumes r: "reachable \<sigma>" "t < n_threads \<sigma>" "stack \<sigma> t = Life c # fs"
  shows "life_step t c (mem \<sigma>) \<noteq> Panic"
proof (cases c)
  case (ChildRegister d)
  note ok = reachable_top_ok [OF r]
  then obtain link where link: "in_parent (node_at (mem \<sigma>) d) = Some link" and d: "valid_node (mem \<sigma>) d"
    using ChildRegister by (auto simp: parent_of_def)
  have "valid_shard (mem \<sigma>) (p_node link, p_shard link)"
    using heap_okD(2) [OF reachable_heap_ok [OF r(1)] d] link d by (auto simp: node_ok_def valid_shard_def valid_node_def)
  then have "slab_ok (sh_children (shard_at (mem \<sigma>) (p_node link, p_shard link)))"
    using heap_okD(1) [OF reachable_heap_ok [OF r(1)]] by (simp add: shard_ok_def)
  then have "slab_insert (sh_children (shard_at (mem \<sigma>) (p_node link, p_shard link))) d \<noteq> None"
    by (rule slab.insert_neq_None)
  then show ?thesis using link ChildRegister
    by (auto simp: child_register_def with_lock_def Let_def split: option.splits)
next
  case (ChildCheck d)
  then show ?thesis using reachable_top_ok [OF r] by (auto simp: child_check_def parent_of_def split: option.splits)
next
  case (Deregister d)
  show ?thesis
  proof (cases "in_parent (node_at (mem \<sigma>) d)")
    case None
    then show ?thesis using Deregister by (simp add: deregister_def)
  next
    case (Some link)
    then have l: "link_of (mem \<sigma>) d = Some (p_node link, p_shard link)" "child_key (mem \<sigma>) d = p_key link"
      by (simp_all add: link_of_def child_key_def)
    have "child_ok \<sigma> d"
      using registration_okD(1) [OF reachable_registration_ok [OF r(1)], of d] reachable_top_ok [OF r] Deregister l(1)
      by (simp add: valid_node_def)
    then have "child_keys (mem \<sigma>) d = {child_key (mem \<sigma>) d}"
      using child_phase [OF _ top_pending [OF r(2,3)]] Deregister by auto
    then have "slab_lookup (sh_children (shard_at (mem \<sigma>) (p_node link, p_shard link))) (p_key link) = Some d"
      using l by (auto simp: child_keys_def child_slab_def)
    then have "snd (slab_remove (sh_children (shard_at (mem \<sigma>) (p_node link, p_shard link))) (p_key link)) \<noteq> None"
      by (simp add: slab.remove_result)
    then show ?thesis using Some Deregister
      by (auto simp: deregister_def with_lock_def Let_def split: prod.splits option.splits)
  qed
qed (auto simp: drop_arc_def child_new_def child_store_key_def child_return_def Let_def split: prod.splits if_splits option.splits)

lemma guard_no_panic:
  assumes r: "reachable \<sigma>" "t < n_threads \<sigma>" "stack \<sigma> t = Grd c # fs"
  shows "guard_step t b c (mem \<sigma>) \<noteq> Panic"
proof (cases c)
  case (GuardCloneArrive s pin loc info)
  obtain g gd where g: "guard_at (mem \<sigma>) g = Some gd" "gd_shard gd = s"
    using owner_okD(3) [OF reachable_owner_ok [OF r(1)] r(2)] r(3) GuardCloneArrive by (auto simp: backed_def)
  note counted = guard_counted [OF reachable_sys_ok [OF r(1)] g(1)]
  have "unarrived_empty (shard_word (mem \<sigma>) s)"
    using words_okD(1) [of "mem \<sigma>"] reachable_sys_ok [OF r(1)] counted(2) g(2) by (simp add: sys_ok_def)
  then have "arrived_bit (shard_word (mem \<sigma>) s)" using counted(1) g(2) by (auto simp: unarrived_empty_def)
  then have "shard_word (mem \<sigma>) s AND ARRIVED \<noteq> 0 \<and> shard_word (mem \<sigma>) s AND NOT (ARRIVED OR STOPPED) \<noteq> 0"
    using counted(1) g(2) unfolding arrived_test nonempty_test by simp
  then have "guard_clone_arrive s pin loc info (mem \<sigma>) \<noteq> Panic"
    unfolding guard_clone_arrive_def Let_def by (metis outcome.distinct(3))
  then show ?thesis using GuardCloneArrive by simp
next
  case (GuardDrop g)
  have "0 < frames_count \<sigma> (Grd (GuardDrop g))"
    using r(2,3) GuardDrop by (auto simp: frames_count_pos intro!: exI [of _ t])
  then have "guard_at (mem \<sigma>) g \<noteq> None"
    using owner_okD(7) [OF reachable_owner_ok [OF r(1)], of g] by (simp add: guard_claims_def)
  then show ?thesis using GuardDrop by (auto simp: guard_drop_def)
qed (auto simp: guard_at_location_def provenance_def provenance_register_def guard_for_shard_def arrive_if_arrived_def
      guard_upgrade_def guard_build_def guard_depart_def guard_flush_weak_def drop_info_def with_lock_def atomic_defs Let_def
      split: prod.splits option.splits if_splits)

lemma stop_no_panic: "stop_step t c h \<noteq> Panic"
proof (induction t c h rule: stop_step.induct)
  case (4 t s w ws h)
  then show ?case by (cases ws) auto
next
  case (7 t n i cs live h)
  then show ?case by (cases cs) (auto split: option.splits)
qed (auto simp: step_defs with_lock_def Let_def)

lemma swan_no_panic: "swan_step t c h \<noteq> Panic"
  by (cases c) (auto simp: step_defs split: prod.splits)

lemma intr_no_panic:
  assumes r: "reachable \<sigma>" "t < n_threads \<sigma>" "stack \<sigma> t = Intr c # fs"
  shows "intr_step t b c (mem \<sigma>) \<noteq> Panic"
proof (cases "uses (Intr c)")
  case None
  then show ?thesis by (cases c) (auto simp: listener_drop_def with_lock_def)
next
  case (Some i)
  then obtain it where it: "interrupt_at (mem \<sigma>) i = Some it" "valid_shard (mem \<sigma>) (it_shard it)"
    using used_present(3) [OF r] by blast
  have slab: "slab_ok (sh_waiters (shard_at (mem \<sigma>) (it_shard it)))"
    using heap_okD(1) [OF reachable_heap_ok [OF r(1)] it(2)] by (simp add: shard_ok_def)
  show ?thesis
  proof (cases c)
    case (PollRegister j w)
    then have j: "j = i" using Some by simp
    let ?waiters = "case it_registration it of None \<Rightarrow> sh_waiters (shard_at (mem \<sigma>) (it_shard it))
      | Some r \<Rightarrow> fst (slab_remove (sh_waiters (shard_at (mem \<sigma>) (it_shard it))) (rn_key r))"
    have "slab_ok ?waiters" using slab slab.remove_ok [OF slab] by (simp split: option.splits)
    then have "slab_insert ?waiters w \<noteq> None" by (rule slab.insert_neq_None)
    then show ?thesis using PollRegister it j
      by (auto simp: poll_register_def on_interrupt_def poll_returns_def Let_def split: option.splits)
  qed (use Some it in \<open>auto simp: poll_interrupt_def poll_wrapped_def poll_stopped_def poll_recheck_def poll_lock_def
      poll_locked_def poll_returns_def on_interrupt_def with_lock_def split: option.splits\<close>)
qed

lemma exec_no_panic:
  assumes r: "reachable \<sigma>" "t < n_threads \<sigma>" "stack \<sigma> t = f # fs"
  shows "exec t b f (mem \<sigma>) \<noteq> Panic"
proof (cases f)
  case (Count c)
  then show ?thesis
    using count_progress [OF reachable_heap_ok [OF r(1)], of c t b] reachable_top_ok [OF r] by auto
qed (use r life_no_panic guard_no_panic stop_no_panic swan_no_panic intr_no_panic in auto)

section \<open>No deadlock\<close>

text \<open>A frame only waits for a mutex that some thread holds, and that thread does not wait.\<close>

definition some_lock :: "heap \<Rightarrow> bool" where
  "some_lock h \<longleftrightarrow> (\<exists>s u. sh_lock (shard_at h s) = Some u)"

lemma with_lock_blocked [simp]: "with_lock s h k = Blocked \<longleftrightarrow> sh_lock (shard_at h s) \<noteq> None \<or> k = Blocked"
  by (simp add: with_lock_def)

lemma some_lockI: "sh_lock (shard_at h s) = Some u \<Longrightarrow> some_lock h"
  by (auto simp: some_lock_def)

lemma count_not_blocked: "count_step t b c h \<noteq> Blocked"
  by (induction t b c h rule: count_step.induct)
    (auto simp: step_defs shard_ref_def atomic_defs Let_def split: prod.splits option.splits if_splits)

lemma stop_blocked: "stop_step t c h = Blocked \<Longrightarrow> some_lock h \<and> \<not> in_section (Stop c)"
proof (induction t c h rule: stop_step.induct)
  case (4 t s w ws h)
  then show ?case by (cases ws) auto
next
  case (7 t n i cs live h)
  then show ?case by (cases cs) (auto split: option.splits)
qed (auto simp: step_defs Let_def intro: some_lockI split: if_splits)

lemma life_blocked: "life_step t c h = Blocked \<Longrightarrow> some_lock h"
  by (cases c) (auto simp: drop_arc_def child_new_def child_store_key_def child_return_def child_check_def
      child_register_def deregister_def Let_def intro: some_lockI split: prod.splits option.splits if_splits)

lemma guard_blocked: "guard_step t b c h = Blocked \<Longrightarrow> some_lock h"
  by (cases c) (auto simp: guard_at_location_def provenance_def provenance_register_def guard_for_shard_def arrive_if_arrived_def
      guard_upgrade_def guard_build_def guard_depart_def guard_flush_weak_def drop_info_def guard_clone_arrive_def
      guard_drop_def atomic_defs Let_def intro: some_lockI split: prod.splits option.splits if_splits)

lemma swan_not_blocked: "swan_step t c h \<noteq> Blocked"
  by (cases c) (auto simp: step_defs split: prod.splits)

lemma intr_blocked: "intr_step t b c h = Blocked \<Longrightarrow> some_lock h \<and> \<not> in_section (Intr c)"
  by (cases "(t, b, c, h)" rule: intr_step.cases)
    (auto simp: poll_interrupt_def poll_wrapped_def poll_stopped_def poll_recheck_def listener_drop_def poll_lock_def
      poll_locked_def poll_register_def poll_returns_def on_interrupt_def Let_def intro: some_lockI
      split: option.splits if_splits)

lemma exec_blocked: "exec t b f h = Blocked \<Longrightarrow> some_lock h"
  using count_not_blocked stop_blocked life_blocked guard_blocked swan_not_blocked intr_blocked by (cases f) fastforce+

lemma section_not_blocked: "in_section f \<Longrightarrow> exec t b f h \<noteq> Blocked"
proof (cases f)
  case (Stop c)
  then show "in_section f \<Longrightarrow> exec t b f h \<noteq> Blocked" using stop_blocked [of t c h] by auto
next
  case (Intr c)
  then show "in_section f \<Longrightarrow> exec t b f h \<noteq> Blocked" using intr_blocked [of t b c h] by auto
qed auto

lemma not_blocked_steps:
  assumes "reachable \<sigma>" "t < n_threads \<sigma>" "stack \<sigma> t = f # fs" "exec t b f (mem \<sigma>) \<noteq> Blocked"
  shows "\<exists>\<sigma>'. step \<sigma> (Run t b) \<sigma>'"
proof -
  obtain h gs where "exec t b f (mem \<sigma>) = Next h gs"
    using exec_no_panic [OF assms(1-3), of b] assms(4) by (cases "exec t b f (mem \<sigma>)") auto
  then show ?thesis using step.run [OF assms(2,3)] by blast
qed

lemma some_thread_steps:
  assumes r: "reachable \<sigma>" "t < n_threads \<sigma>" "stack \<sigma> t \<noteq> []"
  shows "\<exists>u < n_threads \<sigma>. \<exists>\<sigma>'. step \<sigma> (Run u b) \<sigma>'"
proof -
  obtain f fs where f: "stack \<sigma> t = f # fs" using r(3) by (cases "stack \<sigma> t") auto
  show ?thesis
  proof (cases "exec t b f (mem \<sigma>) = Blocked")
    case False
    then show ?thesis using not_blocked_steps [OF r(1,2) f] r(2) by blast
  next
    case True
    then have "some_lock (mem \<sigma>)" by (rule exec_blocked)
    then obtain s u where u: "sh_lock (shard_at (mem \<sigma>) s) = Some u" unfolding some_lock_def by blast
    then have top: "u < n_threads \<sigma>" "top_section (mem \<sigma>) (stack \<sigma> u) = Some s"
      using lock_okD(2) [OF reachable_lock_ok [OF r(1)]] by blast+
    then obtain g gs where g: "stack \<sigma> u = g # gs" "critical (mem \<sigma>) g = Some s" by (cases "stack \<sigma> u") auto
    then have "in_section g" using critical_outside by fastforce
    then show ?thesis using not_blocked_steps [OF r(1) top(1) g(1)] section_not_blocked top(1) by blast
  qed
qed

end
