(* ===== verification/Propagation.thy ===== *)
theory Propagation
  imports Locks
begin

text \<open>
  Stopping goes down the tree. While a node is stopped, every live child of it is stopped or
  some thread is on its way to stop it: the thread that stops the parent, or the one that
  registers the child. When no such thread is left, all live descendants are stopped.
\<close>

text \<open>A frame that leads to the stop of the child \<open>c\<close>, linked to the shard \<open>s\<close> of its parent.\<close>

fun will_stop :: "sid \<Rightarrow> nid \<Rightarrow> frame \<Rightarrow> bool" where
  "will_stop s c (Stop (NodeStop d)) \<longleftrightarrow> d = c"
| "will_stop s c (Stop (StopChildren m j live)) \<longleftrightarrow> (m = fst s \<and> j \<le> snd s) \<or> c \<in> set live"
| "will_stop s c (Stop (StopUpgrade m j cs live)) \<longleftrightarrow>
     (m = fst s \<and> (j < snd s \<or> (j = snd s \<and> c \<in> set cs))) \<or> c \<in> set live"
| "will_stop s c (Life (ChildRegister d)) \<longleftrightarrow> d = c"
| "will_stop s c (Life (ChildStoreKey d k)) \<longleftrightarrow> d = c"
| "will_stop s c (Life (ChildCheck d)) \<longleftrightarrow> d = c"
| "will_stop s c _ \<longleftrightarrow> False"

definition stops_children :: "sys \<Rightarrow> bool" where
  "stops_children \<sigma> \<longleftrightarrow> (\<forall>c s. c < n_nodes (mem \<sigma>) \<longrightarrow> link_of (mem \<sigma>) c = Some s \<longrightarrow>
     node_is_stopped (fst s) (mem \<sigma>) \<longrightarrow> 0 < strong (mem \<sigma>) c \<longrightarrow>
     node_is_stopped c (mem \<sigma>) \<or> (\<exists>f. pending \<sigma> f \<and> will_stop s c f))"

lemma stops_childrenD:
  assumes "stops_children \<sigma>" "c < n_nodes (mem \<sigma>)" "link_of (mem \<sigma>) c = Some s" "node_is_stopped (fst s) (mem \<sigma>)"
    "0 < strong (mem \<sigma>) c"
  shows "node_is_stopped c (mem \<sigma>) \<or> (\<exists>f. pending \<sigma> f \<and> will_stop s c f)"
  using assms unfolding stops_children_def by blast

text \<open>A live child that is past its entry is in the slab its link names.\<close>

lemma live_child_listed:
  assumes r: "reachable \<sigma>" and c: "c < n_nodes (mem \<sigma>)" "link_of (mem \<sigma>) c = Some s" "0 < strong (mem \<sigma>) c"
    and reg: "\<not> pending \<sigma> (Life (ChildRegister c))"
  shows "c \<in> set (slab_values (sh_children (shard_at (mem \<sigma>) s)))"
proof -
  have "child_ok \<sigma> c" using registration_okD(1) [OF reachable_registration_ok [OF r] c(1)] c(2) by simp
  moreover have "tasks \<sigma> c \<noteq> {#Life (ChildRegister c)#}"
    using reg in_tasks [of "Life (ChildRegister c)" \<sigma> c] by auto
  ultimately have "child_keys (mem \<sigma>) c \<noteq> {}" using c(3) by (auto simp: child_ok_def Let_def)
  then obtain k where "child_slab (mem \<sigma>) s k = Some c" using c(2) by (auto simp: child_keys_def)
  then show ?thesis using slab.lookup_in_values by (simp add: child_slab_def)
qed

text \<open>The frame that leads to the stop of a child hands the task on until it is done.\<close>

lemma will_stop_step:
  assumes r: "reachable \<sigma>" "t < n_threads \<sigma>" "stack \<sigma> t = f # fs" and step: "exec t b f (mem \<sigma>) = Next h gs"
    and c: "c < n_nodes (mem \<sigma>)" "link_of (mem \<sigma>) c = Some s" "node_is_stopped (fst s) (mem \<sigma>)" "0 < strong (mem \<sigma>) c"
    and f: "will_stop s c f"
  shows "node_is_stopped c h \<or> (\<exists>g. will_stop s c g \<and> (g \<in> set gs \<or> (g \<noteq> f \<and> pending \<sigma> g)))"
proof -
  have snd_s: "snd s < in_shards (node_at (mem \<sigma>) (fst s))"
    using heap_okD(2) [OF reachable_heap_ok [OF r(1)], of c] c(1,2) by (auto simp: valid_node_def node_ok_def link_of_def)
  have parent: "\<exists>link. in_parent (node_at (mem \<sigma>) c) = Some link \<and> p_node link = fst s"
    using c(2) by (auto simp: link_of_def)
  have handed: ?thesis if "\<exists>g \<in> set gs. will_stop s c g" using that by blast
  show ?thesis
    using f
  proof (cases "(s, c, f)" rule: will_stop.cases)
    case (1 s' c' d)
    then show ?thesis using step f
      by (auto simp: node_stop_def Let_def node_is_stopped_def stopped_test fields_or word_fields split: if_splits)
  next
    case (2 s' c' m j live)
    show ?thesis
    proof (cases "j < in_shards (node_at (mem \<sigma>) m)")
      case True
      then have gs: "gs = [Stop (StopUpgrade m j (slab_values (sh_children (shard_at (mem \<sigma>) (m, j)))) live)]"
        using step 2 by (auto simp: stop_children_def)
      show ?thesis
      proof (cases "pending \<sigma> (Life (ChildRegister c))")
        case True
        then show ?thesis using 2 by (intro disjI2 exI [of _ "Life (ChildRegister c)"]) simp
      next
        case False
        then have "c \<in> set (slab_values (sh_children (shard_at (mem \<sigma>) s)))"
          using live_child_listed [OF r(1) c(1,2,4)] by blast
        then have "will_stop s c (hd gs)" using f 2 gs by (cases s) auto
        then show ?thesis using gs by (intro disjI2 exI [of _ "hd gs"]) simp
      qed
    next
      case False
      then have "c \<in> set live" using f 2 snd_s by auto
      moreover have "gs = concat (map (\<lambda>c. [Stop (NodeStop c), Life (DropArc c)]) live)"
        using step 2 False by (simp add: stop_children_def)
      ultimately show ?thesis by (intro disjI2 exI [of _ "Stop (NodeStop c)"]) auto
    qed
  next
    case (3 s' c' m j cs live)
    then have "\<exists>g \<in> set gs. will_stop s c g" using step f c(4)
      by (cases cs) (auto simp: weak_upgrade_def strong_def split: if_splits)
    then show ?thesis by (rule handed)
  next
    case (4 s' c' d)
    then have "\<exists>g \<in> set gs. will_stop s c g" using step f by (auto simp: child_register_def Let_def split: option.splits)
    then show ?thesis by (rule handed)
  next
    case (5 s' c' d k)
    then have "\<exists>g \<in> set gs. will_stop s c g" using step f by (auto simp: child_store_key_def)
    then show ?thesis by (rule handed)
  next
    case (6 s' c' d)
    then have "\<exists>g \<in> set gs. will_stop s c g" using step f parent c(3)
      by (auto simp: child_check_def split: option.splits if_splits)
    then show ?thesis by (rule handed)
  qed auto
qed

section \<open>The invariant\<close>

lemma node_stopped_kept:
  assumes "reachable \<sigma>" "within_limits \<sigma>" "step \<sigma> a \<sigma>'" "c < n_nodes (mem \<sigma>)" "node_is_stopped c (mem \<sigma>)"
  shows "node_is_stopped c (mem \<sigma>')"
  using step_stop_effect(1) [OF assms(3) reachable_sys_ok [OF assms(1)] assms(2), of c] assms(4,5)
  by (simp add: valid_node_def)

lemma exec_link_of:
  assumes step: "exec t b f h = Next h' gs" and ok: "heap_ok h" "frame_ok h f" and c: "c < n_nodes h"
  shows "link_of h' c = link_of h c"
proof (cases "registers f")
  case True
  then consider (new) n where "f = Life (ChildNew n)" | (reg) d where "f = Life (ChildRegister d)"
    | (key) d k where "f = Life (ChildStoreKey d k)" | (dereg) d where "f = Life (Deregister d)"
    by (cases f rule: registers.cases) auto
  then show ?thesis
  proof cases
    case new
    then have "life_step t (ChildNew n) h = Next h' gs" using step by simp
    then show ?thesis using c by (elim child_new_effect) simp
  next
    case reg
    then have "life_step t (ChildRegister d) h = Next h' gs" "valid_node h d" using step ok(2) by simp_all
    then show ?thesis using child_register_effect [OF _ ok(1)] by metis
  next
    case key
    with step child_store_key_effect(3) [of t d k h h' gs] show ?thesis by simp
  next
    case dereg
    with step deregister_effect [of t d h h' gs] show ?thesis by simp
  qed
qed (use links_kept [OF step] in \<open>simp add: same_links_def link_of_def\<close>)

lemma exec_new_node:
  assumes "exec t b f h = Next h' gs" "heap_ok h" "frame_ok h f" "\<not> c < n_nodes h" "c < n_nodes h'"
  shows "gs = [Life (ChildRegister c)]"
proof -
  obtain n where "f = Life (ChildNew n)" using exec_n_nodes [OF assms(1-3)] assms(4,5) by auto
  then have "life_step t (ChildNew n) h = Next h' gs" using assms(1) by simp
  then show ?thesis using assms(4,5) by (elim child_new_effect) simp
qed

lemma stops_children_run:
  assumes r: "reachable \<sigma>" "t < n_threads \<sigma>" "stack \<sigma> t = f # fs" and step: "exec t b f (mem \<sigma>) = Next h gs"
    and lim: "within_limits \<sigma>" and inv: "stops_children \<sigma>"
  shows "stops_children (\<sigma>\<lparr>mem := h, stack := (stack \<sigma>)(t := gs @ fs)\<rparr>)"
  unfolding stops_children_def
proof (intro allI impI)
  let ?\<sigma> = "\<sigma>\<lparr>mem := h, stack := (stack \<sigma>)(t := gs @ fs)\<rparr>"
  fix c s
  assume c': "c < n_nodes (mem ?\<sigma>)" "link_of (mem ?\<sigma>) c = Some s" "node_is_stopped (fst s) (mem ?\<sigma>)"
    "0 < strong (mem ?\<sigma>) c"
  note run = step.run [OF r(2,3) step] and ok = reachable_heap_ok [OF r(1)] reachable_top_ok [OF r]
  have found: "node_is_stopped c (mem ?\<sigma>) \<or> (\<exists>g. pending ?\<sigma> g \<and> will_stop s c g)"
    if "node_is_stopped c h \<or> (\<exists>g. will_stop s c g \<and> (g \<in> set gs \<or> (g \<noteq> f \<and> pending \<sigma> g)))"
    using that pending_run(1) [OF r(2,3)] pending_run(2) [OF r(2,3)] by auto
  show "node_is_stopped c (mem ?\<sigma>) \<or> (\<exists>g. pending ?\<sigma> g \<and> will_stop s c g)"
  proof (cases "c < n_nodes (mem \<sigma>)")
    case False
    then have "gs = [Life (ChildRegister c)]" using exec_new_node [OF step ok] c'(1) by simp
    then show ?thesis by (intro found disjI2 exI [of _ "Life (ChildRegister c)"]) simp
  next
    case c: True
    have link: "link_of (mem \<sigma>) c = Some s" using exec_link_of [OF step ok c] c'(2) by simp
    have alive: "0 < strong (mem \<sigma>) c" using exec_strong_zero [OF r step] c c'(4) by (auto simp: same_strong_zero_def)
    have parent: "valid_node (mem \<sigma>) (fst s)"
      using heap_okD(2) [OF ok(1), of c] c link by (auto simp: valid_node_def node_ok_def link_of_def)
    consider (now) "node_is_stopped (fst s) (mem \<sigma>)" | (step) "\<not> node_is_stopped (fst s) (mem \<sigma>)" "f = Stop (NodeStop (fst s))"
      using step_stop_effect(1) [OF run reachable_sys_ok [OF r(1)] lim parent] c'(3) r(3) by auto
    then show ?thesis
    proof cases
      case now
      from stops_childrenD [OF inv c link now alive] show ?thesis
      proof (elim disjE exE conjE)
        assume "node_is_stopped c (mem \<sigma>)"
        then show ?thesis using node_stopped_kept [OF r(1) lim run c] by simp
      next
        fix g
        assume g: "pending \<sigma> g" "will_stop s c g"
        show ?thesis
        proof (cases "g = f")
          case True
          then show ?thesis using will_stop_step [OF r step c link now alive] g(2) found by blast
        qed (use g found in blast)
      qed
    next
      case step
      then have "Stop (StopChildren (fst s) 0 []) \<in> set gs"
        using \<open>exec t b f (mem \<sigma>) = Next h gs\<close> by (auto simp: node_stop_def Let_def node_is_stopped_def split: if_splits)
      then show ?thesis by (intro found disjI2 exI [of _ "Stop (StopChildren (fst s) 0 [])"]) simp
    qed
  qed
qed

lemma stops_children_call:
  assumes r: "reachable \<sigma>" "t < n_threads \<sigma>" "stack \<sigma> t = []" and may: "may_call c \<sigma>"
    and call: "begin_call c (mem \<sigma>) = Some (h, fs)" and lim: "within_limits \<sigma>" and inv: "stops_children \<sigma>"
  shows "stops_children (\<sigma>\<lparr>mem := h, stack := (stack \<sigma>)(t := fs)\<rparr>)"
  unfolding stops_children_def
proof (intro allI impI)
  let ?\<sigma> = "\<sigma>\<lparr>mem := h, stack := (stack \<sigma>)(t := fs)\<rparr>"
  fix d s
  assume d': "d < n_nodes (mem ?\<sigma>)" "link_of (mem ?\<sigma>) d = Some s" "node_is_stopped (fst s) (mem ?\<sigma>)"
    "0 < strong (mem ?\<sigma>) d"
  note step = step.call [OF r(2,3) may call]
  have d: "d < n_nodes (mem \<sigma>) \<and> link_of (mem \<sigma>) d = Some s \<and> 0 < strong (mem \<sigma>) d"
  proof (cases "\<exists>rep. c = CallNew rep")
    case False
    then have "same_links (mem \<sigma>) h" "strong h = strong (mem \<sigma>)" using begin_call_links [OF call] by blast+
    then show ?thesis using same_links_child [of "mem \<sigma>" h] d' by simp
  next
    case True
    then obtain rep where "c = CallNew rep" by blast
    then have h: "h = new_root rep (mem \<sigma>)" using call by (cases rep) auto
    show ?thesis
      using d' new_root_effect(1,2) [where rep = rep and h = "mem \<sigma>"] new_root_effect(5) [of d "mem \<sigma>" rep]
      by (auto simp: h split: if_splits)
  qed
  have parent: "valid_node (mem \<sigma>) (fst s)"
    using heap_okD(2) [OF reachable_heap_ok [OF r(1)], of d] d by (auto simp: valid_node_def node_ok_def link_of_def)
  then have "node_is_stopped (fst s) (mem \<sigma>)"
    using step_stop_effect(1) [OF step reachable_sys_ok [OF r(1)] lim parent] d'(3) by auto
  then show "node_is_stopped d (mem ?\<sigma>) \<or> (\<exists>g. pending ?\<sigma> g \<and> will_stop s d g)"
    using stops_childrenD [OF inv, of d s] d node_stopped_kept [OF r(1) lim step, of d] pending_call [OF r(3)] by auto
qed

interpretation propagation: system_invariant stops_children
proof
  show "stops_children (sys_init threads par)" for threads par
    by (simp add: stops_children_def sys_init_def heap_init_def)
  show "stops_children (\<sigma>\<lparr>mem := (mem \<sigma>)\<lparr>clock := clock (mem \<sigma>) + d\<rparr>\<rparr>)" if "stops_children \<sigma>" for \<sigma> d
    using that by (simp add: stops_children_def link_of_def node_is_stopped_def pending_def)
qed (use stops_children_call stops_children_run in \<open>blast+\<close>)

lemmas reachable_stops_children = propagation.always

section \<open>Descendants\<close>

text \<open>No thread is in the middle of stopping a node or of making a child.\<close>

definition stops_settled :: "sys \<Rightarrow> bool" where
  "stops_settled \<sigma> \<longleftrightarrow> (\<forall>t<n_threads \<sigma>. \<forall>f \<in> set (stack \<sigma> t). \<forall>s c. \<not> will_stop s c f)"

lemma parent_alive:
  assumes r: "reachable \<sigma>" and m: "m < n_nodes (mem \<sigma>)" "parent_of (mem \<sigma>) m = Some a" "0 < strong (mem \<sigma>) m"
  shows "a < n_nodes (mem \<sigma>)" "0 < strong (mem \<sigma>) a"
proof -
  show a: "a < n_nodes (mem \<sigma>)"
    using parent_valid(1) [OF reachable_heap_ok [OF r] _ m(2)] m(1) by (simp add: valid_node_def)
  have "0 < tally (n_nodes (mem \<sigma>)) (linked (mem \<sigma>) a)"
    using m by (auto simp: tally_pos_iff linked_def)
  then show "0 < strong (mem \<sigma>) a"
    using owner_okD(2) [OF reachable_owner_ok [OF r] a] by (simp add: arc_owned_def)
qed

lemma ancestor_alive:
  assumes r: "reachable \<sigma>"
  shows "ancestor (mem \<sigma>) a n \<Longrightarrow> n < n_nodes (mem \<sigma>) \<Longrightarrow> 0 < strong (mem \<sigma>) n \<Longrightarrow>
    a < n_nodes (mem \<sigma>) \<and> 0 < strong (mem \<sigma>) a"
proof (induction rule: ancestor.induct)
  case (up m n a)
  then show ?case using parent_alive [OF r, of m a] by simp
qed simp

lemma descendants_stopped:
  assumes r: "reachable \<sigma>" and settled: "stops_settled \<sigma>"
  shows "ancestor (mem \<sigma>) a n \<Longrightarrow> n < n_nodes (mem \<sigma>) \<Longrightarrow> 0 < strong (mem \<sigma>) n \<Longrightarrow>
    node_is_stopped a (mem \<sigma>) \<Longrightarrow> node_is_stopped n (mem \<sigma>)"
proof (induction rule: ancestor.induct)
  case (up m n a)
  then have m: "m < n_nodes (mem \<sigma>)" "0 < strong (mem \<sigma>) m" using ancestor_alive [OF r up.hyps(1) up.prems(1,2)] by blast+
  obtain s where s: "link_of (mem \<sigma>) m = Some s" "fst s = a"
    using up.hyps(2) by (auto simp: link_of_def parent_of_def)
  have "\<not> (\<exists>f. pending \<sigma> f \<and> will_stop s m f)" using settled by (auto simp: stops_settled_def pending_def)
  then have "node_is_stopped m (mem \<sigma>)"
    using stops_childrenD [OF reachable_stops_children [OF r] m(1) s(1) _ m(2)] up.prems(3) s(2) by blast
  then show ?case using up.IH up.prems by blast
qed simp

end
