(* ===== verification/Notification.thy ===== *)
theory Notification
  imports Propagation Completion
begin

text \<open>
  The events of a node. Whatever makes a node complete leaves behind, in the same step, a
  frame that notifies \<^verbatim>\<open>zero_event\<close>, and whatever stops it leaves one that notifies
  \<^verbatim>\<open>stop_event\<close>. So a waiter that listens before its last failed check is notified: the
  assumption \<open>notifies\<close> of the loops of \<open>Completion\<close> holds of every fair run of the machine.
\<close>

section \<open>Completing\<close>

fun zero_notice :: "nid \<Rightarrow> frame \<Rightarrow> bool" where
  "zero_notice n (Count (NodeDepartNotify m st)) \<longleftrightarrow> m = n"
| "zero_notice n (Stop (StopZero m w)) \<longleftrightarrow> m = n \<and> w AND SHARDS_MASK = 0"
| "zero_notice n _ \<longleftrightarrow> False"

fun stop_notice :: "nid \<Rightarrow> frame \<Rightarrow> bool" where
  "stop_notice n (Stop (StopNotify m)) \<longleftrightarrow> m = n"
| "stop_notice n _ \<longleftrightarrow> False"

text \<open>Only \<^verbatim>\<open>Inner::depart\<close> takes a node's count to zero.\<close>

lemma count_low_zero:
  assumes step: "count_step t b c h = Next h' gs" and ok: "heap_ok h" "frame_ok h (Count c)" "room h (Count c)"
    and n: "valid_node h n" and zero: "low (node_word h' n) = 0"
  shows "low (node_word h n) = 0 \<or> c = NodeDepart n"
proof (cases "writes_word (Count c)")
  case False
  have "exec t b (Count c) h = Next h' gs" using step by simp
  from words_kept [OF this False] zero n show ?thesis by (simp add: same_words_def valid_node_def)
next
  case True
  show ?thesis
  proof (cases c)
    case (NodeArrive m)
    then have "low (node_word h m + 1) \<noteq> 0"
      using ok roomD(2) [OF ok(3), of "NodeToken m"] fields_add_local(1) [of "node_word h m"]
      by (simp add: one_LOCAL_ONE)
    with step zero show ?thesis by (auto simp: NodeArrive node_arrive_def split: option.splits if_splits)
  next
    case (NodeArriveLoop m st)
    then have "low (node_word h m + 1) \<noteq> 0"
      using ok roomD(2) [OF ok(3), of "NodeToken m"] fields_add_local(1) [of "node_word h m"]
      by (simp add: one_LOCAL_ONE)
    with step zero n show ?thesis
      by (auto simp: NodeArriveLoop node_arrive_loop_def atomic_defs shard_ref_def same_words_def valid_node_def
          split: option.splits if_splits prod.splits dest!: same_words_index(1))
  next
    case (NodeArriveCommit m s st)
    then have "low (st OR ARRIVED OR push_bit PARENT_SHARD_SHIFT (of_nat (snd s)) OR 1) = 1"
      using ok parent_valid(3) [OF ok(1), of m "fst s"]
      by (intro arrived_node_word(1)) (auto simp: valid_shard_def empty_unarrived_def)
    with step zero show ?thesis
      by (auto simp: NodeArriveCommit node_arrive_commit_def atomic_defs Let_def split: if_splits)
  next
    case (NodeDepartRelease m st)
    with step zero ok(2) show ?thesis
      by (auto simp: node_depart_release_def atomic_defs shard_ref_def emptied_child_def
          split: option.splits if_splits)
  next
    case (NodeDepart m)
    with step zero show ?thesis by (auto simp: node_depart_def Let_def split: if_splits)
  qed (use True step zero in \<open>auto simp: step_defs atomic_defs Let_def split: if_splits\<close>)
qed

lemma exec_low_zero:
  assumes step: "exec t b f h = Next h' gs" and ok: "heap_ok h" "frame_ok h f" "room h f"
    and n: "valid_node h n" "low (node_word h' n) = 0"
  shows "low (node_word h n) = 0 \<or> f = Count (NodeDepart n)"
proof (cases "writes_word f")
  case False
  with words_kept [OF step False] n show ?thesis by (simp add: same_words_def valid_node_def)
next
  case True
  show ?thesis
  proof (cases f)
    case (Count c)
    with count_low_zero [of t b c h h' gs n] step ok n show ?thesis by auto
  next
    case (Stop c)
    with True step n show ?thesis
      by (cases c) (auto simp: node_stop_def shard_stop_def Let_def fields_or split: if_splits)
  next
    case (Grd c)
    with True step n show ?thesis
      by (cases c) (auto simp: arrive_if_arrived_def guard_clone_arrive_def guard_depart_def shard_depart_def
          atomic_defs Let_def split: if_splits)
  qed (use True in auto)
qed

text \<open>A step that makes a node complete leaves a notification to run.\<close>

lemma exec_completes:
  assumes step: "exec t b f h = Next h' gs" and ok: "heap_ok h" "frame_ok h f" "room h f" and n: "valid_node h n"
    and after: "node_is_stopped n h'" "node_is_zero n h'" and before: "\<not> (node_is_stopped n h \<and> node_is_zero n h)"
  shows "\<exists>g \<in> set gs. zero_notice n g"
proof -
  have zero: "low (node_word h' n) = 0" using after(2) by (simp add: node_is_zero_def count_test)
  show ?thesis
  proof (cases "node_is_stopped n h")
    case True
    then have "low (node_word h n) \<noteq> 0" using before by (simp add: node_is_zero_def count_test)
    then have "f = Count (NodeDepart n)" using exec_low_zero [OF step ok n zero] by simp
    then show ?thesis using step after
      by (auto simp: node_depart_def Let_def node_is_stopped_def node_is_zero_def split: if_splits)
  next
    case False
    then have f: "f = Stop (NodeStop n)"
      using exec_stop_effect [OF step ok] after(1) n by (auto simp: stop_effect_def node_is_stopped_def stopped_test valid_node_def)
    then have "low (node_word h n) = 0" using exec_low_zero [OF step ok n zero] by simp
    then show ?thesis using step f False
      by (auto simp: node_stop_def Let_def node_is_stopped_def count_test split: if_splits)
  qed
qed

lemma exec_stops:
  assumes step: "exec t b f h = Next h' gs" and ok: "heap_ok h" "frame_ok h f" "room h f" and n: "valid_node h n"
    and after: "node_is_stopped n h'" and before: "\<not> node_is_stopped n h"
  shows "\<exists>g \<in> set gs. stop_notice n g"
proof -
  have f: "f = Stop (NodeStop n)"
    using exec_stop_effect [OF step ok] after n before by (auto simp: stop_effect_def node_is_stopped_def stopped_test valid_node_def)
  then show ?thesis using step before by (auto simp: node_stop_def Let_def node_is_stopped_def split: if_splits)
qed

text \<open>The notification frames notify, and nothing takes a notification back.\<close>

lemma notice_runs:
  assumes "exec t b f h = Next h' gs"
  shows "zero_notice n f \<Longrightarrow> in_zero_notified (node_at h' n) = Suc (in_zero_notified (node_at h n))"
    "stop_notice n f \<Longrightarrow> in_stop_notified (node_at h' n) = Suc (in_stop_notified (node_at h n))"
  using assms
  by (auto elim!: zero_notice.elims stop_notice.elims
      simp: node_depart_notify_def stop_zero_def stop_notify_def notify_zero_def)

section \<open>Counters\<close>

definition same_counters :: "heap \<Rightarrow> heap \<Rightarrow> bool" where
  "same_counters h h' \<longleftrightarrow> (\<forall>n<n_nodes h.
     in_zero_notified (node_at h n) \<le> in_zero_notified (node_at h' n) \<and>
     in_stop_notified (node_at h n) \<le> in_stop_notified (node_at h' n))"

lemma counters_same [simp]: "node_at h' = node_at h \<Longrightarrow> same_counters h h'"
  by (simp add: same_counters_def)

lemma counters_upd [simp]:
  "same_counters h (set_shard_word s w h)" "same_counters h (set_node_word n w h)" "same_counters h (upd_shard s f h)"
  "same_counters h (upd_node n (in_swansong_count_update g) h)" "same_counters h (upd_node n (in_strong_update g) h)"
  "same_counters h (upd_node n (in_parent_update g') h)"
  "same_counters h (upd_node n (in_zero_notified_update Suc) h)" "same_counters h (upd_node n (in_stop_notified_update Suc) h)"
  "same_counters h (arc_clone n h)" "same_counters h (lock_acquire t s h)" "same_counters h (lock_release s h)"
  "same_counters h (lock_release s (upd_shard s f h))"
  "same_counters h (alloc_handle n h)" "same_counters h (alloc_completion n h)" "same_counters h (alloc_interrupt it h)"
  "same_counters h (alloc_handle n (arc_clone m h))" "same_counters h (alloc_completion n (arc_clone m h))"
  by (simp_all add: same_counters_def set_shard_word_def set_node_word_def arc_clone_def lock_acquire_def lock_release_def
      alloc_handle_def alloc_completion_def alloc_interrupt_def)

lemma counters_index: "shard_index t n h = (h', i) \<Longrightarrow> node_at h' = node_at h \<and> n_nodes h' = n_nodes h"
  by (auto simp: shard_index_def thread_index_def Let_def split: prod.splits if_splits)

lemma counters_inner: "inner_shard t n h = (h', s) \<Longrightarrow> node_at h' = node_at h \<and> n_nodes h' = n_nodes h"
  using counters_index by (auto simp: inner_shard_def split: prod.splits)

lemma count_counters: "count_step t b c h = Next h' gs \<Longrightarrow> same_counters h h'"
proof (induction t b c h rule: count_step.induct)
  case (5 t sp n st h)
  then show ?case
    by (auto simp: node_arrive_loop_def shard_ref_def atomic_defs
        split: option.splits if_splits prod.splits dest!: counters_index)
qed (auto simp: step_defs shard_ref_def notify_zero_def atomic_defs Let_def
    simp del: upd_node_def upd_shard_def split: option.splits if_splits)

lemma stop_counters: "stop_step t c h = Next h' gs \<Longrightarrow> same_counters h h'"
proof (induction t c h rule: stop_step.induct)
  case (4 t s w ws h)
  then show ?case by (cases ws) auto
next
  case (7 t n i cs live h)
  then show ?case by (cases cs) (auto simp: weak_upgrade_def split: if_splits)
qed (auto simp: step_defs notify_zero_def Let_def simp del: upd_node_def upd_shard_def split: if_splits)

lemma life_counters: "life_step t c h = Next h' gs \<Longrightarrow> same_counters h h'"
proof (cases c)
  case (ChildNew n)
  assume "life_step t c h = Next h' gs"
  with ChildNew show ?thesis
    by (auto simp: child_new_def Let_def alloc_node_def same_counters_def arc_clone_def split: prod.splits dest!: counters_index)
qed (auto simp: drop_arc_def child_check_def child_return_def child_register_def child_store_key_def deregister_def Let_def
      simp del: upd_node_def upd_shard_def split: if_splits option.splits prod.splits)

lemma guard_counters: "guard_step t b c h = Next h' gs \<Longrightarrow> same_counters h h'"
proof (cases c)
  case (GuardBuild s pin loc info dst)
  assume "guard_step t b c h = Next h' gs"
  with GuardBuild show ?thesis
    by (auto simp: guard_build_def alloc_guard_def Let_def same_counters_def arc_clone_def split: option.splits)
qed (auto simp: guard_at_location_def provenance_def provenance_register_def guard_for_shard_def arrive_if_arrived_def
      guard_upgrade_def weak_upgrade_def guard_flush_weak_def alloc_info_def
      guard_clone_arrive_def guard_drop_def guard_depart_def drop_info_def atomic_defs Let_def shard_depart_def
      simp del: upd_shard_def split: if_splits option.splits prod.splits dest: counters_inner)

lemma swan_counters: "swan_step t c h = Next h' gs \<Longrightarrow> same_counters h h'"
proof (cases c)
  case (InterruptNew n)
  assume "swan_step t c h = Next h' gs"
  with InterruptNew show ?thesis
    by (auto simp: interrupt_new_def same_counters_def alloc_interrupt_def split: prod.splits dest!: counters_inner)
qed (auto simp: swansong_clone_def swansong_clone_arc_def handle_drop_def swansong_drop_def completion_new_def
      simp del: upd_node_def split: if_splits prod.splits)

lemma intr_counters: "intr_step t b c h = Next h' gs \<Longrightarrow> same_counters h h'"
  by (cases "(t, b, c, h)" rule: intr_step.cases)
    (auto simp: poll_interrupt_def poll_wrapped_def poll_stopped_def poll_recheck_def poll_lock_def listener_drop_def
      poll_locked_def poll_register_def poll_returns_def on_interrupt_def Let_def set_interrupt_def
      lock_release_def lock_acquire_def split: option.splits if_splits)

lemma exec_counters:
  assumes "exec t b f h = Next h' gs"
  shows "same_counters h h'"
  using assms by (cases f) (auto dest: count_counters stop_counters life_counters guard_counters swan_counters intr_counters)

lemma call_counters:
  assumes "begin_call c h = Some (h', fs)" "n < n_nodes h"
  shows "in_zero_notified (node_at h' n) = in_zero_notified (node_at h n)"
    "in_stop_notified (node_at h' n) = in_stop_notified (node_at h n)"
    "node_word h' n = node_word h n"
  using assms
  by (cases c; auto simp: on_handle_def set_interrupt_def new_root_def alloc_node_def alloc_handle_def Let_def
      split: option.splits if_splits)+

section \<open>Runs of the program\<close>

text \<open>
  A run, with stutters: at some instants the program does nothing. A frame of it that notifies
  is run at some time, as long as its thread is.
\<close>

definition program_run :: "(nat \<Rightarrow> sys) \<Rightarrow> bool" where
  "program_run \<rho> \<longleftrightarrow> reachable (\<rho> 0) \<and>
     (\<forall>k. \<rho> (Suc k) = \<rho> k \<or> (\<exists>a. within_limits (\<rho> k) \<and> step (\<rho> k) a (\<rho> (Suc k))))"

definition fair_to :: "(nat \<Rightarrow> sys) \<Rightarrow> (frame \<Rightarrow> bool) \<Rightarrow> bool" where
  "fair_to \<rho> P \<longleftrightarrow> (\<forall>k f. P f \<longrightarrow> pending (\<rho> k) f \<longrightarrow> (\<exists>k' \<ge> k. \<not> pending (\<rho> k') f))"

lemma run_reachable: "program_run \<rho> \<Longrightarrow> reachable (\<rho> k)"
proof (induction k)
  case (Suc k)
  then show ?case unfolding program_run_def by (metis reachable.step)
qed (simp add: program_run_def)

lemma run_nodes:
  assumes "program_run \<rho>" "valid_node (mem (\<rho> 0)) n"
  shows "valid_node (mem (\<rho> k)) n"
proof (induction k)
  case (Suc k)
  have "\<rho> (Suc k) = \<rho> k \<or> extends (mem (\<rho> k)) (mem (\<rho> (Suc k)))"
    using assms(1) step_extends reachable_sys_ok [OF run_reachable [OF assms(1)]] unfolding program_run_def by blast
  then show ?case using Suc valid_node_extends by auto
qed (rule assms(2))

text \<open>
  An event and what it announces: the step that makes \<open>check\<close> true leaves a frame that
  notifies, and running such a frame raises the counter.
\<close>

locale event =
  fixes check :: "nid \<Rightarrow> heap \<Rightarrow> bool"
    and notice :: "nid \<Rightarrow> frame \<Rightarrow> bool"
    and counter :: "nid \<Rightarrow> heap \<Rightarrow> nat"
  assumes raised: "exec t b f h = Next h' gs \<Longrightarrow> heap_ok h \<Longrightarrow> frame_ok h f \<Longrightarrow> room h f \<Longrightarrow> valid_node h n \<Longrightarrow>
      check n h' \<Longrightarrow> \<not> check n h \<Longrightarrow> \<exists>g \<in> set gs. notice n g"
    and counted: "exec t b f h = Next h' gs \<Longrightarrow> notice n f \<Longrightarrow> counter n h' = Suc (counter n h)"
    and monotone: "exec t b f h = Next h' gs \<Longrightarrow> valid_node h n \<Longrightarrow> counter n h \<le> counter n h'"
    and calls: "begin_call c h = Some (h', fs) \<Longrightarrow> valid_node h n \<Longrightarrow> counter n h' = counter n h \<and> check n h' = check n h"
    and ticks: "counter n (h\<lparr>clock := k\<rparr>) = counter n h" "check n (h\<lparr>clock := k\<rparr>) = check n h"
begin

lemma step_counter:
  assumes "reachable \<sigma>" "step \<sigma> a \<sigma>'" "valid_node (mem \<sigma>) n"
  shows "counter n (mem \<sigma>) \<le> counter n (mem \<sigma>')"
  using assms(2)
  by (cases rule: step.cases) (use assms(3) in \<open>auto simp: calls ticks intro: monotone\<close>)

lemma step_check:
  assumes r: "reachable \<sigma>" "within_limits \<sigma>" and step: "step \<sigma> a \<sigma>'" and n: "valid_node (mem \<sigma>) n"
    and check: "check n (mem \<sigma>')" "\<not> check n (mem \<sigma>)"
  shows "\<exists>f. notice n f \<and> pending \<sigma>' f"
  using step
proof (cases rule: step.cases)
  case (run t f fs b h gs)
  have "room (mem \<sigma>) f" by (rule limits_room [OF reachable_sys_ok [OF r(1)] r(2) run(3,4)])
  then obtain g where "g \<in> set gs" "notice n g"
    using raised [OF run(5) reachable_heap_ok [OF r(1)] reachable_top_ok [OF r(1) run(3,4)] _ n] check run(2) by auto
  then show ?thesis using pending_run(1) [OF run(3,4)] run(2) by blast
qed (use check calls [OF _ n] ticks in auto)

lemma step_notice:
  assumes r: "reachable \<sigma>" and step: "step \<sigma> a \<sigma>'"
    and f: "notice n f" "pending \<sigma> f" "\<not> pending \<sigma>' f"
  shows "counter n (mem \<sigma>') = Suc (counter n (mem \<sigma>))"
  using step
proof (cases rule: step.cases)
  case (call t c h fs)
  then show ?thesis using pending_call [OF call(4) f(2)] f(3) by blast
next
  case (run t g fs b h gs)
  have "g = f" using pending_run(2) [OF run(3,4) f(2)] f(3) run(2) by blast
  then show ?thesis using counted [OF run(5)] f(1) run(2) by simp
next
  case (tick d)
  then show ?thesis using f by (simp add: pending_def)
qed

lemma run_step_cases:
  assumes "program_run \<rho>"
  obtains (stutter) "\<rho> (Suc k) = \<rho> k" | (step) a where "reachable (\<rho> k)" "within_limits (\<rho> k)" "step (\<rho> k) a (\<rho> (Suc k))"
  using assms run_reachable [OF assms, of k] unfolding program_run_def by blast

lemma run_counter:
  assumes r: "program_run \<rho>" "valid_node (mem (\<rho> 0)) n" and "i \<le> j"
  shows "counter n (mem (\<rho> i)) \<le> counter n (mem (\<rho> j))"
  using \<open>i \<le> j\<close>
proof (induction j rule: dec_induct)
  case (step j)
  from r(1) show ?case
  proof (cases rule: run_step_cases [of \<rho> j])
    case (step a)
    then show ?thesis using step_counter [of "\<rho> j"] run_nodes [OF r] \<open>counter n (mem (\<rho> i)) \<le> _\<close> le_trans by blast
  qed (use step.IH in simp)
qed simp

lemma run_notice:
  assumes r: "program_run \<rho>" "valid_node (mem (\<rho> 0)) n" and f: "notice n f" "pending (\<rho> i) f" and "i \<le> j"
  shows "\<not> pending (\<rho> j) f \<Longrightarrow> counter n (mem (\<rho> i)) < counter n (mem (\<rho> j))"
  using \<open>i \<le> j\<close>
proof (induction j rule: dec_induct)
  case base
  then show ?case using f by simp
next
  case (step j)
  from r(1) show ?case
  proof (cases rule: run_step_cases [of \<rho> j])
    case stutter
    then show ?thesis using step by simp
  next
    case st: (step a)
    show ?thesis
    proof (cases "pending (\<rho> j) f")
      case True
      then show ?thesis
        using step_notice [OF st(1,3) f(1)] step.prems run_counter [OF r, of i j] step.hyps by simp
    next
      case False
      then show ?thesis using step.IH step_counter [OF st(1,3) run_nodes [OF r]] by simp
    qed
  qed
qed

lemma run_check:
  assumes r: "program_run \<rho>" "valid_node (mem (\<rho> 0)) n" and before: "\<not> check n (mem (\<rho> i))" and "i \<le> j"
  shows "check n (mem (\<rho> j)) \<Longrightarrow>
    counter n (mem (\<rho> i)) < counter n (mem (\<rho> j)) \<or> (\<exists>f. notice n f \<and> pending (\<rho> j) f)"
  using \<open>i \<le> j\<close>
proof (induction j rule: dec_induct)
  case base
  then show ?case using before by simp
next
  case (step j)
  from r(1) show ?case
  proof (cases rule: run_step_cases [of \<rho> j])
    case stutter
    then show ?thesis using step by simp
  next
    case st: (step a)
    note n = run_nodes [OF r, of j]
    show ?thesis
    proof (cases "check n (mem (\<rho> j))")
      case False
      then show ?thesis using step_check [OF st n] step.prems by blast
    next
      case True
      from step.IH [OF True] show ?thesis
      proof (elim disjE exE conjE)
        assume "counter n (mem (\<rho> i)) < counter n (mem (\<rho> j))"
        then show ?thesis using step_counter [OF st(1,3) n] by simp
      next
        fix f
        assume f: "notice n f" "pending (\<rho> j) f"
        then show ?thesis
          using step_notice [OF st(1,3)] run_counter [OF r, of i j] step.hyps by (cases "pending (\<rho> (Suc j)) f") auto
      qed
    qed
  qed
qed

text \<open>On a fair run, the counter rises after a failed check that would succeed later.\<close>

lemma run_notified:
  assumes r: "program_run \<rho>" "valid_node (mem (\<rho> 0)) n" and fair: "fair_to \<rho> (notice n)"
    and check: "\<not> check n (mem (\<rho> i))" "check n (mem (\<rho> j))" "i \<le> j"
  shows "\<exists>k \<ge> i. counter n (mem (\<rho> i)) < counter n (mem (\<rho> k))"
  using run_check [OF r check(1,3,2)]
proof (elim disjE exE conjE)
  assume "counter n (mem (\<rho> i)) < counter n (mem (\<rho> j))"
  then show ?thesis using check(3) by blast
next
  fix f
  assume f: "notice n f" "pending (\<rho> j) f"
  then obtain k where k: "j \<le> k" "\<not> pending (\<rho> k) f" using fair unfolding fair_to_def by blast
  have "counter n (mem (\<rho> j)) < counter n (mem (\<rho> k))" by (rule run_notice [OF r f k])
  then have "counter n (mem (\<rho> i)) < counter n (mem (\<rho> k))"
    using run_counter [OF r check(3)] by simp
  then show ?thesis using k(1) check(3) by (intro exI [of _ k]) simp
qed

text \<open>
  The time of the waiter's accesses: the access at time \<open>k\<close> spans the instants \<open>2 * k + 1\<close>
  and \<open>2 * k + 2\<close>, and a notification has the time \<open>k\<close> if it happens between the instants
  \<open>2 * k\<close> and \<open>2 * k + 2\<close>.
\<close>

definition notice_times :: "(nat \<Rightarrow> sys) \<Rightarrow> nid \<Rightarrow> nat set" where
  "notice_times \<rho> n = {k. counter n (mem (\<rho> (2 * k))) < counter n (mem (\<rho> (2 * k + 2)))}"

lemma notified_between:
  assumes r: "program_run \<rho>" "valid_node (mem (\<rho> 0)) n"
  shows "counter n (mem (\<rho> (2 * i))) < counter n (mem (\<rho> (2 * i + d))) \<Longrightarrow> \<exists>k \<ge> i. k \<in> notice_times \<rho> n"
proof (induction d arbitrary: i rule: less_induct)
  case (less d)
  show ?case
  proof (cases "i \<in> notice_times \<rho> n")
    case False
    then have now: "counter n (mem (\<rho> (2 * i + 2))) = counter n (mem (\<rho> (2 * i)))"
      using run_counter [OF r, of "2 * i" "2 * i + 2"] by (simp add: notice_times_def)
    have "2 < d"
    proof (rule ccontr)
      assume "\<not> 2 < d"
      then have "counter n (mem (\<rho> (2 * i + d))) \<le> counter n (mem (\<rho> (2 * i + 2)))" by (intro run_counter [OF r]) simp
      then show False using less.prems now by simp
    qed
    then have e: "2 * i + d = 2 * Suc i + (d - 2)" "2 * i + 2 = 2 * Suc i" by simp_all
    have "counter n (mem (\<rho> (2 * Suc i))) < counter n (mem (\<rho> (2 * Suc i + (d - 2))))"
      using less.prems now unfolding e by simp
    then have "\<exists>k \<ge> Suc i. k \<in> notice_times \<rho> n" using less.IH [of "d - 2" "Suc i"] \<open>2 < d\<close> by simp
    then show ?thesis using Suc_leD by blast
  qed blast
qed

lemma notifies_times:
  assumes r: "program_run \<rho>" "valid_node (mem (\<rho> 0)) n" and fair: "fair_to \<rho> (notice n)"
    and fails: "\<And>k. \<not> C k \<Longrightarrow> \<not> check n (mem (\<rho> (2 * k + 1))) \<or> \<not> check n (mem (\<rho> (2 * k + 2)))"
    and holds: "\<And>k. C k \<Longrightarrow> check n (mem (\<rho> (2 * k + 2)))"
  shows "notifies C (notice_times \<rho> n)"
  unfolding notifies_def
proof (intro allI impI)
  fix i j
  assume ij: "i < j" "\<not> C i" "C j"
  let ?c = "\<lambda>k. counter n (mem (\<rho> k))"
  have late: "check n (mem (\<rho> (2 * j + 2)))" by (rule holds [OF ij(3)])
  have "\<exists>k \<ge> 2 * i + 2. ?c (2 * i + 2) < ?c k"
  proof (cases "check n (mem (\<rho> (2 * i + 2)))")
    case False
    then show ?thesis using run_notified [OF r fair _ late, of "2 * i + 2"] ij(1) by simp
  next
    case True
    then have "\<not> check n (mem (\<rho> (2 * i + 1)))" using fails [OF ij(2)] by blast
    moreover have "\<rho> (2 * i + 2) = \<rho> (Suc (2 * i + 1))" by simp
    ultimately have "\<exists>f. notice n f \<and> pending (\<rho> (2 * i + 2)) f"
      using True run_nodes [OF r, of "2 * i + 1"] step_check
      by (metis run_step_cases [OF r(1), of "2 * i + 1"])
    then obtain f where f: "notice n f" "pending (\<rho> (2 * i + 2)) f" by blast
    then obtain k where "2 * i + 2 \<le> k" "\<not> pending (\<rho> k) f" using fair unfolding fair_to_def by blast
    then show ?thesis using run_notice [OF r f] by blast
  qed
  then obtain k where k: "2 * i + 2 \<le> k" "?c (2 * i + 2) < ?c k" by blast
  have e: "2 * Suc i = 2 * i + 2" "2 * Suc i + (k - 2 * Suc i) = k" using k(1) by simp_all
  have "?c (2 * Suc i) < ?c (2 * Suc i + (k - 2 * Suc i))" unfolding e(2) using k(2) by simp
  then obtain m where "Suc i \<le> m" "m \<in> notice_times \<rho> n" using notified_between [OF r] by blast
  then show "\<exists>m \<in> notice_times \<rho> n. i < m" by (intro bexI [of _ m]) simp_all
qed

end

section \<open>The two events\<close>

definition complete_in :: "nid \<Rightarrow> heap \<Rightarrow> bool" where
  "complete_in n h \<longleftrightarrow> node_is_stopped n h \<and> node_is_zero n h"

interpretation zero_event: event complete_in zero_notice "\<lambda>n h. in_zero_notified (node_at h n)"
proof
  show "\<exists>g \<in> set gs. zero_notice n g"
    if "exec t b f h = Next h' gs" "heap_ok h" "frame_ok h f" "room h f" "valid_node h n" "complete_in n h'" "\<not> complete_in n h"
    for t b f h h' gs n
    using exec_completes [OF that(1-5)] that(6,7) by (auto simp: complete_in_def)
qed (use notice_runs(1) exec_counters call_counters in
    \<open>auto simp: same_counters_def valid_node_def complete_in_def node_is_stopped_def node_is_zero_def\<close>)

interpretation stop_event: event node_is_stopped stop_notice "\<lambda>n h. in_stop_notified (node_at h n)"
proof
  show "\<exists>g \<in> set gs. stop_notice n g"
    if "exec t b f h = Next h' gs" "heap_ok h" "frame_ok h f" "room h f" "valid_node h n" "node_is_stopped n h'"
      "\<not> node_is_stopped n h" for t b f h h' gs n
    by (rule exec_stops [OF that])
qed (use notice_runs(2) exec_counters call_counters in \<open>auto simp: same_counters_def valid_node_def node_is_stopped_def\<close>)

section \<open>What the waiting loops read\<close>

text \<open>
  The loops of \<open>Completion\<close> beside a run: the check at time \<open>k\<close> reads the node's word for the
  stop bit and, an instant later, for the count.
\<close>

definition run_reads :: "(nat \<Rightarrow> sys) \<Rightarrow> nid \<Rightarrow> reads" where
  "run_reads \<rho> n k = (node_word (mem (\<rho> (2 * k + 1))) n, node_word (mem (\<rho> (2 * k + 2))) n)"

definition zero_times :: "(nat \<Rightarrow> sys) \<Rightarrow> nid \<Rightarrow> nat set" where
  "zero_times \<rho> n = {k. in_zero_notified (node_at (mem (\<rho> (2 * k))) n) < in_zero_notified (node_at (mem (\<rho> (2 * k + 2))) n)}"

definition stop_times :: "(nat \<Rightarrow> sys) \<Rightarrow> nid \<Rightarrow> nat set" where
  "stop_times \<rho> n = {k. in_stop_notified (node_at (mem (\<rho> (2 * k))) n) < in_stop_notified (node_at (mem (\<rho> (2 * k + 2))) n)}"

lemma run_stopped:
  assumes r: "program_run \<rho>" "valid_node (mem (\<rho> 0)) n" and "i \<le> j"
  shows "node_is_stopped n (mem (\<rho> i)) \<Longrightarrow> node_is_stopped n (mem (\<rho> j))"
  using \<open>i \<le> j\<close>
proof (induction j rule: dec_induct)
  case (step j)
  have "\<rho> (Suc j) = \<rho> j \<or> (\<exists>a. within_limits (\<rho> j) \<and> Machine.step (\<rho> j) a (\<rho> (Suc j)))"
    using r(1) unfolding program_run_def by blast
  then show ?case
    using step node_stopped_kept [OF run_reachable [OF r(1), of j]] run_nodes [OF r, of j] by (auto simp: valid_node_def)
qed

lemma zero_announced:
  assumes r: "program_run \<rho>" "valid_node (mem (\<rho> 0)) n" and fair: "fair_to \<rho> (zero_notice n)"
  shows "notifies (complete_at (run_reads \<rho> n)) (zero_times \<rho> n)"
proof -
  have s: "node_is_stopped n (mem (\<rho> (2 * k + 1))) \<Longrightarrow> node_is_stopped n (mem (\<rho> (2 * k + 2)))" for k
    by (rule run_stopped [OF r, of "2 * k + 1"]) simp_all
  have "notifies (complete_at (run_reads \<rho> n)) (zero_event.notice_times \<rho> n)"
    by (rule zero_event.notifies_times [OF r fair])
      (use s in \<open>auto simp: complete_at_def run_reads_def complete_in_def node_is_stopped_def node_is_zero_def\<close>)
  then show ?thesis by (simp add: zero_event.notice_times_def [abs_def] zero_times_def)
qed

lemma stop_announced:
  assumes r: "program_run \<rho>" "valid_node (mem (\<rho> 0)) n" and fair: "fair_to \<rho> (stop_notice n)"
  shows "notifies (stopped_at (run_reads \<rho> n)) (stop_times \<rho> n)"
proof -
  have s: "node_is_stopped n (mem (\<rho> (2 * k + 1))) \<Longrightarrow> node_is_stopped n (mem (\<rho> (2 * k + 2)))" for k
    by (rule run_stopped [OF r, of "2 * k + 1"]) simp_all
  have "notifies (stopped_at (run_reads \<rho> n)) (stop_event.notice_times \<rho> n)"
    by (rule stop_event.notifies_times [OF r fair])
      (use s in \<open>auto simp: stopped_at_def run_reads_def node_is_stopped_def\<close>)
  then show ?thesis by (simp add: stop_event.notice_times_def [abs_def] stop_times_def)
qed

section \<open>Runs of a schedule\<close>

text \<open>The run that performs a schedule and then does nothing.\<close>

definition schedule_run :: "action list \<Rightarrow> sys \<Rightarrow> nat \<Rightarrow> sys" where
  "schedule_run as \<sigma> k = the (perform_all (take k as) \<sigma>)"

lemma perform_all_append:
  "perform_all (as @ bs) \<sigma> = Option.bind (perform_all as \<sigma>) (perform_all bs)"
  by (induction as arbitrary: \<sigma>) (auto split: option.splits)

lemma schedule_run_ok:
  assumes "perform_all as (sys_init threads par) = Some \<sigma>" "idle \<sigma>"
  shows "program_run (schedule_run as (sys_init threads par))" "fair_to (schedule_run as (sys_init threads par)) P"
    "k \<ge> length as \<Longrightarrow> schedule_run as (sys_init threads par) k = \<sigma>"
proof -
  let ?\<rho> = "schedule_run as (sys_init threads par)"
  have some: "\<exists>\<sigma>'. perform_all (take k as) (sys_init threads par) = Some \<sigma>'" for k
    using assms(1) perform_all_append [of "take k as" "drop k as"] by (auto split: Option.bind_splits)
  show final: "k \<ge> length as \<Longrightarrow> ?\<rho> k = \<sigma>" for k using assms(1) by (simp add: schedule_run_def)
  show "program_run ?\<rho>"
    unfolding program_run_def
  proof (intro conjI allI)
    show "reachable (?\<rho> 0)" by (simp add: schedule_run_def reachable.init)
    fix k
    show "?\<rho> (Suc k) = ?\<rho> k \<or> (\<exists>a. within_limits (?\<rho> k) \<and> step (?\<rho> k) a (?\<rho> (Suc k)))"
    proof (cases "k < length as")
      case True
      obtain \<sigma>1 \<sigma>2 where s: "perform_all (take k as) (sys_init threads par) = Some \<sigma>1"
        "perform_all (take (Suc k) as) (sys_init threads par) = Some \<sigma>2" using some by blast
      have "perform_all [as ! k] \<sigma>1 = Some \<sigma>2"
        using s by (simp add: take_Suc_conv_app_nth [OF True] perform_all_append del: perform_all.simps)
      then have "within_limits \<sigma>1 \<and> step \<sigma>1 (as ! k) \<sigma>2" by (auto simp: perform_step split: if_splits option.splits)
      then show ?thesis using s by (auto simp: schedule_run_def)
    next
      case False
      then show ?thesis by (simp add: schedule_run_def)
    qed
  qed
  have "\<not> pending (?\<rho> (max k (length as))) f" for k f
    using final [of "max k (length as)"] assms(2) by (simp add: pending_def idle_def)
  then show "fair_to ?\<rho> P" unfolding fair_to_def using max.cobounded1 by blast
qed

end
