(* ===== verification/Wakeups.thy ===== *)
theory Wakeups
  imports Notification
begin

text \<open>
  Waking the interrupts of a shard. As long as a shard has not been drained, its waiters are
  exactly the registrations of its listeners; the drain hands all of them to the thread that
  stops the shard; and after it nothing is registered any more. So no interrupt that returned
  \<^verbatim>\<open>Pending\<close> sleeps through the stop.
\<close>

declare split_paired_All [simp del] split_paired_Ex [simp del]

section \<open>Listeners and their keys\<close>

definition listener :: "heap \<Rightarrow> iid \<Rightarrow> (sid \<times> registration option \<times> (waker \<times> unit option poll) option) option" where
  "listener h i = map_option (\<lambda>it. (it_shard it, it_registration it, it_last it)) (interrupt_at h i)"

definition waiting :: "heap \<Rightarrow> sid \<Rightarrow> nat \<rightharpoonup> waker" where
  "waiting h s = slab_lookup (sh_waiters (shard_at h s))"

text \<open>The steps that touch no waiter, no listener and no waker.\<close>

definition same_waits :: "heap \<Rightarrow> heap \<Rightarrow> bool" where
  "same_waits h h' \<longleftrightarrow> listener h' = listener h \<and> n_interrupts h' = n_interrupts h \<and> woken h' = woken h \<and>
     (\<forall>s. waiting h' s = (if fst s \<in> {n_nodes h..<n_nodes h'} then Map.empty else waiting h s))"

definition same_wait_fields :: "heap \<Rightarrow> heap \<Rightarrow> bool" where
  "same_wait_fields h h' \<longleftrightarrow> listener h' = listener h \<and> n_interrupts h' = n_interrupts h \<and> woken h' = woken h \<and>
     waiting h' = waiting h \<and> n_nodes h' = n_nodes h"

lemma same_wait_fields_waits: "same_wait_fields h h' \<Longrightarrow> same_waits h h'"
  by (simp add: same_wait_fields_def same_waits_def)

lemma same_wait_refl [simp]: "same_wait_fields h h"
  by (simp add: same_wait_fields_def)

lemma same_wait_upd [simp]:
  "same_wait_fields h (set_shard_word s w h)" "same_wait_fields h (set_node_word n w h)"
  "same_wait_fields h (upd_shard s (sh_guards_update fg) h)" "same_wait_fields h (upd_shard s (sh_children_update fc) h)"
  "same_wait_fields h (upd_node n g h)" "same_wait_fields h (arc_clone n h)"
  "same_wait_fields h (lock_acquire t s h)" "same_wait_fields h (lock_release s h)"
  "same_wait_fields h (alloc_handle n h)" "same_wait_fields h (alloc_completion n h)"
  "same_wait_fields h (alloc_handle n (arc_clone m h))" "same_wait_fields h (alloc_completion n (arc_clone m h))"
  "same_wait_fields h (h\<lparr>info_strong := I\<rparr>)" "same_wait_fields h (h\<lparr>clock := C\<rparr>)"
  "same_wait_fields h (h\<lparr>info_at := A, info_strong := I, n_infos := N\<rparr>)"
  "same_wait_fields h (h\<lparr>guard_at := G\<rparr>)" "same_wait_fields h (h\<lparr>handle_at := HA\<rparr>)"
  "same_wait_fields h (h\<lparr>completion_at := CA\<rparr>)" "same_wait_fields h (h\<lparr>index_of := IX, next_index := NX\<rparr>)"
  by (simp_all add: same_wait_fields_def listener_def [abs_def] waiting_def [abs_def] set_shard_word_def set_node_word_def
      arc_clone_def alloc_handle_def alloc_completion_def lock_acquire_def lock_release_def fun_eq_iff)

lemma same_wait_index: "shard_index t n h = (h', i) \<Longrightarrow> same_wait_fields h h'"
  by (auto simp: shard_index_def thread_index_def Let_def split: prod.splits if_splits)

lemma same_wait_inner: "inner_shard t n h = (h', s) \<Longrightarrow> same_wait_fields h h'"
  using same_wait_index by (auto simp: inner_shard_def split: prod.splits)

text \<open>The frames that do touch them, and the frames the proof follows.\<close>

fun waits_on :: "frame \<Rightarrow> bool" where
  "waits_on (Stop (ShardDrain s w)) = True"
| "waits_on (Stop (ShardWake s w ws)) = True"
| "waits_on (Swan (InterruptNew n)) = True"
| "waits_on (Intr c) = True"
| "waits_on _ = False"

definition calm :: "frame list \<Rightarrow> bool" where
  "calm fs \<longleftrightarrow> (\<forall>f \<in> set fs. \<forall>c. f \<noteq> Intr c)"

lemma calm_simps [simp]:
  "calm []" "calm (f # fs) \<longleftrightarrow> (\<forall>c. f \<noteq> Intr c) \<and> calm fs" "calm (fs @ gs) \<longleftrightarrow> calm fs \<and> calm gs"
  "calm (stop_shards n h)"
  by (auto simp: calm_def stop_shards_def)

lemma count_waits: "count_step t b c h = Next h' gs \<Longrightarrow> same_wait_fields h h' \<and> calm gs"
  using count_frames [of t b c h h' gs]
proof (induction t b c h rule: count_step.induct)
  case (5 t sp n st h)
  then show ?case
    by (auto simp: node_arrive_loop_def shard_ref_def atomic_defs same_wait_index
        split: option.splits if_splits prod.splits)
qed (auto simp: step_defs shard_ref_def notify_zero_def atomic_defs Let_def
    simp del: upd_node_def upd_shard_def split: option.splits if_splits)

lemma calm_live: "calm (concat (map (\<lambda>c. [Stop (NodeStop c), Life (DropArc c)]) live))"
  by (induction live) simp_all

lemma stop_waits: "stop_step t c h = Next h' gs \<Longrightarrow> calm gs \<and> (\<not> waits_on (Stop c) \<longrightarrow> same_wait_fields h h')"
proof (induction t c h rule: stop_step.induct)
  case (4 t s w ws h)
  then show ?case by (cases ws) auto
next
  case (7 t n i cs live h)
  then show ?case by (cases cs) (auto simp: weak_upgrade_def split: if_splits)
qed (auto simp: step_defs notify_zero_def Let_def calm_live simp del: upd_node_def upd_shard_def split: if_splits)

lemma life_waits: "life_step t c h = Next h' gs \<Longrightarrow> same_waits h h' \<and> calm gs"
proof (cases c)
  case (ChildNew n)
  assume step: "life_step t c h = Next h' gs"
  obtain h1 i where h1: "shard_index t n h = (h1, i)" by fastforce
  then have "same_wait_fields h h1" by (rule same_wait_index)
  then have "same_wait_fields h (arc_clone n h1)"
    by (simp add: same_wait_fields_def arc_clone_def listener_def [abs_def] waiting_def [abs_def])
  then show ?thesis
    using step ChildNew h1
    by (auto simp: child_new_def Let_def alloc_node_def same_waits_def same_wait_fields_def shard_new_def less_Suc_eq_le
        listener_def [abs_def] waiting_def [abs_def] slab.lookup_empty fun_eq_iff split: prod.splits)
qed (auto simp: drop_arc_def child_check_def child_return_def child_register_def child_store_key_def deregister_def Let_def
      simp del: upd_node_def upd_shard_def split: if_splits option.splits prod.splits intro!: same_wait_fields_waits)

lemma provenance_return_calm [simp]: "calm (provenance_return s loc info to h)"
  by (cases to) simp_all

lemma guard_build_waits: "guard_build s pin loc info dst h = Next h' gs \<Longrightarrow> same_wait_fields h h' \<and> calm gs"
  by (auto simp: guard_build_def alloc_guard_def Let_def same_wait_fields_def arc_clone_def listener_def [abs_def]
      waiting_def [abs_def] fun_eq_iff split: option.splits)

lemma guard_waits: "guard_step t b c h = Next h' gs \<Longrightarrow> same_wait_fields h h' \<and> calm gs"
  by (cases c) (auto simp: guard_at_location_def provenance_def provenance_register_def guard_for_shard_def arrive_if_arrived_def
      guard_upgrade_def weak_upgrade_def guard_flush_weak_def alloc_info_def
      guard_clone_arrive_def guard_drop_def guard_depart_def drop_info_def atomic_defs Let_def shard_depart_def
      simp del: upd_shard_def split: if_splits option.splits prod.splits dest: same_wait_inner guard_build_waits)

lemma swan_waits: "swan_step t c h = Next h' gs \<Longrightarrow> calm gs \<and> (\<not> waits_on (Swan c) \<longrightarrow> same_wait_fields h h')"
  by (cases c) (auto simp: swansong_clone_def swansong_clone_arc_def handle_drop_def swansong_drop_def completion_new_def
      interrupt_new_def simp del: upd_node_def split: if_splits prod.splits)

lemma exec_waits:
  assumes "exec t b f h = Next h' gs" "\<not> waits_on f"
  shows "same_waits h h'"
  using assms same_wait_fields_waits
  by (cases f) (auto dest!: count_waits stop_waits life_waits guard_waits swan_waits)

lemma exec_calm:
  assumes "exec t b f h = Next h' gs" "\<And>c. f \<noteq> Intr c"
  shows "calm gs"
  using assms by (cases f) (auto dest!: count_waits stop_waits life_waits guard_waits swan_waits)

section \<open>What polling does\<close>

lemma listener_set:
  "listener (set_interrupt i it h) = (listener h)(i \<mapsto> (it_shard it, it_registration it, it_last it))"
  by (simp add: listener_def fun_eq_iff)

lemma waiting_set [simp]:
  "waiting (set_interrupt i it h) = waiting h" "woken (set_interrupt i it h) = woken h"
  "n_interrupts (set_interrupt i it h) = n_interrupts h"
  by (simp_all add: waiting_def fun_eq_iff)

lemma lock_waits [simp]:
  "listener (lock_acquire t s h) = listener h" "waiting (lock_acquire t s h) = waiting h"
  "listener (lock_release s h) = listener h" "waiting (lock_release s h) = waiting h"
  "woken (lock_acquire t s h) = woken h" "woken (lock_release s h) = woken h"
  "n_interrupts (lock_acquire t s h) = n_interrupts h" "n_interrupts (lock_release s h) = n_interrupts h"
  by (simp_all add: lock_acquire_def lock_release_def listener_def [abs_def] waiting_def [abs_def] fun_eq_iff)

definition poll_goes_on :: "heap \<Rightarrow> iid \<Rightarrow> interrupt \<Rightarrow> intr_frame \<Rightarrow> bool" where
  "poll_goes_on h i it c \<longleftrightarrow> uses (Intr c) = Some i \<and>
     (\<forall>j w. c = PollRegister j w \<longrightarrow> \<not> is_stopped (it_shard it) h) \<and>
     (\<forall>j w. c = PollRecheck j w \<longrightarrow> (\<exists>r. it_registration it = Some r \<and> rn_waker r = w))"

lemma poll_effect:
  assumes step: "intr_step t b c h = Next h' gs" and i: "uses (Intr c) = Some i" "interrupt_at h i = Some it"
    and c: "\<And>w. c \<noteq> PollRegister i w"
  shows "waiting h' = waiting h \<and> woken h' = woken h \<and> n_interrupts h' = n_interrupts h \<and>
    ((listener h' = listener h \<and> (\<exists>c'. gs = [Intr c'] \<and> poll_goes_on h i it c')) \<or>
     (gs = [] \<and> (\<exists>w r. listener h' = (listener h)(i \<mapsto> (it_shard it, it_registration it, Some (w, r))) \<and>
        (r = Pending \<longrightarrow> c = PollRecheck i w \<and> \<not> is_stopped (it_shard it) h))))"
proof (cases c)
  case (Poll j w)
  with step i show ?thesis
    by (auto simp: poll_interrupt_def on_interrupt_def poll_returns_def listener_set poll_goes_on_def
        simp del: set_interrupt_def split: if_splits intro!: exI [of _ w] exI [of _ "Ready None"])
next
  case (PollWrapped j w)
  with step i show ?thesis
    by (auto simp: poll_wrapped_def on_interrupt_def poll_returns_def listener_set poll_goes_on_def
        simp del: set_interrupt_def split: if_splits intro!: exI [of _ w] exI [of _ "Ready (Some ())"])
next
  case (PollStopped j w)
  with step i show ?thesis
    by (auto simp: poll_stopped_def on_interrupt_def poll_goes_on_def will_wake_def split: if_splits option.splits)
next
  case (PollRecheck j w)
  let ?r = "if is_stopped (it_shard it) h then Ready None else Pending"
  have "gs = []" "h' = set_interrupt i (it\<lparr>it_last := Some (w, ?r)\<rparr>) h"
    using PollRecheck step i by (auto simp: poll_recheck_def on_interrupt_def poll_returns_def)
  then show ?thesis using PollRecheck i
    by (auto simp: listener_set simp del: set_interrupt_def intro!: exI [of _ w] exI [of _ ?r])
next
  case (PollLock j w)
  with step i show ?thesis
    by (auto simp: poll_lock_def on_interrupt_def poll_goes_on_def)
next
  case (PollLocked j w)
  with step i show ?thesis
    by (auto simp: poll_locked_def on_interrupt_def poll_returns_def listener_set poll_goes_on_def
        simp del: set_interrupt_def split: if_splits intro!: exI [of _ w] exI [of _ "Ready None"])
qed (use i c in auto)

lemma register_effect:
  assumes step: "intr_step t b (PollRegister i w) h = Next h' gs" and it: "interrupt_at h i = Some it"
    and ok: "slab_ok (sh_waiters (shard_at h (it_shard it)))"
  obtains k where "gs = []" "woken h' = woken h" "n_interrupts h' = n_interrupts h"
    "listener h' = (listener h)(i \<mapsto> (it_shard it, Some \<lparr>rn_key = k, rn_waker = w\<rparr>, Some (w, Pending)))"
    "waiting h' = (waiting h)(it_shard it :=
       ((waiting h (it_shard it)) |` (- (case it_registration it of None \<Rightarrow> {} | Some r \<Rightarrow> {rn_key r})))(k \<mapsto> w))"
    "k \<in> (case it_registration it of None \<Rightarrow> {} | Some r \<Rightarrow> {rn_key r}) \<or> waiting h (it_shard it) k = None"
proof -
  let ?s = "it_shard it"
  let ?old = "case it_registration it of None \<Rightarrow> {} | Some r \<Rightarrow> {rn_key r}"
  let ?W = "case it_registration it of None \<Rightarrow> sh_waiters (shard_at h ?s)
      | Some r \<Rightarrow> fst (slab_remove (sh_waiters (shard_at h ?s)) (rn_key r))"
  have W: "slab_ok ?W" "slab_lookup ?W = waiting h ?s |` (- ?old)"
    using ok slab.remove_ok [OF ok]
    by (auto simp: waiting_def fun_eq_iff restrict_map_def slab.remove_lookup split: option.splits)
  obtain S k where ins: "slab_insert ?W w = Some (S, k)" using slab.insert_total [OF W(1)] by blast
  have h': "h' = set_interrupt i (it\<lparr>it_registration := Some \<lparr>rn_key = k, rn_waker = w\<rparr>, it_last := Some (w, Pending)\<rparr>)
      (lock_release ?s (upd_shard ?s (sh_waiters_update (\<lambda>_. S)) h))" "gs = []"
    using step it ins by (auto simp: poll_register_def on_interrupt_def poll_returns_def Let_def simp del: set_interrupt_def)
  have l: "listener (upd_shard ?s (sh_waiters_update (\<lambda>_. S)) h) = listener h" by (simp add: listener_def fun_eq_iff)
  have w: "waiting (upd_shard ?s (sh_waiters_update (\<lambda>_. S)) h) = (waiting h)(?s := slab_lookup S)"
    by (simp add: waiting_def fun_eq_iff)
  show thesis
  proof (rule that)
    show "gs = []" by (rule h'(2))
    show "listener h' = (listener h)(i \<mapsto> (?s, Some \<lparr>rn_key = k, rn_waker = w\<rparr>, Some (w, Pending)))"
      by (simp add: h'(1) listener_set l del: set_interrupt_def upd_shard_def)
    show "waiting h' = (waiting h)(?s := ((waiting h ?s) |` (- ?old))(k \<mapsto> w))"
      using slab.insert_lookup [OF W(1) ins] W(2) by (simp add: h'(1) w del: set_interrupt_def upd_shard_def)
    show "k \<in> ?old \<or> waiting h ?s k = None"
      using slab.insert_fresh [OF W(1) ins] W(2) by (auto simp: restrict_map_def split: if_splits)
  qed (simp_all add: h'(1))
qed

lemma listener_drop_effect:
  assumes "intr_step t b (ListenerDrop s k) h = Next h' gs"
  shows "gs = []" "woken h' = woken h" "n_interrupts h' = n_interrupts h" "listener h' = listener h"
    "waiting h' = (waiting h)(s := (waiting h s)(k := None))"
  using assms by (auto simp: listener_drop_def listener_def waiting_def fun_eq_iff slab.remove_lookup)

lemma interrupt_new_effect:
  assumes step: "swan_step t (InterruptNew n) h = Next h' gs" and ok: "heap_ok h"
  obtains s where "gs = []" "woken h' = woken h" "n_interrupts h' = Suc (n_interrupts h)"
    "listener h' = (listener h)(n_interrupts h \<mapsto> (s, None, None))" "waiting h' = waiting h" "listener h (n_interrupts h) = None"
proof -
  obtain h1 s where h1: "inner_shard t n h = (h1, s)" by (cases "inner_shard t n h") blast
  then have same: "same_wait_fields h h1" by (rule same_wait_inner)
  have h': "h' = alloc_interrupt (stop_listener_new s) h1" "gs = []" using step h1 by (auto simp: interrupt_new_def)
  have "interrupt_at h (n_interrupts h) = None"
    using heap_okD(6) [OF ok, of "n_interrupts h"] by (cases "interrupt_at h (n_interrupts h)") auto
  then show thesis
    using same h' by (intro that [of s]) (auto simp: alloc_interrupt_def listener_def [abs_def] waiting_def [abs_def]
        same_wait_fields_def stop_listener_new_def fun_eq_iff)
qed

lemma drain_effect:
  assumes "stop_step t (ShardDrain s p) h = Next h' gs"
  shows "gs = [Stop (ShardWake s p (slab_values (sh_waiters (shard_at h s))))]" "woken h' = woken h"
    "n_interrupts h' = n_interrupts h" "listener h' = listener h" "waiting h' = (waiting h)(s := Map.empty)"
    "sh_lock (shard_at h s) = None"
  using assms
  by (auto simp: shard_drain_def listener_def waiting_def fun_eq_iff slab.lookup_empty slab_into_values_eq)

lemma wake_effect:
  assumes "stop_step t (ShardWake s p ws) h = Next h' gs"
  shows "n_interrupts h' = n_interrupts h" "listener h' = listener h" "waiting h' = waiting h"
    "\<forall>w \<in> set ws. (s, w) \<in> set (woken h') \<or> (\<exists>ws'. Stop (ShardWake s p ws') \<in> set gs \<and> w \<in> set ws')"
    "set (woken h) \<subseteq> set (woken h')"
  using assms by (cases ws; auto simp: listener_def waiting_def fun_eq_iff)+

section \<open>The invariant\<close>

definition holds_key :: "heap \<Rightarrow> sid \<Rightarrow> nat \<Rightarrow> iid \<Rightarrow> bool" where
  "holds_key h s k i \<longleftrightarrow> (\<exists>r l. listener h i = Some (s, Some r, l) \<and> rn_key r = k)"

text \<open>The registrations and the drops of listeners that own a key of a shard.\<close>

definition key_owners :: "sys \<Rightarrow> sid \<Rightarrow> nat \<Rightarrow> nat" where
  "key_owners \<sigma> s k = tally (n_interrupts (mem \<sigma>)) (holds_key (mem \<sigma>) s k) + frames_count \<sigma> (Intr (ListenerDrop s k))"

text \<open>A shard whose waiters are exactly its registrations.\<close>

definition exact :: "sys \<Rightarrow> sid \<Rightarrow> bool" where
  "exact \<sigma> s \<longleftrightarrow> (\<forall>k. key_owners \<sigma> s k = of_bool (waiting (mem \<sigma>) s k \<noteq> None)) \<and>
     (\<forall>i r l. listener (mem \<sigma>) i = Some (s, Some r, l) \<longrightarrow> waiting (mem \<sigma>) s (rn_key r) = Some (rn_waker r))"

definition registering :: "sys \<Rightarrow> sid \<Rightarrow> bool" where
  "registering \<sigma> s \<longleftrightarrow> (\<exists>i w. pending \<sigma> (Intr (PollRegister i w)) \<and> map_option fst (listener (mem \<sigma>) i) = Some s)"

text \<open>A shard that has been drained: nothing waits on it any more, and nothing will.\<close>

definition drained :: "sys \<Rightarrow> sid \<Rightarrow> bool" where
  "drained \<sigma> s \<longleftrightarrow> is_stopped s (mem \<sigma>) \<and> waiting (mem \<sigma>) s = Map.empty \<and> \<not> registering \<sigma> s"

definition drain_due :: "sys \<Rightarrow> sid \<Rightarrow> bool" where
  "drain_due \<sigma> s \<longleftrightarrow> (\<exists>p. pending \<sigma> (Stop (ShardDrain s p)))"

definition woken_or_due :: "sys \<Rightarrow> sid \<Rightarrow> waker \<Rightarrow> bool" where
  "woken_or_due \<sigma> s w \<longleftrightarrow> (s, w) \<in> set (woken (mem \<sigma>)) \<or> (\<exists>p ws. pending \<sigma> (Stop (ShardWake s p ws)) \<and> w \<in> set ws)"

definition all_woken :: "sys \<Rightarrow> sid \<Rightarrow> bool" where
  "all_woken \<sigma> s \<longleftrightarrow> (\<forall>i reg w. listener (mem \<sigma>) i = Some (s, reg, Some (w, Pending)) \<longrightarrow> woken_or_due \<sigma> s w)"

definition shard_wakes :: "sys \<Rightarrow> sid \<Rightarrow> bool" where
  "shard_wakes \<sigma> s \<longleftrightarrow> (exact \<sigma> s \<and> (is_stopped s (mem \<sigma>) \<longrightarrow> drain_due \<sigma> s)) \<or> (drained \<sigma> s \<and> all_woken \<sigma> s)"

text \<open>An interrupt that returned \<^verbatim>\<open>Pending\<close> is registered with the waker it was polled with.\<close>

definition rechecks :: "heap \<Rightarrow> frame \<Rightarrow> bool" where
  "rechecks h f \<longleftrightarrow> (\<forall>i w. f = Intr (PollRecheck i w) \<longrightarrow>
     (\<exists>s r l. listener h i = Some (s, Some r, l) \<and> rn_waker r = w))"

definition not_recheck :: "frame list \<Rightarrow> bool" where
  "not_recheck fs \<longleftrightarrow> (\<forall>f \<in> set fs. \<forall>i w. f \<noteq> Intr (PollRecheck i w))"

definition listeners_ok :: "sys \<Rightarrow> bool" where
  "listeners_ok \<sigma> \<longleftrightarrow>
     (\<forall>i s reg w. listener (mem \<sigma>) i = Some (s, reg, Some (w, Pending)) \<longrightarrow> (\<exists>r. reg = Some r \<and> rn_waker r = w)) \<and>
     (\<forall>t<n_threads \<sigma>. not_recheck (tl (stack \<sigma> t)) \<and> (\<forall>f fs. stack \<sigma> t = f # fs \<longrightarrow> rechecks (mem \<sigma>) f)) \<and>
     (\<forall>s. drain_due \<sigma> s \<longrightarrow> is_stopped s (mem \<sigma>))"

definition wake_ok :: "sys \<Rightarrow> bool" where
  "wake_ok \<sigma> \<longleftrightarrow> listeners_ok \<sigma> \<and> (\<forall>s. valid_shard (mem \<sigma>) s \<longrightarrow> shard_wakes \<sigma> s)"

lemma listeners_okD:
  assumes "listeners_ok \<sigma>"
  shows "listener (mem \<sigma>) i = Some (s, reg, Some (w, Pending)) \<Longrightarrow> \<exists>r. reg = Some r \<and> rn_waker r = w"
    "t < n_threads \<sigma> \<Longrightarrow> not_recheck (tl (stack \<sigma> t))"
    "t < n_threads \<sigma> \<Longrightarrow> stack \<sigma> t = f # fs \<Longrightarrow> rechecks (mem \<sigma>) f"
    "drain_due \<sigma> s \<Longrightarrow> is_stopped s (mem \<sigma>)"
  using assms unfolding listeners_ok_def by blast+

lemma not_recheck_simps [simp]:
  "not_recheck []" "not_recheck (f # fs) \<longleftrightarrow> (\<forall>i w. f \<noteq> Intr (PollRecheck i w)) \<and> not_recheck fs"
  "not_recheck (fs @ gs) \<longleftrightarrow> not_recheck fs \<and> not_recheck gs"
  by (auto simp: not_recheck_def)

lemma calm_not_recheck: "calm fs \<Longrightarrow> not_recheck fs"
  by (auto simp: calm_def not_recheck_def)

lemma not_recheck_tl: "not_recheck fs \<Longrightarrow> not_recheck (tl fs)"
  by (cases fs) auto

lemma not_recheck_top: "not_recheck gs \<Longrightarrow> gs = g # gs' \<Longrightarrow> rechecks h g"
  by (auto simp: rechecks_def)

section \<open>What a thread polls is its own\<close>

lemma tops_differ:
  assumes r: "reachable \<sigma>" and t: "t < n_threads \<sigma>" "stack \<sigma> t = f # fs" "uses f = Some i"
    and u: "u < n_threads \<sigma>" "stack \<sigma> u = g # gs" "uses g = Some i"
  shows "u = t"
proof (rule ccontr)
  assume "u \<noteq> t"
  let ?c = "\<lambda>v. count_list (stack \<sigma> v) (Borrow (OInterrupt i))"
  have "?c t \<noteq> 0" using used_present(1) [OF r t] t(2) unfolding count_list_0_iff by simp
  moreover have "?c u \<noteq> 0" using used_present(1) [OF r u] u(2) unfolding count_list_0_iff by simp
  moreover have "addup (n_threads \<sigma>) ?c = ?c t + addup (n_threads \<sigma>) (?c(t := 0))" by (rule addup_split [OF t(1)])
  moreover have "(?c(t := 0)) u \<le> addup (n_threads \<sigma>) (?c(t := 0))" by (rule member_le_addup [OF u(1)])
  moreover have "(?c(t := 0)) u = ?c u" using \<open>u \<noteq> t\<close> by simp
  ultimately have "2 \<le> frames_count \<sigma> (Borrow (OInterrupt i))" unfolding frames_count_def by linarith
  then show False using owner_okD(5) [OF reachable_owner_ok [OF r], of i] by simp
qed

text \<open>The mutex of a shard on which an interrupt is registering is held.\<close>

lemma registering_locked:
  assumes r: "reachable \<sigma>" and s: "registering \<sigma> s"
  shows "sh_lock (shard_at (mem \<sigma>) s) \<noteq> None"
proof -
  obtain i w where p: "pending \<sigma> (Intr (PollRegister i w))" "map_option fst (listener (mem \<sigma>) i) = Some s"
    using s unfolding registering_def by blast
  then obtain t where t: "t < n_threads \<sigma>" "Intr (PollRegister i w) \<in> set (stack \<sigma> t)" unfolding pending_def by blast
  obtain f fs where f: "stack \<sigma> t = f # fs" using t(2) by (cases "stack \<sigma> t") auto
  have "outside fs" using lock_okD(1) [OF reachable_lock_ok [OF r] t(1)] f by simp
  then have "f = Intr (PollRegister i w)" using t(2) f by (auto simp: outside_def)
  then have "top_section (mem \<sigma>) (stack \<sigma> t) = Some s" using f p(2) by (auto simp: listener_def)
  then show ?thesis using lock_okD(2) [OF reachable_lock_ok [OF r], of s t] t(1) by simp
qed

lemma top_registering:
  assumes "t < n_threads \<sigma>" "stack \<sigma> t = Intr (PollRegister i w) # fs" "interrupt_at (mem \<sigma>) i = Some it"
  shows "registering \<sigma> (it_shard it)"
  unfolding registering_def
  by (intro exI [of _ i] exI [of _ w] conjI top_pending [OF assms(1,2)]) (simp add: listener_def assms(3))

section \<open>Steps of a thread\<close>

lemma tally_two: "i < n \<Longrightarrow> j < n \<Longrightarrow> i \<noteq> j \<Longrightarrow> P i \<Longrightarrow> P j \<Longrightarrow> 2 \<le> tally n P"
proof -
  assume a: "i < n" "j < n" "i \<noteq> j" "P i" "P j"
  have "tally n P = of_bool (P i) + addup n ((\<lambda>x. of_bool (P x))(i := 0))" by (rule addup_split [OF a(1)])
  moreover have "((\<lambda>x. of_bool (P x))(i := 0 :: nat)) j \<le> addup n ((\<lambda>x. of_bool (P x))(i := 0))"
    by (rule member_le_addup [OF a(2)])
  ultimately show ?thesis using a by simp
qed

text \<open>A shard whose waiters stay its registrations.\<close>

lemma exact_transfer:
  assumes t: "t < n_threads \<sigma>" "stack \<sigma> t = f # fs" and inv: "exact \<sigma> s" "is_stopped s (mem \<sigma>) \<longrightarrow> drain_due \<sigma> s"
    and waiting: "waiting h s = waiting (mem \<sigma>) s"
    and owners: "\<And>k. key_owners (\<sigma>\<lparr>mem := h, stack := (stack \<sigma>)(t := gs @ fs)\<rparr>) s k = key_owners \<sigma> s k"
    and regs: "\<And>i r l. listener h i = Some (s, Some r, l) \<Longrightarrow> \<exists>l'. listener (mem \<sigma>) i = Some (s, Some r, l')"
    and stopped: "is_stopped s h \<Longrightarrow> is_stopped s (mem \<sigma>) \<or> f = Stop (ShardStop s)"
    and due: "f = Stop (ShardStop s) \<Longrightarrow> \<exists>p. Stop (ShardDrain s p) \<in> set gs" "\<And>p. f \<noteq> Stop (ShardDrain s p)"
  shows "shard_wakes (\<sigma>\<lparr>mem := h, stack := (stack \<sigma>)(t := gs @ fs)\<rparr>) s"
proof -
  let ?\<sigma> = "\<sigma>\<lparr>mem := h, stack := (stack \<sigma>)(t := gs @ fs)\<rparr>"
  have "exact ?\<sigma> s" using inv(1) owners waiting regs unfolding exact_def by fastforce
  moreover have "drain_due ?\<sigma> s" if "is_stopped s h"
    using stopped [OF that] inv(2) due pending_run [OF t] unfolding drain_due_def by blast
  ultimately show ?thesis by (simp add: shard_wakes_def)
qed

text \<open>A drained shard stays drained, and who waited on it has been or will be woken.\<close>

lemma drained_transfer:
  assumes t: "t < n_threads \<sigma>" "stack \<sigma> t = f # fs" and inv: "drained \<sigma> s" "all_woken \<sigma> s"
    and waiting: "waiting h s = Map.empty" and stopped: "is_stopped s (mem \<sigma>) \<Longrightarrow> is_stopped s h"
    and reg: "registering (\<sigma>\<lparr>mem := h, stack := (stack \<sigma>)(t := gs @ fs)\<rparr>) s \<Longrightarrow> registering \<sigma> s \<or> \<not> is_stopped s (mem \<sigma>)"
    and last: "\<And>i reg w. listener h i = Some (s, reg, Some (w, Pending)) \<Longrightarrow>
      listener (mem \<sigma>) i = Some (s, reg, Some (w, Pending)) \<or> \<not> is_stopped s (mem \<sigma>)"
    and woken: "set (woken (mem \<sigma>)) \<subseteq> set (woken h)"
    and wake: "\<And>p ws w. f = Stop (ShardWake s p ws) \<Longrightarrow> w \<in> set ws \<Longrightarrow>
      (s, w) \<in> set (woken h) \<or> (\<exists>p' ws'. Stop (ShardWake s p' ws') \<in> set gs \<and> w \<in> set ws')"
  shows "shard_wakes (\<sigma>\<lparr>mem := h, stack := (stack \<sigma>)(t := gs @ fs)\<rparr>) s"
proof -
  let ?\<sigma> = "\<sigma>\<lparr>mem := h, stack := (stack \<sigma>)(t := gs @ fs)\<rparr>"
  have dead: "is_stopped s (mem \<sigma>)" "\<not> registering \<sigma> s" using inv(1) by (simp_all add: drained_def)
  have persists: "woken_or_due ?\<sigma> s w" if due: "woken_or_due \<sigma> s w" for w
  proof (cases "(s, w) \<in> set (woken (mem \<sigma>))")
    case True
    then show ?thesis using woken by (auto simp: woken_or_due_def)
  next
    case False
    then obtain p ws where p: "pending \<sigma> (Stop (ShardWake s p ws))" "w \<in> set ws"
      using due unfolding woken_or_due_def by blast
    show ?thesis
    proof (cases "Stop (ShardWake s p ws) = f")
      case True
      then show ?thesis using wake [of p ws w] p(2) pending_run(1) [OF t] unfolding woken_or_due_def by fastforce
    next
      case False
      then show ?thesis using pending_run(2) [OF t p(1)] p(2) unfolding woken_or_due_def by blast
    qed
  qed
  have "drained ?\<sigma> s" using waiting stopped reg dead unfolding drained_def by auto
  moreover have "all_woken ?\<sigma> s"
    unfolding all_woken_def
  proof (intro allI impI)
    fix i reg w
    assume "listener (mem ?\<sigma>) i = Some (s, reg, Some (w, Pending))"
    then have "listener (mem \<sigma>) i = Some (s, reg, Some (w, Pending))" using last dead(1) by simp
    then show "woken_or_due ?\<sigma> s w" using persists inv(2) unfolding all_woken_def by blast
  qed
  ultimately show ?thesis by (simp add: shard_wakes_def)
qed

lemma owners_run:
  assumes t: "t < n_threads \<sigma>" "stack \<sigma> t = f # fs"
    and n: "tally (n_interrupts h) (holds_key h s k) = tally (n_interrupts (mem \<sigma>)) (holds_key (mem \<sigma>) s k)"
    and gs: "Intr (ListenerDrop s k) \<notin> set gs" "f \<noteq> Intr (ListenerDrop s k)"
  shows "key_owners (\<sigma>\<lparr>mem := h, stack := (stack \<sigma>)(t := gs @ fs)\<rparr>) s k = key_owners \<sigma> s k"
proof -
  have "count_list gs (Intr (ListenerDrop s k)) = 0" using gs(1) unfolding count_list_0_iff .
  then show ?thesis
    using frames_count_change [OF t(1), of "gs @ fs" h "Intr (ListenerDrop s k)"] t(2) gs(2) n by (simp add: key_owners_def)
qed

lemma holds_key_same: "listener h' = listener h \<Longrightarrow> holds_key h' s k = holds_key h s k"
  by (simp add: holds_key_def fun_eq_iff)

text \<open>The listeners of an interrupt with the same registration own the same keys.\<close>

lemma holds_key_last:
  assumes "listener h' = (listener h)(i \<mapsto> (s', reg, l'))" "listener h i = Some (s', reg, l)"
  shows "holds_key h' s k = holds_key h s k"
  using assms by (auto simp: holds_key_def fun_eq_iff)

lemma registering_run:
  assumes t: "t < n_threads \<sigma>" "stack \<sigma> t = f # fs"
    and gs: "\<And>i w. Intr (PollRegister i w) \<in> set gs \<Longrightarrow> map_option fst (listener h i) = Some s \<Longrightarrow> P"
    and same: "\<And>i w. pending \<sigma> (Intr (PollRegister i w)) \<Longrightarrow> map_option fst (listener h i) = Some s \<Longrightarrow>
      map_option fst (listener (mem \<sigma>) i) = Some s"
    and reg: "registering (\<sigma>\<lparr>mem := h, stack := (stack \<sigma>)(t := gs @ fs)\<rparr>) s"
  shows "registering \<sigma> s \<or> P"
proof -
  let ?\<sigma> = "\<sigma>\<lparr>mem := h, stack := (stack \<sigma>)(t := gs @ fs)\<rparr>"
  obtain i w where p: "pending ?\<sigma> (Intr (PollRegister i w))" "map_option fst (listener h i) = Some s"
    using reg unfolding registering_def by auto
  have "Intr (PollRegister i w) \<in> set gs \<or> pending \<sigma> (Intr (PollRegister i w))"
    using p(1) t unfolding pending_def by (auto split: if_splits)
  then show ?thesis using gs same p(2) unfolding registering_def by blast
qed

text \<open>Steps that change no waiter of the shard and no registration.\<close>

lemma shard_wakes_plain:
  assumes t: "t < n_threads \<sigma>" "stack \<sigma> t = f # fs" and inv: "shard_wakes \<sigma> s"
    and waiting: "waiting h s = waiting (mem \<sigma>) s"
    and holders: "\<And>k. tally (n_interrupts h) (holds_key h s k) = tally (n_interrupts (mem \<sigma>)) (holds_key (mem \<sigma>) s k)"
    and drops: "\<And>k. Intr (ListenerDrop s k) \<notin> set gs" "\<And>k. f \<noteq> Intr (ListenerDrop s k)"
    and regs: "\<And>i r l. listener h i = Some (s, Some r, l) \<Longrightarrow> \<exists>l'. listener (mem \<sigma>) i = Some (s, Some r, l')"
    and shards: "\<And>i w. pending \<sigma> (Intr (PollRegister i w)) \<Longrightarrow> map_option fst (listener h i) = Some s \<Longrightarrow>
      map_option fst (listener (mem \<sigma>) i) = Some s"
    and stopped: "is_stopped s h \<longleftrightarrow> is_stopped s (mem \<sigma>) \<or> f = Stop (ShardStop s)"
    and due: "f = Stop (ShardStop s) \<Longrightarrow> \<exists>p. Stop (ShardDrain s p) \<in> set gs" "\<And>p. f \<noteq> Stop (ShardDrain s p)"
    and reg: "\<And>i w. Intr (PollRegister i w) \<in> set gs \<Longrightarrow> map_option fst (listener h i) = Some s \<Longrightarrow> \<not> is_stopped s (mem \<sigma>)"
    and last: "\<And>i reg w. listener h i = Some (s, reg, Some (w, Pending)) \<Longrightarrow>
      listener (mem \<sigma>) i = Some (s, reg, Some (w, Pending)) \<or> \<not> is_stopped s (mem \<sigma>)"
    and woken: "set (woken (mem \<sigma>)) \<subseteq> set (woken h)"
    and wake: "\<And>p ws w. f = Stop (ShardWake s p ws) \<Longrightarrow> w \<in> set ws \<Longrightarrow>
      (s, w) \<in> set (woken h) \<or> (\<exists>p' ws'. Stop (ShardWake s p' ws') \<in> set gs \<and> w \<in> set ws')"
  shows "shard_wakes (\<sigma>\<lparr>mem := h, stack := (stack \<sigma>)(t := gs @ fs)\<rparr>) s"
  using inv unfolding shard_wakes_def [of \<sigma>]
proof (elim disjE conjE)
  assume i: "exact \<sigma> s" "is_stopped s (mem \<sigma>) \<longrightarrow> drain_due \<sigma> s"
  show ?thesis
    by (rule exact_transfer [OF t i waiting owners_run [OF t holders drops] regs _ due]) (use stopped in auto)
next
  assume i: "drained \<sigma> s" "all_woken \<sigma> s"
  have w: "waiting h s = Map.empty" using waiting i(1) by (simp add: drained_def)
  show ?thesis
    by (rule drained_transfer [OF t i w _ registering_run [OF t reg shards] last woken wake]) (use stopped in auto)
qed

lemma run_is_stopped:
  assumes r: "reachable \<sigma>" "t < n_threads \<sigma>" "stack \<sigma> t = f # fs" and step: "exec t b f (mem \<sigma>) = Next h gs"
    and lim: "within_limits \<sigma>" and s: "valid_shard (mem \<sigma>) s"
  shows "is_stopped s h \<longleftrightarrow> is_stopped s (mem \<sigma>) \<or> f = Stop (ShardStop s)"
  using step_stop_effect(2) [OF step.run [OF r(2,3) step] reachable_sys_ok [OF r(1)] lim s] r(3) by simp

lemma shard_stop_due: "exec t b (Stop (ShardStop s)) h = Next h' gs \<Longrightarrow> \<exists>p. Stop (ShardDrain s p) \<in> set gs"
  by (auto simp: shard_stop_def Let_def)

lemma wakes_quiet:
  assumes r: "reachable \<sigma>" "t < n_threads \<sigma>" "stack \<sigma> t = f # fs" and step: "exec t b f (mem \<sigma>) = Next h gs"
    and lim: "within_limits \<sigma>" and inv: "shard_wakes \<sigma> s" and s: "valid_shard (mem \<sigma>) s" and f: "\<not> waits_on f"
  shows "shard_wakes (\<sigma>\<lparr>mem := h, stack := (stack \<sigma>)(t := gs @ fs)\<rparr>) s"
proof -
  have same: "same_waits (mem \<sigma>) h" by (rule exec_waits [OF step f])
  have "f \<noteq> Intr c" for c using f by auto
  then have calm: "calm gs" by (rule exec_calm [OF step])
  have l: "listener h = listener (mem \<sigma>)" "n_interrupts h = n_interrupts (mem \<sigma>)" "woken h = woken (mem \<sigma>)"
    "waiting h s = waiting (mem \<sigma>) s"
    using same s by (auto simp: same_waits_def valid_shard_def)
  show ?thesis
  proof (rule shard_wakes_plain [OF r(2,3) inv l(4)])
    show "is_stopped s h \<longleftrightarrow> is_stopped s (mem \<sigma>) \<or> f = Stop (ShardStop s)" by (rule run_is_stopped [OF r step lim s])
    show "\<exists>p. Stop (ShardDrain s p) \<in> set gs" if "f = Stop (ShardStop s)" using shard_stop_due step that by blast
  qed (use l f calm holds_key_same [OF l(1)] in \<open>auto simp: calm_def\<close>)
qed

lemma wakes_wake:
  assumes r: "reachable \<sigma>" "t < n_threads \<sigma>" "stack \<sigma> t = f # fs" and step: "exec t b f (mem \<sigma>) = Next h gs"
    and lim: "within_limits \<sigma>" and inv: "shard_wakes \<sigma> s" and s: "valid_shard (mem \<sigma>) s" and f: "f = Stop (ShardWake s' p ws)"
  shows "shard_wakes (\<sigma>\<lparr>mem := h, stack := (stack \<sigma>)(t := gs @ fs)\<rparr>) s"
proof -
  have st: "stop_step t (ShardWake s' p ws) (mem \<sigma>) = Next h gs" using step f by simp
  note l = wake_effect [OF st]
  have calm: "calm gs" using exec_calm [OF step] f by auto
  show ?thesis
  proof (rule shard_wakes_plain [OF r(2,3) inv])
    show "is_stopped s h \<longleftrightarrow> is_stopped s (mem \<sigma>) \<or> f = Stop (ShardStop s)" by (rule run_is_stopped [OF r step lim s])
    show "(s, w) \<in> set (woken h) \<or> (\<exists>p' ws'. Stop (ShardWake s p' ws') \<in> set gs \<and> w \<in> set ws')"
      if "f = Stop (ShardWake s p1 ws1)" "w \<in> set ws1" for p1 ws1 w
      using l(4) that f by auto
  qed (use l f calm holds_key_same [OF l(2)] in \<open>auto simp: calm_def\<close>)
qed

lemma wakes_new:
  assumes r: "reachable \<sigma>" "t < n_threads \<sigma>" "stack \<sigma> t = f # fs" and step: "exec t b f (mem \<sigma>) = Next h gs"
    and lim: "within_limits \<sigma>" and inv: "shard_wakes \<sigma> s" and s: "valid_shard (mem \<sigma>) s" and f: "f = Swan (InterruptNew n)"
  shows "shard_wakes (\<sigma>\<lparr>mem := h, stack := (stack \<sigma>)(t := gs @ fs)\<rparr>) s"
proof -
  have st: "swan_step t (InterruptNew n) (mem \<sigma>) = Next h gs" using step f by simp
  obtain s' where l: "gs = []" "woken h = woken (mem \<sigma>)" "n_interrupts h = Suc (n_interrupts (mem \<sigma>))"
    "listener h = (listener (mem \<sigma>))(n_interrupts (mem \<sigma>) \<mapsto> (s', None, None))" "waiting h = waiting (mem \<sigma>)"
    "listener (mem \<sigma>) (n_interrupts (mem \<sigma>)) = None"
    by (rule interrupt_new_effect [OF st reachable_heap_ok [OF r(1)]])
  have "holds_key h s k = holds_key (mem \<sigma>) s k" for k using l(4,6) by (auto simp: holds_key_def fun_eq_iff)
  moreover have "\<not> holds_key (mem \<sigma>) s k (n_interrupts (mem \<sigma>))" for k using l(6) by (simp add: holds_key_def)
  ultimately have holders: "tally (n_interrupts h) (holds_key h s k) = tally (n_interrupts (mem \<sigma>)) (holds_key (mem \<sigma>) s k)" for k
    using l(3) by simp
  have reg: "map_option fst (listener (mem \<sigma>) i) = Some s"
    if p: "pending \<sigma> (Intr (PollRegister i w))" "map_option fst (listener h i) = Some s" for i w
  proof -
    obtain u where u: "u < n_threads \<sigma>" "Intr (PollRegister i w) \<in> set (stack \<sigma> u)" using p(1) unfolding pending_def by blast
    obtain g gs' where g: "stack \<sigma> u = g # gs'" using u(2) by (cases "stack \<sigma> u") auto
    have "outside gs'" using lock_okD(1) [OF reachable_lock_ok [OF r(1)] u(1)] g by simp
    then have "g = Intr (PollRegister i w)" using u(2) g by (auto simp: outside_def)
    then have "listener (mem \<sigma>) i \<noteq> None" using used_present(3) [OF r(1) u(1) g, of i] by (auto simp: listener_def)
    then have "i \<noteq> n_interrupts (mem \<sigma>)" using l(6) by auto
    then show ?thesis using p(2) l(4) by simp
  qed
  show ?thesis
  proof (rule shard_wakes_plain [OF r(2,3) inv])
    show "is_stopped s h \<longleftrightarrow> is_stopped s (mem \<sigma>) \<or> f = Stop (ShardStop s)" by (rule run_is_stopped [OF r step lim s])
    show "\<exists>l'. listener (mem \<sigma>) i = Some (s, Some r, l')" if "listener h i = Some (s, Some r, l'')" for i r l''
      using that l(4) by (auto split: if_splits)
    show "listener (mem \<sigma>) i = Some (s, reg, Some (w, Pending)) \<or> \<not> is_stopped s (mem \<sigma>)"
      if "listener h i = Some (s, reg, Some (w, Pending))" for i reg w
      using that l(4) by (auto split: if_splits)
  qed (use l f holders reg in auto)
qed

lemma map_update_self: "m i = Some v \<Longrightarrow> (m(i \<mapsto> u)) j = Some x \<Longrightarrow> j \<noteq> i \<Longrightarrow> m j = Some x"
  by simp

lemma wakes_poll:
  assumes r: "reachable \<sigma>" "t < n_threads \<sigma>" "stack \<sigma> t = f # fs" and step: "exec t b f (mem \<sigma>) = Next h gs"
    and lim: "within_limits \<sigma>" and inv: "shard_wakes \<sigma> s" and s: "valid_shard (mem \<sigma>) s"
    and f: "f = Intr c" "uses (Intr c) = Some i" "\<And>w. c \<noteq> PollRegister i w"
  shows "shard_wakes (\<sigma>\<lparr>mem := h, stack := (stack \<sigma>)(t := gs @ fs)\<rparr>) s"
proof -
  obtain it where it: "interrupt_at (mem \<sigma>) i = Some it" using used_present(3) [OF r, of i] f by auto
  have li: "listener (mem \<sigma>) i = Some (it_shard it, it_registration it, it_last it)" using it by (simp add: listener_def)
  have st: "intr_step t b c (mem \<sigma>) = Next h gs" using step f by simp
  have e: "waiting h = waiting (mem \<sigma>)" "woken h = woken (mem \<sigma>)" "n_interrupts h = n_interrupts (mem \<sigma>)"
    "(listener h = listener (mem \<sigma>) \<and> (\<exists>c'. gs = [Intr c'] \<and> poll_goes_on (mem \<sigma>) i it c')) \<or>
     (gs = [] \<and> (\<exists>w r. listener h = (listener (mem \<sigma>))(i \<mapsto> (it_shard it, it_registration it, Some (w, r))) \<and>
        (r = Pending \<longrightarrow> c = PollRecheck i w \<and> \<not> is_stopped (it_shard it) (mem \<sigma>))))"
    using poll_effect [OF st f(2) it f(3)] by blast+
  note stopped = run_is_stopped [OF r step lim s]
  note plain = shard_wakes_plain [OF r(2,3) inv]
  from e(4) show ?thesis
  proof (elim disjE conjE exE)
    fix c'
    assume g: "listener h = listener (mem \<sigma>)" "gs = [Intr c']" "poll_goes_on (mem \<sigma>) i it c'"
    have c': "c' \<noteq> ListenerDrop s k" for k using g(3) by (auto simp: poll_goes_on_def)
    show ?thesis
    proof (rule plain [OF _ _ _ _ _ _ stopped])
      show "\<not> is_stopped s (mem \<sigma>)" if "Intr (PollRegister j w) \<in> set gs" "map_option fst (listener h j) = Some s" for j w
        using that g li by (auto simp: poll_goes_on_def)
    qed (use e g c' f holds_key_same [OF g(1)] in auto)
  next
    fix w r'
    assume g: "gs = []" "listener h = (listener (mem \<sigma>))(i \<mapsto> (it_shard it, it_registration it, Some (w, r')))"
      "r' = Pending \<longrightarrow> c = PollRecheck i w \<and> \<not> is_stopped (it_shard it) (mem \<sigma>)"
    show ?thesis
    proof (rule plain [OF _ _ _ _ _ _ stopped])
      show "\<exists>l'. listener (mem \<sigma>) j = Some (s, Some r, l')" if "listener h j = Some (s, Some r, l)" for j r l
        using that g(2) li by (auto split: if_splits)
      show "map_option fst (listener (mem \<sigma>) j) = Some s" if "map_option fst (listener h j) = Some s" for j
        using that g(2) li by (auto split: if_splits)
      show "listener (mem \<sigma>) j = Some (s, reg, Some (w', Pending)) \<or> \<not> is_stopped s (mem \<sigma>)"
        if "listener h j = Some (s, reg, Some (w', Pending))" for j reg w'
        using that g(2,3) by (auto split: if_splits)
    qed (use e g f holds_key_last [OF g(2) li] in auto)
  qed
qed

lemma wakes_drop:
  assumes r: "reachable \<sigma>" "t < n_threads \<sigma>" "stack \<sigma> t = f # fs" and step: "exec t b f (mem \<sigma>) = Next h gs"
    and lim: "within_limits \<sigma>" and inv: "shard_wakes \<sigma> s" and s: "valid_shard (mem \<sigma>) s"
    and f: "f = Intr (ListenerDrop s' k)"
  shows "shard_wakes (\<sigma>\<lparr>mem := h, stack := (stack \<sigma>)(t := gs @ fs)\<rparr>) s"
proof -
  have st: "intr_step t b (ListenerDrop s' k) (mem \<sigma>) = Next h gs" using step f by simp
  note e = listener_drop_effect [OF st]
  note stopped = run_is_stopped [OF r step lim s]
  show ?thesis
  proof (cases "s = s'")
    case False
    show ?thesis
      by (rule shard_wakes_plain [OF r(2,3) inv _ _ _ _ _ _ stopped])
        (use e f False holds_key_same [OF e(4)] in auto)
  next
    case s': True
    let ?\<sigma> = "\<sigma>\<lparr>mem := h, stack := (stack \<sigma>)(t := gs @ fs)\<rparr>"
    from inv show ?thesis unfolding shard_wakes_def [of \<sigma>]
    proof (elim disjE conjE)
      assume i: "drained \<sigma> s" "all_woken \<sigma> s"
      then have w: "waiting h s = Map.empty" using e(5) s' by (simp add: drained_def)
      have reg: "registering \<sigma> s \<or> \<not> is_stopped s (mem \<sigma>)" if "registering ?\<sigma> s"
        by (rule registering_run [OF r(2,3) _ _ that]) (use e in auto)
      show ?thesis
        by (rule drained_transfer [OF r(2,3) i w _ reg]) (use e f stopped in auto)
    next
      assume i: "exact \<sigma> s" "is_stopped s (mem \<sigma>) \<longrightarrow> drain_due \<sigma> s"
      have count: "frames_count ?\<sigma> (Intr (ListenerDrop s k')) + of_bool (k' = k) = frames_count \<sigma> (Intr (ListenerDrop s k'))" for k'
        using frames_count_change [OF r(2), of "gs @ fs" h "Intr (ListenerDrop s k')"] r(3) f e(1) s' by auto
      then have owners: "key_owners ?\<sigma> s k' + of_bool (k' = k) = key_owners \<sigma> s k'" for k'
        using e(3) holds_key_same [OF e(4)] by (simp add: key_owners_def)
      have one: "key_owners \<sigma> s k = 1" "waiting (mem \<sigma>) s k \<noteq> None"
        using owners [of k] i(1) by (auto simp: exact_def of_bool_def split: if_splits)
      have "key_owners ?\<sigma> s k' = of_bool (waiting h s k' \<noteq> None)" for k'
      proof (cases "k' = k")
        case True
        then show ?thesis using owners [of k] one(1) e(5) s' by simp
      next
        case False
        then show ?thesis using owners [of k'] i(1) e(5) s' by (simp add: exact_def)
      qed
      moreover have "waiting h s (rn_key r') = Some (rn_waker r')" if l: "listener h i = Some (s, Some r', l)" for i r' l
      proof -
        have "rn_key r' \<noteq> k"
        proof
          assume "rn_key r' = k"
          then have "holds_key (mem \<sigma>) s k i" using l e(4) by (auto simp: holds_key_def)
          moreover have "i < n_interrupts (mem \<sigma>)"
            using l e(4) heap_okD(6) [OF reachable_heap_ok [OF r(1)], of i] by (auto simp: listener_def)
          ultimately have "0 < tally (n_interrupts (mem \<sigma>)) (holds_key (mem \<sigma>) s k)" by (auto simp: tally_pos_iff)
          then show False using one(1) count [of k] by (simp add: key_owners_def)
        qed
        then show ?thesis using l e(4,5) s' i(1) by (auto simp: exact_def)
      qed
      ultimately have "exact ?\<sigma> s" by (simp add: exact_def)
      moreover have "drain_due ?\<sigma> s" if "is_stopped s h"
      proof -
        have "drain_due \<sigma> s" using that stopped i(2) f by simp
        then show ?thesis using pending_run(2) [OF r(2,3)] f unfolding drain_due_def by blast
      qed
      ultimately show ?thesis by (simp add: shard_wakes_def)
    qed
  qed
qed

lemma wakes_drain:
  assumes r: "reachable \<sigma>" "t < n_threads \<sigma>" "stack \<sigma> t = f # fs" and step: "exec t b f (mem \<sigma>) = Next h gs"
    and lim: "within_limits \<sigma>" and inv: "shard_wakes \<sigma> s" and s: "valid_shard (mem \<sigma>) s"
    and f: "f = Stop (ShardDrain s' p)" and ls: "listeners_ok \<sigma>"
  shows "shard_wakes (\<sigma>\<lparr>mem := h, stack := (stack \<sigma>)(t := gs @ fs)\<rparr>) s"
proof -
  let ?\<sigma> = "\<sigma>\<lparr>mem := h, stack := (stack \<sigma>)(t := gs @ fs)\<rparr>"
  have st: "stop_step t (ShardDrain s' p) (mem \<sigma>) = Next h gs" using step f by simp
  note e = drain_effect [OF st]
  note stopped = run_is_stopped [OF r step lim s]
  have no_reg: "\<not> registering ?\<sigma> s'"
  proof
    assume "registering ?\<sigma> s'"
    then have "registering \<sigma> s' \<or> False"
      by (rule registering_run [OF r(2,3), rotated -1]) (use e in auto)
    then show False using registering_locked [OF r(1), of s'] e(6) by simp
  qed
  show ?thesis
  proof (cases "s = s'")
    case False
    show ?thesis
      by (rule shard_wakes_plain [OF r(2,3) inv _ _ _ _ _ _ stopped])
        (use e f False holds_key_same [OF e(4)] in auto)
  next
    case s': True
    have "drain_due \<sigma> s" using top_pending [OF r(2,3)] f s' unfolding drain_due_def by blast
    then have "is_stopped s (mem \<sigma>)" by (rule listeners_okD(4) [OF ls])
    then have "drained ?\<sigma> s" using stopped e(5) no_reg s' by (simp add: drained_def)
    moreover have "all_woken ?\<sigma> s"
      unfolding all_woken_def
    proof (intro allI impI)
      fix i reg w
      assume "listener (mem ?\<sigma>) i = Some (s, reg, Some (w, Pending))"
      then have l: "listener (mem \<sigma>) i = Some (s, reg, Some (w, Pending))" using e(4) by simp
      from inv show "woken_or_due ?\<sigma> s w"
        unfolding shard_wakes_def
      proof (elim disjE conjE)
        assume "exact \<sigma> s"
        moreover obtain r' where "reg = Some r'" "rn_waker r' = w" using listeners_okD(1) [OF ls l] by blast
        ultimately have "waiting (mem \<sigma>) s (rn_key r') = Some w" using l by (auto simp: exact_def)
        then have "w \<in> set (slab_values (sh_waiters (shard_at (mem \<sigma>) s)))"
          using slab.lookup_in_values by (simp add: waiting_def)
        moreover have "Stop (ShardWake s p (slab_values (sh_waiters (shard_at (mem \<sigma>) s)))) \<in> set gs"
          using e(1) s' by simp
        ultimately show ?thesis
          using pending_run(1) [OF r(2,3)] unfolding woken_or_due_def by blast
      next
        assume d: "drained \<sigma> s" "all_woken \<sigma> s"
        then have "woken_or_due \<sigma> s w" using l unfolding all_woken_def by blast
        then show ?thesis
          using pending_run(2) [OF r(2,3)] e(2) f unfolding woken_or_due_def by fastforce
      qed
    qed
    ultimately show ?thesis by (simp add: shard_wakes_def)
  qed
qed

text \<open>No two interrupts hold one key.\<close>

lemma key_unshared:
  assumes r: "reachable \<sigma>" and ex: "exact \<sigma> s" and k: "holds_key (mem \<sigma>) s k i" "holds_key (mem \<sigma>) s k j"
  shows "i = j"
proof (rule ccontr)
  assume "i \<noteq> j"
  moreover have "i < n_interrupts (mem \<sigma>)" "j < n_interrupts (mem \<sigma>)"
    using k heap_okD(6) [OF reachable_heap_ok [OF r]] by (auto simp: holds_key_def listener_def split: option.splits)
  ultimately have "2 \<le> tally (n_interrupts (mem \<sigma>)) (holds_key (mem \<sigma>) s k)" using tally_two k by blast
  moreover have "key_owners \<sigma> s k \<le> 1" using ex by (simp add: exact_def)
  ultimately show False by (simp add: key_owners_def)
qed

lemma wakes_register:
  assumes r: "reachable \<sigma>" "t < n_threads \<sigma>" "stack \<sigma> t = f # fs" and step: "exec t b f (mem \<sigma>) = Next h gs"
    and lim: "within_limits \<sigma>" and inv: "shard_wakes \<sigma> s" and s: "valid_shard (mem \<sigma>) s"
    and f: "f = Intr (PollRegister i w)"
  shows "shard_wakes (\<sigma>\<lparr>mem := h, stack := (stack \<sigma>)(t := gs @ fs)\<rparr>) s"
proof -
  let ?\<sigma> = "\<sigma>\<lparr>mem := h, stack := (stack \<sigma>)(t := gs @ fs)\<rparr>"
  obtain it where it: "interrupt_at (mem \<sigma>) i = Some it" "valid_shard (mem \<sigma>) (it_shard it)"
    using used_present(3) [OF r, of i] f by auto
  let ?s = "it_shard it"
  let ?old = "case it_registration it of None \<Rightarrow> {} | Some r \<Rightarrow> {rn_key r}"
  have li: "listener (mem \<sigma>) i = Some (?s, it_registration it, it_last it)" using it by (simp add: listener_def)
  have st: "intr_step t b (PollRegister i w) (mem \<sigma>) = Next h gs" using step f by simp
  have "slab_ok (sh_waiters (shard_at (mem \<sigma>) ?s))"
    using heap_okD(1) [OF reachable_heap_ok [OF r(1)] it(2)] by (simp add: shard_ok_def)
  then obtain k where e: "gs = []" "woken h = woken (mem \<sigma>)" "n_interrupts h = n_interrupts (mem \<sigma>)"
    "listener h = (listener (mem \<sigma>))(i \<mapsto> (?s, Some \<lparr>rn_key = k, rn_waker = w\<rparr>, Some (w, Pending)))"
    "waiting h = (waiting (mem \<sigma>))(?s := ((waiting (mem \<sigma>) ?s) |` (- ?old))(k \<mapsto> w))"
    "k \<in> ?old \<or> waiting (mem \<sigma>) ?s k = None"
    by (rule register_effect [OF st it(1)])
  note stopped = run_is_stopped [OF r step lim s]
  show ?thesis
  proof (cases "s = ?s")
    case False
    have "holds_key h s k' = holds_key (mem \<sigma>) s k'" for k'
      using e(4) li False by (auto simp: holds_key_def fun_eq_iff)
    then show ?thesis
      by (intro shard_wakes_plain [OF r(2,3) inv _ _ _ _ _ _ stopped])
        (use e li f False in \<open>auto split: if_splits\<close>)
  next
    case s': True
    have "registering \<sigma> s" using top_registering [OF r(2) _ it(1)] r(3) f s' by blast
    then have i: "exact \<sigma> s" "is_stopped s (mem \<sigma>) \<longrightarrow> drain_due \<sigma> s"
      using inv by (auto simp: shard_wakes_def drained_def)
    have i_old: "i < n_interrupts (mem \<sigma>)" using heap_okD(6) [OF reachable_heap_ok [OF r(1)] it(1)] by simp
    have tally_key: "tally (n_interrupts (mem \<sigma>)) (holds_key h s k') + of_bool (holds_key (mem \<sigma>) s k' i) =
        tally (n_interrupts (mem \<sigma>)) (holds_key (mem \<sigma>) s k') + of_bool (k' = k)" for k'
    proof -
      have "holds_key h s k' = (\<lambda>j. if j = i then k' = k else holds_key (mem \<sigma>) s k' j)"
        using e(4) s' by (auto simp: holds_key_def fun_eq_iff)
      then show ?thesis using tally_fun_upd [OF i_old, of "k' = k" "holds_key (mem \<sigma>) s k'"] by simp
    qed
    have mine: "holds_key (mem \<sigma>) s k' i \<longleftrightarrow> k' \<in> ?old" for k'
      using li s' by (auto simp: holds_key_def split: option.splits)
    have count: "frames_count ?\<sigma> (Intr (ListenerDrop s k')) = frames_count \<sigma> (Intr (ListenerDrop s k'))" for k'
      using frames_count_change [OF r(2), of "gs @ fs" h "Intr (ListenerDrop s k')"] r(3) f e(1) by simp
    have owners: "key_owners ?\<sigma> s k' + of_bool (k' \<in> ?old) = key_owners \<sigma> s k' + of_bool (k' = k)" for k'
      using tally_key [of k'] count [of k'] e(3) by (simp add: key_owners_def mine)
    have before: "key_owners \<sigma> s k' = of_bool (waiting (mem \<sigma>) s k' \<noteq> None)" for k' using i(1) by (simp add: exact_def)
    have "key_owners ?\<sigma> s k' = of_bool (waiting h s k' \<noteq> None)" for k'
    proof (cases "k' \<in> ?old")
      case True
      then have "0 < tally (n_interrupts (mem \<sigma>)) (holds_key (mem \<sigma>) s k')" using i_old mine by (auto simp: tally_pos_iff)
      then have "key_owners \<sigma> s k' = 1" using before [of k'] by (auto simp: key_owners_def of_bool_def split: if_splits)
      then show ?thesis using owners [of k'] True e(5) s' by (auto simp: restrict_map_def)
    next
      case False
      then show ?thesis using owners [of k'] before [of k'] e(5,6) s' by (auto simp: restrict_map_def)
    qed
    moreover have "waiting h s (rn_key r') = Some (rn_waker r')" if l: "listener h j = Some (s, Some r', l)" for j r' l
    proof (cases "j = i")
      case True
      then show ?thesis using l e(4,5) s' by auto
    next
      case False
      then have lj: "listener (mem \<sigma>) j = Some (s, Some r', l)" using l e(4) by simp
      then have w: "waiting (mem \<sigma>) s (rn_key r') = Some (rn_waker r')" using i(1) by (auto simp: exact_def)
      have "rn_key r' \<notin> ?old" using key_unshared [OF r(1) i(1), of "rn_key r'" i j] mine lj False by (auto simp: holds_key_def)
      moreover have "rn_key r' \<noteq> k" using e(6) w calculation s' by auto
      ultimately show ?thesis using w e(5) s' by (simp add: restrict_map_def)
    qed
    ultimately have "exact ?\<sigma> s" by (simp add: exact_def)
    moreover have "drain_due ?\<sigma> s" if "is_stopped s h"
    proof -
      have "drain_due \<sigma> s" using that stopped i(2) f by simp
      then show ?thesis using pending_run(2) [OF r(2,3)] f unfolding drain_due_def by blast
    qed
    ultimately show ?thesis by (simp add: shard_wakes_def)
  qed
qed

section \<open>The listeners\<close>

text \<open>The listeners a step changes are those of the frame's interrupt, or new.\<close>

lemma run_listener:
  assumes r: "reachable \<sigma>" "t < n_threads \<sigma>" "stack \<sigma> t = f # fs" and step: "exec t b f (mem \<sigma>) = Next h gs"
    and j: "uses f \<noteq> Some j" "listener (mem \<sigma>) j = Some l"
  shows "listener h j = Some l"
proof (cases "waits_on f")
  case False
  then show ?thesis using exec_waits [OF step] j(2) by (simp add: same_waits_def)
next
  case True
  then show ?thesis
  proof (cases f rule: waits_on.cases)
    case (1 s p)
    then show ?thesis using drain_effect(4) [of t s p "mem \<sigma>" h gs] step j(2) by simp
  next
    case (2 s p ws)
    then show ?thesis using wake_effect(2) [of t s p ws "mem \<sigma>" h gs] step j(2) by simp
  next
    case (3 n)
    then have "swan_step t (InterruptNew n) (mem \<sigma>) = Next h gs" using step by simp
    then show ?thesis using interrupt_new_effect [OF _ reachable_heap_ok [OF r(1)]] j(2)
      by (metis fun_upd_other option.distinct(1))
  next
    case (4 c)
    show ?thesis
    proof (cases "uses f")
      case None
      then obtain s k where "c = ListenerDrop s k" using 4 by (cases c) auto
      then show ?thesis using listener_drop_effect(4) [of t b s k "mem \<sigma>" h gs] step 4 j(2) by simp
    next
      case (Some i)
      then have st: "intr_step t b c (mem \<sigma>) = Next h gs" "uses (Intr c) = Some i" "i \<noteq> j" using step 4 j(1) by auto
      obtain it where it: "interrupt_at (mem \<sigma>) i = Some it" "valid_shard (mem \<sigma>) (it_shard it)"
        using used_present(3) [OF r Some] by blast
      show ?thesis
      proof (cases "\<exists>w. c = PollRegister i w")
        case False
        then show ?thesis using poll_effect [OF st(1,2) it(1)] st(3) j(2) by auto
      next
        case True
        then obtain w where w: "c = PollRegister i w" by blast
        have "slab_ok (sh_waiters (shard_at (mem \<sigma>) (it_shard it)))"
          using heap_okD(1) [OF reachable_heap_ok [OF r(1)] it(2)] by (simp add: shard_ok_def)
        then show ?thesis using register_effect [OF st(1) [unfolded w] it(1)] st(3) j(2)
          by (metis fun_upd_other)
      qed
    qed
  qed auto
qed

lemma listeners_ok_pending:
  assumes r: "reachable \<sigma>" "t < n_threads \<sigma>" "stack \<sigma> t = f # fs" and step: "exec t b f (mem \<sigma>) = Next h gs"
    and inv: "listeners_ok \<sigma>" and l: "listener h i = Some (s, reg, Some (w, Pending))"
  shows "\<exists>r. reg = Some r \<and> rn_waker r = w"
proof (cases "waits_on f")
  case False
  then have "listener (mem \<sigma>) i = Some (s, reg, Some (w, Pending))"
    using exec_waits [OF step] l by (simp add: same_waits_def)
  then show ?thesis by (rule listeners_okD(1) [OF inv])
next
  case True
  have old: ?thesis if "listener h i = listener (mem \<sigma>) i" using listeners_okD(1) [OF inv] l that by simp
  from True show ?thesis
  proof (cases f rule: waits_on.cases)
    case (1 s p)
    then show ?thesis using drain_effect(4) [of t s p "mem \<sigma>" h gs] step old by simp
  next
    case (2 s p ws)
    then show ?thesis using wake_effect(2) [of t s p ws "mem \<sigma>" h gs] step old by simp
  next
    case (3 n)
    then have st: "swan_step t (InterruptNew n) (mem \<sigma>) = Next h gs" using step by simp
    obtain s' where "listener h = (listener (mem \<sigma>))(n_interrupts (mem \<sigma>) \<mapsto> (s', None, None))"
      by (rule interrupt_new_effect [OF st reachable_heap_ok [OF r(1)]])
    then show ?thesis using l old by (cases "i = n_interrupts (mem \<sigma>)") auto
  next
    case (4 c)
    show ?thesis
    proof (cases "uses f")
      case None
      then obtain s k where "c = ListenerDrop s k" using 4 by (cases c) auto
      then show ?thesis using listener_drop_effect(4) [of t b s k "mem \<sigma>" h gs] step 4 old by simp
    next
      case (Some j)
      then have st: "intr_step t b c (mem \<sigma>) = Next h gs" "uses (Intr c) = Some j" using step 4 by auto
      obtain it where it: "interrupt_at (mem \<sigma>) j = Some it" "valid_shard (mem \<sigma>) (it_shard it)"
        using used_present(3) [OF r Some] by blast
      show ?thesis
      proof (cases "\<exists>w. c = PollRegister j w")
        case True
        then obtain w' where w: "c = PollRegister j w'" by blast
        have "slab_ok (sh_waiters (shard_at (mem \<sigma>) (it_shard it)))"
          using heap_okD(1) [OF reachable_heap_ok [OF r(1)] it(2)] by (simp add: shard_ok_def)
        then obtain k where
          "listener h = (listener (mem \<sigma>))(j \<mapsto> (it_shard it, Some \<lparr>rn_key = k, rn_waker = w'\<rparr>, Some (w', Pending)))"
          by (rule register_effect [OF st(1) [unfolded w] it(1)])
        then show ?thesis using l old by (cases "i = j") auto
      next
        case False
        then have e: "(listener h = listener (mem \<sigma>) \<and> (\<exists>c'. gs = [Intr c'] \<and> poll_goes_on (mem \<sigma>) j it c')) \<or>
           (gs = [] \<and> (\<exists>w r. listener h = (listener (mem \<sigma>))(j \<mapsto> (it_shard it, it_registration it, Some (w, r))) \<and>
              (r = Pending \<longrightarrow> c = PollRecheck j w \<and> \<not> is_stopped (it_shard it) (mem \<sigma>))))"
          using poll_effect [OF st it(1)] by blast
        show ?thesis
        proof (cases "listener h i = listener (mem \<sigma>) i")
          case False
          then have "i = j" "c = PollRecheck i w" "reg = it_registration it" using e l by (auto split: if_splits)
          moreover have "rechecks (mem \<sigma>) f" using listeners_okD(3) [OF inv r(2,3)] .
          ultimately show ?thesis using 4 it(1) by (auto simp: rechecks_def listener_def)
        qed (rule old)
      qed
    qed
  qed auto
qed

text \<open>Only the stop of a shard starts its drain.\<close>

lemma exec_drain:
  assumes step: "exec t b f h = Next h' gs" and g: "Stop (ShardDrain s p) \<in> set gs"
  shows "f = Stop (ShardStop s)"
proof (cases f)
  case (Count c)
  then show ?thesis using count_frames [of t b c h h' gs] step g by fastforce
next
  case (Stop c)
  then show ?thesis using step g
  proof (induction t c h rule: stop_step.induct)
    case (4 t s w ws h)
    then show ?case by (cases ws) auto
  next
    case (7 t n i cs live h)
    then show ?case by (cases cs) (auto simp: weak_upgrade_def split: if_splits)
  qed (auto simp: step_defs stop_shards_def Let_def split: if_splits)
next
  case (Life c)
  then show ?thesis using step g
    by (cases c) (auto simp: drop_arc_def child_new_def child_store_key_def child_return_def child_check_def
      child_register_def deregister_def stop_shards_def Let_def split: prod.splits option.splits if_splits)
next
  case (Grd c)
  have "Stop (ShardDrain s p) \<notin> set (provenance_return s' loc info to h1)" for s' loc info to h1 by (cases to) auto
  with Grd show ?thesis using step g
    by (cases c) (auto simp: guard_at_location_def provenance_def provenance_register_def guard_for_shard_def
        arrive_if_arrived_def guard_upgrade_def guard_clone_arrive_def guard_drop_def guard_depart_def
        guard_flush_weak_def drop_info_def atomic_defs Let_def guard_build_def alloc_guard_def
        simp del: upd_shard_def split: if_splits option.splits prod.splits)
next
  case (Swan c)
  then show ?thesis using step g
    by (cases c) (auto simp: step_defs split: prod.splits if_splits)
next
  case (Intr c)
  then have "intr_step t b c h = Next h' gs" using step by simp
  then show ?thesis using g
    by (cases "(t, b, c, h)" rule: intr_step.cases)
      (auto simp: poll_interrupt_def poll_wrapped_def poll_stopped_def poll_recheck_def poll_lock_def listener_drop_def
        poll_locked_def poll_register_def poll_returns_def on_interrupt_def Let_def
        simp del: upd_shard_def split: option.splits if_splits)
next
  case (Borrow x)
  then show ?thesis using step g by simp
qed

text \<open>Only the steps of a poll that goes on leave frames of a poll.\<close>

lemma run_calm:
  assumes r: "reachable \<sigma>" "t < n_threads \<sigma>" "stack \<sigma> t = f # fs" and step: "exec t b f (mem \<sigma>) = Next h gs"
    and none: "\<not> (\<exists>c i. f = Intr c \<and> uses f = Some i \<and> (\<forall>w. c \<noteq> PollRegister i w))"
  shows "calm gs"
proof (cases "\<exists>c. f = Intr c")
  case True
  then obtain c where c: "f = Intr c" by blast
  show ?thesis
  proof (cases "uses f")
    case None
    then obtain s k where "c = ListenerDrop s k" using c by (cases c) auto
    then show ?thesis using listener_drop_effect(1) [of t b s k "mem \<sigma>" h gs] step c by simp
  next
    case (Some i)
    then obtain w where w: "c = PollRegister i w" using none c by auto
    obtain it where it: "interrupt_at (mem \<sigma>) i = Some it" "valid_shard (mem \<sigma>) (it_shard it)"
      using used_present(3) [OF r Some] by blast
    have "slab_ok (sh_waiters (shard_at (mem \<sigma>) (it_shard it)))"
      using heap_okD(1) [OF reachable_heap_ok [OF r(1)] it(2)] by (simp add: shard_ok_def)
    moreover have "intr_step t b (PollRegister i w) (mem \<sigma>) = Next h gs" using step c w by simp
    ultimately show ?thesis using register_effect [OF _ it(1)] by (metis calm_simps(1))
  qed
next
  case False
  then show ?thesis using exec_calm [OF step] by blast
qed

lemma run_top_rechecks:
  assumes r: "reachable \<sigma>" "t < n_threads \<sigma>" "stack \<sigma> t = f # fs" and step: "exec t b f (mem \<sigma>) = Next h gs" and fs: "not_recheck fs"
  shows "not_recheck (tl (gs @ fs)) \<and> (\<forall>g gs'. gs @ fs = g # gs' \<longrightarrow> rechecks h g)"
proof (cases "\<exists>c i. f = Intr c \<and> uses f = Some i \<and> (\<forall>w. c \<noteq> PollRegister i w)")
  case True
  then obtain c i where c: "f = Intr c" "uses (Intr c) = Some i" "\<And>w. c \<noteq> PollRegister i w" by auto
  obtain it where it: "interrupt_at (mem \<sigma>) i = Some it" using used_present(3) [OF r, of i] c by auto
  have st: "intr_step t b c (mem \<sigma>) = Next h gs" using step c by simp
  have e: "(listener h = listener (mem \<sigma>) \<and> (\<exists>c'. gs = [Intr c'] \<and> poll_goes_on (mem \<sigma>) i it c')) \<or> gs = []"
    using poll_effect [OF st c(2) it c(3)] by blast
  then show ?thesis
  proof (elim disjE conjE exE)
    fix c'
    assume g: "listener h = listener (mem \<sigma>)" "gs = [Intr c']" "poll_goes_on (mem \<sigma>) i it c'"
    have "rechecks h (Intr c')"
      using g(1,3) it by (auto simp: rechecks_def poll_goes_on_def listener_def)
    then show ?thesis using g(2) fs by simp
  next
    assume "gs = []"
    then show ?thesis using fs not_recheck_tl by (auto simp: rechecks_def)
  qed
next
  case False
  have n: "not_recheck (gs @ fs)" using calm_not_recheck [OF run_calm [OF r step False]] fs by simp
  then show ?thesis by (intro conjI allI impI not_recheck_tl not_recheck_top [OF n])
qed

lemma run_other_rechecks:
  assumes r: "reachable \<sigma>" "t < n_threads \<sigma>" "stack \<sigma> t = f # fs" and step: "exec t b f (mem \<sigma>) = Next h gs" and inv: "listeners_ok \<sigma>"
    and u: "u < n_threads \<sigma>" "u \<noteq> t" "stack \<sigma> u = g # gs'"
  shows "rechecks h g"
  unfolding rechecks_def
proof (intro allI impI)
  fix i w
  assume g: "g = Intr (PollRecheck i w)"
  have "uses f \<noteq> Some i" using tops_differ [OF r _ u(1,3)] g u(2) by auto
  moreover obtain s r' l where "listener (mem \<sigma>) i = Some (s, Some r', l)" "rn_waker r' = w"
    using listeners_okD(3) [OF inv u(1,3)] g unfolding rechecks_def by blast
  ultimately show "\<exists>s r l. listener h i = Some (s, Some r, l) \<and> rn_waker r = w"
    using run_listener [OF r step] by blast
qed

lemma run_drain_stopped:
  assumes r: "reachable \<sigma>" "t < n_threads \<sigma>" "stack \<sigma> t = f # fs" and step: "exec t b f (mem \<sigma>) = Next h gs" and lim: "within_limits \<sigma>" and inv: "listeners_ok \<sigma>"
    and d: "drain_due (\<sigma>\<lparr>mem := h, stack := (stack \<sigma>)(t := gs @ fs)\<rparr>) s"
  shows "is_stopped s h"
proof -
  let ?\<sigma> = "\<sigma>\<lparr>mem := h, stack := (stack \<sigma>)(t := gs @ fs)\<rparr>"
  obtain p where p: "pending ?\<sigma> (Stop (ShardDrain s p))" using d unfolding drain_due_def by blast
  show ?thesis
  proof (cases "f = Stop (ShardStop s)")
    case True
    then have "valid_shard (mem \<sigma>) s" using reachable_top_ok [OF r] by simp
    then show ?thesis using run_is_stopped [OF r step lim] True by simp
  next
    case False
    have "pending \<sigma> (Stop (ShardDrain s p))"
    proof (rule ccontr)
      assume no: "\<not> pending \<sigma> (Stop (ShardDrain s p))"
      then have "Stop (ShardDrain s p) \<in> set gs" using p r(2,3) unfolding pending_def by (auto split: if_splits)
      then show False using exec_drain [OF step] False by blast
    qed
    moreover from this obtain u where "u < n_threads \<sigma>" "Stop (ShardDrain s p) \<in> set (stack \<sigma> u)"
      unfolding pending_def by blast
    then have "valid_shard (mem \<sigma>) s" using reachable_frame_ok [OF r(1)] by fastforce
    ultimately show ?thesis
      using listeners_okD(4) [OF inv, of s] run_is_stopped [OF r step lim] unfolding drain_due_def by blast
  qed
qed

lemma listeners_ok_run:
  assumes r: "reachable \<sigma>" "t < n_threads \<sigma>" "stack \<sigma> t = f # fs" and step: "exec t b f (mem \<sigma>) = Next h gs"
    and lim: "within_limits \<sigma>" and inv: "listeners_ok \<sigma>"
  shows "listeners_ok (\<sigma>\<lparr>mem := h, stack := (stack \<sigma>)(t := gs @ fs)\<rparr>)"
proof -
  let ?\<sigma> = "\<sigma>\<lparr>mem := h, stack := (stack \<sigma>)(t := gs @ fs)\<rparr>"
  have fs: "not_recheck fs" using listeners_okD(2) [OF inv r(2)] r(3) by simp
  note top = run_top_rechecks [OF r step fs] and others = run_other_rechecks [OF r step inv]
  have "not_recheck (tl (stack ?\<sigma> u)) \<and> (\<forall>g gs'. stack ?\<sigma> u = g # gs' \<longrightarrow> rechecks h g)" if "u < n_threads \<sigma>" for u
    using top others listeners_okD(2) [OF inv that] that by (cases "u = t") auto
  then show ?thesis
    using listeners_ok_pending [OF r step inv] run_drain_stopped [OF r step lim inv] unfolding listeners_ok_def by simp
qed

section \<open>Calls\<close>

text \<open>What a call does to the listeners, and the keys it hands to the drop of a listener.\<close>

lemma call_waits:
  assumes call: "begin_call c h = Some (h', fs)"
  shows "woken h' = woken h" "n_interrupts h' = n_interrupts h"
    "waiting h' s = (if fst s \<in> {n_nodes h..<n_nodes h'} then Map.empty else waiting h s)"
    "not_recheck fs" "Intr (PollRegister i w) \<notin> set fs"
  using call
  by (cases c; auto simp: on_handle_def drop_frames_def waiting_def set_interrupt_def new_root_def alloc_node_def
      alloc_handle_def Let_def shard_new_def less_Suc_eq_le slab.lookup_empty not_recheck_def
      split: option.splits if_splits)+

lemma call_listener:
  assumes call: "begin_call c h = Some (h', fs)"
  shows "(listener h' = listener h \<and> (\<forall>s k. Intr (ListenerDrop s k) \<notin> set fs)) \<or>
    (\<exists>i s reg l. exclusive c = Some (OInterrupt i) \<and> listener h i = Some (s, reg, l) \<and>
       ((listener h' = (listener h)(i \<mapsto> (s, reg, None)) \<and> (\<forall>s k. Intr (ListenerDrop s k) \<notin> set fs)) \<or>
        (listener h' = (listener h)(i := None) \<and>
         (\<forall>s' k. count_list fs (Intr (ListenerDrop s' k)) = of_bool (s' = s \<and> map_option rn_key reg = Some k)))))"
proof (cases c)
  case (CallPoll i w)
  then obtain it where it: "interrupt_at h i = Some it" "h' = set_interrupt i (it\<lparr>it_last := None\<rparr>) h"
    "fs = [Intr (Poll i w), Borrow (OInterrupt i)]"
    using call by (auto split: option.splits)
  have l: "listener h i = Some (it_shard it, it_registration it, it_last it)" using it(1) by (simp add: listener_def)
  have "listener h' = (listener h)(i \<mapsto> (it_shard it, it_registration it, None))"
    using listener_set [of i "it\<lparr>it_last := None\<rparr>" h] it(2) by simp
  then show ?thesis using l CallPoll it(3)
    by (intro disjI2 exI [of _ i] exI [of _ "it_shard it"] exI [of _ "it_registration it"] exI [of _ "it_last it"]) simp
next
  case (CallInterruptDrop i)
  then obtain it where it: "interrupt_at h i = Some it" "h' = h\<lparr>interrupt_at := (interrupt_at h)(i := None)\<rparr>"
    "fs = drop_frames it"
    using call by (auto split: option.splits)
  have l: "listener h i = Some (it_shard it, it_registration it, it_last it)" using it(1) by (simp add: listener_def)
  have "listener h' = (listener h)(i := None)" using it(2) by (simp add: listener_def fun_eq_iff)
  moreover have "count_list fs (Intr (ListenerDrop s' k)) = of_bool (s' = it_shard it \<and> map_option rn_key (it_registration it) = Some k)"
    for s' k
    using it(3) by (auto simp: drop_frames_def split: option.splits)
  ultimately show ?thesis using l CallInterruptDrop
    by (intro disjI2 exI [of _ i] exI [of _ "it_shard it"] exI [of _ "it_registration it"] exI [of _ "it_last it"]) simp
next
  case (CallNew rep)
  then show ?thesis using call
    by (auto simp: listener_def [abs_def] new_root_def alloc_node_def alloc_handle_def Let_def fun_eq_iff)
qed (use call in \<open>auto simp: on_handle_def listener_def [abs_def] fun_eq_iff split: option.splits if_splits\<close>)

lemma key_owners_call:
  assumes t: "t < n_threads \<sigma>" "stack \<sigma> t = []" and call: "begin_call c (mem \<sigma>) = Some (h, fs)" and ok: "heap_ok (mem \<sigma>)"
  shows "key_owners (\<sigma>\<lparr>mem := h, stack := (stack \<sigma>)(t := fs)\<rparr>) s k = key_owners \<sigma> s k"
proof -
  let ?\<sigma> = "\<sigma>\<lparr>mem := h, stack := (stack \<sigma>)(t := fs)\<rparr>"
  have change: "frames_count ?\<sigma> x = frames_count \<sigma> x + count_list fs x" for x
    using frames_count_change [OF t(1), of fs h x] t(2) by simp
  note n = call_waits(2) [OF call]
  have plain: ?thesis if "holds_key h s k = holds_key (mem \<sigma>) s k" "Intr (ListenerDrop s k) \<notin> set fs"
  proof -
    have "count_list fs (Intr (ListenerDrop s k)) = 0" using that(2) unfolding count_list_0_iff .
    then show ?thesis using change that(1) n by (simp add: key_owners_def)
  qed
  from call_listener [OF call] show ?thesis
  proof (elim disjE conjE exE)
    assume "listener h = listener (mem \<sigma>)" "\<forall>s k. Intr (ListenerDrop s k) \<notin> set fs"
    then show ?thesis using plain holds_key_same by blast
  next
    fix i s' reg l
    assume "listener (mem \<sigma>) i = Some (s', reg, l)" "listener h = (listener (mem \<sigma>))(i \<mapsto> (s', reg, None))"
      "\<forall>s k. Intr (ListenerDrop s k) \<notin> set fs"
    then show ?thesis using plain holds_key_last by blast
  next
    fix i s' reg l
    assume i: "listener (mem \<sigma>) i = Some (s', reg, l)" "listener h = (listener (mem \<sigma>))(i := None)"
      "\<forall>s'' k. count_list fs (Intr (ListenerDrop s'' k)) = of_bool (s'' = s' \<and> map_option rn_key reg = Some k)"
    have i_old: "i < n_interrupts (mem \<sigma>)" using i(1) heap_okD(6) [OF ok, of i] by (auto simp: listener_def)
    have "holds_key h s k = (\<lambda>j. if j = i then False else holds_key (mem \<sigma>) s k j)"
      using i(2) by (auto simp: holds_key_def fun_eq_iff)
    then have "tally (n_interrupts (mem \<sigma>)) (holds_key h s k) + of_bool (holds_key (mem \<sigma>) s k i) =
        tally (n_interrupts (mem \<sigma>)) (holds_key (mem \<sigma>) s k)"
      using tally_fun_upd [OF i_old, of False "holds_key (mem \<sigma>) s k"] by simp
    moreover have "holds_key (mem \<sigma>) s k i \<longleftrightarrow> s = s' \<and> map_option rn_key reg = Some k"
      using i(1) by (auto simp: holds_key_def)
    ultimately show ?thesis using change [of "Intr (ListenerDrop s k)"] i(3) n by (simp add: key_owners_def)
  qed
qed

text \<open>A new shard has no waiters, no listeners and is not stopped.\<close>

lemma wakes_unborn:
  assumes r: "reachable \<sigma>" "t < n_threads \<sigma>" and s: "\<not> valid_shard (mem \<sigma>) s"
    and same: "listener h = listener (mem \<sigma>)" "n_interrupts h = n_interrupts (mem \<sigma>)" "waiting h s = Map.empty"
    and clear: "\<not> is_stopped s h" and fs: "\<And>k. Intr (ListenerDrop s k) \<notin> set fs"
  shows "shard_wakes (\<sigma>\<lparr>mem := h, stack := (stack \<sigma>)(t := fs)\<rparr>) s"
proof -
  let ?\<sigma> = "\<sigma>\<lparr>mem := h, stack := (stack \<sigma>)(t := fs)\<rparr>"
  have none: "listener h i \<noteq> Some (s, reg, l)" for i reg l
    using heap_okD(6) [OF reachable_heap_ok [OF r(1)], of i] s same(1) by (auto simp: listener_def)
  have "\<not> pending ?\<sigma> (Intr (ListenerDrop s k))" for k
    using reachable_frame_ok [OF r(1)] fs s unfolding pending_def by (fastforce split: if_splits)
  then have "frames_count ?\<sigma> (Intr (ListenerDrop s k)) = 0" for k
    using frames_count_pos [of ?\<sigma> "Intr (ListenerDrop s k)"] by (auto simp: pending_def)
  moreover have "tally (n_interrupts h) (holds_key h s k) = 0" for k
    using none by (auto simp: addup_eq_0_iff holds_key_def)
  ultimately have "exact ?\<sigma> s" using none same(3) by (auto simp: exact_def key_owners_def)
  then show ?thesis using clear by (simp add: shard_wakes_def)
qed

lemma new_shard_clear:
  "exec t b (Life (ChildNew n)) h = Next h' gs \<Longrightarrow> fst s = n_nodes h \<Longrightarrow> \<not> is_stopped s h'"
  "fst s = n_nodes h \<Longrightarrow> \<not> is_stopped s (new_root rep h)"
  by (auto simp: child_new_def Let_def alloc_node_def arc_clone_def shard_new_def is_stopped_def new_root_def alloc_handle_def
      split: prod.splits dest!: counters_index)

lemma shard_wakes_call:
  assumes r: "reachable \<sigma>" "t < n_threads \<sigma>" "stack \<sigma> t = []" and may: "may_call c \<sigma>"
    and call: "begin_call c (mem \<sigma>) = Some (h, fs)" and lim: "within_limits \<sigma>" and inv: "wake_ok \<sigma>"
    and s': "valid_shard h s"
  shows "shard_wakes (\<sigma>\<lparr>mem := h, stack := (stack \<sigma>)(t := fs)\<rparr>) s"
proof -
  let ?\<sigma> = "\<sigma>\<lparr>mem := h, stack := (stack \<sigma>)(t := fs)\<rparr>"
  note step = step.call [OF r(2,3) may call]
  note e = call_waits [OF call]
  show ?thesis
  proof (cases "valid_shard (mem \<sigma>) s")
    case False
    have new: "\<exists>rep. c = CallNew rep"
    proof (rule ccontr)
      assume no: "\<nexists>rep. c = CallNew rep"
      then have "n_nodes h = n_nodes (mem \<sigma>)" using begin_call_links(1) [OF call] by (auto simp: same_links_def)
      then show False using False s' step_extends [OF step reachable_sys_ok [OF r(1)] lim]
        by (auto simp: valid_shard_def extends_def)
    qed
    then obtain rep where rep: "c = CallNew rep" by blast
    then have h: "h = new_root rep (mem \<sigma>)" "fs = []" using call by (cases rep; auto)+
    have n: "fst s = n_nodes (mem \<sigma>)"
      using s' False step_extends [OF step reachable_sys_ok [OF r(1)] lim] new_root_effect(1) [of rep "mem \<sigma>"]
      by (auto simp: h valid_shard_def extends_def less_Suc_eq)
    have "listener h = listener (mem \<sigma>)" using call_listener [OF call] rep by auto
    then show ?thesis
      using e(2,3) n new_root_effect(1) [of rep "mem \<sigma>"] new_shard_clear(2) [OF n] h
      by (intro wakes_unborn [OF r(1,2) False]) simp_all
  next
    case s: True
    have inv_s: "shard_wakes \<sigma> s" and ls: "listeners_ok \<sigma>" using inv s by (simp_all add: wake_ok_def)
    have w: "waiting h s = waiting (mem \<sigma>) s" using e(3) s by (simp add: valid_shard_def)
    have stopped: "is_stopped s h \<longleftrightarrow> is_stopped s (mem \<sigma>)"
      using step_stop_effect(2) [OF step reachable_sys_ok [OF r(1)] lim s] by simp
    note kept = pending_call [OF r(3), of _ fs h]
    have regs: "\<exists>l'. listener (mem \<sigma>) i = Some (s, Some r', l')" if "listener h i = Some (s, Some r', l)" for i r' l
      using call_listener [OF call] that by (auto split: if_splits)
    have last: "listener (mem \<sigma>) i = Some (s, reg, Some x)" if "listener h i = Some (s, reg, Some x)" for i reg x
      using call_listener [OF call] that by (auto split: if_splits)
    have fst: "map_option fst (listener (mem \<sigma>) i) = Some s" if "map_option fst (listener h i) = Some s" for i
      using call_listener [OF call] that by (auto split: if_splits)
    from inv_s show ?thesis unfolding shard_wakes_def [of \<sigma>]
    proof (elim disjE conjE)
      assume i: "exact \<sigma> s" "is_stopped s (mem \<sigma>) \<longrightarrow> drain_due \<sigma> s"
      have "exact ?\<sigma> s"
        using i(1) key_owners_call [OF r(2,3) call reachable_heap_ok [OF r(1)]] w regs unfolding exact_def by fastforce
      moreover have "drain_due ?\<sigma> s" if "is_stopped s h" using that stopped i(2) kept unfolding drain_due_def by blast
      ultimately show ?thesis by (simp add: shard_wakes_def)
    next
      assume i: "drained \<sigma> s" "all_woken \<sigma> s"
      have "\<not> registering ?\<sigma> s"
      proof
        assume "registering ?\<sigma> s"
        then obtain j v where j: "pending ?\<sigma> (Intr (PollRegister j v))" "map_option fst (listener h j) = Some s"
          unfolding registering_def by auto
        then have "pending \<sigma> (Intr (PollRegister j v))" using e(5) unfolding pending_def by (auto split: if_splits)
        then show False using fst [OF j(2)] i(1) unfolding drained_def registering_def by blast
      qed
      then have "drained ?\<sigma> s" using i(1) w stopped by (simp add: drained_def)
      moreover have "all_woken ?\<sigma> s"
        unfolding all_woken_def
      proof (intro allI impI)
        fix j reg v
        assume "listener (mem ?\<sigma>) j = Some (s, reg, Some (v, Pending))"
        then have "listener (mem \<sigma>) j = Some (s, reg, Some (v, Pending))" using last by simp
        then have "woken_or_due \<sigma> s v" using i(2) unfolding all_woken_def by blast
        then show "woken_or_due ?\<sigma> s v" using kept e(1) unfolding woken_or_due_def by auto
      qed
      ultimately show ?thesis by (simp add: shard_wakes_def)
    qed
  qed
qed

lemma listeners_ok_call:
  assumes r: "reachable \<sigma>" "t < n_threads \<sigma>" "stack \<sigma> t = []" and may: "may_call c \<sigma>"
    and call: "begin_call c (mem \<sigma>) = Some (h, fs)" and lim: "within_limits \<sigma>" and inv: "listeners_ok \<sigma>"
  shows "listeners_ok (\<sigma>\<lparr>mem := h, stack := (stack \<sigma>)(t := fs)\<rparr>)"
proof -
  let ?\<sigma> = "\<sigma>\<lparr>mem := h, stack := (stack \<sigma>)(t := fs)\<rparr>"
  note step = step.call [OF r(2,3) may call]
  note e = call_waits [OF call]
  have last: "listener (mem \<sigma>) i = Some (s, reg, Some x)" if "listener h i = Some (s, reg, Some x)" for i s reg x
    using call_listener [OF call] that by (auto split: if_splits)
  have tops: "not_recheck (tl (stack ?\<sigma> u)) \<and> (\<forall>f gs. stack ?\<sigma> u = f # gs \<longrightarrow> rechecks h f)" if u: "u < n_threads \<sigma>" for u
  proof (cases "u = t")
    case True
    then show ?thesis using e(4) not_recheck_tl not_recheck_top [OF e(4)] by auto
  next
    case False
    have "rechecks h f" if f: "stack \<sigma> u = f # gs" for f gs
      unfolding rechecks_def
    proof (intro allI impI)
      fix i w
      assume g: "f = Intr (PollRecheck i w)"
      obtain s r' l where l: "listener (mem \<sigma>) i = Some (s, Some r', l)" "rn_waker r' = w"
        using listeners_okD(3) [OF inv u f] g unfolding rechecks_def by blast
      have "exclusive c \<noteq> Some (OInterrupt i)"
        using used_present(2) [OF r(1) u f, of i] g may by (auto simp: may_call_def)
      then have "listener h i = listener (mem \<sigma>) i" using call_listener [OF call] by (auto split: if_splits)
      then show "\<exists>s r l. listener h i = Some (s, Some r, l) \<and> rn_waker r = w" using l by auto
    qed
    then show ?thesis using False listeners_okD(2) [OF inv u] by auto
  qed
  have due: "is_stopped s h" if d: "drain_due ?\<sigma> s" for s
  proof -
    obtain p where p: "pending ?\<sigma> (Stop (ShardDrain s p))" using d unfolding drain_due_def by blast
    moreover have "Stop (ShardDrain s p) \<notin> set fs"
      using call by (cases c) (auto simp: on_handle_def drop_frames_def split: option.splits if_splits)
    ultimately obtain u where u: "u < n_threads \<sigma>" "Stop (ShardDrain s p) \<in> set (stack \<sigma> u)"
      unfolding pending_def by (auto split: if_splits)
    then have "valid_shard (mem \<sigma>) s" using reachable_frame_ok [OF r(1)] by fastforce
    moreover have "drain_due \<sigma> s" using u unfolding drain_due_def pending_def by blast
    ultimately show ?thesis
      using listeners_okD(4) [OF inv] step_stop_effect(2) [OF step reachable_sys_ok [OF r(1)] lim] by auto
  qed
  have "\<exists>r. reg = Some r \<and> rn_waker r = w" if "listener h i = Some (s, reg, Some (w, Pending))" for i s reg w
    by (rule listeners_okD(1) [OF inv last [OF that]])
  then show ?thesis
    unfolding listeners_ok_def using tops due by simp
qed

section \<open>Every reachable state\<close>

lemma shard_wakes_run:
  assumes r: "reachable \<sigma>" "t < n_threads \<sigma>" "stack \<sigma> t = f # fs" and step: "exec t b f (mem \<sigma>) = Next h gs"
    and lim: "within_limits \<sigma>" and inv: "wake_ok \<sigma>" and s': "valid_shard h s"
  shows "shard_wakes (\<sigma>\<lparr>mem := h, stack := (stack \<sigma>)(t := gs @ fs)\<rparr>) s"
proof (cases "valid_shard (mem \<sigma>) s")
  case False
  note ext = run_extends [OF r(1) lim r(2,3) step] and ok = reachable_heap_ok [OF r(1)] reachable_top_ok [OF r]
  have new: "\<not> fst s < n_nodes (mem \<sigma>)" "fst s < n_nodes h" using s' False ext by (auto simp: valid_shard_def extends_def)
  then obtain n where f: "f = Life (ChildNew n)" using exec_n_nodes [OF step ok] by auto
  then have st: "life_step t (ChildNew n) (mem \<sigma>) = Next h gs" using step by simp
  have n: "fst s = n_nodes (mem \<sigma>)" "gs = [Life (ChildRegister (n_nodes (mem \<sigma>)))]"
    using new child_new_effect [OF st] by (metis less_Suc_eq)+
  have same: "same_waits (mem \<sigma>) h" using exec_waits [OF step] f by simp
  have "Intr (ListenerDrop s k) \<notin> set fs" for k using reachable_frame_ok [OF r(1,2)] r(3) False by fastforce
  then show ?thesis
    using same new n new_shard_clear(1) [OF step [unfolded f] n(1)]
    by (intro wakes_unborn [OF r(1,2) False]) (auto simp: same_waits_def)
next
  case s: True
  then have i: "shard_wakes \<sigma> s" and ls: "listeners_ok \<sigma>" using inv by (simp_all add: wake_ok_def)
  show ?thesis
  proof (cases "waits_on f")
    case False
    then show ?thesis by (rule wakes_quiet [OF r step lim i s])
  next
    case True
    then show ?thesis
    proof (cases f rule: waits_on.cases)
      case (1 s' w)
      then show ?thesis by (rule wakes_drain [OF r step lim i s _ ls])
    next
      case (2 s' w ws)
      then show ?thesis by (rule wakes_wake [OF r step lim i s])
    next
      case (3 n)
      then show ?thesis by (rule wakes_new [OF r step lim i s])
    next
      case (4 c)
      show ?thesis
      proof (cases "uses (Intr c)")
        case None
        then obtain s' k where "c = ListenerDrop s' k" by (cases c) auto
        then show ?thesis using wakes_drop [OF r step lim i s] 4 by blast
      next
        case (Some i')
        then show ?thesis
          using wakes_poll [OF r step lim i s 4 Some] wakes_register [OF r step lim i s] 4 by blast
      qed
    qed auto
  qed
qed

interpretation wakeups: system_invariant wake_ok
proof
  show "wake_ok (sys_init threads par)" for threads par
    by (auto simp: wake_ok_def listeners_ok_def sys_init_def heap_init_def valid_shard_def listener_def drain_due_def pending_def)
  show "wake_ok (\<sigma>\<lparr>mem := (mem \<sigma>)\<lparr>clock := clock (mem \<sigma>) + d\<rparr>\<rparr>)" if "wake_ok \<sigma>" for \<sigma> d
    using that
    by (simp add: wake_ok_def listeners_ok_def shard_wakes_def exact_def drained_def all_woken_def drain_due_def woken_or_due_def
        registering_def key_owners_def holds_key_def [abs_def] listener_def [abs_def] waiting_def [abs_def] rechecks_def
        frames_count_def pending_def is_stopped_def valid_shard_def)
qed (simp_all add: wake_ok_def shard_wakes_call shard_wakes_run listeners_ok_call listeners_ok_run)

lemmas reachable_wake_ok = wakeups.always

text \<open>An interrupt that returned \<^verbatim>\<open>Pending\<close> has been woken once its shard's stop is over.\<close>

lemma pending_woken:
  assumes r: "reachable \<sigma>" and it: "interrupt_at (mem \<sigma>) i = Some it" "it_last it = Some (w, Pending)"
    and stopped: "is_stopped (it_shard it) (mem \<sigma>)"
    and over: "\<And>p ws. \<not> pending \<sigma> (Stop (ShardDrain (it_shard it) p)) \<and> \<not> pending \<sigma> (Stop (ShardWake (it_shard it) p ws))"
  shows "(it_shard it, w) \<in> set (woken (mem \<sigma>))"
proof -
  have "valid_shard (mem \<sigma>) (it_shard it)" using heap_okD(6) [OF reachable_heap_ok [OF r] it(1)] by simp
  then have "shard_wakes \<sigma> (it_shard it)" using reachable_wake_ok [OF r] by (simp add: wake_ok_def)
  moreover have "\<not> drain_due \<sigma> (it_shard it)" using over by (simp add: drain_due_def)
  ultimately have "all_woken \<sigma> (it_shard it)" using stopped by (simp add: shard_wakes_def)
  moreover have "listener (mem \<sigma>) i = Some (it_shard it, it_registration it, Some (w, Pending))"
    using it by (simp add: listener_def)
  ultimately have "woken_or_due \<sigma> (it_shard it) w" unfolding all_woken_def by blast
  then show ?thesis using over by (simp add: woken_or_due_def)
qed

end
