(* ===== verification/Quiescence.thy ===== *)
theory Quiescence
  imports Pins Wakeups
begin

text \<open>
  Nothing is left behind. A shard that is stopped, arrived and empty has a flush coming, and a
  child that emptied has its departure from the parent coming; a collected node's shards are
  all stopped. So when no thread is in the middle of anything, the counts of a stopped node
  are zero as soon as the guards below it are gone: its shutdown completes.
\<close>

declare split_paired_All [simp del] split_paired_Ex [simp del]

section \<open>What is due\<close>

fun flushes :: "sid \<Rightarrow> frame \<Rightarrow> bool" where
  "flushes s (Count (ShardFlush s')) \<longleftrightarrow> s' = s"
| "flushes s (Stop (ShardDrain s' w)) \<longleftrightarrow> s' = s \<and> w AND NOT STOPPED = ARRIVED"
| "flushes s (Stop (ShardWake s' w ws)) \<longleftrightarrow> s' = s \<and> w AND NOT STOPPED = ARRIVED"
| "flushes s (Grd (GuardFlushWeak s')) \<longleftrightarrow> s' = s"
| "flushes s _ \<longleftrightarrow> False"

fun releases :: "nid \<Rightarrow> u64 \<Rightarrow> frame \<Rightarrow> bool" where
  "releases n w (Count (NodeDepartNotify m w')) \<longleftrightarrow> m = n \<and> w' = w"
| "releases n w (Count (NodeDepartRelease m w')) \<longleftrightarrow> m = n \<and> w' = w"
| "releases n w _ \<longleftrightarrow> False"

section \<open>Emptied shards\<close>

lemma add_unit_nonempty:
  assumes "room h f" "valid_shard h s" "unit_ok u" "held f = None"
  shows "shard_word h s + u \<noteq> ARRIVED OR STOPPED"
  using assms(3) room_fields(1,2) [OF assms(1,2)] assms(4)
    fields_add_local(1) [of "shard_word h s"] fields_add_kids(2) [of "shard_word h s"]
  by (auto simp: unit_ok_def emptied_test)

lemma count_emptied:
  assumes step: "count_step t b c h = Next h' gs" and c: "count_frame_ok h c" and room: "room h (Count c)"
    and s: "valid_shard h s" and writes: "writes_word (Count c)" and word: "shard_word h' s = ARRIVED OR STOPPED"
  shows "shard_word h s = ARRIVED OR STOPPED \<and> \<not> flushes s (Count c) \<or> (\<exists>g \<in> set gs. flushes s g)"
proof (cases c)
  case (ShardArriveLoop s' u st)
  then have "shard_word h s' + u \<noteq> ARRIVED OR STOPPED"
    using c by (intro add_unit_nonempty [OF room]) auto
  with step word show ?thesis
    by (auto simp: ShardArriveLoop shard_arrive_loop_def atomic_defs split: if_splits)
next
  case (ShardArriveCommit s' u st)
  then have "st OR ARRIVED OR u \<noteq> ARRIVED OR STOPPED"
    using c by (auto simp: emptied_test fields_or unit_ok_def empty_unarrived_def)
  with step word show ?thesis
    by (auto simp: ShardArriveCommit shard_arrive_commit_def atomic_defs split: if_splits)
next
  case (ShardFlush s')
  have "STOPPED \<noteq> ARRIVED OR STOPPED" by (simp add: emptied_test)
  with step word show ?thesis
    by (auto simp: ShardFlush shard_flush_def atomic_defs split: if_splits)
next
  case (NodeArriveLoop n st)
  have "shard_word h1 s = shard_word h s" if "shard_index t m h = (h1, i)" for m h1 i
    using same_words_index(1) [OF that] s by (simp add: same_words_def valid_shard_def)
  with step word show ?thesis
    by (auto simp: NodeArriveLoop node_arrive_loop_def shard_ref_def atomic_defs
        split: if_splits option.splits prod.splits)
qed (use writes step word in \<open>auto simp: shard_depart_flush_def shard_depart_def node_arrive_def node_arrive_commit_def
    node_depart_def node_depart_release_def shard_ref_def atomic_defs Let_def split: if_splits option.splits\<close>)

lemma guard_emptied:
  assumes step: "exec t b (Grd c) h = Next h' gs" and frame: "frame_ok h (Grd c)" and room: "room h (Grd c)"
    and writes: "writes_word (Grd c)" and word: "shard_word h' s = ARRIVED OR STOPPED"
  shows "shard_word h s = ARRIVED OR STOPPED \<and> \<not> flushes s (Grd c) \<or> (\<exists>g \<in> set gs. flushes s g)"
proof -
  consider s' loc i st where "c = ArriveIfArrived s' loc i st"
    | s' pin loc info where "c = GuardCloneArrive s' pin loc info" | s' pin where "c = GuardDepart s' pin"
    using writes by (cases c) auto
  then show ?thesis
  proof cases
    case (1 s')
    then have "shard_word h s' + LOCAL_ONE \<noteq> ARRIVED OR STOPPED"
      using frame by (intro add_unit_nonempty [OF room]) (auto simp: unit_ok_def)
    with 1 step word show ?thesis by (auto simp: arrive_if_arrived_def atomic_defs split: if_splits)
  next
    case (2 s')
    then have "shard_word h s' + LOCAL_ONE \<noteq> ARRIVED OR STOPPED"
      using frame by (intro add_unit_nonempty [OF room]) (auto simp: unit_ok_def)
    with 2 step word show ?thesis by (auto simp: guard_clone_arrive_def Let_def split: if_splits)
  next
    case 3
    with step word show ?thesis by (auto simp: guard_depart_def shard_depart_def split: if_splits option.splits)
  qed
qed

lemma exec_emptied:
  assumes step: "exec t b f h = Next h' gs" and ok: "heap_ok h" "frame_ok h f" "room h f"
    and s: "valid_shard h s" and word: "shard_word h' s = ARRIVED OR STOPPED"
  shows "(shard_word h s = ARRIVED OR STOPPED \<and> \<not> flushes s f) \<or> (\<exists>g \<in> set gs. flushes s g) \<or>
    (f = Grd (GuardFlushWeak s) \<and> strong h (fst s) = 0)"
proof (cases "writes_word f")
  case False
  then have same: "shard_word h s = ARRIVED OR STOPPED"
    using words_kept [OF step] s word by (simp add: same_words_def valid_shard_def)
  show ?thesis
  proof (cases "flushes s f")
    case True
    then consider s' where "f = Count (ShardFlush s')" | w where "f = Stop (ShardDrain s w)" "w AND NOT STOPPED = ARRIVED"
      | w ws where "f = Stop (ShardWake s w ws)" "w AND NOT STOPPED = ARRIVED" | "f = Grd (GuardFlushWeak s)"
      by (cases "(s, f)" rule: flushes.cases) auto
    then show ?thesis
    proof cases
      case (3 w ws)
      with step show ?thesis by (cases ws) auto
    next
      case 4
      with step heap_okD(1) [OF ok(1) s] show ?thesis
        by (auto simp: guard_flush_weak_def weak_upgrade_def strong_def shard_ok_def split: if_splits)
    qed (use False step in \<open>auto simp: shard_drain_def\<close>)
  qed (use same in blast)
next
  case True
  show ?thesis
  proof (cases f)
    case (Count c)
    then have step: "count_step t b c h = Next h' gs" and c: "count_frame_ok h c" using step ok(2) by simp_all
    from count_emptied [OF step c ok(3) [unfolded Count] s True [unfolded Count] word] show ?thesis by (simp add: Count)
  next
    case (Stop c)
    with True step word show ?thesis
      by (cases c) (auto simp: node_stop_def shard_stop_def emptied_test idle_test fields_or Let_def split: if_splits)
  next
    case (Grd c)
    from guard_emptied [OF step [unfolded Grd] ok(2,3) [unfolded Grd] True [unfolded Grd] word]
    show ?thesis by (auto simp: Grd)
  qed (use True in auto)
qed

section \<open>Emptied children\<close>

lemma exec_released:
  assumes step: "exec t b f h = Next h' gs" and ok: "heap_ok h" "frame_ok h f" "room h f"
    and n: "valid_node h n" "parent_of h n \<noteq> None" and word: "low (node_word h' n) = 0" "arrived_bit (node_word h' n)"
  shows "(node_word h' n = node_word h n \<and> \<not> releases n (node_word h n) f) \<or>
    (\<exists>g \<in> set gs. releases n (node_word h' n) g) \<or> f = Stop (NodeStop n)"
proof (cases "writes_word f")
  case False
  then have same: "node_word h' n = node_word h n"
    using words_kept [OF step] n by (simp add: same_words_def valid_node_def)
  show ?thesis
  proof (cases "releases n (node_word h n) f")
    case True
    with False step same show ?thesis
      by (cases "(n, node_word h n, f)" rule: releases.cases) (auto simp: node_depart_notify_def)
  qed (use same in blast)
next
  case True
  show ?thesis
  proof (cases f)
    case (Count c)
    then have step: "count_step t b c h = Next h' gs" and c: "count_frame_ok h c" using step ok(2) by simp_all
    show ?thesis
    proof (cases c)
      case (NodeArrive m)
      with step n Count show ?thesis by (auto simp: node_arrive_def parent_of_def split: option.splits)
    next
      case (NodeArriveLoop m st)
      have "node_word h1 n = node_word h n" if "shard_index t k h = (h1, i)" for k h1 i
        using same_words_index(1) [OF that] n by (simp add: same_words_def valid_node_def)
      moreover have "low (node_word h m + 1) \<noteq> 0"
        using c NodeArriveLoop Count roomD(2) [OF ok(3), of "NodeToken m"] fields_add_local(1) [of "node_word h m"]
        by (simp add: one_LOCAL_ONE)
      ultimately show ?thesis using step word NodeArriveLoop Count
        by (auto simp: node_arrive_loop_def shard_ref_def atomic_defs split: if_splits option.splits prod.splits)
    next
      case (NodeArriveCommit m s st)
      have "low (st OR ARRIVED OR push_bit PARENT_SHARD_SHIFT (of_nat (snd s)) OR 1) = 1"
        using c NodeArriveCommit parent_valid(3) [OF ok(1), of m "fst s"]
        by (intro arrived_node_word(1)) (auto simp: valid_shard_def)
      with step word show ?thesis
        by (auto simp: NodeArriveCommit Count node_arrive_commit_def atomic_defs Let_def split: if_splits)
    next
      case (NodeDepart m)
      with step word Count show ?thesis
        by (auto simp: node_depart_def count_test Let_def split: if_splits)
    next
      case (NodeDepartRelease m st)
      with step word n Count show ?thesis
        by (auto simp: node_depart_release_def shard_ref_def atomic_defs fields_and parent_of_def split: if_splits option.splits)
    qed (use True step word Count in \<open>auto simp: shard_arrive_loop_def shard_arrive_commit_def shard_depart_flush_def
        shard_depart_def shard_flush_def atomic_defs Let_def split: if_splits\<close>)
  next
    case (Stop c)
    with True step word show ?thesis
      by (cases c) (auto simp: node_stop_def shard_stop_def Let_def split: if_splits)
  next
    case (Grd c)
    with True step word show ?thesis
      by (cases c) (auto simp: arrive_if_arrived_def guard_clone_arrive_def guard_depart_def shard_depart_def atomic_defs Let_def
          split: if_splits option.splits)
  qed (use True in auto)
qed

section \<open>Closing nodes\<close>

text \<open>A node is closing once it is stopped or collected: either way all its shards are stopped.\<close>

definition closing :: "heap \<Rightarrow> nid \<Rightarrow> bool" where
  "closing h n \<longleftrightarrow> node_is_stopped n h \<or> strong h n = 0"

text \<open>
  What a frame knows about it. Only a closing node is left by its last shard: an arrival that
  is taken back (\<^verbatim>\<open>Another arrival won\<close>) leaves the one that won.
\<close>

fun frame_closing :: "heap \<Rightarrow> frame \<Rightarrow> bool" where
  "frame_closing h (Stop (ShardStop s)) \<longleftrightarrow> closing h (fst s)"
| "frame_closing h (Count (ShardArriveLoop s u st)) \<longleftrightarrow> (stopped_bit st \<longrightarrow> is_stopped s h)"
| "frame_closing h (Count (ShardArriveCommit s u st)) \<longleftrightarrow> (stopped_bit st \<longrightarrow> is_stopped s h)"
| "frame_closing h (Count (NodeDepart n)) \<longleftrightarrow> closing h n \<or> (\<exists>i < in_shards (node_at h n). shard_arrived h (n, i))"
| "frame_closing h (Count (NodeDepartNotify n st)) \<longleftrightarrow> stopped_bit st \<or> strong h n = 0"
| "frame_closing h (Count (NodeDepartRelease n st)) \<longleftrightarrow> stopped_bit st \<or> strong h n = 0"
| "frame_closing h _ \<longleftrightarrow> True"

definition closing_ok :: "sys \<Rightarrow> bool" where
  "closing_ok \<sigma> \<longleftrightarrow> (\<forall>f. pending \<sigma> f \<longrightarrow> frame_closing (mem \<sigma>) f) \<and>
     (\<forall>s. valid_shard (mem \<sigma>) s \<longrightarrow> is_stopped s (mem \<sigma>) \<longrightarrow> closing (mem \<sigma>) (fst s)) \<and>
     (\<forall>s. valid_shard (mem \<sigma>) s \<longrightarrow> closing (mem \<sigma>) (fst s) \<longrightarrow>
        is_stopped s (mem \<sigma>) \<or> pending \<sigma> (Stop (ShardStop s)))"

lemma closing_okD:
  assumes "closing_ok \<sigma>"
  shows "pending \<sigma> f \<Longrightarrow> frame_closing (mem \<sigma>) f"
    "valid_shard (mem \<sigma>) s \<Longrightarrow> is_stopped s (mem \<sigma>) \<Longrightarrow> closing (mem \<sigma>) (fst s)"
    "valid_shard (mem \<sigma>) s \<Longrightarrow> closing (mem \<sigma>) (fst s) \<Longrightarrow> is_stopped s (mem \<sigma>) \<or> pending \<sigma> (Stop (ShardStop s))"
  using assms unfolding closing_ok_def by blast+

lemma exec_unarrived:
  assumes step: "exec t b f h = Next h' gs" and ok: "heap_ok h" "frame_ok h f" "room h f"
    and s: "valid_shard h s" "shard_arrived h s" "\<not> shard_arrived h' s"
  shows "f = Count (ShardFlush s) \<and> shard_word h s = ARRIVED OR STOPPED"
proof (cases "writes_word f")
  case False
  then show ?thesis using words_kept [OF step] s by (simp add: same_words_def valid_shard_def shard_arrived_def)
next
  case True
  have add: "arrived_bit (shard_word h s' + u) = arrived_bit (shard_word h s')"
    if "valid_shard h s'" "unit_ok u" "held f = None" for s' u
    using that room_fields(1,2) [OF ok(3) that(1)] fields_add_local(4) [of "shard_word h s'"] fields_add_kids(4) [of "shard_word h s'"]
    by (auto simp: unit_ok_def)
  show ?thesis
  proof (cases f)
    case (Count c)
    then have step: "count_step t b c h = Next h' gs" and c: "count_frame_ok h c" using step ok(2) by simp_all
    show ?thesis
    proof (cases c)
      case (ShardArriveLoop s' u st)
      with step s c Count add [of s' u] show ?thesis
        by (auto simp: shard_arrive_loop_def shard_arrived_def atomic_defs split: if_splits)
    next
      case (ShardDepart s' u)
      then have "arrived_bit (shard_word h s' - u) = arrived_bit (shard_word h s')"
        using c Count room_fields(4) [OF ok(3)] fields_sub_kids(4) [of "shard_word h s'"] by auto
      with step s ShardDepart Count show ?thesis
        by (auto simp: shard_depart_flush_def shard_depart_def shard_arrived_def split: if_splits)
    next
      case (NodeArriveLoop n st)
      have "shard_word h1 s = shard_word h s" if "shard_index t m h = (h1, i)" for m h1 i
        using same_words_index(1) [OF that] s by (simp add: same_words_def valid_shard_def)
      with step s show ?thesis
        by (auto simp: NodeArriveLoop Count node_arrive_loop_def shard_ref_def atomic_defs shard_arrived_def
            split: if_splits option.splits prod.splits)
    qed (use True step s Count in \<open>auto simp: shard_arrive_commit_def shard_flush_def node_arrive_def node_arrive_commit_def
        node_depart_def node_depart_release_def shard_ref_def atomic_defs shard_arrived_def fields_or Let_def
        split: if_splits option.splits\<close>)
  next
    case (Stop c)
    with True step s show ?thesis
      by (cases c) (auto simp: node_stop_def shard_stop_def shard_arrived_def fields_or Let_def split: if_splits)
  next
    case (Grd c)
    then consider s' loc i st where "c = ArriveIfArrived s' loc i st"
      | s' pin loc info where "c = GuardCloneArrive s' pin loc info" | s' pin where "c = GuardDepart s' pin"
      using True by (cases c) auto
    then show ?thesis
    proof cases
      case (1 s')
      with step s Grd ok(2) add [of s' LOCAL_ONE] show ?thesis
        by (auto simp: arrive_if_arrived_def atomic_defs shard_arrived_def unit_ok_def split: if_splits)
    next
      case (2 s')
      with step s Grd ok(2) add [of s' LOCAL_ONE] show ?thesis
        by (auto simp: guard_clone_arrive_def shard_arrived_def unit_ok_def Let_def split: if_splits)
    next
      case (3 s')
      then have "arrived_bit (shard_word h s' - LOCAL_ONE) = arrived_bit (shard_word h s')"
        using ok Grd room_fields(3) [OF ok(3)] fields_sub_local(4) [of "shard_word h s'"] by auto
      with 3 step s Grd show ?thesis
        by (auto simp: guard_depart_def shard_depart_def shard_arrived_def split: if_splits)
    qed
  qed (use True in auto)
qed

lemma emptied_stopped: "shard_word h s = ARRIVED OR STOPPED \<Longrightarrow> is_stopped s h"
  unfolding is_stopped_def stopped_test emptied_test by simp

text \<open>Closing is final.\<close>

lemma closing_run:
  assumes r: "reachable \<sigma>" "within_limits \<sigma>" "t < n_threads \<sigma>" "stack \<sigma> t = f # fs"
    and step: "exec t b f (mem \<sigma>) = Next h gs" and n: "n < n_nodes (mem \<sigma>)"
  shows "closing h n \<longleftrightarrow> closing (mem \<sigma>) n \<or> f = Stop (NodeStop n) \<or> (f = Life (DropArc n) \<and> strong (mem \<sigma>) n = 1)"
proof -
  have "node_is_stopped n h \<longleftrightarrow> node_is_stopped n (mem \<sigma>) \<or> f = Stop (NodeStop n)"
    using step_stop_effect(1) [OF step.run [OF r(3,4) step] reachable_sys_ok [OF r(1)] r(2), of n] n r(4)
    by (auto simp: valid_node_def)
  moreover have "strong h n = 0 \<longleftrightarrow> strong (mem \<sigma>) n = 0 \<or> (f = Life (DropArc n) \<and> strong (mem \<sigma>) n = 1)"
    using exec_strong_zero [OF r(1,3,4) step] n by (simp add: same_strong_zero_def)
  ultimately show ?thesis by (auto simp: closing_def)
qed

lemma stopped_run:
  assumes r: "reachable \<sigma>" "within_limits \<sigma>" "t < n_threads \<sigma>" "stack \<sigma> t = f # fs"
    and step: "exec t b f (mem \<sigma>) = Next h gs" and s: "valid_shard (mem \<sigma>) s"
  shows "is_stopped s h \<longleftrightarrow> is_stopped s (mem \<sigma>) \<or> f = Stop (ShardStop s)"
  using step_stop_effect(2) [OF step.run [OF r(3,4) step] reachable_sys_ok [OF r(1)] r(2) s] r(4) by auto

lemma frame_closing_kept:
  assumes r: "reachable \<sigma>" "within_limits \<sigma>" "t < n_threads \<sigma>" "stack \<sigma> t = f # fs"
    and step: "exec t b f (mem \<sigma>) = Next h gs" and inv: "closing_ok \<sigma>" and g: "pending \<sigma> g"
  shows "frame_closing h g"
proof -
  note ext = run_extends [OF r step]
  note old = closing_okD(1) [OF inv g]
  have ok: "frame_ok (mem \<sigma>) g" using g reachable_frame_ok [OF r(1)] by (auto simp: pending_def)
  have zero: "strong h n = 0" if "strong (mem \<sigma>) n = 0" "n < n_nodes (mem \<sigma>)" for n
    using exec_strong_zero [OF r(1,3,4) step] that by (simp add: same_strong_zero_def)
  show ?thesis
  proof (cases "\<exists>n. g = Count (NodeDepart n)")
    case True
    then obtain n where g: "g = Count (NodeDepart n)" by blast
    then have n: "n < n_nodes (mem \<sigma>)" using ok by (simp add: valid_node_def)
    show ?thesis
    proof (cases "closing (mem \<sigma>) n")
      case False
      then obtain i where i: "i < in_shards (node_at (mem \<sigma>) n)" "shard_arrived (mem \<sigma>) (n, i)" using old g by auto
      then have s: "valid_shard (mem \<sigma>) (n, i)" using n by (simp add: valid_shard_def)
      have "shard_arrived h (n, i)"
      proof (rule ccontr)
        assume "\<not> shard_arrived h (n, i)"
        then have "shard_word (mem \<sigma>) (n, i) = ARRIVED OR STOPPED"
          using exec_unarrived [OF step reachable_heap_ok [OF r(1)] reachable_top_ok [OF r(1,3,4)]
              limits_room [OF reachable_sys_ok [OF r(1)] r(2-4)] s i(2)] by blast
        then have "is_stopped (n, i) (mem \<sigma>)" by (rule emptied_stopped)
        then show False using closing_okD(2) [OF inv s] False by simp
      qed
      then show ?thesis using g i(1) ext n by (auto simp: extends_def)
    qed (use g closing_run [OF r step n] in auto)
  next
    case False
    then show ?thesis
      using old ok closing_run [OF r step] stopped_run [OF r step] zero
      by (cases "(h, g)" rule: frame_closing.cases) (auto simp: valid_shard_def valid_node_def)
  qed
qed

lemma node_depart_closing:
  assumes r: "reachable \<sigma>" "within_limits \<sigma>" "t < n_threads \<sigma>" "stack \<sigma> t = Count (NodeDepart n) # fs"
    and inv: "closing_ok \<sigma>" and empty: "low (node_word (mem \<sigma>) n - 1) = 0"
  shows "stopped_bit (node_word (mem \<sigma>) n - 1) \<or> strong (mem \<sigma>) n = 0"
proof -
  have n: "valid_node (mem \<sigma>) n" using reachable_top_ok [OF r(1,3,4)] by simp
  have "0 < low (node_word (mem \<sigma>) n)"
    using roomD(1) [OF limits_room [OF reachable_sys_ok [OF r(1)] r(2-4)], of "NodeToken n"] n by simp
  then have w: "low (node_word (mem \<sigma>) n) = 1" "stopped_bit (node_word (mem \<sigma>) n - 1) = stopped_bit (node_word (mem \<sigma>) n)"
    using empty fields_sub_local(1,3) [of "node_word (mem \<sigma>) n"] by (simp_all add: one_LOCAL_ONE)
  have "0 < tally (n_threads \<sigma>) (\<lambda>t. holder \<sigma> t = Some (NodeToken n))"
    using r(3,4) by (auto simp: tally_pos_iff holder_def)
  then have "owned (mem \<sigma>) (NodeToken n) = 0"
    using accountedD [OF reachable_sys_ok [OF r(1)], of "NodeToken n"] n w(1) by simp
  then have "closing (mem \<sigma>) n"
    using closing_okD(1) [OF inv top_pending [OF r(3,4)]] by (auto simp: addup_eq_0_iff)
  then show ?thesis using w(2) by (auto simp: closing_def node_is_stopped_def stopped_test)
qed

lemma commit_closing_new:
  assumes r: "reachable \<sigma>" "within_limits \<sigma>" "t < n_threads \<sigma>" "stack \<sigma> t = f # fs"
    and step: "exec t b f (mem \<sigma>) = Next h gs" and inv: "closing_ok \<sigma>" and g: "g \<in> set gs" and c: "f = Count (ShardArriveCommit s u w)"
  shows "frame_closing h g"
proof -
  have st: "count_step t b (ShardArriveCommit s u w) (mem \<sigma>) = Next h gs"
    and fo: "count_frame_ok (mem \<sigma>) (ShardArriveCommit s u w)"
    using step reachable_top_ok [OF r(1,3,4)] c by simp_all
  note old = closing_okD(1) [OF inv top_pending [OF r(3,4)]]
  have s: "valid_shard (mem \<sigma>) s" "empty_unarrived w" using fo by simp_all
  have "closing (mem \<sigma>) (fst s) \<or> shard_arrived (mem \<sigma>) s" if "shard_word (mem \<sigma>) s \<noteq> w"
  proof (cases "is_stopped s (mem \<sigma>)")
    case True
    then show ?thesis using closing_okD(2) [OF inv s(1)] by simp
  next
    case False
    have "unarrived_empty (shard_word (mem \<sigma>) s)"
      using words_okD(1) [OF _ s(1)] reachable_sys_ok [OF r(1)] by (simp add: sys_ok_def)
    then show ?thesis
      using False old that s(2) c
      by (auto simp: word_eq_fields [of "shard_word (mem \<sigma>) s"] is_stopped_def stopped_test shard_arrived_def
          unarrived_empty_def empty_unarrived_def)
  qed
  then have "closing (mem \<sigma>) (fst s) \<or> (\<exists>i < in_shards (node_at (mem \<sigma>) (fst s)). shard_arrived (mem \<sigma>) (fst s, i))"
    if "shard_word (mem \<sigma>) s \<noteq> w" using that s(1) by (cases s) (auto simp: valid_shard_def)
  then show ?thesis
    using st g by (auto simp: shard_arrive_commit_def atomic_defs is_stopped_def stopped_test split: if_splits)
qed

lemma count_closing_new:
  assumes r: "reachable \<sigma>" "within_limits \<sigma>" "t < n_threads \<sigma>" "stack \<sigma> t = f # fs"
    and step: "exec t b f (mem \<sigma>) = Next h gs" and inv: "closing_ok \<sigma>" and g: "g \<in> set gs" and c: "f = Count c"
  shows "frame_closing h g"
proof -
  have st: "count_step t b c (mem \<sigma>) = Next h gs" and fo: "count_frame_ok (mem \<sigma>) c" using step reachable_top_ok [OF r(1,3,4)] c by simp_all
  note old = closing_okD(1) [OF inv top_pending [OF r(3,4)]]
  show ?thesis
  proof (cases c)
    case (ShardArriveCommit s u w)
    show ?thesis by (rule commit_closing_new [OF r step inv g c [unfolded ShardArriveCommit]])
  next
    case (ShardFlush s)
    then have "closing (mem \<sigma>) (fst s)" if "shard_word (mem \<sigma>) s = ARRIVED OR STOPPED"
      using closing_okD(2) [OF inv, of s] fo emptied_stopped [OF that] by simp
    moreover have "closing h (fst s)" if "closing (mem \<sigma>) (fst s)"
      using closing_run [OF r step, of "fst s"] that fo ShardFlush by (simp add: valid_shard_def)
    ultimately show ?thesis
      using st g ShardFlush by (auto simp: shard_flush_def atomic_defs split: if_splits)
  next
    case (NodeDepart n)
    then have "stopped_bit (node_word (mem \<sigma>) n - 1) \<or> strong (mem \<sigma>) n = 0" if "low (node_word (mem \<sigma>) n - 1) = 0"
      using node_depart_closing [OF r(1-3) _ inv that] r(4) c by simp
    moreover have "strong h n = strong (mem \<sigma>) n"
      using same_owners_count [OF st] by (simp add: same_owners_def)
    ultimately show ?thesis
      using st g NodeDepart by (auto simp: node_depart_def count_test Let_def split: if_splits)
  next
    case (NodeDepartNotify n w)
    moreover have "strong h n = strong (mem \<sigma>) n"
      using same_owners_count [OF st] by (simp add: same_owners_def)
    ultimately show ?thesis using st g old c by (auto simp: node_depart_notify_def)
  next
    case (ShardArrive s u)
    then show ?thesis using st g by (auto simp: shard_arrive_def is_stopped_def stopped_test)
  next
    case (ShardArriveLoop s u w)
    then show ?thesis
      using st g old c by (auto simp: shard_arrive_loop_def atomic_defs is_stopped_def stopped_test split: if_splits)
  next
    case (NodeArriveLoop n w)
    then show ?thesis
      using st g by (auto simp: node_arrive_loop_def shard_ref_def atomic_defs split: if_splits option.splits prod.splits)
  next
    case (NodeDepartRelease n w)
    then show ?thesis
      using st g by (auto simp: node_depart_release_def shard_ref_def atomic_defs split: if_splits option.splits)
  qed (use st g in \<open>auto simp: shard_depart_flush_def shard_depart_def node_arrive_def node_arrive_commit_def atomic_defs Let_def
      split: if_splits option.splits\<close>)
qed

lemma stop_closing_new:
  assumes r: "reachable \<sigma>" "within_limits \<sigma>" "t < n_threads \<sigma>" "stack \<sigma> t = f # fs"
    and step: "exec t b f (mem \<sigma>) = Next h gs" and inv: "closing_ok \<sigma>" and g: "g \<in> set gs" and c: "f = Stop c"
  shows "frame_closing h g"
proof -
  note ok = reachable_top_ok [OF r(1,3,4)]
  have "closing h n" if "c = NodeStop n" for n
    using closing_run [OF r step, of n] ok c that by (simp add: valid_node_def)
  then show ?thesis
  proof (cases c)
    case (ShardWake s w ws)
    with step g c show ?thesis by (cases ws) (auto split: if_splits)
  next
    case (StopUpgrade n i cs live)
    with step g c show ?thesis by (cases cs) (auto split: option.splits)
  qed (use step g c in \<open>auto simp: node_stop_def shard_stop_def shard_drain_def stop_notify_def stop_children_def stop_zero_def
      stop_shards_def Let_def split: if_splits\<close>)
qed

lemma life_closing_new:
  assumes r: "reachable \<sigma>" "within_limits \<sigma>" "t < n_threads \<sigma>" "stack \<sigma> t = f # fs"
    and step: "exec t b f (mem \<sigma>) = Next h gs" and inv: "closing_ok \<sigma>" and g: "g \<in> set gs" and c: "f = Life c"
  shows "frame_closing h g"
proof -
  note ok = reachable_top_ok [OF r(1,3,4)]
  have "closing h n" if "c = DropArc n" "strong (mem \<sigma>) n = 1" for n
    using closing_run [OF r step, of n] ok c that by (simp add: valid_node_def)
  then show ?thesis using step g c
    by (cases c) (auto simp: drop_arc_def deregister_def child_new_def child_register_def child_store_key_def
        child_check_def child_return_def stop_shards_def strong_def Let_def split: if_splits option.splits prod.splits)
qed

lemma guard_closing_new:
  assumes step: "guard_step t b c (mem \<sigma>) = Next h gs" and g: "g \<in> set gs"
  shows "frame_closing h g"
proof -
  have ret: "frame_closing h x" if "x \<in> set (provenance_return s loc info to h')" for x s loc info to h'
    using that by (cases to) auto
  show ?thesis
    using step g ret by (cases c) (auto simp: guard_at_location_def provenance_def provenance_register_def guard_build_def
      guard_for_shard_def arrive_if_arrived_def guard_upgrade_def guard_clone_arrive_def guard_drop_def guard_depart_def
      guard_flush_weak_def drop_info_def atomic_defs Let_def simp del: upd_shard_def
      split: if_splits option.splits prod.splits)
qed

lemma frame_closing_new:
  assumes r: "reachable \<sigma>" "within_limits \<sigma>" "t < n_threads \<sigma>" "stack \<sigma> t = f # fs"
    and step: "exec t b f (mem \<sigma>) = Next h gs" and inv: "closing_ok \<sigma>" and g: "g \<in> set gs"
  shows "frame_closing h g"
proof (cases f)
  case (Count c)
  then show ?thesis by (rule count_closing_new [OF assms])
next
  case (Stop c)
  then show ?thesis by (rule stop_closing_new [OF assms])
next
  case (Life c)
  then show ?thesis by (rule life_closing_new [OF assms])
next
  case (Grd c)
  then show ?thesis using guard_closing_new [of t b c \<sigma> h gs g] step g by simp
next
  case (Swan c)
  then show ?thesis using step g by (cases c) (auto simp: step_defs split: if_splits prod.splits)
next
  case (Intr c)
  then show ?thesis using step g
    by (cases "(t, b, c, mem \<sigma>)" rule: intr_step.cases)
      (auto simp: step_defs on_interrupt_def poll_returns_def Let_def split: if_splits option.splits prod.splits)
qed (use step g in auto)

section \<open>Every shard of a closing node is stopped\<close>

lemma closing_starts:
  assumes step: "exec t b f h = Next h' gs" and f: "f = Stop (NodeStop n) \<and> \<not> node_is_stopped n h \<or> f = Life (DropArc n) \<and> strong h n = 1"
    and s: "valid_shard h s" "fst s = n"
  shows "Stop (ShardStop s) \<in> set gs"
proof -
  have "Stop (ShardStop s) \<in> set (stop_shards n h)" using s by (cases s) (auto simp: stop_shards_def valid_shard_def)
  then show ?thesis
    using step f by (auto simp: node_stop_def drop_arc_def stop_shards_def strong_def node_is_stopped_def Let_def split: if_splits)
qed

lemma new_node_open:
  assumes r: "reachable \<sigma>" "within_limits \<sigma>" "t < n_threads \<sigma>" "stack \<sigma> t = f # fs"
    and step: "exec t b f (mem \<sigma>) = Next h gs" and after: "reachable (\<sigma>\<lparr>mem := h, stack := (stack \<sigma>)(t := gs @ fs)\<rparr>)"
    and s: "valid_shard h s" "\<not> fst s < n_nodes (mem \<sigma>)"
  shows "\<not> is_stopped s h" "\<not> closing h (fst s)"
proof -
  note ok = reachable_heap_ok [OF r(1)] reachable_top_ok [OF r(1,3,4)]
  obtain n where f: "f = Life (ChildNew n)"
    using exec_n_nodes [OF step ok] s by (auto simp: valid_shard_def)
  then have st: "life_step t (ChildNew n) (mem \<sigma>) = Next h gs" using step by simp
  have c: "fst s = n_nodes (mem \<sigma>)" "gs = [Life (ChildRegister (n_nodes (mem \<sigma>)))]"
    using s child_new_effect [OF st] unfolding valid_shard_def by (metis less_Suc_eq)+
  show "\<not> is_stopped s h" by (rule new_shard_clear(1) [OF step [unfolded f] c(1)])
  have "node_word h (fst s) = 0"
    using exec_fresh [OF step ok(1) _ ok(2) limits_room [OF reachable_sys_ok [OF r(1)] r(2-4)], of "fst s"]
      reachable_sys_ok [OF r(1)] s by (simp add: sys_ok_def valid_shard_def)
  moreover have "0 < strong h (fst s)"
    using reachable_held [OF after, of t "Life (ChildRegister (fst s))" "fst s"] r(3) c by simp
  ultimately show "\<not> closing h (fst s)" by (simp add: closing_def node_is_stopped_def)
qed

lemma closing_ok_run:
  assumes r: "reachable \<sigma>" "within_limits \<sigma>" "t < n_threads \<sigma>" "stack \<sigma> t = f # fs"
    and step: "exec t b f (mem \<sigma>) = Next h gs" and inv: "closing_ok \<sigma>"
    and after: "reachable (\<sigma>\<lparr>mem := h, stack := (stack \<sigma>)(t := gs @ fs)\<rparr>)"
  shows "closing_ok (\<sigma>\<lparr>mem := h, stack := (stack \<sigma>)(t := gs @ fs)\<rparr>)"
proof -
  let ?\<sigma> = "\<sigma>\<lparr>mem := h, stack := (stack \<sigma>)(t := gs @ fs)\<rparr>"
  note ext = run_extends [OF r step]
  note open_new = new_node_open [OF r step after]
  have valid: "valid_shard (mem \<sigma>) s" if "valid_shard h s" "fst s < n_nodes (mem \<sigma>)" for s
    using that ext by (auto simp: valid_shard_def extends_def)
  have "frame_closing h g" if g: "pending ?\<sigma> g" for g
  proof (cases "g \<in> set gs")
    case False
    then have "pending \<sigma> g" using g r(4) by (fastforce simp: pending_def split: if_splits)
    then show ?thesis by (rule frame_closing_kept [OF r step inv])
  qed (rule frame_closing_new [OF r step inv])
  moreover have "closing h (fst s)" if s: "valid_shard h s" "is_stopped s h" for s
  proof -
    have old: "fst s < n_nodes (mem \<sigma>)" using open_new(1) [OF s(1)] s(2) by blast
    have "closing (mem \<sigma>) (fst s)"
      using stopped_run [OF r step valid [OF s(1) old]] s(2) closing_okD(2) [OF inv valid [OF s(1) old]]
        closing_okD(1) [OF inv top_pending [OF r(3,4)]] by auto
    then show ?thesis using closing_run [OF r step old] by simp
  qed
  moreover have "is_stopped s h \<or> pending ?\<sigma> (Stop (ShardStop s))" if s: "valid_shard h s" "closing h (fst s)" for s
  proof -
    have old: "fst s < n_nodes (mem \<sigma>)" using open_new(2) [OF s(1)] s(2) by blast
    note v = valid [OF s(1) old]
    show ?thesis
    proof (cases "closing (mem \<sigma>) (fst s)")
      case True
      then show ?thesis
        using closing_okD(3) [OF inv v] stopped_run [OF r step v] pending_run(2) [OF r(3,4)] by blast
    next
      case False
      then have "f = Stop (NodeStop (fst s)) \<and> \<not> node_is_stopped (fst s) (mem \<sigma>) \<or>
          f = Life (DropArc (fst s)) \<and> strong (mem \<sigma>) (fst s) = 1"
        using closing_run [OF r step old] s(2) by (simp add: closing_def)
      then show ?thesis using closing_starts [OF step _ v] pending_run(1) [OF r(3,4)] by blast
    qed
  qed
  ultimately show ?thesis unfolding closing_ok_def by simp
qed

lemma begin_call_new: "begin_call (CallNew rep) h = Some (h', fs) \<Longrightarrow> h' = new_root rep h"
  by (cases rep) auto

text \<open>A call leaves the words and the strong counts of the nodes that exist.\<close>

lemma call_kept:
  assumes call: "begin_call c h = Some (h', fs)" and n: "n < n_nodes h"
  shows "node_word h' n = node_word h n" "strong h' n = strong h n" "shard_word h' (n, i) = shard_word h (n, i)"
    "closing h' n \<longleftrightarrow> closing h n" "in_shards (node_at h' n) = in_shards (node_at h n)"
proof -
  show w: "node_word h' n = node_word h n" "shard_word h' (n, i) = shard_word h (n, i)"
    using begin_call_words [OF call] n by (simp_all add: same_words_def)
  show s: "strong h' n = strong h n"
  proof (cases "\<exists>rep. c = CallNew rep")
    case True
    then obtain rep where "h' = new_root rep h" using call begin_call_new by blast
    then show ?thesis using new_root_effect(5) [of n h rep] n by simp
  next
    case False
    then show ?thesis using begin_call_links(2) [OF call] by auto
  qed
  show "closing h' n \<longleftrightarrow> closing h n" by (simp add: closing_def node_is_stopped_def w s)
  show "in_shards (node_at h' n) = in_shards (node_at h n)"
    using call n by (cases c)
      (auto simp: on_handle_def new_root_def alloc_node_def alloc_handle_def Let_def split: option.splits if_splits)
qed

lemma call_frames:
  assumes "begin_call c h = Some (h', fs)" "g \<in> set fs"
  shows "frame_closing k g" "\<not> flushes s g" "\<not> releases n w g"
  using assms by (cases c; auto simp: on_handle_def drop_frames_def split: option.splits if_splits)+

text \<open>A call leaves nothing behind on a node it makes.\<close>

lemma call_new:
  assumes call: "begin_call c h = Some (h', fs)" and n: "n < n_nodes h'" "\<not> n < n_nodes h"
  shows "node_word h' n = 0" "shard_word h' (n, i) = 0" "\<not> closing h' n"
proof -
  have "\<exists>rep. c = CallNew rep"
    using begin_call_links(1) [OF call] n by (auto simp: same_links_def)
  then obtain rep where h': "h' = new_root rep h" using call begin_call_new by blast
  then have m: "n = n_nodes h" using n new_root_effect(1) [of rep h] by simp
  show w: "node_word h' n = 0" "shard_word h' (n, i) = 0"
    by (auto simp: h' m new_root_def alloc_node_def alloc_handle_def inner_new_def shard_new_def Let_def)
  have "strong h' n = 1" by (auto simp: h' m new_root_def alloc_node_def alloc_handle_def inner_new_def strong_def Let_def)
  then show "\<not> closing h' n" by (simp add: closing_def node_is_stopped_def w)
qed

lemma call_valid:
  assumes "begin_call c h = Some (h', fs)" "valid_shard h' s" "fst s < n_nodes h"
  shows "valid_shard h s"
  using assms call_kept(5) [OF assms(1,3)] by (simp add: valid_shard_def)

lemma pending_after_call:
  assumes "stack \<sigma> t = []" "pending (\<sigma>\<lparr>mem := h, stack := (stack \<sigma>)(t := fs)\<rparr>) g"
  shows "g \<in> set fs \<or> pending \<sigma> g"
  using assms by (auto simp: pending_def split: if_splits)

lemma closing_ok_call:
  assumes r: "reachable \<sigma>" "t < n_threads \<sigma>" "stack \<sigma> t = []"
    and call: "begin_call c (mem \<sigma>) = Some (h, fs)" and inv: "closing_ok \<sigma>"
  shows "closing_ok (\<sigma>\<lparr>mem := h, stack := (stack \<sigma>)(t := fs)\<rparr>)"
proof -
  let ?\<sigma> = "\<sigma>\<lparr>mem := h, stack := (stack \<sigma>)(t := fs)\<rparr>"
  note kept = call_kept [OF call] and new = call_new [OF call]
  have stopped: "is_stopped s h \<longleftrightarrow> is_stopped s (mem \<sigma>)" if "fst s < n_nodes (mem \<sigma>)" for s
    using kept(3) [OF that, of "snd s"] by (simp add: is_stopped_def)
  have fresh: "\<not> is_stopped s h \<and> \<not> closing h (fst s)" if "valid_shard h s" "\<not> fst s < n_nodes (mem \<sigma>)" for s
    using new(2) [of "fst s" "snd s"] new(3) [of "fst s"] that by (simp add: is_stopped_def valid_shard_def)
  have "frame_closing h g" if g: "pending ?\<sigma> g" for g
  proof (cases "g \<in> set fs")
    case False
    then have p: "pending \<sigma> g" using pending_after_call [OF r(3) g] by blast
    then have "frame_ok (mem \<sigma>) g" using reachable_frame_ok [OF r(1)] by (auto simp: pending_def)
    then show ?thesis
      using closing_okD(1) [OF inv p] kept stopped
      by (cases "(h, g)" rule: frame_closing.cases) (auto simp: valid_shard_def valid_node_def shard_arrived_def)
  qed (rule call_frames(1) [OF call])
  moreover have "closing h (fst s)" if s: "valid_shard h s" "is_stopped s h" for s
    using closing_okD(2) [OF inv, of s] call_valid [OF call s(1)] fresh [OF s(1)] s(2) stopped kept(4) by blast
  moreover have "is_stopped s h \<or> pending ?\<sigma> (Stop (ShardStop s))" if s: "valid_shard h s" "closing h (fst s)" for s
    using closing_okD(3) [OF inv, of s] call_valid [OF call s(1)] fresh [OF s(1)] s(2) stopped kept(4)
      pending_call [OF r(3)] by blast
  ultimately show ?thesis unfolding closing_ok_def by simp
qed

interpretation closing: system_invariant closing_ok
proof
  show "closing_ok (sys_init threads par)" for threads par
    by (simp add: closing_ok_def sys_init_def heap_init_def pending_def valid_shard_def)
  show "closing_ok (\<sigma>\<lparr>mem := (mem \<sigma>)\<lparr>clock := clock (mem \<sigma>) + d\<rparr>\<rparr>)" if "closing_ok \<sigma>" for \<sigma> d
  proof -
    have "frame_closing ((mem \<sigma>)\<lparr>clock := clock (mem \<sigma>) + d\<rparr>) g = frame_closing (mem \<sigma>) g" for g
      by (cases "(mem \<sigma>, g)" rule: frame_closing.cases)
        (auto simp: closing_def node_is_stopped_def is_stopped_def shard_arrived_def)
    then show ?thesis
      using that by (simp add: closing_ok_def closing_def node_is_stopped_def is_stopped_def pending_def valid_shard_def)
  qed
qed (use closing_ok_call closing_ok_run in \<open>blast+\<close>)

lemmas reachable_closing_ok = closing.always

section \<open>Nothing is left behind\<close>

definition flush_ok :: "sys \<Rightarrow> bool" where
  "flush_ok \<sigma> \<longleftrightarrow>
     (\<forall>s. valid_shard (mem \<sigma>) s \<longrightarrow> shard_word (mem \<sigma>) s = ARRIVED OR STOPPED \<longrightarrow>
        0 < strong (mem \<sigma>) (fst s) \<or> parent_of (mem \<sigma>) (fst s) \<noteq> None \<longrightarrow> (\<exists>f. flushes s f \<and> pending \<sigma> f)) \<and>
     (\<forall>n<n_nodes (mem \<sigma>). parent_of (mem \<sigma>) n \<noteq> None \<longrightarrow> low (node_word (mem \<sigma>) n) = 0 \<longrightarrow>
        arrived_bit (node_word (mem \<sigma>) n) \<longrightarrow> (\<exists>f. releases n (node_word (mem \<sigma>) n) f \<and> pending \<sigma> f))"

lemma flush_okD:
  assumes "flush_ok \<sigma>"
  shows "valid_shard (mem \<sigma>) s \<Longrightarrow> shard_word (mem \<sigma>) s = ARRIVED OR STOPPED \<Longrightarrow>
      0 < strong (mem \<sigma>) (fst s) \<or> parent_of (mem \<sigma>) (fst s) \<noteq> None \<Longrightarrow> \<exists>f. flushes s f \<and> pending \<sigma> f"
    "n < n_nodes (mem \<sigma>) \<Longrightarrow> parent_of (mem \<sigma>) n \<noteq> None \<Longrightarrow> low (node_word (mem \<sigma>) n) = 0 \<Longrightarrow>
      arrived_bit (node_word (mem \<sigma>) n) \<Longrightarrow> \<exists>f. releases n (node_word (mem \<sigma>) n) f \<and> pending \<sigma> f"
  using assms unfolding flush_ok_def by blast+

lemma flush_ok_call:
  assumes r: "reachable \<sigma>" "within_limits \<sigma>" "t < n_threads \<sigma>" "stack \<sigma> t = []" and may: "may_call c \<sigma>"
    and call: "begin_call c (mem \<sigma>) = Some (h, fs)" and inv: "flush_ok \<sigma>"
  shows "flush_ok (\<sigma>\<lparr>mem := h, stack := (stack \<sigma>)(t := fs)\<rparr>)"
proof -
  let ?\<sigma> = "\<sigma>\<lparr>mem := h, stack := (stack \<sigma>)(t := fs)\<rparr>"
  have ext: "extends (mem \<sigma>) h"
    using step_extends [OF step.call [OF r(3,4) may call] reachable_sys_ok [OF r(1)] r(2)] by simp
  note kept = call_kept [OF call] and new = call_new [OF call]
  have parent: "parent_of h n = parent_of (mem \<sigma>) n" if "n < n_nodes (mem \<sigma>)" for n
    using parent_of_extends [OF ext] that by (simp add: valid_node_def)
  have "\<exists>f. flushes s f \<and> pending ?\<sigma> f"
    if s: "valid_shard h s" "shard_word h s = ARRIVED OR STOPPED" "0 < strong h (fst s) \<or> parent_of h (fst s) \<noteq> None" for s
  proof -
    have "is_stopped s h" by (rule emptied_stopped [OF s(2)])
    then have old: "fst s < n_nodes (mem \<sigma>)"
      using new(2) [of "fst s" "snd s"] s(1)
      by (cases "fst s < n_nodes (mem \<sigma>)") (simp_all add: is_stopped_def valid_shard_def)
    then have "\<exists>f. flushes s f \<and> pending \<sigma> f"
      using flush_okD(1) [OF inv call_valid [OF call s(1) old]] s(2,3) kept(2) [OF old] kept(3) [OF old, of "snd s"] parent [OF old]
      by simp
    then show ?thesis using pending_call [OF r(4)] by blast
  qed
  moreover have "\<exists>f. releases n (node_word h n) f \<and> pending ?\<sigma> f"
    if n: "n < n_nodes h" "parent_of h n \<noteq> None" "low (node_word h n) = 0" "arrived_bit (node_word h n)" for n
  proof -
    have old: "n < n_nodes (mem \<sigma>)" using new(1) [OF n(1)] n(4) by force
    then show ?thesis
      using flush_okD(2) [OF inv old] n kept(1) [OF old] parent [OF old] pending_call [OF r(4)] by metis
  qed
  ultimately show ?thesis unfolding flush_ok_def by simp
qed

lemma flush_run:
  assumes r: "reachable \<sigma>" "within_limits \<sigma>" "t < n_threads \<sigma>" "stack \<sigma> t = f # fs"
    and step: "exec t b f (mem \<sigma>) = Next h gs" and inv: "flush_ok \<sigma>"
    and after: "reachable (\<sigma>\<lparr>mem := h, stack := (stack \<sigma>)(t := gs @ fs)\<rparr>)"
    and s: "valid_shard h s" "shard_word h s = ARRIVED OR STOPPED" "0 < strong h (fst s) \<or> parent_of h (fst s) \<noteq> None"
  shows "\<exists>g. flushes s g \<and> pending (\<sigma>\<lparr>mem := h, stack := (stack \<sigma>)(t := gs @ fs)\<rparr>) g"
proof -
  note ext = run_extends [OF r step]
  note ok = reachable_heap_ok [OF r(1)] reachable_top_ok [OF r(1,3,4)] limits_room [OF reachable_sys_ok [OF r(1)] r(2-4)]
  note top = top_pending [OF r(3,4)] and after_run = pending_run [OF r(3,4)]
  have old: "fst s < n_nodes (mem \<sigma>)"
    using new_node_open(1) [OF r step after s(1)] emptied_stopped [OF s(2)] by blast
  then have v: "valid_shard (mem \<sigma>) s" using s(1) ext by (auto simp: valid_shard_def extends_def)
  have "parent_of h (fst s) = parent_of (mem \<sigma>) (fst s)" using parent_of_extends [OF ext] old by (simp add: valid_node_def)
  moreover have "0 < strong h (fst s) \<Longrightarrow> 0 < strong (mem \<sigma>) (fst s)"
    using exec_strong_zero [OF r(1,3,4) step] old by (auto simp: same_strong_zero_def)
  ultimately have keeps: "0 < strong (mem \<sigma>) (fst s) \<or> parent_of (mem \<sigma>) (fst s) \<noteq> None" using s(3) by auto
  consider "shard_word (mem \<sigma>) s = ARRIVED OR STOPPED" "\<not> flushes s f" | g where "g \<in> set gs" "flushes s g"
    | "f = Grd (GuardFlushWeak s)" "strong (mem \<sigma>) (fst s) = 0"
    using exec_emptied [OF step ok v s(2)] by (elim disjE bexE conjE)
  then show ?thesis
  proof cases
    case 1
    then obtain g where g: "flushes s g" "pending \<sigma> g" using flush_okD(1) [OF inv v _ keeps] by blast
    then have "g \<noteq> f" using 1(2) by blast
    then show ?thesis using g after_run(2) by blast
  next
    case 2
    then show ?thesis using after_run(1) by blast
  next
    case 3
    then have "rooted (mem \<sigma>) f" using reachable_pins_ok [OF r(1)] top by (simp add: pins_ok_def)
    then show ?thesis using 3 keeps by (simp add: rooted_def)
  qed
qed

lemma release_run:
  assumes r: "reachable \<sigma>" "within_limits \<sigma>" "t < n_threads \<sigma>" "stack \<sigma> t = f # fs"
    and step: "exec t b f (mem \<sigma>) = Next h gs" and inv: "flush_ok \<sigma>"
    and after: "reachable (\<sigma>\<lparr>mem := h, stack := (stack \<sigma>)(t := gs @ fs)\<rparr>)"
    and n: "n < n_nodes h" "parent_of h n \<noteq> None" "low (node_word h n) = 0" "arrived_bit (node_word h n)"
  shows "\<exists>g. releases n (node_word h n) g \<and> pending (\<sigma>\<lparr>mem := h, stack := (stack \<sigma>)(t := gs @ fs)\<rparr>) g"
proof -
  note ext = run_extends [OF r step]
  note ok = reachable_heap_ok [OF r(1)] reachable_top_ok [OF r(1,3,4)] limits_room [OF reachable_sys_ok [OF r(1)] r(2-4)]
  note top = top_pending [OF r(3,4)] and after_run = pending_run [OF r(3,4)]
  have old: "n < n_nodes (mem \<sigma>)"
    using exec_fresh [OF step ok(1) _ ok(2,3) n(1)] reachable_sys_ok [OF r(1)] n(4) by (fastforce simp: sys_ok_def)
  then have v: "valid_node (mem \<sigma>) n" by (simp add: valid_node_def)
  then have p: "parent_of (mem \<sigma>) n \<noteq> None" using parent_of_extends [OF ext] n(2) by simp
  have still: ?thesis if w: "node_word h n = node_word (mem \<sigma>) n" "\<not> releases n (node_word (mem \<sigma>) n) f"
  proof -
    obtain g where g: "releases n (node_word (mem \<sigma>) n) g" "pending \<sigma> g"
      using flush_okD(2) [OF inv old p] n(3,4) w(1) by auto
    then have "g \<noteq> f" using w(2) by blast
    then show ?thesis using g after_run(2) w(1) by metis
  qed
  consider "node_word h n = node_word (mem \<sigma>) n" "\<not> releases n (node_word (mem \<sigma>) n) f"
    | g where "g \<in> set gs" "releases n (node_word h n) g" | "f = Stop (NodeStop n)"
    using exec_released [OF step ok v p n(3,4)] by blast
  then show ?thesis
  proof cases
    case 1
    then show ?thesis by (rule still)
  next
    case 2
    then show ?thesis using after_run(1) by blast
  next
    case 3
    then have w: "node_word h n = node_word (mem \<sigma>) n OR STOPPED"
      using step by (auto simp: node_stop_def Let_def split: if_splits)
    then obtain g where g: "releases n (node_word (mem \<sigma>) n) g" "pending \<sigma> g"
      using flush_okD(2) [OF inv old p] n(3,4) by (auto simp: fields_or)
    have "0 < strong (mem \<sigma>) n" using reachable_needs [OF r(1,3,4)] 3 by simp
    then have "stopped_bit (node_word (mem \<sigma>) n)"
      using closing_okD(1) [OF reachable_closing_ok [OF r(1)] g(2)] g(1)
      by (cases "(n, node_word (mem \<sigma>) n, g)" rule: releases.cases) auto
    then have "node_word h n = node_word (mem \<sigma>) n" unfolding w by (auto simp: word_eq_fields [of "_ OR _"] fields_or)
    then show ?thesis using still 3 by simp
  qed
qed

lemma flush_ok_run:
  assumes r: "reachable \<sigma>" "within_limits \<sigma>" "t < n_threads \<sigma>" "stack \<sigma> t = f # fs"
    and step: "exec t b f (mem \<sigma>) = Next h gs" and inv: "flush_ok \<sigma>"
    and after: "reachable (\<sigma>\<lparr>mem := h, stack := (stack \<sigma>)(t := gs @ fs)\<rparr>)"
  shows "flush_ok (\<sigma>\<lparr>mem := h, stack := (stack \<sigma>)(t := gs @ fs)\<rparr>)"
  unfolding flush_ok_def using flush_run [OF r step inv after] release_run [OF r step inv after] by simp

interpretation flushing: system_invariant flush_ok
proof
  show "flush_ok (sys_init threads par)" for threads par
    by (simp add: flush_ok_def sys_init_def heap_init_def valid_shard_def)
  show "flush_ok (\<sigma>\<lparr>mem := (mem \<sigma>)\<lparr>clock := clock (mem \<sigma>) + d\<rparr>\<rparr>)" if "flush_ok \<sigma>" for \<sigma> d
    using that by (simp add: flush_ok_def valid_shard_def strong_def parent_of_def pending_def)
qed (use flush_ok_call flush_ok_run in \<open>blast+\<close>)

lemmas reachable_flush_ok = flushing.always

section \<open>Quiescent states\<close>

text \<open>Some live guard belongs to \<open>n\<close> or to a node below it.\<close>

definition guarded_below :: "heap \<Rightarrow> nid \<Rightarrow> bool" where
  "guarded_below h n \<longleftrightarrow> (\<exists>g gd. guard_at h g = Some gd \<and> ancestor h n (fst (gd_shard gd)))"

lemma idle_not_pending: "idle \<sigma> \<Longrightarrow> \<not> pending \<sigma> f"
  by (simp add: idle_def pending_def)

lemma idle_unguarded_shard:
  assumes r: "reachable \<sigma>" "idle \<sigma>" and s: "valid_shard (mem \<sigma>) s" and none: "\<not> guarded_below (mem \<sigma>) (fst s)"
  shows "low (shard_word (mem \<sigma>) s) = 0"
proof -
  have "\<not> guard_of (mem \<sigma>) s g" for g
    using none ancestor.self by (auto simp: guarded_below_def guard_of_def)
  then show ?thesis
    using idle_exact [OF reachable_sys_ok [OF r(1)] r(2), of "LocalToken s"] s by simp
qed

lemma child_closing:
  assumes r: "reachable \<sigma>" "idle \<sigma>" and c: "c < n_nodes (mem \<sigma>)" "parent_of (mem \<sigma>) c = Some n" and n: "closing (mem \<sigma>) n"
  shows "closing (mem \<sigma>) c"
proof (cases "strong (mem \<sigma>) c = 0")
  case False
  then have "0 < strong (mem \<sigma>) n" using parent_alive(2) [OF r(1) c] by simp
  moreover have "stops_settled \<sigma>" using r(2) by (simp add: stops_settled_def idle_def)
  moreover have "ancestor (mem \<sigma>) n c" using ancestor.up [OF ancestor.self c(2)] .
  ultimately show ?thesis
    using descendants_stopped [OF r(1)] c(1) n False by (auto simp: closing_def)
qed (simp add: closing_def)

text \<open>A closing node with no guard below it is counted out.\<close>

lemma quiescent_zero:
  assumes r: "reachable \<sigma>" "idle \<sigma>"
  shows "n < n_nodes (mem \<sigma>) \<Longrightarrow> closing (mem \<sigma>) n \<Longrightarrow> 0 < strong (mem \<sigma>) n \<or> parent_of (mem \<sigma>) n \<noteq> None \<Longrightarrow>
    \<not> guarded_below (mem \<sigma>) n \<Longrightarrow> low (node_word (mem \<sigma>) n) = 0"
proof (induction "n_nodes (mem \<sigma>) - n" arbitrary: n rule: less_induct)
  case (less n)
  note ok = reachable_sys_ok [OF r(1)] and none = idle_not_pending [OF r(2)]
  have "\<not> shard_arrived (mem \<sigma>) (n, i)" if i: "i < in_shards (node_at (mem \<sigma>) n)" for i
  proof
    assume arrived: "shard_arrived (mem \<sigma>) (n, i)"
    have s: "valid_shard (mem \<sigma>) (n, i)" using less.prems(1) i by (simp add: valid_shard_def)
    have stopped: "is_stopped (n, i) (mem \<sigma>)"
      using closing_okD(3) [OF reachable_closing_ok [OF r(1)] s] less.prems(2) none by simp
    have "\<not> kid_of (mem \<sigma>) (n, i) c" if c: "c < n_nodes (mem \<sigma>)" for c
    proof
      assume kid: "kid_of (mem \<sigma>) (n, i) c"
      then have p: "parent_of (mem \<sigma>) c = Some n" by (simp add: kid_of_def)
      have "n < c" using parent_valid(2) [OF reachable_heap_ok [OF r(1)] _ p] c by (simp add: valid_node_def)
      moreover have "\<not> guarded_below (mem \<sigma>) c" using less.prems(4) ancestor.up [OF _ p] by (auto simp: guarded_below_def)
      ultimately have "low (node_word (mem \<sigma>) c) = 0"
        using less.hyps [of c] c p child_closing [OF r c p less.prems(2)] by simp
      then show False
        using flush_okD(2) [OF reachable_flush_ok [OF r(1)] c] p kid none by (auto simp: kid_of_def)
    qed
    then have "mid (shard_word (mem \<sigma>) (n, i)) = 0"
      using idle_exact [OF ok r(2), of "KidToken (n, i)"] s by (simp add: addup_eq_0_iff)
    moreover have "low (shard_word (mem \<sigma>) (n, i)) = 0"
      using idle_unguarded_shard [OF r s] less.prems(4) by simp
    ultimately have "shard_word (mem \<sigma>) (n, i) = ARRIVED OR STOPPED"
      using arrived stopped by (simp add: emptied_test shard_arrived_def is_stopped_def stopped_test)
    then show False using flush_okD(1) [OF reachable_flush_ok [OF r(1)] s] less.prems(3) none by auto
  qed
  then show ?case
    using idle_exact [OF ok r(2), of "NodeToken n"] less.prems(1) by (simp add: addup_eq_0_iff valid_node_def)
qed

text \<open>What a handle reads when nothing is in progress.\<close>

definition spec_state :: "heap \<Rightarrow> nid \<Rightarrow> shutdown_state" where
  "spec_state h n =
     (if \<not> node_is_stopped n h then Running else if guarded_below h n then ShuttingDown else Complete)"

lemma quiescent_state:
  assumes r: "reachable \<sigma>" "idle \<sigma>" and n: "n < n_nodes (mem \<sigma>)" "0 < strong (mem \<sigma>) n"
  shows "swansong_state n (mem \<sigma>) (mem \<sigma>) = spec_state (mem \<sigma>) n"
proof -
  have "node_is_zero n (mem \<sigma>) \<longleftrightarrow> \<not> guarded_below (mem \<sigma>) n" if s: "node_is_stopped n (mem \<sigma>)"
  proof
    assume z: "node_is_zero n (mem \<sigma>)"
    show "\<not> guarded_below (mem \<sigma>) n"
      using guard_ancestors_counted [OF reachable_sys_ok [OF r(1)]] z
      by (force simp: guarded_below_def node_is_zero_def count_test)
  next
    assume "\<not> guarded_below (mem \<sigma>) n"
    then show "node_is_zero n (mem \<sigma>)"
      using quiescent_zero [OF r n(1)] n(2) s by (simp add: closing_def node_is_zero_def count_test)
  qed
  then show ?thesis by (simp add: swansong_state_def spec_state_def Let_def)
qed

text \<open>A node that has a handle exists and is alive.\<close>

lemma handle_alive:
  assumes r: "reachable \<sigma>" and x: "handle_at (mem \<sigma>) x = Some n"
  shows "n < n_nodes (mem \<sigma>)" "0 < strong (mem \<sigma>) n"
proof -
  show n: "n < n_nodes (mem \<sigma>)" using heap_okD(3) [OF reachable_heap_ok [OF r] x] by (simp add: valid_node_def)
  have "x < n_handles (mem \<sigma>)" using owner_okD(1) [OF reachable_owner_ok [OF r]] x by (auto simp: tables_bounded_def)
  then have "0 < tally (n_handles (mem \<sigma>)) (\<lambda>x. handle_at (mem \<sigma>) x = Some n)" using x by (auto simp: tally_pos_iff)
  then show "0 < strong (mem \<sigma>) n"
    using owner_okD(2) [OF reachable_owner_ok [OF r] n] by (simp add: arc_owned_def)
qed

end
