(* ===== verification/Records.thy ===== *)
theory Records
  imports Quiescence
begin

text \<open>
  The provenance records of a reporting tree. A record has one owner, the function that makes a
  guard and then the guard, and it is entered once, in the registry of the guard's shard. Which
  trees report is fixed when their root is made, and every guard of such a tree has a record.
\<close>

declare split_paired_All [simp del] split_paired_Ex [simp del]

text \<open>The record a frame owns, and the frames that touch records.\<close>

fun frame_info :: "frame \<Rightarrow> nat option" where
  "frame_info (Grd (ProvenanceRegister s loc a ret)) = Some a"
| "frame_info (Grd (GuardBuild s pin loc info dst)) = info"
| "frame_info (Grd (GuardCloneArrive s pin loc info)) = info"
| "frame_info (Grd (DropInfo a)) = Some a"
| "frame_info _ = None"

fun touches_records :: "frame \<Rightarrow> bool" where
  "touches_records (Grd (Provenance s loc ret)) = True"
| "touches_records (Grd (ProvenanceRegister s loc a ret)) = True"
| "touches_records (Grd (GuardBuild s pin loc info dst)) = True"
| "touches_records (Grd (GuardCloneArrive s pin loc info)) = True"
| "touches_records (Grd (GuardDrop g)) = True"
| "touches_records (Grd (DropInfo a)) = True"
| "touches_records _ = False"

text \<open>A guard on its way, with or without a record, and a record on its way out.\<close>

fun carries :: "frame \<Rightarrow> bool" where
  "carries (Grd (ProvenanceRegister s loc a ret)) = True"
| "carries (Grd (GuardBuild s pin loc info dst)) = True"
| "carries (Grd (GuardCloneArrive s pin loc info)) = True"
| "carries (Grd (DropInfo a)) = True"
| "carries _ = False"

lemma carries_info: "\<not> carries f \<Longrightarrow> frame_info f = None"
  by (cases f rule: carries.cases) auto

definition registered_in :: "heap \<Rightarrow> sid \<Rightarrow> nat list" where
  "registered_in h s = reg_guards (sh_guards (shard_at h s))"

definition reports :: "heap \<Rightarrow> nid \<Rightarrow> bool" where
  "reports h n \<longleftrightarrow> keeps_guard_report n h"

section \<open>Steps that leave the records alone\<close>

definition same_records :: "heap \<Rightarrow> heap \<Rightarrow> bool" where
  "same_records h h' \<longleftrightarrow> guard_at h' = guard_at h \<and> n_guards h' = n_guards h \<and>
     info_strong h' = info_strong h \<and> info_at h' = info_at h \<and> n_infos h' = n_infos h \<and>
     (\<forall>s. fst s < n_nodes h \<longrightarrow> registered_in h' s = registered_in h s \<and> sh_report (shard_at h' s) = sh_report (shard_at h s)) \<and>
     (\<forall>s. set (registered_in h' s) \<subseteq> set (registered_in h s))"

lemma same_records_refl [simp]: "same_records h h"
  by (simp add: same_records_def)

lemma same_records_index: "shard_index t n h = (h1, i) \<Longrightarrow> guard_at h1 = guard_at h \<and> n_guards h1 = n_guards h \<and>
    info_strong h1 = info_strong h \<and> info_at h1 = info_at h \<and> n_infos h1 = n_infos h \<and> shard_at h1 = shard_at h \<and>
    node_at h1 = node_at h \<and> n_nodes h1 = n_nodes h \<and> interrupt_at h1 = interrupt_at h"
  by (auto simp: shard_index_def thread_index_def Let_def split: if_splits prod.splits)

lemmas records_simps = same_records_def registered_in_def set_shard_word_def set_node_word_def notify_zero_def
  lock_acquire_def lock_release_def arc_clone_def weak_upgrade_def

lemma count_records: "count_step t b c h = Next h' gs \<Longrightarrow> same_records h h' \<and> (\<forall>g \<in> set gs. \<not> carries g)"
proof (cases c)
  case (NodeArriveLoop n st)
  assume "count_step t b c h = Next h' gs"
  then show ?thesis using NodeArriveLoop same_records_index [of t _ h]
    by (auto simp: node_arrive_loop_def shard_ref_def atomic_defs records_simps split: option.splits if_splits prod.splits)
qed (auto simp: step_defs shard_ref_def records_simps atomic_defs Let_def split: option.splits if_splits)

lemma stop_records: "stop_step t c h = Next h' gs \<Longrightarrow> same_records h h' \<and> (\<forall>g \<in> set gs. \<not> carries g)"
proof (cases c)
  case (ShardWake s w ws)
  assume "stop_step t c h = Next h' gs"
  then show ?thesis using ShardWake by (cases ws) (auto simp: records_simps split: if_splits)
next
  case (StopUpgrade n i cs live)
  assume "stop_step t c h = Next h' gs"
  then show ?thesis using StopUpgrade by (cases cs) (auto simp: records_simps split: option.splits if_splits)
qed (auto simp: step_defs stop_shards_def records_simps Let_def split: if_splits)

lemma life_records: "life_step t c h = Next h' gs \<Longrightarrow> same_records h h' \<and> (\<forall>g \<in> set gs. \<not> carries g)"
proof (cases c)
  case (ChildNew n)
  assume "life_step t c h = Next h' gs"
  then show ?thesis using ChildNew same_records_index [of t n h]
    by (auto simp: child_new_def alloc_node_def shard_new_def registry_default_def records_simps Let_def split: prod.splits if_splits)
qed (auto simp: step_defs stop_shards_def alloc_handle_def records_simps Let_def split: option.splits if_splits prod.splits)

lemma swan_records: "swan_step t c h = Next h' gs \<Longrightarrow> same_records h h' \<and> (\<forall>g \<in> set gs. \<not> carries g)"
proof (cases c)
  case (InterruptNew n)
  assume "swan_step t c h = Next h' gs"
  then show ?thesis using InterruptNew same_records_index [of t n h]
    by (auto simp: step_defs inner_shard_def alloc_interrupt_def records_simps Let_def split: prod.splits)
qed (auto simp: step_defs alloc_handle_def alloc_completion_def records_simps Let_def split: if_splits prod.splits)

lemma intr_records: "intr_step t b c h = Next h' gs \<Longrightarrow> same_records h h' \<and> (\<forall>g \<in> set gs. \<not> carries g)"
  by (cases "(t, b, c, h)" rule: intr_step.cases)
    (auto simp: step_defs on_interrupt_def poll_returns_def records_simps Let_def split: if_splits option.splits prod.splits)

lemma guard_records:
  "guard_step t b c h = Next h' gs \<Longrightarrow> \<not> touches_records (Grd c) \<Longrightarrow> same_records h h' \<and> (\<forall>g \<in> set gs. \<not> carries g)"
proof (cases c)
  case (GuardAtLocation n loc dst)
  assume "guard_step t b c h = Next h' gs"
  then show ?thesis using GuardAtLocation same_records_index [of t n h]
    by (auto simp: guard_at_location_def inner_shard_def records_simps split: prod.splits)
qed (auto simp: guard_for_shard_def arrive_if_arrived_def guard_upgrade_def guard_depart_def guard_flush_weak_def
    records_simps atomic_defs Let_def split: if_splits option.splits prod.splits)

lemma exec_records:
  assumes "exec t b f h = Next h' gs" "\<not> touches_records f"
  shows "same_records h h'" "\<forall>g \<in> set gs. \<not> carries g"
  using assms count_records stop_records life_records swan_records intr_records guard_records
  by (cases f; auto)+

section \<open>Which trees report\<close>

fun recorded :: "heap \<Rightarrow> frame \<Rightarrow> bool" where
  "recorded h (Grd (ProvenanceRegister s loc a ret)) \<longleftrightarrow> reports h (fst s)"
| "recorded h (Grd (GuardBuild s pin loc info dst)) \<longleftrightarrow> (info \<noteq> None \<longleftrightarrow> reports h (fst s))"
| "recorded h (Grd (GuardCloneArrive s pin loc info)) \<longleftrightarrow> (info \<noteq> None \<longleftrightarrow> reports h (fst s))"
| "recorded h f \<longleftrightarrow> True"

definition uniform :: "heap \<Rightarrow> nid \<Rightarrow> bool" where
  "uniform h n \<longleftrightarrow> (\<forall>i. sh_report (shard_at h (n, i)) = reports h n) \<and>
     (\<forall>p. parent_of h n = Some p \<longrightarrow> reports h p = reports h n)"

definition guard_recorded :: "heap \<Rightarrow> guard \<Rightarrow> bool" where
  "guard_recorded h gd \<longleftrightarrow> (gd_info gd \<noteq> None \<longleftrightarrow> reports h (fst (gd_shard gd)))"

definition reporting_ok :: "sys \<Rightarrow> bool" where
  "reporting_ok \<sigma> \<longleftrightarrow> (\<forall>n<n_nodes (mem \<sigma>). uniform (mem \<sigma>) n) \<and>
     (\<forall>g gd. guard_at (mem \<sigma>) g = Some gd \<longrightarrow> guard_recorded (mem \<sigma>) gd) \<and>
     (\<forall>f. pending \<sigma> f \<longrightarrow> recorded (mem \<sigma>) f)"

lemma reporting_okD:
  assumes "reporting_ok \<sigma>"
  shows "n < n_nodes (mem \<sigma>) \<Longrightarrow> uniform (mem \<sigma>) n"
    "guard_at (mem \<sigma>) g = Some gd \<Longrightarrow> guard_recorded (mem \<sigma>) gd" "pending \<sigma> f \<Longrightarrow> recorded (mem \<sigma>) f"
  using assms by (auto simp: reporting_ok_def)

text \<open>A step decides nothing about the nodes that exist.\<close>

lemma touching_records:
  assumes "exec t b f h = Next h' gs" "touches_records f"
  shows "n_nodes h' = n_nodes h" "sh_report (shard_at h' s) = sh_report (shard_at h s)" "parent_of h' = parent_of h"
  using assms
  by (cases f rule: touches_records.cases;
      auto simp: step_defs alloc_info_def alloc_guard_def arc_clone_def set_shard_word_def parent_of_def fun_eq_iff Let_def
        split: if_splits option.splits)+

lemma exec_reports:
  assumes step: "exec t b f h = Next h' gs" and n: "n < n_nodes h"
  shows "sh_report (shard_at h' (n, i)) = sh_report (shard_at h (n, i))" "reports h' n = reports h n"
proof -
  have "sh_report (shard_at h' (n, i)) = sh_report (shard_at h (n, i))" for i
    using touching_records(2) [OF step] exec_records(1) [OF step] n by (cases "touches_records f") (auto simp: same_records_def)
  then show "sh_report (shard_at h' (n, i)) = sh_report (shard_at h (n, i))" "reports h' n = reports h n"
    by (simp_all add: reports_def keeps_guard_report_def)
qed

lemma recorded_kept:
  "frame_ok h f \<Longrightarrow> (\<And>n. n < n_nodes h \<Longrightarrow> reports h' n = reports h n) \<Longrightarrow> recorded h f \<Longrightarrow> recorded h' f"
  by (cases "(h, f)" rule: recorded.cases) (auto simp: valid_shard_def)

lemma recorded_none: "\<not> carries f \<Longrightarrow> recorded h f"
  by (cases f rule: carries.cases) auto

lemma provenance_return_recorded:
  "g \<in> set (provenance_return s loc info ret h) \<Longrightarrow> (info \<noteq> None \<longleftrightarrow> reports k (fst s)) \<Longrightarrow> recorded k g"
  by (cases ret) auto

text \<open>The frames of a step, and the guards it makes.\<close>

lemma exec_recorded:
  assumes step: "exec t b f h = Next h' gs" and f: "frame_ok h f" "recorded h f"
    and u: "\<And>n. n < n_nodes h \<Longrightarrow> uniform h n" and g: "g \<in> set gs"
  shows "recorded h' g"
proof (cases "touches_records f")
  case True
  have rep: "sh_report (shard_at h s) = reports h (fst s)" if "valid_shard h s" for s
    using u [of "fst s"] that by (cases s) (auto simp: uniform_def valid_shard_def)
  have "recorded h g"
    using step f True g rep provenance_return_recorded [of g] by (cases f rule: touches_records.cases)
      (auto simp: step_defs alloc_info_def alloc_guard_def Let_def split: if_splits option.splits)
  moreover have "reports h' n = reports h n" for n
    using touching_records(2) [OF step True] by (simp add: reports_def keeps_guard_report_def)
  ultimately show ?thesis by (cases "(h, g)" rule: recorded.cases) auto
next
  case False
  then show ?thesis using exec_records(2) [OF step] g by (simp add: recorded_none)
qed

lemma guard_build_effect:
  assumes "guard_build s pin loc info dst h = Next h' gs"
  shows "guard_at h' = (guard_at h)(n_guards h \<mapsto> \<lparr>gd_shard = s, gd_pin = pin, gd_location = loc, gd_info = info\<rparr>)"
    "n_guards h' = Suc (n_guards h)" "info_strong h' = info_strong h" "n_infos h' = n_infos h" "info_at h' = info_at h"
    "registered_in h' = registered_in h" "\<forall>g \<in> set gs. \<not> carries g"
  using assms
  by (auto simp: guard_build_def alloc_guard_def arc_clone_def registered_in_def fun_eq_iff Let_def split: option.splits)

lemma exec_guard_recorded:
  assumes step: "exec t b f h = Next h' gs" and f: "recorded h f" and g: "guard_at h' g = Some gd"
  shows "guard_at h g = Some gd \<or> guard_recorded h gd"
proof -
  consider "guard_at h g = Some gd" | loc info dst where "f = Grd (GuardBuild (gd_shard gd) (gd_pin gd) loc info dst)"
    using guards_origin [OF step g] by blast
  then show ?thesis
  proof cases
    case 2
    then have "guard_build (gd_shard gd) (gd_pin gd) loc info dst h = Next h' gs" using step by simp
    then have "map_option gd_info (guard_at h' g) = (if g = n_guards h then Some info else map_option gd_info (guard_at h g))"
      "g \<noteq> n_guards h \<longrightarrow> guard_at h' g = guard_at h g"
      by (simp_all add: guard_build_effect(1))
    then show ?thesis using 2 f g by (simp add: guard_recorded_def split: if_splits)
  qed simp
qed

lemma uniform_new:
  assumes step: "exec t b f h = Next h' gs" and ok: "heap_ok h" "frame_ok h f" and n: "n < n_nodes h'" "\<not> n < n_nodes h"
    and u: "\<And>n. n < n_nodes h \<Longrightarrow> uniform h n"
  shows "uniform h' n"
proof -
  have "\<exists>p. f = Life (ChildNew p)" using exec_n_nodes [OF step ok] n by fastforce
  then obtain p where f: "f = Life (ChildNew p)" ..
  obtain h1 i where h1: "shard_index t p h = (h1, i)" by fastforce
  note same = same_records_index [OF h1]
  have h': "h' = fst (alloc_node (Some \<lparr>p_node = p, p_shard = i, p_key = usize_max\<rparr>) 1
      (keeps_guard_report p (arc_clone p h1)) (arc_clone p h1))"
    using step f h1 by (auto simp: child_new_def Let_def split: prod.splits)
  have eq: "n = n_nodes h" using n h' same by (simp add: alloc_node_def arc_clone_def Let_def)
  have p: "p < n_nodes h" using ok(2) f by (simp add: valid_node_def)
  have rep: "reports h' p = reports h p" by (rule exec_reports(2) [OF step p])
  have "sh_report (shard_at h' (n, i)) = reports h p" for i
    using same p eq
    by (simp add: h' alloc_node_def shard_new_def arc_clone_def keeps_guard_report_def reports_def Let_def)
  moreover have "parent_of h' n = Some p"
    using same eq by (simp add: h' alloc_node_def inner_new_def arc_clone_def parent_of_def Let_def)
  ultimately show ?thesis using rep by (simp add: uniform_def reports_def keeps_guard_report_def)
qed

lemma reporting_ok_run:
  assumes r: "reachable \<sigma>" "within_limits \<sigma>" "t < n_threads \<sigma>" "stack \<sigma> t = f # fs"
    and step: "exec t b f (mem \<sigma>) = Next h gs" and inv: "reporting_ok \<sigma>"
  shows "reporting_ok (\<sigma>\<lparr>mem := h, stack := (stack \<sigma>)(t := gs @ fs)\<rparr>)"
proof -
  let ?\<sigma> = "\<sigma>\<lparr>mem := h, stack := (stack \<sigma>)(t := gs @ fs)\<rparr>"
  note ok = reachable_heap_ok [OF r(1)] reachable_top_ok [OF r(1,3,4)]
  note kept = exec_reports [OF step]
  note u = reporting_okD(1) [OF inv]
  have f: "recorded (mem \<sigma>) f" using reporting_okD(3) [OF inv] top_pending [OF r(3,4)] by blast
  have "uniform h n" if n: "n < n_nodes h" for n
  proof (cases "n < n_nodes (mem \<sigma>)")
    case True
    have "parent_of h n = parent_of (mem \<sigma>) n"
      using parent_of_extends [OF run_extends [OF r step]] True by (simp add: valid_node_def)
    moreover have "p < n_nodes (mem \<sigma>)" if "parent_of (mem \<sigma>) n = Some p" for p
      using parent_valid(1) [OF ok(1) _ that] True by (simp add: valid_node_def)
    ultimately show ?thesis using u [OF True] kept True by (simp add: uniform_def)
  qed (use uniform_new [OF step ok n _ u] in blast)
  moreover have "guard_recorded h gd" if g: "guard_at h g = Some gd" for g gd
  proof -
    have "guard_recorded (mem \<sigma>) gd" using exec_guard_recorded [OF step f g] reporting_okD(2) [OF inv] by blast
    moreover have "fst (gd_shard gd) < n_nodes (mem \<sigma>)"
    proof -
      consider "guard_at (mem \<sigma>) g = Some gd" | loc info dst where "f = Grd (GuardBuild (gd_shard gd) (gd_pin gd) loc info dst)"
        using guards_origin [OF step g] by blast
      then show ?thesis using heap_okD(5) [OF ok(1)] ok(2) by cases (auto simp: guard_ok_def valid_shard_def)
    qed
    ultimately show ?thesis using kept(2) by (simp add: guard_recorded_def)
  qed
  moreover have "recorded h g" if g: "pending ?\<sigma> g" for g
  proof (cases "g \<in> set gs")
    case True
    show ?thesis by (rule exec_recorded [OF step ok(2) f u True])
  next
    case False
    then have "pending \<sigma> g" using g r(4) by (fastforce simp: pending_def split: if_splits)
    then have "frame_ok (mem \<sigma>) g" using reachable_frame_ok [OF r(1)] by (auto simp: pending_def)
    then show ?thesis by (rule recorded_kept [OF _ kept(2) reporting_okD(3) [OF inv \<open>pending \<sigma> g\<close>]])
  qed
  ultimately show ?thesis by (simp add: reporting_ok_def)
qed

text \<open>A call makes no record and changes none.\<close>

lemma call_records:
  assumes "begin_call c h = Some (h', fs)"
  shows "same_records h h'" "\<forall>g \<in> set fs. \<not> carries g"
  using assms
  by (cases c; auto simp: on_handle_def drop_frames_def new_root_def alloc_node_def alloc_handle_def records_simps
      shard_new_def registry_default_def Let_def split: option.splits if_splits)+

lemma reporting_ok_call:
  assumes r: "reachable \<sigma>" "within_limits \<sigma>" "t < n_threads \<sigma>" "stack \<sigma> t = []" and may: "may_call c \<sigma>"
    and call: "begin_call c (mem \<sigma>) = Some (h, fs)" and inv: "reporting_ok \<sigma>"
  shows "reporting_ok (\<sigma>\<lparr>mem := h, stack := (stack \<sigma>)(t := fs)\<rparr>)"
proof -
  note ok = reachable_heap_ok [OF r(1)]
  note same = call_records [OF call]
  have ext: "extends (mem \<sigma>) h"
    using step_extends [OF step.call [OF r(3,4) may call] reachable_sys_ok [OF r(1)] r(2)] by simp
  have kept: "sh_report (shard_at h (n, i)) = sh_report (shard_at (mem \<sigma>) (n, i))" "reports h n = reports (mem \<sigma>) n"
    if "n < n_nodes (mem \<sigma>)" for n i
    using same(1) that by (auto simp: same_records_def reports_def keeps_guard_report_def)
  have "uniform h n" if n: "n < n_nodes h" for n
  proof (cases "n < n_nodes (mem \<sigma>)")
    case True
    have "parent_of h n = parent_of (mem \<sigma>) n"
      using parent_of_extends [OF ext] True by (simp add: valid_node_def)
    moreover have "p < n_nodes (mem \<sigma>)" if "parent_of (mem \<sigma>) n = Some p" for p
      using parent_valid(1) [OF ok(1) _ that] True by (simp add: valid_node_def)
    ultimately show ?thesis using reporting_okD(1) [OF inv True] kept True by (simp add: uniform_def)
  next
    case False
    then obtain rep where "c = CallNew rep"
      using n begin_call_links(1) [OF call] by (auto simp: same_links_def)
    then have h: "h = new_root rep (mem \<sigma>)" using begin_call_new call by blast
    then have "n = n_nodes (mem \<sigma>)" using n False by (simp add: new_root_effect(1))
    then show ?thesis
      by (simp add: h new_root_def alloc_node_def alloc_handle_def shard_new_def inner_new_def uniform_def parent_of_def
          reports_def keeps_guard_report_def Let_def)
  qed
  moreover have "guard_recorded h gd" if g: "guard_at h g = Some gd" for g gd
  proof -
    have g': "guard_at (mem \<sigma>) g = Some gd" using g same(1) by (simp add: same_records_def)
    then have "fst (gd_shard gd) < n_nodes (mem \<sigma>)" using heap_okD(5) [OF ok(1)] by (auto simp: guard_ok_def valid_shard_def)
    then show ?thesis using reporting_okD(2) [OF inv g'] kept(2) by (simp add: guard_recorded_def)
  qed
  moreover have "recorded h g" if g: "pending (\<sigma>\<lparr>mem := h, stack := (stack \<sigma>)(t := fs)\<rparr>) g" for g
    using pending_after_call [OF r(4) g]
  proof
    assume "pending \<sigma> g"
    moreover from this have "frame_ok (mem \<sigma>) g" using reachable_frame_ok [OF r(1)] by (auto simp: pending_def)
    ultimately show ?thesis by (intro recorded_kept [OF _ kept(2) reporting_okD(3) [OF inv]])
  qed (use same(2) recorded_none in blast)
  ultimately show ?thesis by (simp add: reporting_ok_def)
qed

lemma recorded_shards: "shard_at h' = shard_at h \<Longrightarrow> recorded h' f = recorded h f"
  by (cases "(h, f)" rule: recorded.cases) (simp_all add: reports_def keeps_guard_report_def)

interpretation reporting: system_invariant reporting_ok
proof
  show "reporting_ok (sys_init threads par)" for threads par
    by (simp add: reporting_ok_def sys_init_def heap_init_def pending_def)
  show "reporting_ok (\<sigma>\<lparr>mem := (mem \<sigma>)\<lparr>clock := clock (mem \<sigma>) + d\<rparr>\<rparr>)" if inv: "reporting_ok \<sigma>" for \<sigma> d
  proof -
    let ?h = "(mem \<sigma>)\<lparr>clock := clock (mem \<sigma>) + d\<rparr>"
    have "uniform ?h = uniform (mem \<sigma>)" "guard_recorded ?h = guard_recorded (mem \<sigma>)" "recorded ?h = recorded (mem \<sigma>)"
      by (simp_all add: recorded_shards uniform_def guard_recorded_def reports_def keeps_guard_report_def parent_of_def fun_eq_iff)
    with inv show ?thesis by (auto simp: reporting_ok_def pending_def)
  qed
qed (use reporting_ok_call reporting_ok_run in \<open>blast+\<close>)

lemmas reachable_reporting_ok = reporting.always

section \<open>Who owns a record, and where it is entered\<close>

definition owns_info :: "heap \<Rightarrow> nat \<Rightarrow> gid \<Rightarrow> bool" where
  "owns_info h a g \<longleftrightarrow> map_option gd_info (guard_at h g) = Some (Some a)"

definition info_frames :: "frame list \<Rightarrow> nat \<Rightarrow> nat" where
  "info_frames fs a = count_list (map frame_info fs) (Some a)"

definition holders :: "sys \<Rightarrow> nat \<Rightarrow> nat" where
  "holders \<sigma> a = tally (n_guards (mem \<sigma>)) (owns_info (mem \<sigma>) a) + addup (n_threads \<sigma>) (\<lambda>t. info_frames (stack \<sigma> t) a)"

definition registered :: "heap \<Rightarrow> nat \<Rightarrow> sid \<Rightarrow> bool" where
  "registered h a s \<longleftrightarrow> count_list (registered_in h s) a = 1 \<and> (\<forall>s'. s' \<noteq> s \<longrightarrow> a \<notin> set (registered_in h s'))"

definition unregistered :: "heap \<Rightarrow> nat \<Rightarrow> bool" where
  "unregistered h a \<longleftrightarrow> (\<forall>s. a \<notin> set (registered_in h s))"

definition describes :: "heap \<Rightarrow> nat \<Rightarrow> location \<Rightarrow> bool" where
  "describes h a loc \<longleftrightarrow> gi_location (info_at h a) = loc"

fun placed :: "heap \<Rightarrow> frame \<Rightarrow> bool" where
  "placed h (Grd (ProvenanceRegister s loc a ret)) \<longleftrightarrow> unregistered h a \<and> describes h a loc"
| "placed h (Grd (GuardBuild s pin loc info dst)) \<longleftrightarrow> (\<forall>a. info = Some a \<longrightarrow> registered h a s \<and> describes h a loc)"
| "placed h (Grd (GuardCloneArrive s pin loc info)) \<longleftrightarrow> (\<forall>a. info = Some a \<longrightarrow> registered h a s \<and> describes h a loc)"
| "placed h f \<longleftrightarrow> True"

definition records_ok :: "sys \<Rightarrow> bool" where
  "records_ok \<sigma> \<longleftrightarrow>
     (\<forall>a. info_strong (mem \<sigma>) a = holders \<sigma> a \<and> holders \<sigma> a \<le> 1) \<and>
     (\<forall>a \<ge> n_infos (mem \<sigma>). info_strong (mem \<sigma>) a = 0 \<and> unregistered (mem \<sigma>) a) \<and>
     (\<forall>g gd a. guard_at (mem \<sigma>) g = Some gd \<longrightarrow> gd_info gd = Some a \<longrightarrow>
        registered (mem \<sigma>) a (gd_shard gd) \<and> describes (mem \<sigma>) a (gd_location gd)) \<and>
     (\<forall>f. pending \<sigma> f \<longrightarrow> placed (mem \<sigma>) f)"

lemma records_okD:
  assumes "records_ok \<sigma>"
  shows "info_strong (mem \<sigma>) a = holders \<sigma> a" "holders \<sigma> a \<le> 1"
    "n_infos (mem \<sigma>) \<le> a \<Longrightarrow> info_strong (mem \<sigma>) a = 0" "n_infos (mem \<sigma>) \<le> a \<Longrightarrow> unregistered (mem \<sigma>) a"
    "guard_at (mem \<sigma>) g = Some gd \<Longrightarrow> gd_info gd = Some a \<Longrightarrow>
      registered (mem \<sigma>) a (gd_shard gd) \<and> describes (mem \<sigma>) a (gd_location gd)"
    "pending \<sigma> f \<Longrightarrow> placed (mem \<sigma>) f"
  using assms by (auto simp: records_ok_def)

lemma info_frames_simps [simp]:
  "info_frames [] a = 0" "info_frames (f # fs) a = of_bool (frame_info f = Some a) + info_frames fs a"
  "info_frames (fs @ gs) a = info_frames fs a + info_frames gs a"
  by (simp_all add: info_frames_def)

lemma info_frames_pos: "g \<in> set fs \<Longrightarrow> frame_info g = Some a \<Longrightarrow> 0 < info_frames fs a"
  by (induction fs) auto

lemma info_frames_none: "\<forall>g \<in> set fs. \<not> carries g \<Longrightarrow> info_frames fs a = 0"
  by (induction fs) (auto simp: carries_info)

text \<open>The record of a running function belongs to nobody else.\<close>

lemma held_once:
  assumes ok: "records_ok \<sigma>" and t: "t < n_threads \<sigma>" "stack \<sigma> t = f # fs" and f: "frame_info f = Some a"
  shows "g \<in> set fs \<Longrightarrow> frame_info g \<noteq> Some a"
    "u < n_threads \<sigma> \<Longrightarrow> u \<noteq> t \<Longrightarrow> g \<in> set (stack \<sigma> u) \<Longrightarrow> frame_info g \<noteq> Some a"
    "x < n_guards (mem \<sigma>) \<Longrightarrow> \<not> owns_info (mem \<sigma>) a x" "0 < info_strong (mem \<sigma>) a"
proof -
  let ?c = "\<lambda>t. info_frames (stack \<sigma> t) a"
  have c: "?c t = Suc (info_frames fs a)" using t(2) f by simp
  have sum: "addup (n_threads \<sigma>) ?c = ?c t + addup (n_threads \<sigma>) (?c(t := 0))" by (rule addup_split [OF t(1)])
  have le: "tally (n_guards (mem \<sigma>)) (owns_info (mem \<sigma>) a) + addup (n_threads \<sigma>) ?c \<le> 1"
    using records_okD(2) [OF ok, of a] by (simp add: holders_def)
  then have z: "tally (n_guards (mem \<sigma>)) (owns_info (mem \<sigma>) a) = 0" "info_frames fs a = 0" "addup (n_threads \<sigma>) (?c(t := 0)) = 0"
    using sum c by simp_all
  show "frame_info g \<noteq> Some a" if "g \<in> set fs" using z(2) info_frames_pos [OF that] by auto
  show "frame_info g \<noteq> Some a" if "u < n_threads \<sigma>" "u \<noteq> t" "g \<in> set (stack \<sigma> u)"
    using z(3) info_frames_pos [OF that(3)] that(1,2) by (fastforce simp: addup_eq_0_iff)
  show "\<not> owns_info (mem \<sigma>) a x" if "x < n_guards (mem \<sigma>)" using z(1) that by (simp add: addup_eq_0_iff)
  show "0 < info_strong (mem \<sigma>) a" using records_okD(1) [OF ok, of a] sum c by (simp add: holders_def)
qed

section \<open>The balance of a step\<close>

lemma provenance_return_info: "info_frames (provenance_return s loc info ret h) a = of_bool (info = Some a)"
  by (cases ret) simp_all

lemma exec_info_balance:
  assumes step: "exec t b f h = Next h' gs" and bound: "\<forall>g gd. guard_at h g = Some gd \<longrightarrow> g < n_guards h"
    and pos: "frame_info f = Some a \<Longrightarrow> 0 < info_strong h a" and fresh: "\<forall>a \<ge> n_infos h. info_strong h a = 0"
  shows "info_strong h' a + tally (n_guards h) (owns_info h a) + of_bool (frame_info f = Some a) =
    info_strong h a + tally (n_guards h') (owns_info h' a) + info_frames gs a"
proof (cases "touches_records f")
  case False
  then have "frame_info f = None" by (cases f rule: touches_records.cases) auto
  moreover have "owns_info h' a = owns_info h a" using exec_records(1) [OF step False]
    by (simp add: same_records_def owns_info_def fun_eq_iff)
  ultimately show ?thesis using exec_records [OF step False] by (simp add: same_records_def info_frames_none)
next
  case True
  have owns: "owns_info h' a = owns_info h a" if "guard_at h' = guard_at h"
    using that by (simp add: owns_info_def fun_eq_iff)
  show ?thesis
  proof (cases f rule: touches_records.cases)
    case (1 s loc ret)
    then have "guard_at h' = guard_at h" using step by (auto simp: provenance_def alloc_info_def Let_def split: if_splits)
    with 1 step fresh owns show ?thesis
      by (auto simp: provenance_def alloc_info_def provenance_return_info Let_def split: if_splits)
  next
    case (2 s loc c ret)
    then have "guard_at h' = guard_at h" using step by (auto simp: provenance_register_def Let_def split: if_splits)
    with 2 step owns show ?thesis by (auto simp: provenance_register_def provenance_return_info Let_def split: if_splits)
  next
    case (3 s pin loc info dst)
    with step have "guard_build s pin loc info dst h = Next h' gs" by simp
    note eff = guard_build_effect [OF this]
    have "owns_info h' a x = owns_info h a x" if "x < n_guards h" for x using that by (simp add: owns_info_def eff(1))
    then have "tally (n_guards h') (owns_info h' a) = tally (n_guards h) (owns_info h a) + of_bool (owns_info h' a (n_guards h))"
      unfolding eff(2) by (rule tally_alloc)
    also have "owns_info h' a (n_guards h) \<longleftrightarrow> info = Some a" by (simp add: owns_info_def eff(1))
    finally show ?thesis using 3 eff by (simp add: info_frames_none)
  next
    case (4 s pin loc info)
    then have "guard_at h' = guard_at h" using step by (auto simp: guard_clone_arrive_def set_shard_word_def Let_def split: if_splits)
    with 4 step owns show ?thesis
      by (auto simp: guard_clone_arrive_def set_shard_word_def Let_def split: if_splits)
  next
    case (5 g)
    then obtain gd where gd: "guard_at h g = Some gd" using step by (auto simp: guard_drop_def split: option.splits)
    have h': "h' = h\<lparr>guard_at := (guard_at h)(g := None)\<rparr>" "info_frames gs a = of_bool (gd_info gd = Some a)"
      using step 5 gd by (auto simp: guard_drop_def split: option.splits)
    have "owns_info h' a = (\<lambda>x. if x = g then False else owns_info h a x)" by (auto simp: h' owns_info_def fun_eq_iff)
    then have "tally (n_guards h) (owns_info h' a) + of_bool (owns_info h a g) = tally (n_guards h) (owns_info h a)"
      using tally_fun_upd [of g "n_guards h" False "owns_info h a"] bound gd by simp
    then show ?thesis using h' gd 5 by (simp add: owns_info_def)
  next
    case (6 c)
    then have "guard_at h' = guard_at h" using step by (auto simp: drop_info_def)
    with 6 step pos owns show ?thesis by (auto simp: drop_info_def)
  qed (use True in auto)
qed

section \<open>Registries\<close>

lemma count_list_filter: "P a \<Longrightarrow> count_list (filter P xs) a = count_list xs a"
  by (induction xs) auto

fun enters :: "frame \<Rightarrow> bool" where
  "enters (Grd (ProvenanceRegister s loc a ret)) = True"
| "enters _ = False"

text \<open>Only a registration changes a registry, and its sweep only drops the dead.\<close>

lemma exec_registered:
  assumes step: "exec t b f h = Next h' gs" and f: "\<not> enters f"
  shows "fst s < n_nodes h \<Longrightarrow> registered_in h' s = registered_in h s" "set (registered_in h' s) \<subseteq> set (registered_in h s)"
proof -
  have "registered_in h' = registered_in h" if "touches_records f"
    using that step f guard_build_effect(6) by (cases f rule: touches_records.cases)
      (auto simp: provenance_def alloc_info_def guard_clone_arrive_def guard_drop_def drop_info_def set_shard_word_def
        registered_in_def fun_eq_iff Let_def split: if_splits option.splits)
  then show "fst s < n_nodes h \<Longrightarrow> registered_in h' s = registered_in h s" "set (registered_in h' s) \<subseteq> set (registered_in h s)"
    using exec_records(1) [OF step] by (cases "touches_records f"; auto simp: same_records_def)+
qed

lemma register_registered:
  assumes "provenance_register s loc a ret h = Next h' gs"
  shows "registered_in h' s' = (if s' = s then reg_guards (registry_register (info_alive h) (sh_guards (shard_at h s)) a)
      else registered_in h s')" "info_strong h' = info_strong h" "n_infos h' = n_infos h" "guard_at h' = guard_at h"
  using assms by (auto simp: provenance_register_def registered_in_def Let_def split: if_splits)

lemma registry_count:
  "alive a \<Longrightarrow> count_list (reg_guards (registry_register alive r x)) a = count_list (reg_guards r) a + of_bool (x = a)"
  by (simp add: registry_defs count_list_filter)

text \<open>A live record stays where it is entered, and one that is being entered is entered once.\<close>

lemma registered_kept:
  assumes step: "exec t b f h = Next h' gs" and s: "valid_shard h s" and a: "info_alive h a" "frame_info f \<noteq> Some a"
    and reg: "registered h a s"
  shows "registered h' a s"
proof (cases "enters f")
  case True
  then obtain s' loc c ret where f: "f = Grd (ProvenanceRegister s' loc c ret)" by (cases f rule: enters.cases) auto
  then have "provenance_register s' loc c ret h = Next h' gs" using step by simp
  note eff = register_registered(1) [OF this]
  have c: "c \<noteq> a" using a(2) f by simp
  have "count_list (registered_in h' s) a = count_list (registered_in h s) a"
    using registry_count [of "info_alive h" a, OF a(1)] c by (simp add: eff registered_in_def [of h])
  moreover have "a \<notin> set (registered_in h' s2)" if "s2 \<noteq> s" for s2
    using reg that c set_registry_register [of "info_alive h" "sh_guards (shard_at h s2)" c]
    by (auto simp: eff registered_def registered_in_def [of h])
  ultimately show ?thesis using reg by (simp add: registered_def)
next
  case False
  then have "registered_in h' s = registered_in h s" using exec_registered(1) [OF step] s by (simp add: valid_shard_def)
  with reg exec_registered(2) [OF step False] show ?thesis unfolding registered_def by (metis subsetD)
qed

lemma unregistered_kept:
  assumes step: "exec t b f h = Next h' gs" and a: "frame_info f \<noteq> Some a" and reg: "unregistered h a"
  shows "unregistered h' a"
proof (cases "enters f")
  case True
  then obtain s' loc c ret where f: "f = Grd (ProvenanceRegister s' loc c ret)" by (cases f rule: enters.cases) auto
  then have "provenance_register s' loc c ret h = Next h' gs" using step by simp
  from register_registered(1) [OF this] show ?thesis
    using reg a f set_registry_register [of "info_alive h" "sh_guards (shard_at h s')" c]
    by (auto simp: unregistered_def registered_in_def [of h])
next
  case False
  then show ?thesis using exec_registered(2) [OF step] reg unfolding unregistered_def by blast
qed

lemma register_places:
  assumes "provenance_register s loc a ret h = Next h' gs" "info_alive h a" "unregistered h a"
  shows "registered h' a s"
proof -
  have "count_list (registered_in h s) a = 0" using assms(3) by (simp add: unregistered_def count_list_0_iff)
  then show ?thesis
    using registry_count [of "info_alive h" a "sh_guards (shard_at h s)" a, OF assms(2)] assms(3)
    by (simp add: registered_def register_registered(1) [OF assms(1)] unregistered_def registered_in_def [of h])
qed

lemma placed_none: "frame_info f = None \<Longrightarrow> placed h f"
  by (cases f rule: frame_info.cases) auto

text \<open>The frames a step leaves hold records that are where they should be.\<close>

lemma exec_placed:
  assumes step: "exec t b f h = Next h' gs" and f: "placed h f" and alive: "\<And>a. frame_info f = Some a \<Longrightarrow> info_alive h a"
    and fresh: "unregistered h (n_infos h)" and g: "g \<in> set gs"
  shows "placed h' g"
proof (cases "touches_records f")
  case False
  then show ?thesis using exec_records(2) [OF step] g by (simp add: placed_none carries_info)
next
  case True
  show ?thesis
  proof (cases f rule: touches_records.cases)
    case (1 s loc ret)
    then have "unregistered h' (n_infos h)" using unregistered_kept [OF step _ fresh] by simp
    with 1 step g show ?thesis
      by (cases ret) (auto simp: provenance_def alloc_info_def describes_def guard_info_new_def Let_def split: if_splits)
  next
    case (2 s loc a ret)
    then have "provenance_register s loc a ret h = Next h' gs" using step by simp
    moreover from this have "gs = provenance_return s loc (Some a) ret (upd_shard s (sh_guards_update (\<lambda>r. registry_register (info_alive h) r a)) h)"
      by (auto simp: provenance_register_def Let_def simp del: upd_shard_def split: if_splits)
    moreover from calculation(1) have "registered h' a s" using register_places 2 alive f by simp
    moreover from calculation(1) have "info_at h' = info_at h" by (auto simp: provenance_register_def Let_def split: if_splits)
    then have "describes h' a loc" using 2 f by (simp add: describes_def)
    ultimately show ?thesis using 2 g by (cases ret) auto
  next
    case (3 s pin loc info dst)
    with step have "guard_build s pin loc info dst h = Next h' gs" by simp
    from guard_build_effect(7) [OF this] g show ?thesis by (simp add: placed_none carries_info)
  next
    case (4 s pin loc info)
    then have "registered_in h' = registered_in h" "info_at h' = info_at h"
      using step by (auto simp: guard_clone_arrive_def set_shard_word_def registered_in_def fun_eq_iff Let_def split: if_splits)
    then have "registered h' = registered h" "describes h' = describes h" by (simp_all add: registered_def describes_def fun_eq_iff)
    with 4 step g f show ?thesis by (auto simp: guard_clone_arrive_def Let_def split: if_splits)
  qed (use True step g in \<open>auto simp: guard_drop_def drop_info_def split: option.splits\<close>)
qed

section \<open>Every reachable state\<close>

lemma guards_bounded: "reachable \<sigma> \<Longrightarrow> \<forall>g gd. guard_at (mem \<sigma>) g = Some gd \<longrightarrow> g < n_guards (mem \<sigma>)"
  using heap_okD(5) [OF reachable_heap_ok] by blast

lemma exec_infos:
  assumes step: "exec t b f h = Next h' gs" and fresh: "\<forall>a \<ge> n_infos h. info_strong h a = 0"
  shows "n_infos h \<le> n_infos h'" "info_strong h' a \<le> max 1 (info_strong h a)" "\<forall>a \<ge> n_infos h'. info_strong h' a = 0"
    "a < n_infos h \<Longrightarrow> info_at h' a = info_at h a"
proof -
  have "n_infos h \<le> n_infos h' \<and> info_strong h' a \<le> max 1 (info_strong h a) \<and> (\<forall>a \<ge> n_infos h'. info_strong h' a = 0) \<and>
    (a < n_infos h \<longrightarrow> info_at h' a = info_at h a)"
  proof (cases "touches_records f")
    case True
    show ?thesis
    proof (cases f rule: touches_records.cases)
      case (3 s pin loc info dst)
      with step have "guard_build s pin loc info dst h = Next h' gs" by simp
      from guard_build_effect [OF this] fresh show ?thesis by simp
    qed (use True step fresh in \<open>auto simp: provenance_def alloc_info_def provenance_register_def guard_clone_arrive_def
        guard_drop_def drop_info_def set_shard_word_def Let_def split: if_splits option.splits\<close>)
  qed (use exec_records(1) [OF step] fresh in \<open>auto simp: same_records_def\<close>)
  then show "n_infos h \<le> n_infos h'" "info_strong h' a \<le> max 1 (info_strong h a)" "\<forall>a \<ge> n_infos h'. info_strong h' a = 0"
    "a < n_infos h \<Longrightarrow> info_at h' a = info_at h a" by blast+
qed

lemma frame_info_enters:
  "frame_info f = Some a \<Longrightarrow> placed h f \<Longrightarrow> (\<And>s. valid_shard h s \<Longrightarrow> registered h a s \<Longrightarrow> registered h' a s) \<Longrightarrow>
   (unregistered h a \<Longrightarrow> unregistered h' a) \<Longrightarrow> info_at h' a = info_at h a \<Longrightarrow> frame_ok h f \<Longrightarrow> placed h' f"
  by (cases f rule: frame_info.cases) (auto simp: describes_def)

lemma holders_run:
  assumes r: "reachable \<sigma>" "within_limits \<sigma>" "t < n_threads \<sigma>" "stack \<sigma> t = f # fs"
    and step: "exec t b f (mem \<sigma>) = Next h gs" and inv: "records_ok \<sigma>"
  shows "info_strong h a = holders (\<sigma>\<lparr>mem := h, stack := (stack \<sigma>)(t := gs @ fs)\<rparr>) a"
proof -
  let ?\<sigma> = "\<sigma>\<lparr>mem := h, stack := (stack \<sigma>)(t := gs @ fs)\<rparr>"
  note invD = records_okD [OF inv]
  have fresh: "\<forall>a \<ge> n_infos (mem \<sigma>). info_strong (mem \<sigma>) a = 0" using invD(3) by blast
  note once = held_once [OF inv r(3,4)]
  have sum: "addup (n_threads \<sigma>) (\<lambda>u. info_frames (stack ?\<sigma> u) a) + info_frames (f # fs) a =
      addup (n_threads \<sigma>) (\<lambda>u. info_frames (stack \<sigma> u) a) + info_frames (gs @ fs) a"
    using addup_change [OF r(3), of "\<lambda>u. info_frames (stack ?\<sigma> u) a" "\<lambda>u. info_frames (stack \<sigma> u) a"] r(4) by simp
  moreover have "info_strong h a + tally (n_guards (mem \<sigma>)) (owns_info (mem \<sigma>) a) + of_bool (frame_info f = Some a) =
      info_strong (mem \<sigma>) a + tally (n_guards h) (owns_info h a) + info_frames gs a"
    by (rule exec_info_balance [OF step guards_bounded [OF r(1)] once(4) fresh])
  ultimately show ?thesis using invD(1) [of a] by (simp add: holders_def)
qed

lemma registered_run:
  assumes r: "reachable \<sigma>" "within_limits \<sigma>" "t < n_threads \<sigma>" "stack \<sigma> t = f # fs"
    and step: "exec t b f (mem \<sigma>) = Next h gs" and inv: "records_ok \<sigma>"
    and a: "valid_shard (mem \<sigma>) s" "registered (mem \<sigma>) a s" "0 < info_strong (mem \<sigma>) a" "frame_info f \<noteq> Some a"
  shows "registered h a s" "info_at h a = info_at (mem \<sigma>) a"
proof -
  note invD = records_okD [OF inv]
  have fresh: "\<forall>a \<ge> n_infos (mem \<sigma>). info_strong (mem \<sigma>) a = 0" using invD(3) by blast
  note eff = exec_infos [OF step fresh]
  show "registered h a s" using registered_kept [OF step a(1) _ a(4,2)] a(3) by (simp add: info_alive_def)
  show "info_at h a = info_at (mem \<sigma>) a" using eff(4) [of a] invD(3) [of a] a(3) by fastforce
qed

lemma placed_run:
  assumes r: "reachable \<sigma>" "within_limits \<sigma>" "t < n_threads \<sigma>" "stack \<sigma> t = f # fs"
    and step: "exec t b f (mem \<sigma>) = Next h gs" and inv: "records_ok \<sigma>"
    and g: "pending (\<sigma>\<lparr>mem := h, stack := (stack \<sigma>)(t := gs @ fs)\<rparr>) g"
  shows "placed h g"
proof -
  let ?\<sigma> = "\<sigma>\<lparr>mem := h, stack := (stack \<sigma>)(t := gs @ fs)\<rparr>"
  note invD = records_okD [OF inv]
  have fresh: "\<forall>a \<ge> n_infos (mem \<sigma>). info_strong (mem \<sigma>) a = 0" using invD(3) by blast
  note eff = exec_infos [OF step fresh]
  note once = held_once [OF inv r(3,4)]
  have f: "placed (mem \<sigma>) f" using invD(6) top_pending [OF r(3,4)] by blast
  have kept: "registered h a s"
    if "valid_shard (mem \<sigma>) s" "registered (mem \<sigma>) a s" "0 < info_strong (mem \<sigma>) a" "frame_info f \<noteq> Some a" for a s
    by (rule registered_run(1) [OF r step inv that])
  have same: "info_at h a = info_at (mem \<sigma>) a" if "0 < info_strong (mem \<sigma>) a" for a
    using eff(4) [of a] invD(3) [of a] that by fastforce
  show ?thesis
  proof (cases "g \<in> set gs")
    case True
    have "unregistered (mem \<sigma>) (n_infos (mem \<sigma>))" by (rule invD(4)) simp
    then show ?thesis using once(4) by (intro exec_placed [OF step f _ _ True]) (simp_all add: info_alive_def)
  next
    case False
    obtain u where u: "u < n_threads \<sigma>" "g \<in> set (stack ?\<sigma> u)" using g by (auto simp: pending_def)
    then have old: "g \<in> set (stack \<sigma> u)" using False r(4) by (auto split: if_splits)
    show ?thesis
    proof (cases "frame_info g")
      case (Some a)
      have "frame_info f \<noteq> Some a"
        using once(1) [of a g] once(2) [of a u g] u old False Some by (cases "u = t") auto
      moreover have "0 < info_strong (mem \<sigma>) a"
      proof -
        have "0 < info_frames (stack \<sigma> u) a" by (rule info_frames_pos [OF old Some])
        then show ?thesis using invD(1) [of a] member_le_addup [OF u(1), of "\<lambda>u. info_frames (stack \<sigma> u) a"] by (simp add: holders_def)
      qed
      moreover have "placed (mem \<sigma>) g" using invD(6) u(1) old by (auto simp: pending_def)
      moreover have "frame_ok (mem \<sigma>) g" by (rule reachable_frame_ok [OF r(1) u(1) old])
      ultimately show ?thesis using frame_info_enters [OF Some] kept unregistered_kept [OF step] same by blast
    qed (rule placed_none)
  qed
qed

lemma guards_placed_run:
  assumes r: "reachable \<sigma>" "within_limits \<sigma>" "t < n_threads \<sigma>" "stack \<sigma> t = f # fs"
    and step: "exec t b f (mem \<sigma>) = Next h gs" and inv: "records_ok \<sigma>"
    and g: "guard_at h x = Some gd" "gd_info gd = Some a"
  shows "registered h a (gd_shard gd) \<and> describes h a (gd_location gd)"
proof -
  note invD = records_okD [OF inv]
  have fresh: "\<forall>a \<ge> n_infos (mem \<sigma>). info_strong (mem \<sigma>) a = 0" using invD(3) by blast
  note eff = exec_infos [OF step fresh]
  note once = held_once [OF inv r(3,4)]
  have f: "placed (mem \<sigma>) f" using invD(6) top_pending [OF r(3,4)] by blast
  consider (old) "guard_at (mem \<sigma>) x = Some gd" | (new) loc info dst where "f = Grd (GuardBuild (gd_shard gd) (gd_pin gd) loc info dst)"
    "guard_at (mem \<sigma>) x \<noteq> Some gd"
    using guards_origin [OF step g(1)] by blast
  then show ?thesis
  proof cases
    case old
    then have o: "owns_info (mem \<sigma>) a x" "x < n_guards (mem \<sigma>)" using g(2) guards_bounded [OF r(1)] by (auto simp: owns_info_def)
    then have "frame_info f \<noteq> Some a" using once(3) by blast
    moreover have "0 < tally (n_guards (mem \<sigma>)) (owns_info (mem \<sigma>) a)" using o by (auto simp: tally_pos_iff)
    moreover have "valid_shard (mem \<sigma>) (gd_shard gd)" using heap_okD(5) [OF reachable_heap_ok [OF r(1)] old] by (simp add: guard_ok_def)
    ultimately show ?thesis
      using registered_run [OF r step inv, of "gd_shard gd" a] invD(1) [of a] invD(5) [OF old g(2)] by (simp add: holders_def describes_def)
  next
    case new
    then have "guard_build (gd_shard gd) (gd_pin gd) loc info dst (mem \<sigma>) = Next h gs" using step by simp
    note eff = guard_build_effect [OF this]
    have "map_option (\<lambda>gd. (gd_info gd, gd_location gd)) (guard_at h x) = (if x = n_guards (mem \<sigma>) then Some (info, loc)
        else map_option (\<lambda>gd. (gd_info gd, gd_location gd)) (guard_at (mem \<sigma>) x))"
      "x \<noteq> n_guards (mem \<sigma>) \<longrightarrow> guard_at h x = guard_at (mem \<sigma>) x"
      by (simp_all add: eff(1))
    then have "info = Some a" "loc = gd_location gd" using g new(2) by (simp_all split: if_splits)
    then have "registered (mem \<sigma>) a (gd_shard gd)" "describes (mem \<sigma>) a (gd_location gd)" using f new(1) by simp_all
    then show ?thesis by (simp add: registered_def describes_def eff(5,6))
  qed
qed

lemma records_ok_run:
  assumes r: "reachable \<sigma>" "within_limits \<sigma>" "t < n_threads \<sigma>" "stack \<sigma> t = f # fs"
    and step: "exec t b f (mem \<sigma>) = Next h gs" and inv: "records_ok \<sigma>"
  shows "records_ok (\<sigma>\<lparr>mem := h, stack := (stack \<sigma>)(t := gs @ fs)\<rparr>)"
proof -
  let ?\<sigma> = "\<sigma>\<lparr>mem := h, stack := (stack \<sigma>)(t := gs @ fs)\<rparr>"
  note invD = records_okD [OF inv]
  have fresh: "\<forall>a \<ge> n_infos (mem \<sigma>). info_strong (mem \<sigma>) a = 0" using invD(3) by blast
  note eff = exec_infos [OF step fresh]
  note once = held_once [OF inv r(3,4)]
  have new: "unregistered h a" if "n_infos h \<le> a" for a
  proof (rule unregistered_kept [OF step])
    show "unregistered (mem \<sigma>) a" using invD(4) that eff(1) by simp
    show "frame_info f \<noteq> Some a" using once(4) [of a] invD(3) [of a] that eff(1) by fastforce
  qed
  note strong = holders_run [OF r step inv]
  have one: "holders ?\<sigma> a \<le> 1" for a
    using eff(2) [of a] invD(1,2) [of a] strong [of a] by simp
  show ?thesis
    unfolding records_ok_def
  proof (intro conjI allI impI)
    show "info_strong (mem ?\<sigma>) a = holders ?\<sigma> a" "holders ?\<sigma> a \<le> 1" for a using strong one by simp_all
    show "info_strong (mem ?\<sigma>) a = 0" "unregistered (mem ?\<sigma>) a" if "n_infos (mem ?\<sigma>) \<le> a" for a
      using that eff(3) new by simp_all
    show "registered (mem ?\<sigma>) a (gd_shard gd)" "describes (mem ?\<sigma>) a (gd_location gd)"
      if "guard_at (mem ?\<sigma>) x = Some gd" "gd_info gd = Some a" for x gd a
      using that guards_placed_run [OF r step inv] by simp_all
    show "placed (mem ?\<sigma>) g" if "pending ?\<sigma> g" for g using placed_run [OF r step inv that] by simp
  qed
qed

lemma call_placed:
  assumes same: "same_records h h'" and f: "frame_ok h f"
  shows "placed h f \<Longrightarrow> placed h' f"
proof -
  have "unregistered h' a" if "unregistered h a" for a using same that by (auto simp: same_records_def unregistered_def)
  moreover have "registered h' a s" if "registered h a s" "valid_shard h s" for a s
    using same that by (auto simp: same_records_def registered_def valid_shard_def)
  moreover have "describes h' = describes h" using same by (simp add: same_records_def describes_def fun_eq_iff)
  ultimately show "placed h f \<Longrightarrow> placed h' f" using f by (cases f rule: frame_info.cases) auto
qed

lemma records_ok_call:
  assumes r: "reachable \<sigma>" "t < n_threads \<sigma>" "stack \<sigma> t = []"
    and call: "begin_call c (mem \<sigma>) = Some (h, fs)" and inv: "records_ok \<sigma>"
  shows "records_ok (\<sigma>\<lparr>mem := h, stack := (stack \<sigma>)(t := fs)\<rparr>)"
proof -
  let ?\<sigma> = "\<sigma>\<lparr>mem := h, stack := (stack \<sigma>)(t := fs)\<rparr>"
  note same = call_records [OF call]
  note invD = records_okD [OF inv]
  have eq: "guard_at h = guard_at (mem \<sigma>)" "n_guards h = n_guards (mem \<sigma>)" "info_strong h = info_strong (mem \<sigma>)" "n_infos h = n_infos (mem \<sigma>)"
    using same(1) by (simp_all add: same_records_def)
  have holders: "holders ?\<sigma> a = holders \<sigma> a" for a
  proof -
    have "addup (n_threads \<sigma>) (\<lambda>u. info_frames (stack ?\<sigma> u) a) = addup (n_threads \<sigma>) (\<lambda>u. info_frames (stack \<sigma> u) a)"
      using r(3) info_frames_none [OF same(2)] by (intro addup_cong) auto
    then show ?thesis by (simp add: holders_def eq owns_info_def [abs_def])
  qed
  show ?thesis
    unfolding records_ok_def
  proof (intro conjI allI impI)
    show "info_strong (mem ?\<sigma>) a = holders ?\<sigma> a" "holders ?\<sigma> a \<le> 1" for a unfolding holders using invD(1,2) eq by simp_all
    show "info_strong (mem ?\<sigma>) a = 0" "unregistered (mem ?\<sigma>) a" if "n_infos (mem ?\<sigma>) \<le> a" for a
      using that invD(3) eq invD(4) [of a] same(1) by (simp, simp add: same_records_def unregistered_def) blast
    show "registered (mem ?\<sigma>) a (gd_shard gd)" "describes (mem ?\<sigma>) a (gd_location gd)"
      if "guard_at (mem ?\<sigma>) x = Some gd" "gd_info gd = Some a" for x gd a
    proof -
      have g: "guard_at (mem \<sigma>) x = Some gd" using that eq by simp
      have "fst (gd_shard gd) < n_nodes (mem \<sigma>)"
        using heap_okD(5) [OF reachable_heap_ok [OF r(1)] g] by (simp add: guard_ok_def valid_shard_def)
      then show "registered (mem ?\<sigma>) a (gd_shard gd)" "describes (mem ?\<sigma>) a (gd_location gd)"
        using invD(5) [OF g that(2)] same(1) by (auto simp: same_records_def registered_def describes_def)
    qed
    show "placed (mem ?\<sigma>) g" if "pending ?\<sigma> g" for g
      using pending_after_call [OF r(3) that]
    proof
      assume g: "pending \<sigma> g"
      then have "frame_ok (mem \<sigma>) g" using reachable_frame_ok [OF r(1)] by (auto simp: pending_def)
      then show ?thesis using call_placed [OF same(1) _ invD(6) [OF g]] by simp
    qed (use same(2) placed_none carries_info in auto)
  qed
qed

lemma placed_shards: "shard_at h' = shard_at h \<Longrightarrow> info_at h' = info_at h \<Longrightarrow> placed h' f = placed h f"
  by (cases "(h, f)" rule: placed.cases) (simp_all add: unregistered_def registered_def registered_in_def describes_def)

interpretation records: system_invariant records_ok
proof
  show "records_ok (sys_init threads par)" for threads par
    by (simp add: records_ok_def sys_init_def heap_init_def holders_def addup_eq_0_iff info_frames_def owns_info_def
        unregistered_def registered_in_def shard_new_def registry_default_def pending_def)
  show "records_ok (\<sigma>\<lparr>mem := (mem \<sigma>)\<lparr>clock := clock (mem \<sigma>) + d\<rparr>\<rparr>)" if inv: "records_ok \<sigma>" for \<sigma> d
  proof -
    let ?h = "(mem \<sigma>)\<lparr>clock := clock (mem \<sigma>) + d\<rparr>"
    have "placed ?h = placed (mem \<sigma>)" "unregistered ?h = unregistered (mem \<sigma>)" "registered ?h = registered (mem \<sigma>)"
      "describes ?h = describes (mem \<sigma>)" "owns_info ?h = owns_info (mem \<sigma>)"
      by (simp_all add: placed_shards unregistered_def registered_def registered_in_def describes_def owns_info_def fun_eq_iff)
    then have "records_ok (\<sigma>\<lparr>mem := ?h\<rparr>) \<longleftrightarrow> records_ok \<sigma>" by (simp add: records_ok_def pending_def holders_def)
    with inv show ?thesis by simp
  qed
qed (use records_ok_call records_ok_run in \<open>blast+\<close>)

lemmas reachable_records_ok = records.always

end
