(* ===== verification/Guard_Report.thy ===== *)
theory Guard_Report
  imports Guard_Registry "HOL-Library.Char_ord" "HOL-Library.List_Lexorder"
    "HOL-Library.Option_ord" "HOL-Library.Product_Lexorder"
begin

text \<open>
  \<^verbatim>\<open>src/implementation/guard_report.rs\<close>: the live guards of a subtree, aggregated by creation
  site and displayed. The theory shows that a report has one entry per site, with the number
  of guards and the greatest age at that site, oldest first, and that its display is one line
  per entry. Strings are lists of bytes, as in Rust.
\<close>

section \<open>The order of locations\<close>

text \<open>\<^verbatim>\<open>Location\<close> derives its order: by file, then line, then column.\<close>

instantiation location :: linorder
begin

definition less_eq_location :: "location \<Rightarrow> location \<Rightarrow> bool" where
  "less_eq_location a b \<longleftrightarrow> (loc_file a, loc_line a, loc_col a) \<le> (loc_file b, loc_line b, loc_col b)"

definition less_location :: "location \<Rightarrow> location \<Rightarrow> bool" where
  "less_location a b \<longleftrightarrow> (loc_file a, loc_line a, loc_col a) < (loc_file b, loc_line b, loc_col b)"

instance
proof
  fix x y z :: location
  show "x < y \<longleftrightarrow> x \<le> y \<and> \<not> y \<le> x"
    unfolding less_eq_location_def less_location_def by (rule less_le_not_le)
  show "x \<le> x" unfolding less_eq_location_def by (rule order_refl)
  show "x \<le> y \<Longrightarrow> y \<le> z \<Longrightarrow> x \<le> z"
    unfolding less_eq_location_def by (rule order_trans)
  show "x \<le> y \<Longrightarrow> y \<le> x \<Longrightarrow> x = y"
    unfolding less_eq_location_def by (drule (1) order_antisym) (auto intro: location.expand)
  show "x \<le> y \<or> y \<le> x"
    unfolding less_eq_location_def by (rule linear)
qed

end

section \<open>An ordered map\<close>

text \<open>
  \<^verbatim>\<open>BTreeMap\<close> as the list of its entries in key order. \<open>btree_entry k d f\<close> is
  \<^verbatim>\<open>entry(k).or_insert(d)\<close> followed by the update \<open>f\<close> of the value.
\<close>

fun btree_entry :: "'k :: linorder \<Rightarrow> 'v \<Rightarrow> ('v \<Rightarrow> 'v) \<Rightarrow> ('k \<times> 'v) list \<Rightarrow> ('k \<times> 'v) list" where
  "btree_entry k d f [] = [(k, f d)]"
| "btree_entry k d f ((k', v) # es) =
     (if k < k' then (k, f d) # (k', v) # es
      else if k = k' then (k', f v) # es
      else (k', v) # btree_entry k d f es)"

definition btree_ok :: "('k :: linorder \<times> 'v) list \<Rightarrow> bool" where
  "btree_ok es \<longleftrightarrow> sorted_wrt (<) (map fst es)"

lemma btree_entry_keys: "fst ` set (btree_entry k d f es) = insert k (fst ` set es)"
  by (induction k d f es rule: btree_entry.induct) auto

lemma btree_entry_ok: "btree_ok es \<Longrightarrow> btree_ok (btree_entry k d f es)"
proof (induction k d f es rule: btree_entry.induct)
  case (2 k d f k' v es)
  have "\<forall>x \<in> set (map fst (btree_entry k d f es)). x = k \<or> x \<in> fst ` set es"
    using btree_entry_keys [of k d f es] by auto
  with 2 show ?case by (fastforce simp: btree_ok_def)
qed (simp add: btree_ok_def)

lemma btree_entry_lookup:
  "btree_ok es \<Longrightarrow> map_of (btree_entry k d f es) =
     (map_of es)(k \<mapsto> f (case map_of es k of None \<Rightarrow> d | Some v \<Rightarrow> v))"
proof (induction k d f es rule: btree_entry.induct)
  case (2 k d f k' v es)
  then have "k < k' \<Longrightarrow> map_of es k = None"
    by (force simp: btree_ok_def map_of_eq_None_iff)
  with 2 show ?case by (auto simp: btree_ok_def fun_eq_iff)
qed (auto simp: fun_eq_iff)

lemma btree_ok_distinct: "btree_ok es \<Longrightarrow> distinct (map fst es)"
  unfolding btree_ok_def by (simp add: strict_sorted_iff)

section \<open>Reports\<close>

record report_entry =
  re_location :: location
  re_count :: nat
  re_oldest_age :: "nat option"

record guard_report =
  rp_entries :: "report_entry list"
  rp_unrecorded :: nat

text \<open>The comparison \<^verbatim>\<open>entries.sort_by\<close> uses, and a stable sort by it.\<close>

definition entry_before :: "report_entry \<Rightarrow> report_entry \<Rightarrow> bool" where
  "entry_before a b \<longleftrightarrow>
     (if re_oldest_age b = re_oldest_age a then re_location a < re_location b
      else re_oldest_age b < re_oldest_age a)"

fun insert_entry :: "report_entry \<Rightarrow> report_entry list \<Rightarrow> report_entry list" where
  "insert_entry e [] = [e]"
| "insert_entry e (x # xs) = (if entry_before x e then x # insert_entry e xs else e # x # xs)"

definition sort_entries :: "report_entry list \<Rightarrow> report_entry list" where
  "sort_entries es = foldr insert_entry es []"

text \<open>
  \<^verbatim>\<open>from_infos\<close>. Each record comes with the time at which the loop reads its age, since the
  clock advances while the report is made.
\<close>

definition add_info ::
  "bool \<Rightarrow> (guard_info \<times> nat) \<Rightarrow> (location \<times> report_entry) list \<Rightarrow> (location \<times> report_entry) list" where
  "add_info miri = (\<lambda>(info, now) by_location.
     btree_entry (gi_location info)
       \<lparr>re_location = gi_location info, re_count = 0, re_oldest_age = None\<rparr>
       (\<lambda>entry. entry\<lparr>re_count := re_count entry + 1,
          re_oldest_age := max (re_oldest_age entry) (guard_info_age miri now info)\<rparr>)
       by_location)"

definition from_infos :: "bool \<Rightarrow> (guard_info \<times> nat) list \<Rightarrow> guard_report" where
  "from_infos miri infos =
     (let by_location = fold (add_info miri) infos []; entries = map snd by_location in
      \<lparr>rp_entries = sort_entries entries, rp_unrecorded = 0\<rparr>)"

definition report_unrecorded :: "nat \<Rightarrow> guard_report" where
  "report_unrecorded count = \<lparr>rp_entries = [], rp_unrecorded = count\<rparr>"

definition report_guard_count :: "guard_report \<Rightarrow> nat" where
  "report_guard_count r = sum_list (map re_count (rp_entries r)) + rp_unrecorded r"

definition report_is_empty :: "guard_report \<Rightarrow> bool" where
  "report_is_empty r \<longleftrightarrow> report_guard_count r = 0"

text \<open>The accessors.\<close>

definition report_entries :: "guard_report \<Rightarrow> report_entry list" where
  [simp]: "report_entries r = rp_entries r"

definition report_iter :: "guard_report \<Rightarrow> report_entry list" where
  [simp]: "report_iter r = rp_entries r"

definition report_into_iter :: "guard_report \<Rightarrow> report_entry list" where
  [simp]: "report_into_iter r = rp_entries r"

definition entry_location :: "report_entry \<Rightarrow> location" where
  [simp]: "entry_location e = re_location e"

definition entry_count :: "report_entry \<Rightarrow> nat" where
  [simp]: "entry_count e = re_count e"

definition entry_oldest_age :: "report_entry \<Rightarrow> nat option" where
  [simp]: "entry_oldest_age e = re_oldest_age e"

section \<open>Sorting\<close>

lemma entry_before_trans: "entry_before a b \<Longrightarrow> entry_before b c \<Longrightarrow> entry_before a c"
  by (auto simp: entry_before_def split: if_splits)

lemma entry_before_total:
  "re_location a \<noteq> re_location b \<Longrightarrow> entry_before a b \<or> entry_before b a"
  by (auto simp: entry_before_def)

lemma set_insert_entry [simp]: "set (insert_entry e xs) = insert e (set xs)"
  by (induction xs) auto

lemma insert_entry_sorted:
  "sorted_wrt entry_before xs \<Longrightarrow> \<forall>x \<in> set xs. re_location x \<noteq> re_location e \<Longrightarrow>
   sorted_wrt entry_before (insert_entry e xs)"
proof (induction xs)
  case (Cons x xs)
  then show ?case
    using entry_before_total [of x e] entry_before_trans [of e x] by auto
qed simp

lemma distinct_insert_entry:
  "distinct (map re_location (insert_entry e xs)) \<longleftrightarrow> distinct (re_location e # map re_location xs)"
  by (induction xs) auto

lemma sum_insert_entry: "sum_list (map f (insert_entry e xs)) = f e + sum_list (map (f :: _ \<Rightarrow> nat) xs)"
  by (induction xs) auto

lemma sort_entries_spec:
  "distinct (map re_location es) \<Longrightarrow>
   sorted_wrt entry_before (sort_entries es) \<and> set (sort_entries es) = set es \<and>
   distinct (map re_location (sort_entries es)) \<and>
   sum_list (map f (sort_entries es)) = sum_list (map (f :: _ \<Rightarrow> nat) es)"
proof (induction es)
  case (Cons e es)
  define xs where "xs = sort_entries es"
  have ih: "sorted_wrt entry_before xs" "set xs = set es" "distinct (map re_location xs)"
    "sum_list (map f xs) = sum_list (map f es)"
    using Cons by (simp_all add: xs_def)
  have new: "re_location e \<notin> re_location ` set xs"
    using Cons.prems by (simp add: ih(2))
  then have e: "\<forall>x \<in> set xs. re_location x \<noteq> re_location e"
    by (metis imageI)
  have s: "sort_entries (e # es) = insert_entry e xs"
    by (simp add: sort_entries_def xs_def)
  have "distinct (map re_location (insert_entry e xs))"
    using new ih(3) by (simp add: distinct_insert_entry)
  then show ?case
    unfolding s using insert_entry_sorted [OF ih(1) e] ih(2,4) by (simp add: sum_insert_entry)
qed (simp add: sort_entries_def)

section \<open>What a report says\<close>

text \<open>The entry of one site: its guards are counted and the greatest age is kept.\<close>

definition site_infos :: "location \<Rightarrow> (guard_info \<times> nat) list \<Rightarrow> (guard_info \<times> nat) list" where
  "site_infos l infos = filter (\<lambda>(info, now). gi_location info = l) infos"

definition site_age :: "bool \<Rightarrow> location \<Rightarrow> (guard_info \<times> nat) list \<Rightarrow> nat option" where
  "site_age miri l infos =
     fold max (map (\<lambda>(info, now). guard_info_age miri now info) (site_infos l infos)) None"

definition site_entry :: "bool \<Rightarrow> location \<Rightarrow> (guard_info \<times> nat) list \<Rightarrow> report_entry option" where
  "site_entry miri l infos =
     (if site_infos l infos = [] then None
      else Some \<lparr>re_location = l, re_count = length (site_infos l infos),
                 re_oldest_age = site_age miri l infos\<rparr>)"

lemma site_entry_snoc:
  "site_entry miri l (infos @ [(info, now)]) =
     (if gi_location info = l then
        Some (case site_entry miri l infos of
                None \<Rightarrow> \<lparr>re_location = l, re_count = 1, re_oldest_age = max None (guard_info_age miri now info)\<rparr>
              | Some e \<Rightarrow> e\<lparr>re_count := re_count e + 1,
                  re_oldest_age := max (re_oldest_age e) (guard_info_age miri now info)\<rparr>)
      else site_entry miri l infos)"
  by (auto simp: site_entry_def site_infos_def site_age_def max.commute)

lemma from_infos_map:
  "btree_ok (fold (add_info miri) infos []) \<and>
   map_of (fold (add_info miri) infos []) = (\<lambda>l. site_entry miri l infos)"
proof (induction infos rule: rev_induct)
  case Nil
  then show ?case by (simp add: btree_ok_def site_entry_def site_infos_def fun_eq_iff)
next
  case (snoc x infos)
  obtain info now where x: "x = (info, now)" by (cases x)
  have "btree_ok (fold (add_info miri) (infos @ [x]) [])"
    using snoc by (simp add: x add_info_def btree_entry_ok)
  moreover have "map_of (fold (add_info miri) (infos @ [x]) []) l = site_entry miri l (infos @ [x])" for l
    using snoc by (auto simp: x add_info_def btree_entry_lookup site_entry_snoc split: option.split)
  ultimately show ?case by auto
qed

lemma map_of_entries:
  assumes "btree_ok es" and "\<And>k v. map_of es k = Some v \<Longrightarrow> key v = k"
  shows "map key (map snd es) = map fst es"
proof -
  have "key v = k" if "(k, v) \<in> set es" for k v
    using that assms btree_ok_distinct [OF assms(1)] map_of_is_SomeI by metis
  then show ?thesis by auto
qed

lemma site_entry_Some:
  "site_entry miri l infos = Some e \<longleftrightarrow>
     re_location e = l \<and> site_infos l infos \<noteq> [] \<and> re_count e = length (site_infos l infos) \<and>
     re_oldest_age e = site_age miri l infos"
  by (cases e) (auto simp: site_entry_def)

theorem from_infos_entries:
  "sorted_wrt entry_before (rp_entries (from_infos miri infos)) \<and>
   distinct (map re_location (rp_entries (from_infos miri infos))) \<and>
   (\<forall>e. e \<in> set (rp_entries (from_infos miri infos)) \<longleftrightarrow>
      site_entry miri (re_location e) infos = Some e)"
proof -
  let ?es = "fold (add_info miri) infos []"
  note m = from_infos_map [of miri infos]
  have keys: "map re_location (map snd ?es) = map fst ?es"
    using m by (intro map_of_entries) (auto simp: site_entry_Some)
  then have d: "distinct (map re_location (map snd ?es))"
    using btree_ok_distinct m by metis
  have "e \<in> set (map snd ?es) \<longleftrightarrow> site_entry miri (re_location e) infos = Some e" for e
  proof -
    have d: "distinct (map fst ?es)" using btree_ok_distinct m by blast
    have "e \<in> set (map snd ?es) \<longleftrightarrow> (\<exists>l. (l, e) \<in> set ?es)" by force
    also have "\<dots> \<longleftrightarrow> (\<exists>l. map_of ?es l = Some e)" using d by (simp add: map_of_eq_Some_iff)
    finally have "e \<in> set (map snd ?es) \<longleftrightarrow> (\<exists>l. map_of ?es l = Some e)" .
    then show ?thesis using m by (auto simp: site_entry_Some)
  qed
  then show ?thesis
    using sort_entries_spec [OF d, of re_count] by (simp add: from_infos_def Let_def)
qed

lemma sum_count_step:
  "sum_list (map (re_count \<circ> snd) (add_info miri x es)) = sum_list (map (re_count \<circ> snd) es) + 1"
proof -
  obtain info now where x: "x = (info, now)" by (cases x)
  have "sum_list (map (re_count \<circ> snd) (btree_entry k \<lparr>re_location = l, re_count = 0, re_oldest_age = None\<rparr>
      (\<lambda>entry. entry\<lparr>re_count := re_count entry + 1, re_oldest_age := f entry\<rparr>) es)) =
      sum_list (map (re_count \<circ> snd) es) + 1" for k l f
    by (induction es) auto
  then show ?thesis by (simp add: x add_info_def)
qed

theorem from_infos_count: "report_guard_count (from_infos miri infos) = length infos"
proof -
  have "sum_list (map (re_count \<circ> snd) (fold (add_info miri) infos es)) =
      sum_list (map (re_count \<circ> snd) es) + length infos" for es
    by (induction infos arbitrary: es) (simp_all add: sum_count_step)
  moreover have "distinct (map re_location (map snd (fold (add_info miri) infos [])))"
  proof -
    have "map re_location (map snd (fold (add_info miri) infos [])) = map fst (fold (add_info miri) infos [])"
      using from_infos_map [of miri infos] by (intro map_of_entries) (auto simp: site_entry_Some)
    then show ?thesis using btree_ok_distinct from_infos_map by metis
  qed
  note sort_entries_spec [OF this, of re_count]
  ultimately show ?thesis
    by (simp add: report_guard_count_def from_infos_def Let_def)
qed

section \<open>Display\<close>

text \<open>Decimal numbers and locations as the standard library displays them.\<close>

fun show_nat :: "nat \<Rightarrow> string" where
  "show_nat n = (if n < 10 then [char_of (48 + n)] else show_nat (n div 10) @ [char_of (48 + n mod 10)])"

declare show_nat.simps [simp del]

definition show_location :: "location \<Rightarrow> string" where
  "show_location l = loc_file l @ '':'' @ show_nat (loc_line l) @ '':'' @ show_nat (loc_col l)"

text \<open>
  \<open>fmt_age\<close> is the standard library's \<^verbatim>\<open>{:.1?}\<close> of a \<^verbatim>\<open>Duration\<close>. The multiplication sign is two
  bytes of UTF-8.
\<close>

definition display_entry :: "(nat \<Rightarrow> string) \<Rightarrow> report_entry \<Rightarrow> string" where
  "display_entry fmt_age e =
     show_nat (re_count e) @ '' '' @ [CHR 0xC3, CHR 0x97] @ '' '' @ show_location (re_location e) @
     (case re_oldest_age e of None \<Rightarrow> [] | Some age \<Rightarrow> '' (oldest '' @ fmt_age age @ '')'')"

definition display_report :: "(nat \<Rightarrow> string) \<Rightarrow> guard_report \<Rightarrow> string" where
  "display_report fmt_age r =
     (let count = report_guard_count r; plural = (if count = 1 then [] else ''s'') in
      if count = 0 then ''no outstanding guards''
      else if rp_unrecorded r > 0 then
        show_nat count @ '' outstanding guard'' @ plural @
          '' (create the root with Swansong::with_guard_report() to record where and when guards are created)''
      else
        show_nat count @ '' outstanding guard'' @ plural @ '':'' @
          concat (map (\<lambda>e. CHR 0x0A # display_entry fmt_age e) (rp_entries r)))"

text \<open>Reading a display: its lines, and the number a line starts with.\<close>

fun split_lines :: "string \<Rightarrow> string list" where
  "split_lines [] = [[]]"
| "split_lines (c # cs) =
     (if c = CHR 0x0A then [] # split_lines cs
      else (case split_lines cs of [] \<Rightarrow> [[c]] | l # ls \<Rightarrow> (c # l) # ls))"

definition is_digit :: "char \<Rightarrow> bool" where
  "is_digit c \<longleftrightarrow> 48 \<le> (of_char c :: nat) \<and> (of_char c :: nat) < 58"

definition leading_nat :: "string \<Rightarrow> nat" where
  "leading_nat cs = foldl (\<lambda>n c. n * 10 + (of_char c - 48)) 0 (takeWhile is_digit cs)"

lemma digit_char: "d < 10 \<Longrightarrow> of_char (char_of (48 + d) :: char) = (48 + d :: nat)"
  by simp

lemma show_nat_digits: "\<forall>c \<in> set (show_nat n). is_digit c"
proof (induction n rule: show_nat.induct)
  case (1 n)
  have "n mod 10 < 10" by simp
  with 1 show ?case
    by (subst show_nat.simps) (auto simp: is_digit_def digit_char)
qed

lemma show_nat_value: "foldl (\<lambda>n c. n * 10 + (of_char c - 48)) 0 (show_nat n) = n"
proof (induction n rule: show_nat.induct)
  case (1 n)
  have "n mod 10 < 10" by simp
  with 1 show ?case
    by (subst show_nat.simps) (auto simp: digit_char)
qed

lemma takeWhile_all_then:
  "\<forall>c \<in> set xs. P c \<Longrightarrow> \<not> P y \<Longrightarrow> takeWhile P (xs @ y # ys) = xs"
  by (induction xs) auto

lemma leading_nat_show: "\<not> is_digit c \<Longrightarrow> leading_nat (show_nat n @ c # cs) = n"
  by (simp add: leading_nat_def takeWhile_all_then show_nat_digits show_nat_value)

lemma split_lines_neq_Nil [simp]: "split_lines cs \<noteq> []"
  by (induction cs) (auto split: list.splits)

lemma split_lines_no_newline: "CHR 0x0A \<notin> set cs \<Longrightarrow> split_lines cs = [cs]"
  by (induction cs) auto

lemma split_lines_append:
  "CHR 0x0A \<notin> set cs \<Longrightarrow> split_lines (cs @ CHR 0x0A # ds) = cs # split_lines ds"
  by (induction cs) auto

lemma split_lines_concat:
  "CHR 0x0A \<notin> set cs \<Longrightarrow> \<forall>x \<in> set xs. CHR 0x0A \<notin> set (f x) \<Longrightarrow>
   split_lines (cs @ concat (map (\<lambda>x. CHR 0x0A # f x) xs)) = cs # map f xs"
proof (induction xs arbitrary: cs)
  case Nil
  then show ?case by (simp add: split_lines_no_newline)
next
  case (Cons x xs)
  then show ?case
    using split_lines_append [of cs "f x @ concat (map (\<lambda>x. CHR 0x0A # f x) xs)"] by simp
qed

lemma show_nat_no_newline: "CHR 0x0A \<notin> set (show_nat n)"
  using show_nat_digits [of n] by (auto simp: is_digit_def)

lemma display_entry_no_newline:
  "CHR 0x0A \<notin> set (loc_file (re_location e)) \<Longrightarrow> \<forall>a. CHR 0x0A \<notin> set (fmt_age a) \<Longrightarrow>
   CHR 0x0A \<notin> set (display_entry fmt_age e)"
  by (auto simp: display_entry_def show_location_def show_nat_no_newline split: option.split)

text \<open>A display of a recorded report: a header with the total, then one line per entry.\<close>

lemma display_report_split:
  assumes "0 < report_guard_count r" "rp_unrecorded r = 0"
    and "\<forall>a. CHR 0x0A \<notin> set (fmt_age a)" "\<forall>e \<in> set (rp_entries r). CHR 0x0A \<notin> set (loc_file (re_location e))"
  shows "map leading_nat (split_lines (display_report fmt_age r)) =
      report_guard_count r # map re_count (rp_entries r) \<and>
    tl (split_lines (display_report fmt_age r)) = map (display_entry fmt_age) (rp_entries r)"
proof -
  define header where "header = show_nat (report_guard_count r) @ '' outstanding guard'' @
    (if report_guard_count r = 1 then [] else ''s'') @ '':''"
  have d: "display_report fmt_age r =
      header @ concat (map (\<lambda>e. CHR 0x0A # display_entry fmt_age e) (rp_entries r))"
    using assms(1,2) by (simp add: display_report_def header_def Let_def)
  have "CHR 0x0A \<notin> set header" by (simp add: header_def show_nat_no_newline)
  then have "split_lines (display_report fmt_age r) = header # map (display_entry fmt_age) (rp_entries r)"
    unfolding d using display_entry_no_newline [OF _ assms(3)] assms(4) by (intro split_lines_concat) blast+
  moreover have "leading_nat header = report_guard_count r"
    using leading_nat_show [of "CHR '' ''" "report_guard_count r"] by (simp add: header_def is_digit_def)
  moreover have "leading_nat (display_entry fmt_age e) = re_count e" for e
    using leading_nat_show [of "CHR '' ''" "re_count e"] by (simp add: display_entry_def is_digit_def)
  ultimately show ?thesis by simp
qed

lemmas [run_eval] =
  add_info_def from_infos_def report_unrecorded_def report_guard_count_def report_is_empty_def
  sort_entries_def entry_before_def less_eq_location_def less_location_def display_entry_def
  display_report_def show_location_def is_digit_def leading_nat_def site_entry_def site_infos_def
  site_age_def

end
