(* ===== verification/Diagnostics.thy ===== *)
theory Diagnostics
  imports Records Guard_Report
begin

text \<open>
  The diagnostics of a handle, \<^verbatim>\<open>Swansong::guard_count\<close> and \<^verbatim>\<open>guard_report\<close>: recursive walks
  over the living nodes below it. They are modelled as one thread runs them while the others
  rest, with the references they take and give back and the registries they sweep. The theory
  shows that a walk ends, counts every live guard of the subtree once, and leaves the strong
  counts as it found them.
\<close>

declare split_paired_All [simp del] split_paired_Ex [simp del]

section \<open>Walks\<close>

text \<open>
  What stops a walk: the fuel of its recursion, a mutex that another thread holds, or the drop
  of a last reference, which would run \<^verbatim>\<open>Drop for Inner\<close>. None of them happens, as shown below.
\<close>

datatype halt = No_fuel | Locked sid | Last_reference nid

type_synonym 'a walk = "heap \<Rightarrow> ('a \<times> heap, halt) res"

definition walk_bind :: "'a walk \<Rightarrow> ('a \<Rightarrow> 'b walk) \<Rightarrow> 'b walk" where
  "walk_bind m f h = (case m h of Err e \<Rightarrow> Err e | Ok (x, h) \<Rightarrow> f x h)"

fun walk_each :: "('a \<Rightarrow> 'b walk) \<Rightarrow> 'a list \<Rightarrow> 'b list walk" where
  "walk_each f [] = (\<lambda>h. Ok ([], h))"
| "walk_each f (x # xs) = walk_bind (f x) (\<lambda>y. walk_bind (walk_each f xs) (\<lambda>ys h. Ok (y # ys, h)))"

definition node_shards :: "nid \<Rightarrow> heap \<Rightarrow> sid list" where
  "node_shards n h = map (\<lambda>i. (n, i)) [0..<in_shards (node_at h n)]"

text \<open>\<^verbatim>\<open>values().filter_map(Weak::upgrade)\<close>\<close>

fun upgrade_all :: "nid list \<Rightarrow> heap \<Rightarrow> nid list \<times> heap" where
  "upgrade_all [] h = ([], h)"
| "upgrade_all (c # cs) h =
     (case weak_upgrade c h of
        None \<Rightarrow> upgrade_all cs h
      | Some (h, c) \<Rightarrow> (case upgrade_all cs h of (live, h) \<Rightarrow> (c # live, h)))"

definition shard_children :: "sid \<Rightarrow> nid list walk" where
  "shard_children s h =
     (if sh_lock (shard_at h s) \<noteq> None then Err (Locked s)
      else Ok (upgrade_all (slab_values (sh_children (shard_at h s))) h))"

definition live_children :: "nid \<Rightarrow> nid list walk" where
  "live_children n h = walk_bind (walk_each shard_children (node_shards n h)) (\<lambda>css h. Ok (concat css, h)) h"

definition drop_child :: "nid \<Rightarrow> unit walk" where
  "drop_child c h =
     (if in_strong (node_at h c) = 1 then Err (Last_reference c)
      else Ok ((), upd_node c (in_strong_update (\<lambda>k. k - 1)) h))"

section \<open>Counting guards\<close>

text \<open>The children are dropped together, when the sum has been taken.\<close>

primrec guard_count_subtree :: "nat \<Rightarrow> nid \<Rightarrow> nat walk" where
  "guard_count_subtree 0 n = (\<lambda>h. Err No_fuel)"
| "guard_count_subtree (Suc fuel) n =
     (\<lambda>h. let own = sum_list (map (\<lambda>s. shard_guard_count s h) (node_shards n h)) in
        walk_bind (live_children n) (\<lambda>children.
        walk_bind (walk_each (guard_count_subtree fuel) children) (\<lambda>counts.
        walk_bind (walk_each drop_child children) (\<lambda>_ h. Ok (own + sum_list counts, h)))) h)"

definition swansong_guard_count :: "nat \<Rightarrow> nid \<Rightarrow> nat walk" where
  "swansong_guard_count fuel n = guard_count_subtree fuel n"

section \<open>Collecting records\<close>

definition clone_infos :: "nat list \<Rightarrow> heap \<Rightarrow> heap" where
  "clone_infos = fold (\<lambda>a h. h\<lparr>info_strong := (info_strong h)(a := info_strong h a + 1)\<rparr>)"

definition drop_infos :: "nat list \<Rightarrow> heap \<Rightarrow> heap" where
  "drop_infos = fold (\<lambda>a h. h\<lparr>info_strong := (info_strong h)(a := info_strong h a - 1)\<rparr>)"

text \<open>\<^verbatim>\<open>Shard::guard_infos\<close>: sweep, then clone the records that are alive.\<close>

definition shard_guard_infos :: "sid \<Rightarrow> nat list walk" where
  "shard_guard_infos s h =
     (if sh_lock (shard_at h s) \<noteq> None then Err (Locked s)
      else
        let h = upd_shard s (sh_guards_update (registry_sweep (info_alive h))) h;
            live = registry_live (info_alive h) (sh_guards (shard_at h s))
        in Ok (live, clone_infos live h))"

text \<open>
  \<^verbatim>\<open>guard_infos_subtree\<close> appends to the vector \<^verbatim>\<open>out\<close>; here each call returns what it appends.
  Each child is dropped after its own subtree.
\<close>

primrec guard_infos_subtree :: "nat \<Rightarrow> nid \<Rightarrow> nat list walk" where
  "guard_infos_subtree 0 n = (\<lambda>h. Err No_fuel)"
| "guard_infos_subtree (Suc fuel) n =
     (\<lambda>h. walk_bind (walk_each shard_guard_infos (node_shards n h)) (\<lambda>own.
        walk_bind (live_children n) (\<lambda>children.
        walk_bind (walk_each (\<lambda>c. walk_bind (guard_infos_subtree fuel c) (\<lambda>out.
            walk_bind (drop_child c) (\<lambda>_ h. Ok (out, h)))) children) (\<lambda>outs h.
        Ok (concat own @ concat outs, h)))) h)"

text \<open>
  \<^verbatim>\<open>Swansong::guard_report\<close>. \<open>now i\<close> is the time at which the age of the \<open>i\<close>-th record is
  read; the report consumes the vector and with it its references to the records.
\<close>

definition swansong_guard_report :: "bool \<Rightarrow> (nat \<Rightarrow> nat) \<Rightarrow> nat \<Rightarrow> nid \<Rightarrow> guard_report walk" where
  "swansong_guard_report miri now fuel n h =
     (if \<not> keeps_guard_report n h
      then walk_bind (swansong_guard_count fuel n) (\<lambda>k h. Ok (report_unrecorded k, h)) h
      else walk_bind (guard_infos_subtree fuel n) (\<lambda>infos h.
        Ok (from_infos miri (map (\<lambda>i. (info_at h (infos ! i), now i)) [0..<length infos]), drop_infos infos h)) h)"

section \<open>Heaps during a walk\<close>

text \<open>
  A heap in the middle of a walk that started in \<open>h\<close>: \<open>f c\<close> references to the child \<open>c\<close> and
  \<open>I a\<close> references to the record \<open>a\<close> are held, and the registries of the shards \<open>S\<close> have been
  swept.
\<close>

definition walked :: "sid set \<Rightarrow> (nat \<Rightarrow> nat) \<Rightarrow> (nid \<Rightarrow> nat) \<Rightarrow> heap \<Rightarrow> heap" where
  "walked S I f h = h\<lparr>
     node_at := (\<lambda>n. (node_at h n)\<lparr>in_strong := in_strong (node_at h n) + f n\<rparr>),
     shard_at := (\<lambda>s. if s \<in> S then sh_guards_update (registry_sweep (info_alive h)) (shard_at h s) else shard_at h s),
     info_strong := (\<lambda>a. info_strong h a + I a)\<rparr>"

text \<open>References are only held to what is alive.\<close>

definition alive :: "heap \<Rightarrow> nid \<Rightarrow> bool" where
  "alive h c \<longleftrightarrow> 0 < strong h c"

definition held_ok :: "heap \<Rightarrow> (nat \<Rightarrow> nat) \<Rightarrow> (nid \<Rightarrow> nat) \<Rightarrow> bool" where
  "held_ok h I f \<longleftrightarrow> (\<forall>c. 0 < f c \<longrightarrow> alive h c) \<and> (\<forall>a. 0 < I a \<longrightarrow> info_alive h a)"

lemma walked_start: "walked {} (\<lambda>_. 0) (\<lambda>_. 0) h = h"
  by (simp add: walked_def)

lemma walked_simps [simp]:
  "node_shards n (walked S I f h) = node_shards n h"
  "sh_lock (shard_at (walked S I f h) s) = sh_lock (shard_at h s)"
  "sh_children (shard_at (walked S I f h) s) = sh_children (shard_at h s)"
  "shard_guard_count s (walked S I f h) = shard_guard_count s h"
  "in_strong (node_at (walked S I f h) n) = in_strong (node_at h n) + f n"
  "info_strong (walked S I f h) a = info_strong h a + I a"
  "info_at (walked S I f h) = info_at h"
  "keeps_guard_report n (walked S I f h) = keeps_guard_report n h"
  by (simp_all add: walked_def node_shards_def shard_guard_count_def keeps_guard_report_def)

lemma walked_alive: "held_ok h I f \<Longrightarrow> info_alive (walked S I f h) = info_alive h"
  by (auto simp: info_alive_def held_ok_def fun_eq_iff)

lemma walked_upd_node:
  "upd_node c (in_strong_update g) (walked S I f h) = walked S I (f(c := k)) h"
  if "g (in_strong (node_at h c) + f c) = in_strong (node_at h c) + k"
  using that by (simp add: walked_def fun_eq_iff)

lemma walked_upgrade:
  assumes "held_ok h I f"
  shows "weak_upgrade c (walked S I f h) = (if alive h c then Some (walked S I (f(c := f c + 1)) h, c) else None)"
  using assms walked_upd_node [where k = "f c + 1" and g = Suc]
  by (auto simp: weak_upgrade_def arc_clone_def alive_def strong_def held_ok_def simp del: upd_node_def)

lemma held_ok_add: "held_ok h I f \<Longrightarrow> alive h c \<Longrightarrow> held_ok h I (f(c := f c + 1))"
  by (simp add: held_ok_def)

lemma upgrade_all_walked:
  "held_ok h I f \<Longrightarrow> upgrade_all cs (walked S I f h) =
     (filter (alive h) cs, walked S I (\<lambda>c. f c + count_list (filter (alive h) cs) c) h)"
proof (induction cs arbitrary: f)
  case (Cons c cs)
  show ?case
  proof (cases "alive h c")
    case True
    have f: "(\<lambda>x. (f(c := f c + 1)) x + count_list (filter (alive h) cs) x) =
        (\<lambda>x. f x + count_list (filter (alive h) (c # cs)) x)"
      using True by (auto simp: fun_eq_iff)
    show ?thesis
      using True
      by (simp only: upgrade_all.simps walked_upgrade [OF Cons.prems] if_True option.case prod.case
          Cons.IH [OF held_ok_add [OF Cons.prems True]] f) simp
  qed (use Cons walked_upgrade in simp)
qed simp

lemma held_ok_more: "held_ok h I f \<Longrightarrow> \<forall>c \<in> set cs. alive h c \<Longrightarrow> held_ok h I (\<lambda>c. f c + count_list cs c)"
  by (auto simp: held_ok_def count_list_0_iff)

lemma drop_child_walked:
  assumes "alive h c" "0 < f c"
  shows "drop_child c (walked S I f h) = Ok ((), walked S I (f(c := f c - 1)) h)"
proof -
  have "in_strong (node_at (walked S I f h) c) \<noteq> 1" using assms by (simp add: alive_def strong_def)
  then show ?thesis
    using assms walked_upd_node [where k = "f c - 1" and g = "\<lambda>k. k - 1"] by (simp add: drop_child_def del: upd_node_def)
qed

lemma drop_children_walked:
  "\<forall>c \<in> set cs. alive h c \<Longrightarrow>
   walk_each drop_child cs (walked S I (\<lambda>c. f c + count_list cs c) h) = Ok (map (\<lambda>_. ()) cs, walked S I f h)"
proof (induction cs)
  case (Cons c cs)
  have "(\<lambda>x. f x + count_list (c # cs) x)(c := f c + count_list (c # cs) c - 1) = (\<lambda>x. f x + count_list cs x)"
    by (auto simp: fun_eq_iff)
  then show ?case
    using Cons drop_child_walked [of h c "\<lambda>x. f x + count_list (c # cs) x"] by (simp add: walk_bind_def)
qed simp

text \<open>The children a walk visits.\<close>

definition living :: "heap \<Rightarrow> nid \<Rightarrow> nid list" where
  "living h n = concat (map (\<lambda>s. filter (alive h) (slab_values (sh_children (shard_at h s)))) (node_shards n h))"

definition unlocked :: "heap \<Rightarrow> nid \<Rightarrow> bool" where
  "unlocked h n \<longleftrightarrow> (\<forall>s \<in> set (node_shards n h). sh_lock (shard_at h s) = None)"

lemma living_alive: "c \<in> set (living h n) \<Longrightarrow> alive h c"
  by (auto simp: living_def)

lemma children_walked:
  assumes "held_ok h I f" "\<forall>s \<in> set ss. sh_lock (shard_at h s) = None"
  shows "walk_each shard_children ss (walked S I f h) =
    (let css = map (\<lambda>s. filter (alive h) (slab_values (sh_children (shard_at h s)))) ss in
     Ok (css, walked S I (\<lambda>c. f c + count_list (concat css) c) h))"
  using assms
proof (induction ss arbitrary: f)
  case (Cons s ss)
  let ?cs = "filter (alive h) (slab_values (sh_children (shard_at h s)))"
  have "held_ok h I (\<lambda>c. f c + count_list ?cs c)" by (rule held_ok_more [OF Cons.prems(1)]) simp
  from Cons.IH [OF this] Cons.prems show ?case
    by (simp add: walk_bind_def shard_children_def upgrade_all_walked Let_def add.assoc count_list_append)
qed simp

lemma live_children_walked:
  assumes "held_ok h I f" "unlocked h n"
  shows "live_children n (walked S I f h) = Ok (living h n, walked S I (\<lambda>c. f c + count_list (living h n) c) h)"
  using children_walked [OF assms(1), of "node_shards n h"] assms(2)
  by (simp add: live_children_def unlocked_def living_def walk_bind_def Let_def)

section \<open>The tree below a node\<close>

lemma ancestor_parent: "ancestor h a m \<Longrightarrow> a = m \<or> (\<exists>p. parent_of h m = Some p \<and> ancestor h a p)"
  by (induction rule: ancestor.induct) (auto intro: ancestor.intros)

lemma ancestor_trans: "ancestor h a b \<Longrightarrow> ancestor h b c \<Longrightarrow> ancestor h a c"
  by (induction rule: ancestor.induct) (auto intro: ancestor.intros)

lemma ancestor_child: "ancestor h a n \<Longrightarrow> a = n \<or> (\<exists>c. parent_of h c = Some a \<and> ancestor h c n)"
  by (erule ancestor.cases) auto

lemma ancestor_le:
  assumes ok: "heap_ok h"
  shows "ancestor h a n \<Longrightarrow> n < n_nodes h \<Longrightarrow> a \<le> n \<and> a < n_nodes h"
proof (induction rule: ancestor.induct)
  case (up m n a)
  then show ?case using parent_valid(1,2) [OF ok _ up.hyps(2)] by (fastforce simp: valid_node_def)
qed simp

lemma ancestor_linear: "ancestor h c n \<Longrightarrow> ancestor h d n \<Longrightarrow> ancestor h c d \<or> ancestor h d c"
proof (induction rule: ancestor.induct)
  case (up m n c)
  then consider "ancestor h m d" | "ancestor h d m" by blast
  then show ?case
  proof cases
    case 2
    from ancestor_parent [OF this] show ?thesis using up.hyps(2) ancestor.intros by fastforce
  qed (use up.hyps ancestor.up in blast)
qed simp

text \<open>The subtrees of two children have no node in common.\<close>

lemma subtrees_disjoint:
  assumes ok: "heap_ok h" and n: "n < n_nodes h" and c: "ancestor h c n" "parent_of h c = Some a"
    and d: "ancestor h d n" "parent_of h d = Some a"
  shows "c = d"
proof -
  have strict: "x = y" if "ancestor h x y" "parent_of h x = Some a" "parent_of h y = Some a" "y < n_nodes h" for x y
  proof (rule ccontr)
    assume "x \<noteq> y"
    then have x: "ancestor h x a" using ancestor_parent [OF that(1)] that(3) by auto
    have "a < n_nodes h" "a < y" using parent_valid(1,2) [OF ok _ that(3)] that(4) by (auto simp: valid_node_def)
    moreover have "a < x"
      using parent_valid(2) [OF ok _ that(2)] ancestor_le [OF ok that(1,4)] by (simp add: valid_node_def)
    ultimately show False using ancestor_le [OF ok x] by simp
  qed
  show ?thesis
    using ancestor_linear [OF c(1) d(1)] strict [of c d] strict [of d c] c d ancestor_le [OF ok _ n] by blast
qed

section \<open>What a walk meets\<close>

lemma idle_unlocked: "reachable \<sigma> \<Longrightarrow> idle \<sigma> \<Longrightarrow> unlocked (mem \<sigma>) n"
  using lock_okD(2) [OF reachable_lock_ok]
  by (auto simp: unlocked_def idle_def) (metis option.distinct(1) option.exhaust top_section.simps(1))

lemma slab_values_lookup:
  "slab_values s = map (\<lambda>i. the (slab_lookup s i)) (filter (\<lambda>i. slab_lookup s i \<noteq> None) [0..<length (slots s)])"
proof -
  have "List.map_filter slot_value (slots s) = List.map_filter slot_value (map ((!) (slots s)) [0..<length (slots s)])"
    by (simp add: map_nth)
  also have "\<dots> = List.map_filter (slab_lookup s) [0..<length (slots s)]"
    unfolding List.map_filter_def by (auto simp: filter_map o_def slab_lookup_def intro!: map_cong filter_cong)
  finally show ?thesis by (simp add: slab_values_def List.map_filter_def o_def)
qed

lemma slab_values_distinct:
  "(\<And>k l v. slab_lookup s k = Some v \<Longrightarrow> slab_lookup s l = Some v \<Longrightarrow> k = l) \<Longrightarrow> distinct (slab_values s)"
  by (auto simp: slab_values_lookup distinct_map inj_on_def)

lemma distinct_concat_map:
  "distinct xs \<Longrightarrow> (\<And>x. x \<in> set xs \<Longrightarrow> distinct (f x)) \<Longrightarrow>
   (\<And>x y. x \<in> set xs \<Longrightarrow> y \<in> set xs \<Longrightarrow> x \<noteq> y \<Longrightarrow> set (f x) \<inter> set (f y) = {}) \<Longrightarrow> distinct (concat (map f xs))"
  by (induction xs) fastforce+

text \<open>
  With no thread at work every child is entered once, at the shard its link names, so a walk
  visits every living child once.
\<close>

lemma living_children:
  assumes r: "reachable \<sigma>" "idle \<sigma>" and n: "n < n_nodes (mem \<sigma>)"
  shows "distinct (living (mem \<sigma>) n)"
    "set (living (mem \<sigma>) n) = {c. c < n_nodes (mem \<sigma>) \<and> parent_of (mem \<sigma>) c = Some n \<and> alive (mem \<sigma>) c}"
proof -
  note reg = registration_okD [OF reachable_registration_ok [OF r(1)]]
  let ?h = "mem \<sigma>"
  let ?cs = "\<lambda>s. slab_values (sh_children (shard_at ?h s))"
  have none: "tasks \<sigma> c = {#}" for c using r(2) by (simp add: tasks_def idle_def)
  have entered: "link_of ?h c = Some s" "c < n_nodes ?h" if "valid_shard ?h s" "c \<in> set (?cs s)" for s c
    using that reg(2) [of s _ c] heap_okD(1) [OF reachable_heap_ok [OF r(1)] that(1)]
    by (auto simp: set_slab_values ran_def child_slab_def shard_ok_def)
  have keys: "\<exists>k. \<forall>l \<in> child_keys ?h c. l = k" "alive ?h c \<Longrightarrow> child_keys ?h c \<noteq> {}" if "c < n_nodes ?h" "link_of ?h c \<noteq> None" for c
    using reg(1) [OF that] by (auto simp: child_ok_def none Let_def alive_def)
  have shards: "set (node_shards n ?h) = {s. valid_shard ?h s \<and> fst s = n}" "distinct (node_shards n ?h)"
    using n by (auto simp: node_shards_def valid_shard_def distinct_map inj_on_def)
  have dist: "distinct (?cs s)" if s: "valid_shard ?h s" for s
  proof (rule slab_values_distinct)
    fix k l c assume *: "slab_lookup (sh_children (shard_at ?h s)) k = Some c" "slab_lookup (sh_children (shard_at ?h s)) l = Some c"
    then have c: "c \<in> set (?cs s)" by (auto simp: set_slab_values ran_def)
    have "k \<in> child_keys ?h c" "l \<in> child_keys ?h c"
      using entered [OF s c] * by (auto simp: child_keys_def child_slab_def)
    with keys(1) [OF entered(2) [OF s c]] entered(1) [OF s c] show "k = l" by (metis option.distinct(1))
  qed
  show "distinct (living ?h n)"
    unfolding living_def
  proof (intro distinct_concat_map shards(2))
    fix s assume "s \<in> set (node_shards n ?h)"
    then show "distinct (filter (alive ?h) (?cs s))" using dist shards(1) by simp
  next
    fix s s' assume *: "s \<in> set (node_shards n ?h)" "s' \<in> set (node_shards n ?h)" "s \<noteq> s'"
    then have v: "valid_shard ?h s" "valid_shard ?h s'" using shards(1) by simp_all
    show "set (filter (alive ?h) (?cs s)) \<inter> set (filter (alive ?h) (?cs s')) = {}"
      using entered(1) [OF v(1)] entered(1) [OF v(2)] *(3) by fastforce
  qed
  show "set (living ?h n) = {c. c < n_nodes ?h \<and> parent_of ?h c = Some n \<and> alive ?h c}"
  proof (intro set_eqI iffI)
    fix c assume "c \<in> set (living ?h n)"
    then show "c \<in> {c. c < n_nodes ?h \<and> parent_of ?h c = Some n \<and> alive ?h c}"
      using shards(1) entered by (fastforce simp: living_def parent_of_link)
  next
    fix c assume c: "c \<in> {c. c < n_nodes ?h \<and> parent_of ?h c = Some n \<and> alive ?h c}"
    then obtain s where s: "link_of ?h c = Some s" "fst s = n" by (auto simp: parent_of_link)
    obtain k where "child_slab ?h s k = Some c" using keys(2) [of c] c s by (auto simp: child_keys_def)
    moreover have "valid_shard ?h s"
      using heap_okD(2) [OF reachable_heap_ok [OF r(1)], of c] c s n
      by (auto simp: node_ok_link valid_node_def valid_shard_def)
    ultimately show "c \<in> set (living ?h n)"
      using c s(2) shards(1) by (auto simp: living_def set_slab_values child_slab_def ran_def)
  qed
qed

text \<open>The live guards of the subtree of a node.\<close>

definition guards_under :: "heap \<Rightarrow> nid \<Rightarrow> gid set" where
  "guards_under h n = {g. \<exists>gd. guard_at h g = Some gd \<and> ancestor h n (fst (gd_shard gd))}"

lemma guard_node:
  assumes r: "reachable \<sigma>" and g: "guard_at (mem \<sigma>) g = Some gd"
  shows "valid_shard (mem \<sigma>) (gd_shard gd)" "fst (gd_shard gd) < n_nodes (mem \<sigma>)" "g < n_guards (mem \<sigma>)"
    "parent_of (mem \<sigma>) (fst (gd_shard gd)) \<noteq> None \<Longrightarrow> alive (mem \<sigma>) (fst (gd_shard gd))"
proof -
  note ok = heap_okD(5) [OF reachable_heap_ok [OF r] g]
  then show v: "valid_shard (mem \<sigma>) (gd_shard gd)" "g < n_guards (mem \<sigma>)" by (auto simp: guard_ok_def)
  then show n: "fst (gd_shard gd) < n_nodes (mem \<sigma>)" by (simp add: valid_shard_def)
  assume p: "parent_of (mem \<sigma>) (fst (gd_shard gd)) \<noteq> None"
  have "guards_rooted (mem \<sigma>)" using reachable_pins_ok [OF r] by (simp add: pins_ok_def)
  from guards_rootedD [OF this g] p have "gd_pin gd = Some (fst (gd_shard gd))"
    using ok by (auto simp: guard_ok_def)
  then have "0 < tally (n_guards (mem \<sigma>)) (pins (mem \<sigma>) (fst (gd_shard gd)))"
    using g v(2) by (auto simp: tally_pos_iff pins_def)
  then show "alive (mem \<sigma>) (fst (gd_shard gd))"
    using owner_okD(2) [OF reachable_owner_ok [OF r] n] by (simp add: alive_def arc_owned_def)
qed

lemma only_guard:
  assumes r: "reachable \<sigma>" "n_guards (mem \<sigma>) = 1" and g: "map_option gd_shard (guard_at (mem \<sigma>) 0) = Some (m, i)"
  shows "guards_under (mem \<sigma>) n = (if ancestor (mem \<sigma>) n m then {0} else {})"
proof -
  have zero: "x = 0" if "guard_at (mem \<sigma>) x = Some gd" for x gd using guard_node(3) [OF r(1) that] r(2) by simp
  obtain gd where "guard_at (mem \<sigma>) 0 = Some gd" "gd_shard gd = (m, i)" using g by auto
  then have "guard_at (mem \<sigma>) x = Some gd' \<and> ancestor (mem \<sigma>) n (fst (gd_shard gd')) \<longleftrightarrow>
      x = 0 \<and> gd' = gd \<and> ancestor (mem \<sigma>) n m" for x gd'
    using zero [of x gd'] by auto
  then show ?thesis by (simp add: guards_under_def)
qed

lemma guards_under_finite: "reachable \<sigma> \<Longrightarrow> finite (guards_under (mem \<sigma>) n)"
  by (rule finite_subset [of _ "{..<n_guards (mem \<sigma>)}"]) (auto simp: guards_under_def dest: guard_node(3))

lemma guards_under_split:
  assumes r: "reachable \<sigma>" "idle \<sigma>" and n: "n < n_nodes (mem \<sigma>)"
  shows "guards_under (mem \<sigma>) n = {g. \<exists>s \<in> set (node_shards n (mem \<sigma>)). guard_of (mem \<sigma>) s g} \<union>
    (\<Union>c \<in> set (living (mem \<sigma>) n). guards_under (mem \<sigma>) c)" (is "?L = ?own \<union> ?kids")
proof (intro set_eqI iffI)
  fix g assume "g \<in> ?L"
  then obtain gd where g: "guard_at (mem \<sigma>) g = Some gd" "ancestor (mem \<sigma>) n (fst (gd_shard gd))"
    by (auto simp: guards_under_def)
  from ancestor_child [OF g(2)] show "g \<in> ?own \<union> ?kids"
  proof
    assume "n = fst (gd_shard gd)"
    then have "gd_shard gd \<in> set (node_shards n (mem \<sigma>))"
      using guard_node(1) [OF r(1) g(1)] by (cases "gd_shard gd") (auto simp: node_shards_def valid_shard_def)
    then show ?thesis using g(1) by (auto simp: guard_of_def)
  next
    assume "\<exists>c. parent_of (mem \<sigma>) c = Some n \<and> ancestor (mem \<sigma>) c (fst (gd_shard gd))"
    then obtain c where c: "parent_of (mem \<sigma>) c = Some n" "ancestor (mem \<sigma>) c (fst (gd_shard gd))" by blast
    then have "parent_of (mem \<sigma>) (fst (gd_shard gd)) \<noteq> None" using ancestor_parent [OF c(2)] by auto
    from guard_node(4) [OF r(1) g(1) this] have "c < n_nodes (mem \<sigma>) \<and> alive (mem \<sigma>) c"
      using ancestor_alive [OF r(1) c(2) guard_node(2) [OF r(1) g(1)]] by (simp add: alive_def)
    then have "c \<in> set (living (mem \<sigma>) n)" using living_children(2) [OF r n] c(1) by simp
    then show ?thesis using g(1) c(2) by (auto simp: guards_under_def)
  qed
next
  fix g assume "g \<in> ?own \<union> ?kids"
  then show "g \<in> ?L"
  proof
    assume "g \<in> ?own" then show "g \<in> ?L" using ancestor.self by (fastforce simp: guard_of_def guards_under_def node_shards_def)
  next
    assume "g \<in> ?kids"
    then show "g \<in> ?L"
      using living_children(2) [OF r n] ancestor_trans [OF ancestor.up [OF ancestor.self]] by (auto simp: guards_under_def)
  qed
qed

section \<open>Counting is exact\<close>

lemma sum_list_distinct: "distinct xs \<Longrightarrow> sum_list (map f xs) = sum f (set xs)"
  by (simp add: sum_list_distinct_conv_sum_set)

lemma guard_of_finite: "reachable \<sigma> \<Longrightarrow> finite {g. guard_of (mem \<sigma>) s g}"
  by (rule finite_subset [of _ "{..<n_guards (mem \<sigma>)}"]) (auto simp: guard_of_def dest: guard_node(3))

lemma shard_count_exact:
  assumes r: "reachable \<sigma>" "idle \<sigma>" and s: "valid_shard (mem \<sigma>) s"
  shows "shard_guard_count s (mem \<sigma>) = card {g. guard_of (mem \<sigma>) s g}"
proof -
  have "shard_guard_count s (mem \<sigma>) = tally (n_guards (mem \<sigma>)) (guard_of (mem \<sigma>) s)"
    using idle_exact [OF reachable_sys_ok [OF r(1)] r(2), of "LocalToken s"] s by (simp add: shard_guard_count_def count_mask)
  moreover have "{i. i < n_guards (mem \<sigma>) \<and> guard_of (mem \<sigma>) s i} = {g. guard_of (mem \<sigma>) s g}"
    by (auto simp: guard_of_def dest: guard_node(3) [OF r(1)])
  ultimately show ?thesis by (simp add: tally_card)
qed

text \<open>Anything counted over the guards of a subtree is counted over the shards and the living children.\<close>

lemma guards_under_sum:
  assumes r: "reachable \<sigma>" "idle \<sigma>" and n: "n < n_nodes (mem \<sigma>)"
  shows "card {g \<in> guards_under (mem \<sigma>) n. P g} =
    sum_list (map (\<lambda>s. card {g. guard_of (mem \<sigma>) s g \<and> P g}) (node_shards n (mem \<sigma>))) +
    sum_list (map (\<lambda>c. card {g \<in> guards_under (mem \<sigma>) c. P g}) (living (mem \<sigma>) n))"
proof -
  let ?h = "mem \<sigma>"
  let ?ss = "node_shards n ?h" and ?cs = "living ?h n"
  let ?own = "\<lambda>s. {g. guard_of ?h s g \<and> P g}" and ?kid = "\<lambda>c. {g \<in> guards_under ?h c. P g}"
  note kids = living_children [OF r n]
  have fin: "finite (?own s)" "finite (?kid c)" for s c
    using guard_of_finite [OF r(1)] guards_under_finite [OF r(1)] by (auto intro: finite_subset [rotated])
  have split: "{g \<in> guards_under ?h n. P g} = (\<Union>s \<in> set ?ss. ?own s) \<union> (\<Union>c \<in> set ?cs. ?kid c)"
    unfolding guards_under_split [OF r n] by blast
  have apart: "c = d" if cd: "c \<in> set ?cs" "d \<in> set ?cs" and g: "g \<in> guards_under ?h c" "g \<in> guards_under ?h d" for c d g
  proof -
    obtain gd where gd: "guard_at ?h g = Some gd" "ancestor ?h c (fst (gd_shard gd))" "ancestor ?h d (fst (gd_shard gd))"
      using g by (auto simp: guards_under_def)
    have "parent_of ?h c = Some n" "parent_of ?h d = Some n" using cd kids(2) by auto
    then show ?thesis
      using subtrees_disjoint [OF reachable_heap_ok [OF r(1)] guard_node(2) [OF r(1) gd(1)] gd(2) _ gd(3)] by blast
  qed
  have disjoint: "(\<Union>s \<in> set ?ss. ?own s) \<inter> (\<Union>c \<in> set ?cs. ?kid c) = {}"
  proof (rule ccontr)
    assume "\<not> ?thesis"
    then obtain g gd c where g: "guard_at ?h g = Some gd" "fst (gd_shard gd) = n" "c \<in> set ?cs" "ancestor ?h c n"
      by (fastforce simp: guard_of_def guards_under_def node_shards_def)
    with kids(2) have "n < c" "c \<le> n"
      using parent_valid(2) [OF reachable_heap_ok [OF r(1)], of c n] ancestor_le [OF reachable_heap_ok [OF r(1)] g(4) n]
      by (auto simp: valid_node_def)
    then show False by simp
  qed
  have "card {g \<in> guards_under ?h n. P g} = card (\<Union>s \<in> set ?ss. ?own s) + card (\<Union>c \<in> set ?cs. ?kid c)"
    unfolding split using fin by (intro card_Un_disjoint disjoint) auto
  also have "card (\<Union>c \<in> set ?cs. ?kid c) = (\<Sum>c \<in> set ?cs. card (?kid c))"
    by (rule card_UN_disjoint) (use apart fin in blast)+
  also have "card (\<Union>s \<in> set ?ss. ?own s) = (\<Sum>s \<in> set ?ss. card (?own s))"
    using fin by (intro card_UN_disjoint) (auto simp: guard_of_def [abs_def] simp del: split_paired_Ex)
  also have "\<dots> = sum_list (map (\<lambda>s. card (?own s)) ?ss)"
    by (rule sum_list_distinct [symmetric]) (simp add: node_shards_def distinct_map inj_on_def)
  finally show ?thesis by (simp add: sum_list_distinct [OF kids(1)])
qed

lemma guards_under_card:
  assumes r: "reachable \<sigma>" "idle \<sigma>" and n: "n < n_nodes (mem \<sigma>)"
  shows "card (guards_under (mem \<sigma>) n) = sum_list (map (\<lambda>s. shard_guard_count s (mem \<sigma>)) (node_shards n (mem \<sigma>))) +
    sum_list (map (\<lambda>c. card (guards_under (mem \<sigma>) c)) (living (mem \<sigma>) n))"
proof -
  have counts: "map (\<lambda>s. shard_guard_count s (mem \<sigma>)) (node_shards n (mem \<sigma>)) =
      map (\<lambda>s. card {g. guard_of (mem \<sigma>) s g \<and> True}) (node_shards n (mem \<sigma>))"
    using n by (intro map_cong refl) (auto simp: shard_count_exact [OF r] node_shards_def valid_shard_def)
  show ?thesis unfolding counts using guards_under_sum [OF assms, of "\<lambda>_. True"] by simp
qed

lemma walk_each_same:
  "(\<And>x. x \<in> set xs \<Longrightarrow> f x h = Ok (y x, h)) \<Longrightarrow> walk_each f xs h = Ok (map y xs, h)"
  by (induction xs) (simp_all add: walk_bind_def)

lemma living_more: "held_ok h I f \<Longrightarrow> held_ok h I (\<lambda>c. f c + count_list (living h n) c)"
  by (rule held_ok_more) (auto simp: living_alive)

lemma count_walked:
  assumes r: "reachable \<sigma>" "idle \<sigma>"
  shows "n < n_nodes (mem \<sigma>) \<Longrightarrow> n_nodes (mem \<sigma>) - n \<le> fuel \<Longrightarrow> held_ok (mem \<sigma>) I f \<Longrightarrow>
    guard_count_subtree fuel n (walked S I f (mem \<sigma>)) = Ok (card (guards_under (mem \<sigma>) n), walked S I f (mem \<sigma>))"
proof (induction fuel arbitrary: n f)
  case (Suc fuel)
  let ?h = "mem \<sigma>" and ?cs = "living (mem \<sigma>) n"
  let ?w = "walked S I (\<lambda>c. f c + count_list ?cs c) ?h"
  have sub: "guard_count_subtree fuel c ?w = Ok (card (guards_under ?h c), ?w)" if "c \<in> set ?cs" for c
  proof (rule Suc.IH)
    have c: "c < n_nodes ?h" "parent_of ?h c = Some n" using that living_children(2) [OF r Suc.prems(1)] by auto
    then show "c < n_nodes ?h" by simp
    have "n < c" using parent_valid(2) [OF reachable_heap_ok [OF r(1)] _ c(2)] c(1) by (simp add: valid_node_def)
    then show "n_nodes ?h - c \<le> fuel" using Suc.prems(1,2) by simp
    show "held_ok ?h I (\<lambda>c. f c + count_list ?cs c)" by (rule living_more [OF Suc.prems(3)])
  qed
  have "live_children n (walked S I f ?h) = Ok (?cs, ?w)"
    by (rule live_children_walked [OF Suc.prems(3) idle_unlocked [OF r]])
  moreover have "walk_each (guard_count_subtree fuel) ?cs ?w = Ok (map (\<lambda>c. card (guards_under ?h c)) ?cs, ?w)"
    by (rule walk_each_same, rule sub)
  moreover have "walk_each drop_child ?cs ?w = Ok (map (\<lambda>_. ()) ?cs, walked S I f ?h)"
    by (rule drop_children_walked) (auto simp: living_alive)
  ultimately show ?case
    by (simp add: walk_bind_def Let_def guards_under_card [OF r Suc.prems(1)])
qed simp

lemma count_exact:
  assumes "reachable \<sigma>" "idle \<sigma>" "n < n_nodes (mem \<sigma>)" "n_nodes (mem \<sigma>) - n \<le> fuel"
  shows "swansong_guard_count fuel n (mem \<sigma>) = Ok (card (guards_under (mem \<sigma>) n), mem \<sigma>)"
  using count_walked [OF assms, of "\<lambda>_. 0" "\<lambda>_. 0" "{}"] by (simp add: swansong_guard_count_def walked_start held_ok_def)

section \<open>Collecting is exact\<close>

text \<open>The records a shard reports.\<close>

definition live_records :: "heap \<Rightarrow> sid \<Rightarrow> nat list" where
  "live_records h s = filter (info_alive h) (registered_in h s)"

lemma clone_infos_eq: "clone_infos live h = h\<lparr>info_strong := (\<lambda>a. info_strong h a + count_list live a)\<rparr>"
  by (induction live arbitrary: h) (auto simp: clone_infos_def fun_eq_iff intro!: arg_cong [where f = "\<lambda>i. h\<lparr>info_strong := i\<rparr>" for h])

lemma drop_infos_walked: "drop_infos infos (walked S (\<lambda>a. I a + count_list infos a) f h) = walked S I f h"
proof (induction infos arbitrary: I)
  case (Cons a infos)
  have "(\<lambda>x. info_strong h x + (I x + count_list (a # infos) x))(a := info_strong h a + (I a + count_list (a # infos) a) - 1) =
      (\<lambda>x. info_strong h x + (I x + count_list infos x))" by (auto simp: fun_eq_iff)
  with Cons show ?case by (simp add: drop_infos_def walked_def)
qed (simp add: drop_infos_def)

lemma held_ok_records: "held_ok h I f \<Longrightarrow> \<forall>a \<in> set as. info_alive h a \<Longrightarrow> held_ok h (\<lambda>a. I a + count_list as a) f"
  by (auto simp: held_ok_def count_list_0_iff)

lemma shard_infos_walked:
  assumes ok: "held_ok h I f" and free: "sh_lock (shard_at h s) = None"
  shows "shard_guard_infos s (walked S I f h) =
    Ok (live_records h s, walked (insert s S) (\<lambda>a. I a + count_list (live_records h s) a) f h)"
proof -
  let ?sweep = "registry_sweep (info_alive h)"
  have idem: "?sweep (?sweep r) = ?sweep r" for r by (simp add: registry_defs)
  have swept: "upd_shard s (sh_guards_update ?sweep) (walked S I f h) = walked (insert s S) I f h"
    by (auto simp: walked_def fun_eq_iff idem)
  have live: "registry_live (info_alive h) (sh_guards (shard_at (walked (insert s S) I f h) s)) = live_records h s"
    by (simp add: walked_def live_records_def registered_in_def registry_defs)
  have clone: "clone_infos live (walked S I f h) = walked S (\<lambda>a. I a + count_list live a) f h" for live S
    by (simp add: clone_infos_eq walked_def add.assoc)
  show ?thesis
    using free by (simp add: shard_guard_infos_def walked_alive [OF ok] swept live clone Let_def del: upd_shard_def)
qed

lemma shards_infos_walked:
  assumes "held_ok h I f" "\<forall>s \<in> set ss. sh_lock (shard_at h s) = None"
  shows "\<exists>S'. walk_each shard_guard_infos ss (walked S I f h) =
    Ok (map (live_records h) ss, walked S' (\<lambda>a. I a + count_list (concat (map (live_records h) ss)) a) f h)"
  using assms
proof (induction ss arbitrary: I S)
  case (Cons s ss)
  let ?I = "\<lambda>a. I a + count_list (live_records h s) a"
  have "held_ok h ?I f" by (rule held_ok_records [OF Cons.prems(1)]) (simp add: live_records_def)
  from Cons.IH [OF this] Cons.prems(2) obtain S' where
    "walk_each shard_guard_infos ss (walked (insert s S) ?I f h) =
      Ok (map (live_records h) ss, walked S' (\<lambda>a. ?I a + count_list (concat (map (live_records h) ss)) a) f h)"
    by auto
  then show ?case
    using shard_infos_walked [OF Cons.prems(1)] Cons.prems(2) by (auto simp: walk_bind_def add.assoc)
qed auto

text \<open>What a walk below \<open>n\<close> collects: the record of every guard there, once.\<close>

definition collects :: "heap \<Rightarrow> nid \<Rightarrow> nat list \<Rightarrow> bool" where
  "collects h n infos \<longleftrightarrow> (\<forall>a. count_list infos a = card {g \<in> guards_under h n. owns_info h a g})"

lemma idle_info:
  assumes r: "reachable \<sigma>" "idle \<sigma>"
  shows "info_strong (mem \<sigma>) a = card {g. owns_info (mem \<sigma>) a g}"
    "owns_info (mem \<sigma>) a g \<Longrightarrow> owns_info (mem \<sigma>) a g' \<Longrightarrow> g = g'" "owns_info (mem \<sigma>) a g \<Longrightarrow> info_alive (mem \<sigma>) a"
proof -
  note rec = records_okD(1,2) [OF reachable_records_ok [OF r(1)], of a]
  have bound: "{i. i < n_guards (mem \<sigma>) \<and> owns_info (mem \<sigma>) a i} = {g. owns_info (mem \<sigma>) a g}"
    by (auto simp: owns_info_def dest: guard_node(3) [OF r(1)])
  have hold: "holders \<sigma> a = card {g. owns_info (mem \<sigma>) a g}"
    using r(2) by (simp add: holders_def idle_def addup_eq_0_iff tally_card bound)
  show strong: "info_strong (mem \<sigma>) a = card {g. owns_info (mem \<sigma>) a g}" using rec(1) hold by simp
  have fin: "finite {g. owns_info (mem \<sigma>) a g}" by (rule finite_subset [of _ "{..<n_guards (mem \<sigma>)}"]) (use bound in auto)
  show "g = g'" if "owns_info (mem \<sigma>) a g" "owns_info (mem \<sigma>) a g'"
    using rec(2) hold fin that by (auto simp: card_le_Suc0_iff_eq)
  show "info_alive (mem \<sigma>) a" if "owns_info (mem \<sigma>) a g"
    using strong fin that by (auto simp: info_alive_def card_gt_0_iff)
qed

lemma live_records_count:
  assumes r: "reachable \<sigma>" "idle \<sigma>"
  shows "count_list (live_records (mem \<sigma>) s) a = card {g. guard_of (mem \<sigma>) s g \<and> owns_info (mem \<sigma>) a g}"
proof (cases "\<exists>g. owns_info (mem \<sigma>) a g")
  case True
  then obtain g gd where g: "owns_info (mem \<sigma>) a g" "guard_at (mem \<sigma>) g = Some gd" "gd_info gd = Some a" by (auto simp: owns_info_def)
  have unique: "x = g" if "owns_info (mem \<sigma>) a x" for x by (rule idle_info(2) [OF r that g(1)])
  have reg: "registered (mem \<sigma>) a (gd_shard gd)" using g records_okD(5) [OF reachable_records_ok [OF r(1)]] by blast
  have "count_list (live_records (mem \<sigma>) s) a = count_list (registered_in (mem \<sigma>) s) a"
    unfolding live_records_def by (rule count_list_filter) (rule idle_info(3) [OF r g(1)])
  also have "\<dots> = (if s = gd_shard gd then 1 else 0)" using reg by (simp add: registered_def count_list_0_iff)
  finally have "count_list (live_records (mem \<sigma>) s) a = (if s = gd_shard gd then 1 else 0)" .
  moreover have "{x. guard_of (mem \<sigma>) s x \<and> owns_info (mem \<sigma>) a x} = {x. x = g \<and> guard_of (mem \<sigma>) s g}"
    using unique g(1) by blast
  moreover have "guard_of (mem \<sigma>) s g \<longleftrightarrow> s = gd_shard gd" using g(2) by (auto simp: guard_of_def)
  ultimately show ?thesis by simp
next
  case False
  then have "\<not> info_alive (mem \<sigma>) a" using idle_info(1) [OF r] by (simp add: info_alive_def)
  with False show ?thesis by (auto simp: live_records_def count_list_0_iff)
qed

lemma collects_alive: "reachable \<sigma> \<Longrightarrow> idle \<sigma> \<Longrightarrow> collects (mem \<sigma>) n infos \<Longrightarrow> \<forall>a \<in> set infos. info_alive (mem \<sigma>) a"
proof
  fix a assume r: "reachable \<sigma>" "idle \<sigma>" and c: "collects (mem \<sigma>) n infos" "a \<in> set infos"
  then have "card {g \<in> guards_under (mem \<sigma>) n. owns_info (mem \<sigma>) a g} \<noteq> 0" unfolding collects_def by (metis count_list_0_iff)
  then have "{g \<in> guards_under (mem \<sigma>) n. owns_info (mem \<sigma>) a g} \<noteq> {}" by (intro notI) simp
  then obtain g where "owns_info (mem \<sigma>) a g" by blast
  then show "info_alive (mem \<sigma>) a" by (rule idle_info(3) [OF r])
qed

lemma count_list_concat: "count_list (concat xss) a = sum_list (map (\<lambda>xs. count_list xs a) xss)"
  by (induction xss) simp_all

lemma walk_bind_Ok: "m h = Ok (x, h') \<Longrightarrow> walk_bind m f h = f x h'"
  by (simp add: walk_bind_def)

lemma children_infos_walked:
  assumes "\<And>c S I f. c \<in> set cs \<Longrightarrow> held_ok h I f \<Longrightarrow> \<exists>S' infos. W c (walked S I f h) =
      Ok (infos, walked S' (\<lambda>a. I a + count_list infos a) f h) \<and> Q c infos"
    and "\<And>c infos. Q c infos \<Longrightarrow> \<forall>a \<in> set infos. info_alive h a" "\<forall>c \<in> set cs. alive h c" "held_ok h I f"
  shows "\<exists>S' outs. walk_each (\<lambda>c. walk_bind (W c) (\<lambda>out. walk_bind (drop_child c) (\<lambda>_ h. Ok (out, h)))) cs
      (walked S I (\<lambda>c. f c + count_list cs c) h) = Ok (outs, walked S' (\<lambda>a. I a + count_list (concat outs) a) f h) \<and>
    list_all2 Q cs outs"
  using assms(1,3,4)
proof (induction cs arbitrary: S I)
  case (Cons c cs)
  let ?f = "\<lambda>x. f x + count_list (c # cs) x"
  have held: "held_ok h I ?f" by (rule held_ok_more [OF Cons.prems(3,2)])
  obtain S1 infos where w: "W c (walked S I ?f h) = Ok (infos, walked S1 (\<lambda>a. I a + count_list infos a) ?f h)" "Q c infos"
    using Cons.prems(1) [OF list.set_intros(1) held] by blast
  have drop: "drop_child c (walked S1 J ?f h) = Ok ((), walked S1 J (\<lambda>x. f x + count_list cs x) h)" for J
  proof -
    have "?f(c := ?f c - 1) = (\<lambda>x. f x + count_list cs x)" by (auto simp: fun_eq_iff)
    then show ?thesis using drop_child_walked [of h c ?f S1 J] Cons.prems(2) by simp
  qed
  have "held_ok h (\<lambda>a. I a + count_list infos a) f" by (rule held_ok_records [OF Cons.prems(3) assms(2) [OF w(2)]])
  moreover have "\<forall>c \<in> set cs. alive h c" using Cons.prems(2) by simp
  ultimately obtain S2 outs where
    "walk_each (\<lambda>c. walk_bind (W c) (\<lambda>out. walk_bind (drop_child c) (\<lambda>_ h. Ok (out, h)))) cs
      (walked S1 (\<lambda>a. I a + count_list infos a) (\<lambda>c. f c + count_list cs c) h) =
      Ok (outs, walked S2 (\<lambda>a. I a + count_list infos a + count_list (concat outs) a) f h)" "list_all2 Q cs outs"
    using Cons.IH [OF Cons.prems(1) [OF list.set_intros(2)], of "\<lambda>a. I a + count_list infos a" S1] by blast
  note rest = this
  have "walk_bind (W c) (\<lambda>out. walk_bind (drop_child c) (\<lambda>_ h. Ok (out, h))) (walked S I ?f h) =
      Ok (infos, walked S1 (\<lambda>a. I a + count_list infos a) (\<lambda>x. f x + count_list cs x) h)"
    by (simp only: walk_bind_Ok [of "W c", OF w(1)] walk_bind_Ok [of "drop_child c", OF drop])
  note one = walk_bind_Ok [of "walk_bind (W c) (\<lambda>out. walk_bind (drop_child c) (\<lambda>_ h. Ok (out, h)))", OF this]
  note two = walk_bind_Ok [of "walk_each (\<lambda>c. walk_bind (W c) (\<lambda>out. walk_bind (drop_child c) (\<lambda>_ h. Ok (out, h)))) cs", OF rest(1)]
  have all: "walk_each (\<lambda>c. walk_bind (W c) (\<lambda>out. walk_bind (drop_child c) (\<lambda>_ h. Ok (out, h)))) (c # cs) (walked S I ?f h) =
      Ok (infos # outs, walked S2 (\<lambda>a. I a + count_list infos a + count_list (concat outs) a) f h)"
    by (simp only: walk_each.simps one two)
  show ?case
    using all w(2) rest(2)
    by (intro exI [of _ S2] exI [of _ "infos # outs"]) (simp only: concat.simps count_list_append add.assoc list.rel_inject simp_thms)
qed auto

lemma infos_walked:
  assumes r: "reachable \<sigma>" "idle \<sigma>"
  shows "n < n_nodes (mem \<sigma>) \<Longrightarrow> n_nodes (mem \<sigma>) - n \<le> fuel \<Longrightarrow> held_ok (mem \<sigma>) I f \<Longrightarrow>
    \<exists>S' infos. guard_infos_subtree fuel n (walked S I f (mem \<sigma>)) =
      Ok (infos, walked S' (\<lambda>a. I a + count_list infos a) f (mem \<sigma>)) \<and> collects (mem \<sigma>) n infos"
proof (induction fuel arbitrary: n S I f)
  case (Suc fuel)
  let ?h = "mem \<sigma>" and ?cs = "living (mem \<sigma>) n" and ?ss = "node_shards n (mem \<sigma>)"
  let ?own = "concat (map (live_records ?h) ?ss)"
  let ?I = "\<lambda>a. I a + count_list ?own a" and ?f = "\<lambda>c. f c + count_list ?cs c"
  have free: "\<forall>s \<in> set ?ss. sh_lock (shard_at ?h s) = None" using idle_unlocked [OF r, of n] by (simp add: unlocked_def)
  obtain S1 where own: "walk_each shard_guard_infos ?ss (walked S I f ?h) = Ok (map (live_records ?h) ?ss, walked S1 ?I f ?h)"
    using shards_infos_walked [OF Suc.prems(3) free] by blast
  have held: "held_ok ?h ?I f" by (rule held_ok_records [OF Suc.prems(3)]) (auto simp: live_records_def)
  have live: "live_children n (walked S1 ?I f ?h) = Ok (?cs, walked S1 ?I ?f ?h)"
    by (rule live_children_walked [OF held idle_unlocked [OF r]])
  have sub: "\<exists>S' infos. guard_infos_subtree fuel c (walked S I f ?h) =
      Ok (infos, walked S' (\<lambda>a. I a + count_list infos a) f ?h) \<and> collects ?h c infos"
    if c: "c \<in> set ?cs" "held_ok ?h I f" for c S I f
  proof (rule Suc.IH [OF _ _ c(2)])
    have "c < n_nodes ?h" "parent_of ?h c = Some n" using c living_children(2) [OF r Suc.prems(1)] by auto
    then show "c < n_nodes ?h" "n_nodes ?h - c \<le> fuel"
      using parent_valid(2) [OF reachable_heap_ok [OF r(1)], of c n] Suc.prems(1,2) by (auto simp: valid_node_def)
  qed
  have fine: "\<forall>a \<in> set infos. info_alive ?h a" if "collects ?h c infos" for c infos by (rule collects_alive [OF r that])
  have living: "\<forall>c \<in> set ?cs. alive ?h c" using living_alive by blast
  have "\<exists>S' outs. walk_each (\<lambda>c. walk_bind (guard_infos_subtree fuel c) (\<lambda>out. walk_bind (drop_child c) (\<lambda>_ h. Ok (out, h)))) ?cs
      (walked S1 ?I ?f ?h) = Ok (outs, walked S' (\<lambda>a. ?I a + count_list (concat outs) a) f ?h) \<and> list_all2 (collects ?h) ?cs outs"
    by (rule children_infos_walked [OF _ _ living held]) (rule sub fine; assumption)+
  then obtain S2 outs where kids: "walk_each (\<lambda>c. walk_bind (guard_infos_subtree fuel c) (\<lambda>out. walk_bind (drop_child c) (\<lambda>_ h. Ok (out, h)))) ?cs
      (walked S1 ?I ?f ?h) = Ok (outs, walked S2 (\<lambda>a. ?I a + count_list (concat outs) a) f ?h)" "list_all2 (collects ?h) ?cs outs"
    by blast
  have "guard_infos_subtree (Suc fuel) n (walked S I f ?h) =
      Ok (?own @ concat outs, walked S2 (\<lambda>a. I a + count_list (?own @ concat outs) a) f ?h)"
    using own live kids(1) by (simp add: walk_bind_def add.assoc)
  moreover have "collects ?h n (?own @ concat outs)"
    unfolding collects_def
  proof
    fix a
    have "count_list ?own a = sum_list (map (\<lambda>s. card {g. guard_of ?h s g \<and> owns_info ?h a g}) ?ss)"
      by (simp add: count_list_concat live_records_count [OF r] o_def)
    moreover have "count_list (concat outs) a = sum_list (map (\<lambda>c. card {g \<in> guards_under ?h c. owns_info ?h a g}) ?cs)"
      using kids(2) by (induction rule: list_all2_induct) (simp_all add: collects_def)
    ultimately show "count_list (?own @ concat outs) a = card {g \<in> guards_under ?h n. owns_info ?h a g}"
      by (simp add: guards_under_sum [OF r Suc.prems(1)])
  qed
  ultimately show ?case by blast
qed simp

section \<open>Reports\<close>

text \<open>After a report the registries of some shards have been swept, and nothing else has changed.\<close>

definition swept :: "sid set \<Rightarrow> heap \<Rightarrow> heap" where
  "swept S h = h\<lparr>shard_at := (\<lambda>s. if s \<in> S then sh_guards_update (registry_sweep (info_alive h)) (shard_at h s) else shard_at h s)\<rparr>"

lemma walked_end: "walked S (\<lambda>_. 0) (\<lambda>_. 0) h = swept S h"
  by (simp add: walked_def swept_def)

lemma reports_down:
  assumes r: "reachable \<sigma>"
  shows "ancestor (mem \<sigma>) n m \<Longrightarrow> m < n_nodes (mem \<sigma>) \<Longrightarrow> reports (mem \<sigma>) m = reports (mem \<sigma>) n"
proof (induction rule: ancestor.induct)
  case (up m n a)
  then have "m < n_nodes (mem \<sigma>)" using ancestor_le [OF reachable_heap_ok [OF r] up.hyps(1)] by simp
  with up reporting_okD(1) [OF reachable_reporting_ok [OF r]] show ?case by (auto simp: uniform_def)
qed simp

lemma count_le_distinct: "(\<And>a. count_list xs a \<le> 1) \<Longrightarrow> distinct xs"
proof (induction xs)
  case (Cons x xs)
  have "count_list xs a \<le> 1" for a using Cons.prems [of a] by (auto split: if_splits)
  moreover have "x \<notin> set xs" using Cons.prems [of x] by (simp add: count_list_0_iff)
  ultimately show ?case using Cons.IH by simp
qed simp

text \<open>Every guard of a reporting tree is collected through its record.\<close>

lemma collected_records:
  assumes r: "reachable \<sigma>" "idle \<sigma>" and rep: "reports (mem \<sigma>) n" and c: "collects (mem \<sigma>) n infos"
  shows "length (filter P infos) = card {g \<in> guards_under (mem \<sigma>) n. \<exists>a. owns_info (mem \<sigma>) a g \<and> P a}"
proof -
  let ?h = "mem \<sigma>" and ?G = "guards_under (mem \<sigma>) n"
  let ?info = "\<lambda>g. the (gd_info (the (guard_at ?h g)))"
  have owns: "owns_info ?h a g \<longleftrightarrow> a = ?info g" if G: "g \<in> ?G" for a g
  proof -
    obtain gd where g: "guard_at ?h g = Some gd" "ancestor ?h n (fst (gd_shard gd))" using G by (auto simp: guards_under_def)
    then have "gd_info gd \<noteq> None"
      using reporting_okD(2) [OF reachable_reporting_ok [OF r(1)] g(1)] reports_down [OF r(1) g(2) guard_node(2) [OF r(1) g(1)]] rep
      by (simp add: guard_recorded_def)
    then show ?thesis using g(1) by (auto simp: owns_info_def)
  qed
  have count: "count_list infos a = card {g \<in> ?G. owns_info ?h a g}" for a using c by (simp add: collects_def)
  have fin: "finite {g \<in> ?G. owns_info ?h a g}" for a using guards_under_finite [OF r(1)] by simp
  have "count_list infos a \<le> 1" for a
    unfolding count One_nat_def card_le_Suc0_iff_eq [OF fin] using idle_info(2) [OF r] by blast
  then have "distinct infos" by (rule count_le_distinct)
  have inj: "inj_on ?info ?G"
  proof (rule inj_onI)
    fix g g' assume "g \<in> ?G" "g' \<in> ?G" "?info g = ?info g'"
    then have "owns_info ?h (?info g) g" "owns_info ?h (?info g) g'" using owns by simp_all
    then show "g = g'" by (rule idle_info(2) [OF r])
  qed
  have "set infos = ?info ` ?G"
  proof (rule set_eqI)
    fix a
    have "a \<in> set infos \<longleftrightarrow> {g \<in> ?G. owns_info ?h a g} \<noteq> {}"
      using card_0_eq [OF fin [of a]] by (simp only: count [symmetric] count_list_0_iff not_not) blast
    then show "a \<in> set infos \<longleftrightarrow> a \<in> ?info ` ?G" using owns by auto
  qed
  then have "{a \<in> set infos. P a} = ?info ` {g \<in> ?G. P (?info g)}" by auto
  then have "card {a \<in> set infos. P a} = card {g \<in> ?G. P (?info g)}"
    using inj by (simp add: card_image inj_on_subset)
  moreover have "length (filter P infos) = card {a \<in> set infos. P a}"
    using \<open>distinct infos\<close> by (metis distinct_card distinct_filter set_filter)
  moreover have "{g \<in> ?G. P (?info g)} = {g \<in> ?G. \<exists>a. owns_info ?h a g \<and> P a}" using owns by auto
  ultimately show ?thesis by simp
qed

text \<open>The guards below \<open>n\<close> that were created at \<open>l\<close>.\<close>

definition created_at :: "heap \<Rightarrow> nid \<Rightarrow> location \<Rightarrow> gid set" where
  "created_at h n l = {g \<in> guards_under h n. \<exists>gd. guard_at h g = Some gd \<and> gd_location gd = l}"

lemma site_infos_length:
  "length (site_infos l (map (\<lambda>i. (info (infos ! i), now i)) [0..<length infos])) =
    length (filter (\<lambda>a. gi_location (info a) = l) infos)"
proof -
  have "filter (\<lambda>a. gi_location (info a) = l) infos = filter (\<lambda>a. gi_location (info a) = l) (map ((!) infos) [0..<length infos])"
    by (simp add: map_nth)
  then show ?thesis by (simp add: site_infos_def filter_map o_def)
qed

lemma entry_count:
  "(\<exists>e \<in> set (rp_entries (from_infos miri infos)). re_location e = l \<and> re_count e = k) \<longleftrightarrow>
    0 < k \<and> k = length (site_infos l infos)" (is "?L \<longleftrightarrow> ?R")
proof
  assume ?R
  then have "\<lparr>re_location = l, re_count = k, re_oldest_age = site_age miri l infos\<rparr> \<in> set (rp_entries (from_infos miri infos))"
    using from_infos_entries [of miri infos] by (auto simp: site_entry_Some)
  then show ?L by (rule bexI [rotated]) simp
qed (use from_infos_entries [of miri infos] in \<open>auto simp: site_entry_Some\<close>)

lemma report_recorded:
  assumes r: "reachable \<sigma>" "idle \<sigma>" and n: "n < n_nodes (mem \<sigma>)" "n_nodes (mem \<sigma>) - n \<le> fuel" and rep: "keeps_guard_report n (mem \<sigma>)"
  shows "\<exists>report S. swansong_guard_report miri now fuel n (mem \<sigma>) = Ok (report, swept S (mem \<sigma>)) \<and>
    report_guard_count report = card (guards_under (mem \<sigma>) n) \<and>
    (\<forall>l k. (\<exists>e \<in> set (rp_entries report). re_location e = l \<and> re_count e = k) \<longleftrightarrow> 0 < k \<and> k = card (created_at (mem \<sigma>) n l))"
proof -
  let ?h = "mem \<sigma>"
  obtain S infos where w: "guard_infos_subtree fuel n ?h = Ok (infos, walked S (\<lambda>a. 0 + count_list infos a) (\<lambda>_. 0) ?h)"
    "collects ?h n infos"
    using infos_walked [OF r n, of "\<lambda>_. 0" "\<lambda>_. 0" "{}"] by (auto simp: walked_start held_ok_def)
  let ?pairs = "map (\<lambda>i. (info_at ?h (infos ! i), now i)) [0..<length infos]"
  have rep': "reports ?h n" using rep by (simp add: reports_def)
  note records = collected_records [OF r rep' w(2)]
  have "swansong_guard_report miri now fuel n ?h = Ok (from_infos miri ?pairs, swept S ?h)"
    using rep w(1) drop_infos_walked [of infos S "\<lambda>_. 0" "\<lambda>_. 0" ?h]
    by (simp add: swansong_guard_report_def walk_bind_def walked_end)
  moreover have "report_guard_count (from_infos miri ?pairs) = card (guards_under ?h n)"
  proof -
    have "\<exists>a. owns_info ?h a g" if G: "g \<in> guards_under ?h n" for g
    proof -
      obtain gd where g: "guard_at ?h g = Some gd" "ancestor ?h n (fst (gd_shard gd))" using G by (auto simp: guards_under_def)
      then have "gd_info gd \<noteq> None"
        using reporting_okD(2) [OF reachable_reporting_ok [OF r(1)] g(1)] reports_down [OF r(1) g(2) guard_node(2) [OF r(1) g(1)]] rep'
        by (simp add: guard_recorded_def)
      then show ?thesis using g(1) by (auto simp: owns_info_def)
    qed
    then have "{g \<in> guards_under ?h n. \<exists>a. owns_info ?h a g \<and> True} = guards_under ?h n" by auto
    then show ?thesis using records [of "\<lambda>_. True"] by (simp add: from_infos_count)
  qed
  moreover have "(\<exists>e \<in> set (rp_entries (from_infos miri ?pairs)). re_location e = l \<and> re_count e = k) \<longleftrightarrow>
      0 < k \<and> k = card (created_at ?h n l)" for l k
  proof -
    have "{g \<in> guards_under ?h n. \<exists>a. owns_info ?h a g \<and> gi_location (info_at ?h a) = l} = created_at ?h n l"
    proof (intro set_eqI iffI)
      fix g assume "g \<in> {g \<in> guards_under ?h n. \<exists>a. owns_info ?h a g \<and> gi_location (info_at ?h a) = l}"
      then obtain a gd where "g \<in> guards_under ?h n" "guard_at ?h g = Some gd" "gd_info gd = Some a" "gi_location (info_at ?h a) = l"
        by (auto simp: owns_info_def)
      then show "g \<in> created_at ?h n l"
        using records_okD(5) [OF reachable_records_ok [OF r(1)]] by (auto simp: created_at_def describes_def)
    next
      fix g assume "g \<in> created_at ?h n l"
      then obtain gd where g: "g \<in> guards_under ?h n" "guard_at ?h g = Some gd" "gd_location gd = l" by (auto simp: created_at_def)
      then have "gd_info gd \<noteq> None"
        using reporting_okD(2) [OF reachable_reporting_ok [OF r(1)] g(2)] reports_down [OF r(1) _ guard_node(2) [OF r(1) g(2)]] rep'
        by (auto simp: guard_recorded_def guards_under_def)
      then obtain a where a: "gd_info gd = Some a" by blast
      then show "g \<in> {g \<in> guards_under ?h n. \<exists>a. owns_info ?h a g \<and> gi_location (info_at ?h a) = l}"
        using g records_okD(5) [OF reachable_records_ok [OF r(1)] g(2) a] by (auto simp: owns_info_def describes_def)
    qed
    then have "length (site_infos l ?pairs) = card (created_at ?h n l)"
      using records [of "\<lambda>a. gi_location (info_at ?h a) = l"] by (simp only: site_infos_length)
    then show ?thesis by (simp only: entry_count)
  qed
  ultimately show ?thesis by blast
qed

text \<open>A tree that does not report only counts.\<close>

lemma report_unrecorded_exact:
  assumes "reachable \<sigma>" "idle \<sigma>" "n < n_nodes (mem \<sigma>)" "n_nodes (mem \<sigma>) - n \<le> fuel" "\<not> keeps_guard_report n (mem \<sigma>)"
  shows "swansong_guard_report miri now fuel n (mem \<sigma>) =
    Ok (report_unrecorded (card (guards_under (mem \<sigma>) n)), swept {} (mem \<sigma>))"
  using count_exact [OF assms(1-4)] assms(5) by (simp add: swansong_guard_report_def walk_bind_def swept_def)

text \<open>A sweep leaves the records that are alive.\<close>

lemma swept_records: "live_records (swept S h) s = live_records h s"
proof -
  have "info_alive (swept S h) = info_alive h" by (simp add: info_alive_def swept_def fun_eq_iff)
  then show ?thesis by (simp add: live_records_def registered_in_def) (simp add: swept_def registry_defs)
qed

end
