(* ===== verification/Causes.thy ===== *)
theory Causes
  imports Quiescence
begin

text \<open>
  Why nodes stop. The number that \<^verbatim>\<open>Swansong::clone\<close> and \<^verbatim>\<open>Drop for Swansong\<close> keep is the number
  of handles, and a root without handles is stopped. A stop needs a cause: a node stops only if
  it or a node above it is shut down, or the root above it loses its last handle. And an
  interrupt ends only if its node was stopped or collected.
\<close>

declare split_paired_All [simp del] split_paired_Ex [simp del]

section \<open>Counting handles\<close>

text \<open>The frames that stand for a handle that is being made or dropped.\<close>

fun handle_token :: "frame \<Rightarrow> nid option" where
  "handle_token (Swan (HandleCloneArc n)) = Some n"
| "handle_token (Swan (HandleDrop n)) = Some n"
| "handle_token (Life (ChildRegister c)) = Some c"
| "handle_token (Life (ChildStoreKey c k)) = Some c"
| "handle_token (Life (ChildCheck c)) = Some c"
| "handle_token (Life (ChildReturn c)) = Some c"
| "handle_token _ = None"

definition handle_frames :: "frame list \<Rightarrow> nid \<Rightarrow> nat" where
  "handle_frames fs n = count_list (map handle_token fs) (Some n)"

definition table_handles :: "heap \<Rightarrow> nid \<Rightarrow> nat" where
  "table_handles h n = tally (n_handles h) (\<lambda>x. handle_at h x = Some n)"

abbreviation swansongs :: "heap \<Rightarrow> nid \<Rightarrow> nat" where
  "swansongs h n \<equiv> in_swansong_count (node_at h n)"

definition handles_ok :: "sys \<Rightarrow> bool" where
  "handles_ok \<sigma> \<longleftrightarrow> (\<forall>n<n_nodes (mem \<sigma>).
     swansongs (mem \<sigma>) n = table_handles (mem \<sigma>) n + addup (n_threads \<sigma>) (\<lambda>t. handle_frames (stack \<sigma> t) n))"

lemma handle_frames_simps [simp]:
  "handle_frames [] n = 0" "handle_frames (f # fs) n = of_bool (handle_token f = Some n) + handle_frames fs n"
  "handle_frames (fs @ gs) n = handle_frames fs n + handle_frames gs n"
  by (simp_all add: handle_frames_def)

lemma handle_frames_none: "\<forall>g \<in> set fs. handle_token g = None \<Longrightarrow> handle_frames fs n = 0"
  by (induction fs) auto

lemma handle_frames_invalid: "\<forall>f \<in> set fs. frame_ok h f \<Longrightarrow> \<not> n < n_nodes h \<Longrightarrow> handle_frames fs n = 0"
proof (induction fs)
  case (Cons f fs)
  then show ?case by (cases f rule: handle_token.cases) (auto simp: valid_node_def)
qed simp

definition same_handles :: "heap \<Rightarrow> heap \<Rightarrow> bool" where
  "same_handles h h' \<longleftrightarrow> handle_at h' = handle_at h \<and> n_handles h' = n_handles h \<and>
     (\<forall>n. swansongs h' n = swansongs h n)"

lemma same_handles_refl [simp]: "same_handles h h"
  by (simp add: same_handles_def)

fun moves_handles :: "frame \<Rightarrow> bool" where
  "moves_handles (Swan (HandleClone n)) = True"
| "moves_handles (Swan (HandleCloneArc n)) = True"
| "moves_handles (Swan (HandleDrop n)) = True"
| "moves_handles (Life (ChildNew n)) = True"
| "moves_handles (Life (ChildReturn c)) = True"
| "moves_handles _ = False"

lemma same_handles_index: "shard_index t n h = (h1, i) \<Longrightarrow> handle_at h1 = handle_at h \<and> n_handles h1 = n_handles h \<and>
    node_at h1 = node_at h \<and> n_nodes h1 = n_nodes h \<and> shard_at h1 = shard_at h"
  by (auto simp: shard_index_def thread_index_def Let_def split: if_splits prod.splits)

lemmas handles_simps = same_handles_def set_shard_word_def set_node_word_def notify_zero_def
  lock_acquire_def lock_release_def arc_clone_def weak_upgrade_def

lemma provenance_return_handles [simp]: "handle_frames (provenance_return s loc info ret h) n = 0"
  by (cases ret) simp_all

text \<open>The other frames move no handle, and hand on the one they stand for.\<close>

lemma exec_same_handles:
  assumes step: "exec t b f h = Next h' gs" and f: "\<not> moves_handles f"
  shows "same_handles h h' \<and> handle_frames gs n = of_bool (handle_token f = Some n)"
proof (cases f)
  case (Count c)
  then show ?thesis
  proof (cases c)
    case (NodeArriveLoop m st)
    then show ?thesis using step Count same_handles_index [of t _ h]
      by (auto simp: node_arrive_loop_def shard_ref_def atomic_defs handles_simps split: option.splits if_splits prod.splits)
  qed (use step in \<open>auto simp: step_defs shard_ref_def handles_simps atomic_defs Let_def split: option.splits if_splits\<close>)
next
  case (Stop c)
  then show ?thesis
  proof (cases c)
    case (ShardWake s w ws)
    then show ?thesis using step Stop by (cases ws) (auto simp: handles_simps split: if_splits)
  next
    case (StopUpgrade m i cs live)
    then show ?thesis using step Stop by (cases cs) (auto simp: handles_simps split: option.splits if_splits)
  next
    case (StopChildren m i live)
    have "handle_frames (concat (map (\<lambda>c. [Stop (NodeStop c), Life (DropArc c)]) live)) n = 0"
      by (rule handle_frames_none) auto
    with StopChildren show ?thesis using step Stop by (auto simp: step_defs handles_simps split: if_splits)
  next
    case (NodeStop m)
    have "handle_frames (stop_shards m h) n = 0" for h by (rule handle_frames_none) (auto simp: stop_shards_def)
    with NodeStop show ?thesis using step Stop by (auto simp: step_defs handles_simps Let_def simp del: stop_shards_def split: if_splits)
  qed (use step in \<open>auto simp: step_defs handles_simps Let_def split: if_splits\<close>)
next
  case (Life c)
  then show ?thesis
  proof (cases c)
    case (DropArc m)
    have "handle_frames (stop_shards m h) n = 0" for h by (rule handle_frames_none) (auto simp: stop_shards_def)
    with DropArc show ?thesis using step Life by (auto simp: drop_arc_def handles_simps Let_def split: if_splits option.splits)
  qed (use step f in \<open>auto simp: step_defs handles_simps Let_def split: option.splits if_splits prod.splits\<close>)
next
  case (Grd c)
  then show ?thesis
    using step same_handles_index [of t _ h]
    by (cases c) (auto simp: step_defs inner_shard_def alloc_guard_def alloc_info_def handles_simps atomic_defs Let_def
        split: if_splits option.splits prod.splits elim!: provenance_return.elims)
next
  case (Swan c)
  then show ?thesis
    using step f same_handles_index [of t _ h]
    by (cases c) (auto simp: step_defs inner_shard_def alloc_interrupt_def alloc_completion_def handles_simps Let_def split: prod.splits)
next
  case (Intr c)
  then show ?thesis
    using step by (cases "(t, b, c, h)" rule: intr_step.cases)
      (auto simp: step_defs on_interrupt_def poll_returns_def handles_simps Let_def split: if_splits option.splits prod.splits)
qed (use step in auto)

lemma table_alloc:
  assumes "\<forall>x m. handle_at h x = Some m \<longrightarrow> x < n_handles h"
  shows "table_handles (alloc_handle c h) n = table_handles h n + of_bool (c = n)"
proof -
  have "table_handles (alloc_handle c h) n = tally (Suc (n_handles h)) (\<lambda>x. ((handle_at h)(n_handles h \<mapsto> c)) x = Some n)"
    by (simp add: table_handles_def alloc_handle_def)
  also have "\<dots> = tally (n_handles h) (\<lambda>x. handle_at h x = Some n) + of_bool (((handle_at h)(n_handles h \<mapsto> c)) (n_handles h) = Some n)"
    by (rule tally_alloc) simp
  finally show ?thesis by (simp add: table_handles_def)
qed

lemma exec_handles:
  assumes step: "exec t b f h = Next h' gs" and bound: "\<forall>x m. handle_at h x = Some m \<longrightarrow> x < n_handles h"
    and n: "n < n_nodes h" and pos: "handle_token f = Some n \<Longrightarrow> 0 < swansongs h n"
  shows "swansongs h' n + table_handles h n + of_bool (handle_token f = Some n) =
    swansongs h n + table_handles h' n + handle_frames gs n"
proof (cases "moves_handles f")
  case False
  with exec_same_handles [OF step False, of n] show ?thesis by (simp add: same_handles_def table_handles_def)
next
  case True
  then show ?thesis
  proof (cases f rule: moves_handles.cases)
    case (1 m)
    with step show ?thesis by (auto simp: swansong_clone_def table_handles_def)
  next
    case (2 m)
    then have h': "h' = alloc_handle m (arc_clone m h)" "gs = []" using step by (auto simp: swansong_clone_arc_def)
    have "table_handles h' n = table_handles (arc_clone m h) n + of_bool (m = n)"
      unfolding h' by (rule table_alloc) (use bound in \<open>simp add: arc_clone_def\<close>)
    with 2 h' show ?thesis by (simp add: table_handles_def arc_clone_def alloc_handle_def)
  next
    case (3 m)
    with step pos show ?thesis by (auto simp: handle_drop_def swansong_drop_def table_handles_def)
  next
    case (4 m)
    obtain h1 i where h1: "shard_index t m h = (h1, i)" by fastforce
    note same = same_handles_index [OF h1]
    have "gs = [Life (ChildRegister (n_nodes h))]" "swansongs h' n = swansongs h n" "handle_at h' = handle_at h" "n_handles h' = n_handles h"
      using step 4 h1 same n by (auto simp: child_new_def alloc_node_def arc_clone_def Let_def)
    then show ?thesis using 4 n by (simp add: table_handles_def)
  next
    case (5 c)
    then have h': "h' = alloc_handle c h" "gs = []" using step by (auto simp: child_return_def)
    with 5 table_alloc [OF bound, of c n] show ?thesis by (simp add: alloc_handle_def)
  qed (use True in auto)
qed

lemma new_child_handles:
  assumes step: "exec t b (Life (ChildNew p)) h = Next h' gs"
  shows "n_nodes h' = Suc (n_nodes h)" "gs = [Life (ChildRegister (n_nodes h))]" "swansongs h' (n_nodes h) = 1"
    "handle_at h' = handle_at h"
proof -
  obtain h1 i where h1: "shard_index t p h = (h1, i)" by fastforce
  note same = same_handles_index [OF h1]
  show "n_nodes h' = Suc (n_nodes h)" "gs = [Life (ChildRegister (n_nodes h))]" "swansongs h' (n_nodes h) = 1" "handle_at h' = handle_at h"
    using step h1 same by (auto simp: child_new_def alloc_node_def arc_clone_def inner_new_def Let_def)
qed

lemma handles_bounded: "reachable \<sigma> \<Longrightarrow> handle_at (mem \<sigma>) x = Some m \<Longrightarrow> x < n_handles (mem \<sigma>) \<and> m < n_nodes (mem \<sigma>)"
  using owner_okD(1) [OF reachable_owner_ok] heap_okD(3) [OF reachable_heap_ok] by (fastforce simp: tables_bounded_def valid_node_def)

lemma handles_ok_run:
  assumes r: "reachable \<sigma>" "within_limits \<sigma>" "t < n_threads \<sigma>" "stack \<sigma> t = f # fs"
    and step: "exec t b f (mem \<sigma>) = Next h gs" and inv: "handles_ok \<sigma>"
  shows "handles_ok (\<sigma>\<lparr>mem := h, stack := (stack \<sigma>)(t := gs @ fs)\<rparr>)"
proof -
  let ?\<sigma> = "\<sigma>\<lparr>mem := h, stack := (stack \<sigma>)(t := gs @ fs)\<rparr>"
  have sum: "addup (n_threads \<sigma>) (\<lambda>u. handle_frames (stack ?\<sigma> u) n) + handle_frames (f # fs) n =
      addup (n_threads \<sigma>) (\<lambda>u. handle_frames (stack \<sigma> u) n) + handle_frames (gs @ fs) n" for n
    using addup_change [OF r(3), of "\<lambda>u. handle_frames (stack ?\<sigma> u) n" "\<lambda>u. handle_frames (stack \<sigma> u) n"] r(4) by simp
  have "swansongs h n = table_handles h n + addup (n_threads \<sigma>) (\<lambda>u. handle_frames (stack ?\<sigma> u) n)" if n: "n < n_nodes h" for n
  proof (cases "n < n_nodes (mem \<sigma>)")
    case True
    have old: "swansongs (mem \<sigma>) n = table_handles (mem \<sigma>) n + addup (n_threads \<sigma>) (\<lambda>u. handle_frames (stack \<sigma> u) n)"
      using inv True by (simp add: handles_ok_def)
    have "0 < swansongs (mem \<sigma>) n" if "handle_token f = Some n"
      using old member_le_addup [OF r(3), of "\<lambda>u. handle_frames (stack \<sigma> u) n"] r(4) that by simp
    from exec_handles [OF step _ True this] handles_bounded [OF r(1)] old sum [of n] show ?thesis by simp
  next
    case False
    then have "\<exists>p. f = Life (ChildNew p)"
      using exec_n_nodes [OF step reachable_heap_ok [OF r(1)] reachable_top_ok [OF r(1,3,4)]] n by fastforce
    then obtain p where f: "f = Life (ChildNew p)" ..
    note new = new_child_handles [OF step [unfolded f]]
    have eq: "n = n_nodes (mem \<sigma>)" using n False new(1) by simp
    have "handle_frames (stack \<sigma> u) n = 0" if "u < n_threads \<sigma>" for u
      using handle_frames_invalid [of _ "mem \<sigma>" n] reachable_frame_ok [OF r(1) that] False by blast
    moreover from this [OF r(3)] have "handle_frames fs n = 0" using r(4) by simp
    ultimately have "addup (n_threads \<sigma>) (\<lambda>u. handle_frames (stack \<sigma> u) n) = 0" "handle_frames fs n = 0"
      by (simp_all add: addup_eq_0_iff)
    moreover have "table_handles h n = 0"
      using handles_bounded [OF r(1)] False new(4) by (auto simp: table_handles_def addup_eq_0_iff)
    ultimately show ?thesis using sum [of n] new eq f by simp
  qed
  then show ?thesis by (simp add: handles_ok_def)
qed

text \<open>A call that consumes a handle leaves the frame that drops it.\<close>

lemma call_handles:
  assumes call: "begin_call c h = Some (h', fs)" and bound: "\<forall>x m. handle_at h x = Some m \<longrightarrow> x < n_handles h \<and> m < n_nodes h"
    and n: "n < n_nodes h"
  shows "swansongs h' n = swansongs h n" "table_handles h' n + handle_frames fs n = table_handles h n"
proof -
  have removed: "table_handles (h\<lparr>handle_at := (handle_at h)(x := None)\<rparr>) n + of_bool (m = n) = table_handles h n"
    if x: "handle_at h x = Some m" for x m
  proof -
    have "table_handles (h\<lparr>handle_at := (handle_at h)(x := None)\<rparr>) n = tally (n_handles h) (\<lambda>y. if y = x then False else handle_at h y = Some n)"
      unfolding table_handles_def by (rule addup_cong [THEN trans]) auto
    then show ?thesis
      using tally_fun_upd [of x "n_handles h" False "\<lambda>y. handle_at h y = Some n"] bound x by (simp add: table_handles_def)
  qed
  have new: "table_handles (new_root rep h) n = table_handles h n" for rep
  proof -
    have eq: "new_root rep h = alloc_handle (n_nodes h) (fst (alloc_node None (root_shard_count h) rep h))"
      by (simp add: new_root_def alloc_node_def Let_def)
    show ?thesis
      unfolding eq by (subst table_alloc) (use bound n in \<open>auto simp: alloc_node_def table_handles_def Let_def\<close>)
  qed
  show "swansongs h' n = swansongs h n"
    using call n by (cases c) (auto simp: on_handle_def new_root_def alloc_node_def alloc_handle_def Let_def split: option.splits if_splits)
  show "table_handles h' n + handle_frames fs n = table_handles h n"
  proof (cases c)
    case (CallNew rep)
    with call new show ?thesis by (auto split: if_splits)
  next
    case (CallDrop x)
    with call removed show ?thesis by (auto simp: on_handle_def split: option.splits)
  next
    case (CallIntoFuture x)
    with call removed show ?thesis by (auto simp: on_handle_def split: option.splits)
  qed (use call in \<open>auto simp: on_handle_def drop_frames_def table_handles_def split: option.splits if_splits\<close>)
qed

lemma new_root_handles:
  assumes "\<forall>x m. handle_at h x = Some m \<longrightarrow> x < n_handles h \<and> m < n_nodes h"
  shows "swansongs (new_root rep h) (n_nodes h) = 1" "table_handles (new_root rep h) (n_nodes h) = 1"
proof -
  have eq: "new_root rep h = alloc_handle (n_nodes h) (fst (alloc_node None (root_shard_count h) rep h))"
    by (simp add: new_root_def alloc_node_def Let_def)
  show "swansongs (new_root rep h) (n_nodes h) = 1"
    by (simp add: new_root_def alloc_node_def alloc_handle_def inner_new_def Let_def)
  have "table_handles h (n_nodes h) = 0" using assms by (auto simp: table_handles_def addup_eq_0_iff)
  then show "table_handles (new_root rep h) (n_nodes h) = 1"
    unfolding eq by (subst table_alloc) (use assms in \<open>auto simp: alloc_node_def table_handles_def Let_def\<close>)
qed

lemma handles_ok_call:
  assumes r: "reachable \<sigma>" "t < n_threads \<sigma>" "stack \<sigma> t = []"
    and call: "begin_call c (mem \<sigma>) = Some (h, fs)" and inv: "handles_ok \<sigma>"
  shows "handles_ok (\<sigma>\<lparr>mem := h, stack := (stack \<sigma>)(t := fs)\<rparr>)"
proof -
  let ?\<sigma> = "\<sigma>\<lparr>mem := h, stack := (stack \<sigma>)(t := fs)\<rparr>"
  have bound: "\<forall>x m. handle_at (mem \<sigma>) x = Some m \<longrightarrow> x < n_handles (mem \<sigma>) \<and> m < n_nodes (mem \<sigma>)"
    using handles_bounded [OF r(1)] by blast
  have sum: "addup (n_threads \<sigma>) (\<lambda>u. handle_frames (stack ?\<sigma> u) n) =
      addup (n_threads \<sigma>) (\<lambda>u. handle_frames (stack \<sigma> u) n) + handle_frames fs n" for n
    using addup_change [OF r(2), of "\<lambda>u. handle_frames (stack ?\<sigma> u) n" "\<lambda>u. handle_frames (stack \<sigma> u) n"] r(3) by simp
  have "swansongs h n = table_handles h n + addup (n_threads \<sigma>) (\<lambda>u. handle_frames (stack ?\<sigma> u) n)" if n: "n < n_nodes h" for n
  proof (cases "n < n_nodes (mem \<sigma>)")
    case True
    with call_handles [OF call bound True] inv sum [of n] show ?thesis by (simp add: handles_ok_def)
  next
    case False
    then obtain rep where c: "c = CallNew rep" using n begin_call_links(1) [OF call] by (auto simp: same_links_def)
    then have h: "h = new_root rep (mem \<sigma>)" "fs = []" using begin_call_new call by (auto split: if_splits)
    then have eq: "n = n_nodes (mem \<sigma>)" using n False by (simp add: new_root_effect(1))
    have "handle_frames (stack \<sigma> u) n = 0" if "u < n_threads \<sigma>" for u
      using handle_frames_invalid [of _ "mem \<sigma>" n] reachable_frame_ok [OF r(1) that] False by blast
    then show ?thesis using sum [of n] new_root_handles [OF bound] h eq by (simp add: addup_eq_0_iff)
  qed
  then show ?thesis by (simp add: handles_ok_def)
qed

interpretation handles: system_invariant handles_ok
proof
  show "handles_ok (sys_init threads par)" for threads par by (simp add: handles_ok_def sys_init_def heap_init_def)
  show "handles_ok (\<sigma>\<lparr>mem := (mem \<sigma>)\<lparr>clock := clock (mem \<sigma>) + d\<rparr>\<rparr>)" if "handles_ok \<sigma>" for \<sigma> d
    using that by (simp add: handles_ok_def table_handles_def)
qed (use handles_ok_call handles_ok_run in \<open>blast+\<close>)

lemmas reachable_handles_ok = handles.always

section \<open>A root without handles\<close>

definition governed :: "sys \<Rightarrow> bool" where
  "governed \<sigma> \<longleftrightarrow> (\<forall>n<n_nodes (mem \<sigma>). parent_of (mem \<sigma>) n = None \<longrightarrow> swansongs (mem \<sigma>) n = 0 \<longrightarrow>
     node_is_stopped n (mem \<sigma>) \<or> pending \<sigma> (Stop (NodeStop n)))"

lemma last_handle_dropped:
  assumes step: "exec t b f h = Next h' gs" and n: "n < n_nodes h" "swansongs h' n = 0" "swansongs h n \<noteq> 0" "parent_of h n = None"
  shows "Stop (NodeStop n) \<in> set gs"
proof (cases "moves_handles f")
  case False
  with exec_same_handles [OF step False, of n] n show ?thesis by (simp add: same_handles_def)
next
  case True
  then show ?thesis
  proof (cases f rule: moves_handles.cases)
    case (3 m)
    with step n show ?thesis by (auto simp: handle_drop_def swansong_drop_def is_root_def parent_of_def split: if_splits)
  next
    case (4 m)
    obtain h1 i where h1: "shard_index t m h = (h1, i)" by fastforce
    with step 4 n same_handles_index [OF h1] show ?thesis by (auto simp: child_new_def alloc_node_def arc_clone_def Let_def split: if_splits)
  qed (use True step n in \<open>auto simp: swansong_clone_def swansong_clone_arc_def child_return_def alloc_handle_def arc_clone_def split: if_splits\<close>)
qed

lemma stopped_node_run:
  assumes r: "reachable \<sigma>" "within_limits \<sigma>" "t < n_threads \<sigma>" "stack \<sigma> t = f # fs"
    and step: "exec t b f (mem \<sigma>) = Next h gs" and n: "n < n_nodes (mem \<sigma>)"
  shows "node_is_stopped n h \<longleftrightarrow> node_is_stopped n (mem \<sigma>) \<or> f = Stop (NodeStop n)"
  using step_stop_effect(1) [OF step.run [OF r(3,4) step] reachable_sys_ok [OF r(1)] r(2), of n] n r(4)
  by (auto simp: valid_node_def)

lemma governed_run:
  assumes r: "reachable \<sigma>" "within_limits \<sigma>" "t < n_threads \<sigma>" "stack \<sigma> t = f # fs"
    and step: "exec t b f (mem \<sigma>) = Next h gs" and inv: "governed \<sigma>"
  shows "governed (\<sigma>\<lparr>mem := h, stack := (stack \<sigma>)(t := gs @ fs)\<rparr>)"
proof -
  let ?\<sigma> = "\<sigma>\<lparr>mem := h, stack := (stack \<sigma>)(t := gs @ fs)\<rparr>"
  have "node_is_stopped n h \<or> pending ?\<sigma> (Stop (NodeStop n))"
    if n: "n < n_nodes h" "parent_of h n = None" "swansongs h n = 0" for n
  proof (cases "n < n_nodes (mem \<sigma>)")
    case True
    have p: "parent_of (mem \<sigma>) n = None"
      using parent_of_extends [OF run_extends [OF r step]] True n(2) by (simp add: valid_node_def)
    show ?thesis
    proof (cases "swansongs (mem \<sigma>) n = 0")
      case True
      then have "node_is_stopped n (mem \<sigma>) \<or> pending \<sigma> (Stop (NodeStop n))"
        using inv p \<open>n < n_nodes (mem \<sigma>)\<close> by (simp add: governed_def)
      then show ?thesis
        using stopped_node_run [OF r step \<open>n < n_nodes (mem \<sigma>)\<close>] pending_run(2) [OF r(3,4)] by blast
    next
      case False
      then show ?thesis using last_handle_dropped [OF step True n(3) _ p] pending_run(1) [OF r(3,4)] by blast
    qed
  next
    case False
    then have "\<exists>p. f = Life (ChildNew p)"
      using exec_n_nodes [OF step reachable_heap_ok [OF r(1)] reachable_top_ok [OF r(1,3,4)]] n by fastforce
    then obtain p where f: "f = Life (ChildNew p)" ..
    show ?thesis using new_child_handles [OF step [unfolded f]] n False by (simp add: less_Suc_eq)
  qed
  then show ?thesis by (simp add: governed_def)
qed

lemma governed_call:
  assumes r: "reachable \<sigma>" "t < n_threads \<sigma>" "stack \<sigma> t = []"
    and call: "begin_call c (mem \<sigma>) = Some (h, fs)" and inv: "governed \<sigma>"
    and ext: "extends (mem \<sigma>) h"
  shows "governed (\<sigma>\<lparr>mem := h, stack := (stack \<sigma>)(t := fs)\<rparr>)"
proof -
  have bound: "\<forall>x m. handle_at (mem \<sigma>) x = Some m \<longrightarrow> x < n_handles (mem \<sigma>) \<and> m < n_nodes (mem \<sigma>)"
    using handles_bounded [OF r(1)] by blast
  have "node_is_stopped n h \<or> pending (\<sigma>\<lparr>mem := h, stack := (stack \<sigma>)(t := fs)\<rparr>) (Stop (NodeStop n))"
    if n: "n < n_nodes h" "parent_of h n = None" "swansongs h n = 0" for n
  proof (cases "n < n_nodes (mem \<sigma>)")
    case True
    have "parent_of (mem \<sigma>) n = None" using parent_of_extends [OF ext] True n(2) by (simp add: valid_node_def)
    then have "node_is_stopped n (mem \<sigma>) \<or> pending \<sigma> (Stop (NodeStop n))"
      using inv True n(3) call_handles(1) [OF call bound True] by (simp add: governed_def)
    then show ?thesis
      using call_kept(1) [OF call True] pending_call [OF r(3)] by (auto simp: node_is_stopped_def)
  next
    case False
    then obtain rep where c: "c = CallNew rep" using n begin_call_links(1) [OF call] by (auto simp: same_links_def)
    then have h: "h = new_root rep (mem \<sigma>)" using begin_call_new call by blast
    then have "n = n_nodes (mem \<sigma>)" using n(1) False by (simp add: new_root_effect(1))
    then show ?thesis using new_root_handles [OF bound] h n(3) by simp
  qed
  then show ?thesis by (simp add: governed_def)
qed

interpretation governing: system_invariant governed
proof
  show "governed (sys_init threads par)" for threads par by (simp add: governed_def sys_init_def heap_init_def)
  show "governed (\<sigma>\<lparr>mem := (mem \<sigma>)\<lparr>clock := clock (mem \<sigma>) + d\<rparr>\<rparr>)" if "governed \<sigma>" for \<sigma> d
    using that by (simp add: governed_def parent_of_def node_is_stopped_def pending_def)
  show "governed (\<sigma>\<lparr>mem := h, stack := (stack \<sigma>)(t := fs)\<rparr>)"
    if "reachable \<sigma>" "within_limits \<sigma>" "governed \<sigma>" "t < n_threads \<sigma>" "stack \<sigma> t = []" "may_call c \<sigma>"
      "begin_call c (mem \<sigma>) = Some (h, fs)" for \<sigma> t c h fs
    using governed_call [OF that(1,4,5,7,3)] step_extends [OF step.call [OF that(4-7)] reachable_sys_ok [OF that(1)] that(2)] by simp
qed (use governed_run in blast)

lemmas reachable_governed = governing.always

text \<open>At rest the handles are counted exactly, and a root nobody has a handle of is stopped.\<close>

lemma idle_handles:
  assumes r: "reachable \<sigma>" "idle \<sigma>" and n: "n < n_nodes (mem \<sigma>)"
  shows "swansongs (mem \<sigma>) n = card {x. handle_at (mem \<sigma>) x = Some n}"
    and "parent_of (mem \<sigma>) n = None \<Longrightarrow> \<forall>x. handle_at (mem \<sigma>) x \<noteq> Some n \<Longrightarrow> node_is_stopped n (mem \<sigma>)"
proof -
  have "{x. x < n_handles (mem \<sigma>) \<and> handle_at (mem \<sigma>) x = Some n} = {x. handle_at (mem \<sigma>) x = Some n}"
    using handles_bounded [OF r(1)] by blast
  then show count: "swansongs (mem \<sigma>) n = card {x. handle_at (mem \<sigma>) x = Some n}"
    using reachable_handles_ok [OF r(1)] r(2) n
    by (simp add: handles_ok_def table_handles_def tally_card idle_def addup_eq_0_iff)
  show "node_is_stopped n (mem \<sigma>)" if "parent_of (mem \<sigma>) n = None" "\<forall>x. handle_at (mem \<sigma>) x \<noteq> Some n"
    using reachable_governed [OF r(1)] idle_not_pending [OF r(2)] count that n by (simp add: governed_def)
qed

section \<open>A stop needs a cause\<close>

text \<open>A traversal stops children of a stopped node.\<close>

fun traverses :: "heap \<Rightarrow> frame \<Rightarrow> bool" where
  "traverses h (Stop (StopChildren m i live)) \<longleftrightarrow> node_is_stopped m h \<and> (\<forall>c \<in> set live. parent_of h c = Some m)"
| "traverses h (Stop (StopUpgrade m i cs live)) \<longleftrightarrow>
     node_is_stopped m h \<and> (\<forall>c \<in> set cs \<union> set live. parent_of h c = Some m)"
| "traverses h f \<longleftrightarrow> True"

definition traversing_ok :: "sys \<Rightarrow> bool" where
  "traversing_ok \<sigma> \<longleftrightarrow> (\<forall>f. pending \<sigma> f \<longrightarrow> traverses (mem \<sigma>) f)"

fun traversal :: "frame \<Rightarrow> bool" where
  "traversal (Stop (StopChildren m i live)) = True"
| "traversal (Stop (StopUpgrade m i cs live)) = True"
| "traversal _ = False"

lemma traverses_none: "\<not> traversal f \<Longrightarrow> traverses h f"
  by (cases f rule: traversal.cases) auto

text \<open>Where the frames of a traversal and the stops come from.\<close>

lemma exec_traversal:
  assumes step: "exec t b f h = Next h' gs" and g: "g \<in> set gs" "traversal g \<or> g = Stop (NodeStop a)"
  shows "(\<exists>c. f = Stop c) \<or> (\<exists>c. f = Life (ChildCheck c)) \<or> (\<exists>n. f = Swan (HandleDrop n))"
proof (cases f)
  case (Count c)
  with step g show ?thesis
    by (cases c) (auto simp: step_defs atomic_defs shard_ref_def Let_def split: if_splits option.splits prod.splits)
next
  case (Life c)
  with step g show ?thesis
    by (cases c) (auto simp: step_defs stop_shards_def Let_def split: if_splits option.splits prod.splits)
next
  case (Grd c)
  have "g \<notin> set (provenance_return s loc info ret h)" for s loc info ret h using g(2) by (cases ret) auto
  with step g Grd show ?thesis
    by (cases c) (auto simp: step_defs atomic_defs Let_def split: if_splits option.splits prod.splits)
next
  case (Swan c)
  with step g show ?thesis by (cases c) (auto simp: step_defs split: prod.splits)
next
  case (Intr c)
  with step g show ?thesis
    by (cases "(t, b, c, h)" rule: intr_step.cases)
      (auto simp: step_defs on_interrupt_def poll_returns_def Let_def split: if_splits option.splits prod.splits)
qed (use step g in auto)

lemma stop_origin:
  assumes step: "exec t b f h = Next h' gs" and g: "Stop (NodeStop a) \<in> set gs"
  shows "(\<exists>m i live. f = Stop (StopChildren m i live) \<and> a \<in> set live) \<or>
    (f = Life (ChildCheck a) \<and> (\<exists>p. parent_of h a = Some p \<and> node_is_stopped p h)) \<or>
    (f = Swan (HandleDrop a) \<and> is_root a h \<and> swansongs h a = 1)"
proof -
  consider c where "f = Stop c" | c where "f = Life (ChildCheck c)" | n where "f = Swan (HandleDrop n)"
    using exec_traversal [OF step g] by auto
  then show ?thesis
  proof cases
    case (1 c)
    then show ?thesis
    proof (cases c)
      case (ShardWake s w ws)
      with step g 1 show ?thesis by (cases ws) (auto split: if_splits)
    next
      case (StopUpgrade n i cs live)
      with step g 1 show ?thesis by (cases cs) (auto split: option.splits)
    qed (use step g 1 in \<open>auto simp: step_defs stop_shards_def Let_def split: if_splits\<close>)
  next
    case (2 c)
    with step g show ?thesis by (auto simp: child_check_def parent_of_def split: option.splits if_splits)
  next
    case (3 n)
    with step g show ?thesis by (auto simp: handle_drop_def swansong_drop_def is_root_def split: if_splits)
  qed
qed

lemma collected_children:
  assumes r: "reachable \<sigma>" and v: "valid_shard (mem \<sigma>) (m, i)" and x: "x \<in> set (slab_values (sh_children (shard_at (mem \<sigma>) (m, i))))"
  shows "parent_of (mem \<sigma>) x = Some m" "valid_node (mem \<sigma>) x"
proof -
  obtain k where "child_slab (mem \<sigma>) (m, i) k = Some x" using x by (auto simp: set_slab_values ran_def child_slab_def)
  then have "link_of (mem \<sigma>) x = Some (m, i)" by (rule registration_okD(2) [OF reachable_registration_ok [OF r] v])
  then show "parent_of (mem \<sigma>) x = Some m" by (simp add: parent_of_link)
  show "valid_node (mem \<sigma>) x"
    using heap_okD(1) [OF reachable_heap_ok [OF r] v] x by (simp add: shard_ok_def valid_node_def)
qed

lemma traverses_stop_run:
  assumes r: "reachable \<sigma>" "within_limits \<sigma>" "t < n_threads \<sigma>" "stack \<sigma> t = Stop c # fs"
    and step: "exec t b (Stop c) (mem \<sigma>) = Next h gs" and f: "traverses (mem \<sigma>) (Stop c)" "frame_ok (mem \<sigma>) (Stop c)"
    and g: "g \<in> set gs" "traversal g"
  shows "traverses h g"
proof -
  note stopped = stopped_node_run [OF r step]
  have parent: "parent_of h n = parent_of (mem \<sigma>) n" if "valid_node (mem \<sigma>) n" for n
    by (rule parent_of_extends [OF run_extends [OF r step] that])
  show ?thesis
  proof (cases c)
    case (NodeStop n)
    then have "node_is_stopped n h" using stopped [of n] f(2) by (simp add: valid_node_def)
    with NodeStop step g show ?thesis
      by (auto simp: node_stop_def stop_shards_def Let_def split: if_splits)
  next
    case (StopChildren m i live)
    show ?thesis
    proof (cases "i < in_shards (node_at (mem \<sigma>) m)")
      case True
      then have g': "g = Stop (StopUpgrade m i (slab_values (sh_children (shard_at (mem \<sigma>) (m, i)))) live)"
        using step g StopChildren by (auto simp: stop_children_def)
      have v: "valid_shard (mem \<sigma>) (m, i)" using True f(2) StopChildren by (simp add: valid_shard_def valid_node_def)
      from f StopChildren parent stopped collected_children [OF r(1) v] show ?thesis by (auto simp: g' valid_node_def)
    next
      case False
      with step g StopChildren show ?thesis by (auto simp: stop_children_def)
    qed
  next
    case (StopUpgrade m i cs live)
    show ?thesis
    proof (cases cs)
      case Nil
      then have "g = Stop (StopChildren m (Suc i) live)" using step g StopUpgrade by auto
      then show ?thesis using f StopUpgrade parent stopped by (auto simp: valid_node_def valid_shard_def)
    next
      case (Cons x cs')
      then have "g = Stop (StopUpgrade m i cs' live) \<or> g = Stop (StopUpgrade m i cs' (live @ [x]))"
        using step g StopUpgrade by (auto simp: weak_upgrade_def split: option.splits if_splits)
      then show ?thesis using f StopUpgrade Cons parent stopped by (auto simp: valid_node_def valid_shard_def)
    qed
  next
    case (ShardWake s w ws)
    with step g show ?thesis by (cases ws) (auto split: if_splits)
  qed (use step g in \<open>auto simp: step_defs Let_def split: if_splits\<close>)
qed

lemma traversing_ok_run:
  assumes r: "reachable \<sigma>" "within_limits \<sigma>" "t < n_threads \<sigma>" "stack \<sigma> t = f # fs"
    and step: "exec t b f (mem \<sigma>) = Next h gs" and inv: "traversing_ok \<sigma>"
  shows "traversing_ok (\<sigma>\<lparr>mem := h, stack := (stack \<sigma>)(t := gs @ fs)\<rparr>)"
proof -
  let ?\<sigma> = "\<sigma>\<lparr>mem := h, stack := (stack \<sigma>)(t := gs @ fs)\<rparr>"
  note ext = run_extends [OF r step] and stopped = stopped_node_run [OF r step]
  have parent: "parent_of h c = parent_of (mem \<sigma>) c" if "valid_node (mem \<sigma>) c" for c by (rule parent_of_extends [OF ext that])
  have keep: "traverses h g" if "traverses (mem \<sigma>) g" "frame_ok (mem \<sigma>) g" for g
    using that stopped parent by (cases "(h, g)" rule: traverses.cases) (auto simp: valid_node_def valid_shard_def)
  have f: "traverses (mem \<sigma>) f" "frame_ok (mem \<sigma>) f"
    using inv top_pending [OF r(3,4)] reachable_top_ok [OF r(1,3,4)] by (auto simp: traversing_ok_def)
  have new: "traverses h g" if g: "g \<in> set gs" for g
  proof (cases "traversal g")
    case True
    have stop: "\<exists>c. f = Stop c"
    proof -
      have "\<not> traversal g" if "f = Life (ChildCheck c)" for c using step g that by (auto simp: child_check_def split: option.splits if_splits)
      moreover have "\<not> traversal g" if "f = Swan (HandleDrop c)" for c
        using step g that by (auto simp: handle_drop_def swansong_drop_def split: if_splits)
      ultimately show ?thesis using exec_traversal [OF step g] True by blast
    qed
    then obtain c where "f = Stop c" ..
    with f g True show ?thesis using traverses_stop_run [OF r(1-3) _ _ _ _ g True] r(4) step by simp
  qed (rule traverses_none)
  have "traverses h g" if g: "pending ?\<sigma> g" for g
  proof (cases "g \<in> set gs")
    case False
    then have "pending \<sigma> g" using g r(4) by (fastforce simp: pending_def split: if_splits)
    then show ?thesis using keep inv reachable_frame_ok [OF r(1)] by (auto simp: traversing_ok_def pending_def)
  qed (rule new)
  then show ?thesis by (simp add: traversing_ok_def)
qed

lemma call_stops:
  assumes "begin_call c h = Some (h', fs)"
  shows "Stop (NodeStop a) \<in> set fs \<longleftrightarrow> (\<exists>x. c = CallShutDown x \<and> handle_at h x = Some a)" "g \<in> set fs \<Longrightarrow> \<not> traversal g"
  using assms by (cases c; auto simp: on_handle_def drop_frames_def split: option.splits if_splits)+

lemma traversing_ok_call:
  assumes r: "reachable \<sigma>" "within_limits \<sigma>" "t < n_threads \<sigma>" "stack \<sigma> t = []" and may: "may_call c \<sigma>"
    and call: "begin_call c (mem \<sigma>) = Some (h, fs)" and inv: "traversing_ok \<sigma>"
  shows "traversing_ok (\<sigma>\<lparr>mem := h, stack := (stack \<sigma>)(t := fs)\<rparr>)"
proof -
  have ext: "extends (mem \<sigma>) h"
    using step_extends [OF step.call [OF r(3,4) may call] reachable_sys_ok [OF r(1)] r(2)] by simp
  have keep: "traverses h g" if "traverses (mem \<sigma>) g" "frame_ok (mem \<sigma>) g" for g
    using that call_kept(1) [OF call] parent_of_extends [OF ext]
    by (cases "(h, g)" rule: traverses.cases) (auto simp: valid_node_def valid_shard_def node_is_stopped_def)
  have "traverses h g" if g: "pending (\<sigma>\<lparr>mem := h, stack := (stack \<sigma>)(t := fs)\<rparr>) g" for g
    using pending_after_call [OF r(4) g]
  proof
    assume "pending \<sigma> g"
    then show ?thesis using keep inv reachable_frame_ok [OF r(1)] by (auto simp: traversing_ok_def pending_def)
  qed (use call_stops(2) [OF call] traverses_none in blast)
  then show ?thesis by (simp add: traversing_ok_def)
qed

interpretation traversing: system_invariant traversing_ok
proof
  show "traversing_ok (sys_init threads par)" for threads par by (simp add: traversing_ok_def sys_init_def pending_def)
  show "traversing_ok (\<sigma>\<lparr>mem := (mem \<sigma>)\<lparr>clock := clock (mem \<sigma>) + d\<rparr>\<rparr>)" if inv: "traversing_ok \<sigma>" for \<sigma> d
  proof -
    have "traverses ((mem \<sigma>)\<lparr>clock := clock (mem \<sigma>) + d\<rparr>) f = traverses (mem \<sigma>) f" for f
      by (cases "(mem \<sigma>, f)" rule: traverses.cases) (auto simp: node_is_stopped_def parent_of_def)
    with inv show ?thesis by (simp add: traversing_ok_def pending_def)
  qed
qed (use traversing_ok_call traversing_ok_run in \<open>blast+\<close>)

lemmas reachable_traversing_ok = traversing.always

text \<open>Nobody is on the way to stop \<open>n\<close>.\<close>

definition untouched :: "nid \<Rightarrow> sys \<Rightarrow> bool" where
  "untouched n \<sigma> \<longleftrightarrow> (\<forall>a. ancestor (mem \<sigma>) a n \<longrightarrow> \<not> node_is_stopped a (mem \<sigma>) \<and> \<not> pending \<sigma> (Stop (NodeStop a)))"

text \<open>
  A run that gives no cause to stop \<open>n\<close>: nobody calls \<^verbatim>\<open>shut_down\<close> on a handle of \<open>n\<close> or of a
  node above it, and the root keeps a handle. Everything else may happen.
\<close>

inductive spared :: "nid \<Rightarrow> sys \<Rightarrow> sys \<Rightarrow> bool" for n \<sigma> where
  start: "spared n \<sigma> \<sigma>"
| step: "spared n \<sigma> \<sigma>' \<Longrightarrow> within_limits \<sigma>' \<Longrightarrow> step \<sigma>' a \<sigma>'' \<Longrightarrow>
    (\<And>t x b. a = Call t (CallShutDown x) \<Longrightarrow> handle_at (mem \<sigma>') x = Some b \<Longrightarrow> \<not> ancestor (mem \<sigma>') b n) \<Longrightarrow>
    (\<And>b. ancestor (mem \<sigma>'') b n \<Longrightarrow> is_root b (mem \<sigma>'') \<Longrightarrow> 0 < swansongs (mem \<sigma>'') b) \<Longrightarrow> spared n \<sigma> \<sigma>''"

lemma ancestor_valid:
  assumes ok: "heap_ok h"
  shows "ancestor h a n \<Longrightarrow> n < n_nodes h \<Longrightarrow> a < n_nodes h"
proof (induction rule: ancestor.induct)
  case (up m n a)
  then show ?case using parent_valid(1) [OF ok _ up.hyps(2)] by (simp add: valid_node_def)
qed simp

lemma ancestor_back:
  assumes ext: "extends h h'" and ok: "heap_ok h"
  shows "ancestor h' a n \<Longrightarrow> n < n_nodes h \<Longrightarrow> ancestor h a n"
proof (induction rule: ancestor.induct)
  case (up m n a)
  then have "ancestor h m n" "m < n_nodes h" using ancestor_valid [OF ok] by blast+
  then show ?case using up.hyps(2) parent_of_extends [OF ext] ancestor.up by (simp add: valid_node_def)
qed (rule ancestor.self)

lemma untouched_run:
  assumes r: "reachable \<sigma>" "within_limits \<sigma>" "t < n_threads \<sigma>" "stack \<sigma> t = f # fs"
    and step: "exec t b f (mem \<sigma>) = Next h gs" and n: "n < n_nodes (mem \<sigma>)" "untouched n \<sigma>"
    and root: "\<And>b. ancestor h b n \<Longrightarrow> is_root b h \<Longrightarrow> 0 < swansongs h b"
  shows "untouched n (\<sigma>\<lparr>mem := h, stack := (stack \<sigma>)(t := gs @ fs)\<rparr>)"
  unfolding untouched_def
proof (intro allI impI)
  let ?\<sigma> = "\<sigma>\<lparr>mem := h, stack := (stack \<sigma>)(t := gs @ fs)\<rparr>"
  note ok = reachable_heap_ok [OF r(1)] and ext = run_extends [OF r step]
  have clean: "\<not> node_is_stopped x (mem \<sigma>)" "\<not> pending \<sigma> (Stop (NodeStop x))" if "ancestor (mem \<sigma>) x n" for x
    using n(2) that by (auto simp: untouched_def)
  fix a assume "ancestor (mem ?\<sigma>) a n"
  then have h: "ancestor h a n" by simp
  have a: "ancestor (mem \<sigma>) a n" by (rule ancestor_back [OF ext ok h n(1)])
  have valid: "a < n_nodes (mem \<sigma>)" by (rule ancestor_valid [OF ok a n(1)])
  have "f \<noteq> Stop (NodeStop a)" using clean(2) [OF a] top_pending [OF r(3,4)] by blast
  then have "\<not> node_is_stopped a h" using stopped_node_run [OF r step valid] clean(1) [OF a] by blast
  moreover have "Stop (NodeStop a) \<notin> set gs"
  proof
    assume g: "Stop (NodeStop a) \<in> set gs"
    have up: "\<not> node_is_stopped m (mem \<sigma>)" if "parent_of (mem \<sigma>) a = Some m" for m
      by (rule clean(1) [OF ancestor.up [OF a that]])
    have "traverses (mem \<sigma>) f" using reachable_traversing_ok [OF r(1)] top_pending [OF r(3,4)] by (simp add: traversing_ok_def)
    with stop_origin [OF step g] up have drop: "f = Swan (HandleDrop a)" "is_root a (mem \<sigma>)" "swansongs (mem \<sigma>) a = 1" by auto
    then have "swansongs h a = 0" "is_root a h"
      using step by (auto simp: handle_drop_def swansong_drop_def is_root_def)
    then show False using root [OF h] by simp
  qed
  moreover have "\<not> pending \<sigma> (Stop (NodeStop a))" by (rule clean(2) [OF a])
  ultimately show "\<not> node_is_stopped a (mem ?\<sigma>) \<and> \<not> pending ?\<sigma> (Stop (NodeStop a))"
    using r(4) by (fastforce simp: pending_def split: if_splits)
qed

lemma untouched_call:
  assumes r: "reachable \<sigma>" "within_limits \<sigma>" "t < n_threads \<sigma>" "stack \<sigma> t = []" and may: "may_call c \<sigma>"
    and call: "begin_call c (mem \<sigma>) = Some (h, fs)" and n: "n < n_nodes (mem \<sigma>)" "untouched n \<sigma>"
    and spare: "\<And>x b. c = CallShutDown x \<Longrightarrow> handle_at (mem \<sigma>) x = Some b \<Longrightarrow> \<not> ancestor (mem \<sigma>) b n"
  shows "untouched n (\<sigma>\<lparr>mem := h, stack := (stack \<sigma>)(t := fs)\<rparr>)"
  unfolding untouched_def
proof (intro allI impI)
  let ?\<sigma> = "\<sigma>\<lparr>mem := h, stack := (stack \<sigma>)(t := fs)\<rparr>"
  note ok = reachable_heap_ok [OF r(1)]
  have ext: "extends (mem \<sigma>) h"
    using step_extends [OF step.call [OF r(3,4) may call] reachable_sys_ok [OF r(1)] r(2)] by simp
  fix a assume "ancestor (mem ?\<sigma>) a n"
  then have a: "ancestor (mem \<sigma>) a n" using ancestor_back [OF ext ok _ n(1)] by simp
  have valid: "a < n_nodes (mem \<sigma>)" by (rule ancestor_valid [OF ok a n(1)])
  have "\<not> node_is_stopped a h" using n(2) a call_kept(1) [OF call valid] by (auto simp: untouched_def node_is_stopped_def)
  moreover have "Stop (NodeStop a) \<notin> set fs" using call_stops(1) [OF call] spare a by blast
  moreover have "\<not> pending \<sigma> (Stop (NodeStop a))" using n(2) a by (simp add: untouched_def)
  ultimately show "\<not> node_is_stopped a (mem ?\<sigma>) \<and> \<not> pending ?\<sigma> (Stop (NodeStop a))"
    using pending_after_call [OF r(4)] by auto
qed

lemma spared_untouched:
  assumes "spared n \<sigma> \<sigma>'" and r: "reachable \<sigma>" and n: "n < n_nodes (mem \<sigma>)" "untouched n \<sigma>"
  shows "reachable \<sigma>' \<and> n < n_nodes (mem \<sigma>') \<and> untouched n \<sigma>'"
  using assms(1)
proof (induction rule: spared.induct)
  case (step \<sigma>' a \<sigma>'')
  then have r': "reachable \<sigma>'" "n < n_nodes (mem \<sigma>')" "untouched n \<sigma>'" by blast+
  have "reachable \<sigma>''" by (rule reachable.step [OF r'(1) step.hyps(2,3)])
  moreover have "n < n_nodes (mem \<sigma>'')"
    using step_extends [OF step.hyps(3) reachable_sys_ok [OF r'(1)] step.hyps(2)] r'(2) by (simp add: extends_def)
  moreover have "untouched n \<sigma>''"
    using step.hyps(3)
  proof (cases rule: step.cases)
    case (call t c h fs)
    then show ?thesis using untouched_call [OF r'(1) step.hyps(2) call(3-6) r'(2,3)] step.hyps(4) by blast
  next
    case (run t f fs b h gs)
    then show ?thesis using untouched_run [OF r'(1) step.hyps(2) run(3-5) r'(2,3)] step.hyps(5) by auto
  next
    case (tick d)
    have "ancestor (mem \<sigma>'') b n \<Longrightarrow> ancestor (mem \<sigma>') b n" for b
      by (rule ancestor_back [OF _ reachable_heap_ok [OF r'(1)] _ r'(2)]) (simp_all add: tick extends_def parent_of_def)
    then show ?thesis using r'(3) tick by (auto simp: untouched_def node_is_stopped_def pending_def)
  qed
  ultimately show ?case by blast
qed (use r n in blast)

lemma ancestors_of_child: "ancestor h b n \<Longrightarrow> parent_of h n = Some p \<Longrightarrow> parent_of h p = None \<Longrightarrow> b = n \<or> b = p"
  by (induction rule: ancestor.induct) auto

section \<open>The end of an interrupt\<close>

definition ended_ok :: "sys \<Rightarrow> bool" where
  "ended_ok \<sigma> \<longleftrightarrow> (\<forall>i s reg w. listener (mem \<sigma>) i = Some (s, reg, Some (w, Ready None)) \<longrightarrow> is_stopped s (mem \<sigma>))"

lemma poll_ends:
  assumes step: "intr_step t b c h = Next h' gs" and l: "listener h' i = Some (s, reg, Some (w, Ready None))"
  shows "\<exists>r l. listener h i = Some (s, r, l) \<and> (l = Some (w, Ready None) \<or> is_stopped s h)"
  using assms
  by (cases c) (auto simp: step_defs on_interrupt_def poll_returns_def listener_def lock_acquire_def lock_release_def Let_def
      split: if_splits option.splits prod.splits)

lemma exec_ends:
  assumes step: "exec t b f h = Next h' gs" and ok: "heap_ok h" and l: "listener h' i = Some (s, reg, Some (w, Ready None))"
  shows "\<exists>r l. listener h i = Some (s, r, l) \<and> (l = Some (w, Ready None) \<or> is_stopped s h)"
proof (cases "waits_on f")
  case False
  then show ?thesis using exec_waits [OF step] l by (simp add: same_waits_def)
next
  case True
  then show ?thesis
  proof (cases f rule: waits_on.cases)
    case (1 s' p)
    then show ?thesis using drain_effect(4) [of t s' p h h' gs] step l by simp
  next
    case (2 s' p ws)
    then show ?thesis using wake_effect(2) [of t s' p ws h h' gs] step l by simp
  next
    case (3 n)
    then have "swan_step t (InterruptNew n) h = Next h' gs" using step by simp
    then obtain s' where "listener h' = (listener h)(n_interrupts h \<mapsto> (s', None, None))"
      by (rule interrupt_new_effect [OF _ ok])
    then show ?thesis using l by (auto split: if_splits)
  next
    case (4 c)
    then show ?thesis using poll_ends [of t b c h h' gs] step l by simp
  qed auto
qed

lemma ended_ok_run:
  assumes r: "reachable \<sigma>" "within_limits \<sigma>" "t < n_threads \<sigma>" "stack \<sigma> t = f # fs"
    and step: "exec t b f (mem \<sigma>) = Next h gs" and inv: "ended_ok \<sigma>"
  shows "ended_ok (\<sigma>\<lparr>mem := h, stack := (stack \<sigma>)(t := gs @ fs)\<rparr>)"
proof -
  have "is_stopped s h" if l: "listener h i = Some (s, reg, Some (w, Ready None))" for i s reg w
  proof -
    obtain r l where old: "listener (mem \<sigma>) i = Some (s, r, l)" "l = Some (w, Ready None) \<or> is_stopped s (mem \<sigma>)"
      using exec_ends [OF step reachable_heap_ok [OF r(1)] l] by blast
    have "valid_shard (mem \<sigma>) s" using heap_okD(6) [OF reachable_heap_ok [OF r(1)]] old(1) by (auto simp: listener_def)
    moreover have "is_stopped s (mem \<sigma>)" using old inv by (auto simp: ended_ok_def)
    ultimately show ?thesis using stopped_run [OF r step] by blast
  qed
  then show ?thesis by (simp add: ended_ok_def)
qed

lemma ended_ok_call:
  assumes r: "reachable \<sigma>" and call: "begin_call c (mem \<sigma>) = Some (h, fs)" and inv: "ended_ok \<sigma>"
  shows "ended_ok (\<sigma>\<lparr>mem := h, stack := (stack \<sigma>)(t := fs)\<rparr>)"
proof -
  have "is_stopped s h" if l: "listener h i = Some (s, reg, Some (w, Ready None))" for i s reg w
  proof -
    have old: "listener (mem \<sigma>) i = Some (s, reg, Some (w, Ready None))"
      using call_listener [OF call] l by (auto split: if_splits)
    then have "valid_shard (mem \<sigma>) s" using heap_okD(6) [OF reachable_heap_ok [OF r]] by (auto simp: listener_def)
    then have "shard_word h s = shard_word (mem \<sigma>) s"
      using call_kept(3) [OF call, of "fst s" "snd s"] by (simp add: valid_shard_def valid_node_def)
    moreover have "is_stopped s (mem \<sigma>)" using old inv by (auto simp: ended_ok_def)
    ultimately show ?thesis by (simp add: is_stopped_def)
  qed
  then show ?thesis by (simp add: ended_ok_def)
qed

interpretation ending: system_invariant ended_ok
proof
  show "ended_ok (sys_init threads par)" for threads par by (simp add: ended_ok_def sys_init_def heap_init_def listener_def)
  show "ended_ok (\<sigma>\<lparr>mem := (mem \<sigma>)\<lparr>clock := clock (mem \<sigma>) + d\<rparr>\<rparr>)" if "ended_ok \<sigma>" for \<sigma> d
    using that by (simp add: ended_ok_def listener_def is_stopped_def)
qed (use ended_ok_call ended_ok_run in \<open>blast+\<close>)

lemma ended_closing:
  assumes r: "reachable \<sigma>" and l: "listener (mem \<sigma>) i = Some (s, reg, Some (w, Ready None))"
  shows "is_stopped s (mem \<sigma>) \<and> (node_is_stopped (fst s) (mem \<sigma>) \<or> strong (mem \<sigma>) (fst s) = 0)"
proof -
  have "is_stopped s (mem \<sigma>)" using ending.always [OF r] l by (auto simp: ended_ok_def)
  moreover have "valid_shard (mem \<sigma>) s" using heap_okD(6) [OF reachable_heap_ok [OF r]] l by (auto simp: listener_def)
  ultimately show ?thesis using closing_okD(2) [OF reachable_closing_ok [OF r]] by (simp add: closing_def)
qed

end
