(* ===== verification/Loom_Models.thy ===== *)
theory Loom_Models
  imports Causes Diagnostics
begin

text \<open>
  The tests of \<^verbatim>\<open>implementation/loom_models.rs\<close> and the model checker they are written for.
  A test is the program of its main thread, thread 0: it creates objects, spawns threads, joins
  them, reads the state and asserts. \<open>explore\<close> runs a test under a given schedule, as loom runs
  it under every schedule it finds; the wrapped values are \<^verbatim>\<open>pending()\<close>, which is never ready.
  An \<^verbatim>\<open>Arc<Inner>\<close> of a test is a handle here; the main thread keeps its own while the others
  run, so that the clones the others move into their closures are left out. \<^verbatim>\<open>Inner::stop\<close> is what
  \<^verbatim>\<open>shut_down\<close> does before it makes its completion. The threads are bound to no shard: the first
  to need one gets the first index. Interleavings are sequentially consistent, as everywhere.
\<close>

section \<open>Tests\<close>

datatype test =
    Passed
  | Failed
  | Do call test
  | Spawn tid "call list" test
  | Join tid test
  | Read "sys \<Rightarrow> test"

definition check :: "bool \<Rightarrow> test \<Rightarrow> test" where
  "check p k = (if p then k else Failed)"

text \<open>The calls that the threads have yet to make; the main thread's current call is one.\<close>

type_synonym scripts = "tid \<Rightarrow> call list"

type_synonym config = "test \<times> scripts \<times> sys"

fun main_step :: "test \<Rightarrow> scripts \<Rightarrow> sys \<Rightarrow> config option" where
  "main_step Passed S \<sigma> = None"
| "main_step Failed S \<sigma> = None"
| "main_step (Do c k) S \<sigma> = Some (k, S(0 := [c]), \<sigma>)"
| "main_step (Spawn t cs k) S \<sigma> = Some (k, S(t := cs), \<sigma>)"
| "main_step (Join t k) S \<sigma> = (if S t = [] \<and> stack \<sigma> t = [] then Some (k, S, \<sigma>) else None)"
| "main_step (Read k) S \<sigma> = Some (k \<sigma>, S, \<sigma>)"

text \<open>Thread \<open>t\<close> moves: it goes on with its call, makes its next call, or takes a step of the test.\<close>

fun advance :: "tid \<Rightarrow> config \<Rightarrow> config option" where
  "advance t (k, S, \<sigma>) =
     (if \<not> within_limits \<sigma> then None
      else if stack \<sigma> t \<noteq> [] then map_option (\<lambda>\<sigma>'. (k, S, \<sigma>')) (perform (Run t False) \<sigma>)
      else (case S t of
              c # cs \<Rightarrow> map_option (\<lambda>\<sigma>'. (k, S(t := cs), \<sigma>')) (perform (Call t c) \<sigma>)
            | [] \<Rightarrow> if t = 0 then main_step k S \<sigma> else None))"

fun explore :: "tid list \<Rightarrow> config \<Rightarrow> config option" where
  "explore [] x = Some x"
| "explore (t # ts) x = (case advance t x of None \<Rightarrow> None | Some x \<Rightarrow> explore ts x)"

text \<open>Under \<^verbatim>\<open>cfg(swansong_loom)\<close> a root has two shards.\<close>

definition loom_model :: "test \<Rightarrow> config" where
  "loom_model k = (k, (\<lambda>_. []), sys_init 3 (Some 2))"

text \<open>
  What loom reports: an assertion that fails, a panic of the code, and threads that wait for each
  other forever.
\<close>

definition panics :: "sys \<Rightarrow> bool" where
  "panics \<sigma> = list_ex (\<lambda>t. case stack \<sigma> t of
       [] \<Rightarrow> False
     | f # fs \<Rightarrow> (case exec t False f (mem \<sigma>) of Panic \<Rightarrow> True | _ \<Rightarrow> False)) [0..<n_threads \<sigma>]"

definition hangs :: "sys \<Rightarrow> bool" where
  "hangs \<sigma> \<longleftrightarrow> list_ex (\<lambda>t. stack \<sigma> t \<noteq> []) [0..<n_threads \<sigma>] \<and>
     list_all (\<lambda>t. Option.is_none (perform (Run t False) \<sigma>)) [0..<n_threads \<sigma>]"

fun fails :: "config \<Rightarrow> bool" where
  "fails (k, S, \<sigma>) \<longleftrightarrow> (case k of Failed \<Rightarrow> S 0 = [] \<and> stack \<sigma> 0 = [] | _ \<Rightarrow> False) \<or> panics \<sigma> \<or> hangs \<sigma>"

section \<open>What the tests read\<close>

text \<open>The count of a \<^verbatim>\<open>Wakes\<close>, of which each has its own waker.\<close>

definition wake_count :: "waker \<Rightarrow> sys \<Rightarrow> nat" where
  "wake_count w \<sigma> = length (filter (\<lambda>(s, v). v = w) (woken (mem \<sigma>)))"

text \<open>What the last poll of an interrupt returned.\<close>

definition polled :: "iid \<Rightarrow> sys \<Rightarrow> unit option poll option" where
  "polled i \<sigma> = (case interrupt_at (mem \<sigma>) i of None \<Rightarrow> None | Some it \<Rightarrow> map_option snd (it_last it))"

text \<open>\<^verbatim>\<open>Inner::is_complete\<close>: two reads.\<close>

definition is_complete :: "nid \<Rightarrow> (bool \<Rightarrow> test) \<Rightarrow> test" where
  "is_complete n k = Read (\<lambda>\<sigma>. Read (\<lambda>\<sigma>'. k (node_is_stopped n (mem \<sigma>) \<and> node_is_zero n (mem \<sigma>'))))"

definition zero_notifications :: "nid \<Rightarrow> sys \<Rightarrow> nat" where
  "zero_notifications n \<sigma> = in_zero_notified (node_at (mem \<sigma>) n)"

definition all_shards :: "nid \<Rightarrow> sys \<Rightarrow> (sid \<Rightarrow> heap \<Rightarrow> bool) \<Rightarrow> bool" where
  "all_shards n \<sigma> p \<longleftrightarrow> (\<forall>i<in_shards (node_at (mem \<sigma>) n). p (n, i) (mem \<sigma>))"

definition waiter_count :: "sid \<Rightarrow> heap \<Rightarrow> nat" where
  "waiter_count s h = slab_len (sh_waiters (shard_at h s))"

definition handle_stopped :: "hid \<Rightarrow> sys \<Rightarrow> bool" where
  "handle_stopped x \<sigma> \<longleftrightarrow> (case handle_at (mem \<sigma>) x of None \<Rightarrow> False | Some c \<Rightarrow> node_is_stopped c (mem \<sigma>))"

text \<open>The guard that was created at a line of the test.\<close>

definition made_at :: "location \<Rightarrow> sys \<Rightarrow> gid" where
  "made_at loc \<sigma> =
     (case find (\<lambda>g. map_option gd_location (guard_at (mem \<sigma>) g) = Some loc) [0..<n_guards (mem \<sigma>)] of
        None \<Rightarrow> n_guards (mem \<sigma>) | Some g \<Rightarrow> g)"

text \<open>\<^verbatim>\<open>swansong.guard_count()\<close>, called while nothing else runs: it puts the heap back as it was.\<close>

definition counts_guards :: "nat \<Rightarrow> sys \<Rightarrow> bool" where
  "counts_guards k \<sigma> \<longleftrightarrow> (case swansong_guard_count (n_nodes (mem \<sigma>)) 0 (mem \<sigma>) of Ok (c, h) \<Rightarrow> c = k | _ \<Rightarrow> False)"

definition line :: "nat \<Rightarrow> location" where
  "line l = Location ''src/implementation/loom_models.rs'' l 0"

definition after :: "call list \<Rightarrow> test \<Rightarrow> test" where
  "after cs k = foldr Do cs k"

text \<open>\<^verbatim>\<open>assert_eq!(poll(&mut interrupt, &waker), Poll::Ready(None))\<close>\<close>

definition poll_is_over :: "iid \<Rightarrow> waker \<Rightarrow> test \<Rightarrow> test" where
  "poll_is_over i w k = Do (CallPoll i w) (Read (\<lambda>\<sigma>. check (polled i \<sigma> = Some (Ready None)) k))"

section \<open>The tests of interrupts\<close>

definition register_vs_stop :: test where
  "register_vs_stop =
     after [CallNew False, CallInterrupt 0]
       (Spawn 1 [CallShutDown 0]
       (Do (CallPoll 0 1)
       (Read (\<lambda>\<rho>.
        Join 1
       (Read (\<lambda>\<sigma>.
        check (polled 0 \<rho> = Some Pending \<longrightarrow> 0 < wake_count 1 \<sigma>)
       (poll_is_over 0 1 Passed)))))))"

definition same_waker_repoll_vs_stop :: test where
  "same_waker_repoll_vs_stop =
     after [CallNew False, CallInterrupt 0, CallPoll 0 1]
       (Read (\<lambda>\<rho>.
        check (polled 0 \<rho> = Some Pending)
       (Spawn 1 [CallShutDown 0]
       (Do (CallPoll 0 1)
       (Read (\<lambda>\<rho>.
        Join 1
       (Read (\<lambda>\<sigma>.
        check (polled 0 \<rho> = Some Pending \<longrightarrow> 0 < wake_count 1 \<sigma>)
       (poll_is_over 0 1 Passed)))))))))"

definition migration_and_waker_replacement_vs_stop :: test where
  "migration_and_waker_replacement_vs_stop =
     after [CallNew False, CallInterrupt 0, CallPoll 0 1]
       (Read (\<lambda>\<rho>.
        check (polled 0 \<rho> = Some Pending)
       (Spawn 1 [CallShutDown 0]
       (Spawn 2 [CallPoll 0 2]
       (Join 1
       (Join 2
       (Read (\<lambda>\<sigma>.
        check (polled 0 \<sigma> = Some Pending \<longrightarrow> 0 < wake_count 2 \<sigma>)
       (poll_is_over 0 2 Passed)))))))))"

definition deregistration_vs_stop :: test where
  "deregistration_vs_stop =
     after [CallNew False, CallInterrupt 0, CallInterrupt 0, CallPoll 0 1, CallPoll 1 2]
       (Read (\<lambda>\<rho>.
        check (polled 0 \<rho> = Some Pending)
       (check (polled 1 \<rho> = Some Pending)
       (Spawn 1 [CallInterruptDrop 0]
       (Do (CallShutDown 0)
       (Join 1
       (Read (\<lambda>\<sigma>.
        check (0 < wake_count 2 \<sigma>)
       (check (all_shards 0 \<sigma> (\<lambda>s h. waiter_count s h = 0))
       (poll_is_over 1 2 Passed))))))))))"

definition collection_vs_pending_interrupt :: test where
  "collection_vs_pending_interrupt =
     after [CallNew False, CallChild 0, CallInterrupt 1]
       (Spawn 1 [CallDrop 1]
       (Do (CallPoll 0 1)
       (Read (\<lambda>\<rho>.
        Join 1
       (Read (\<lambda>\<sigma>.
        check (polled 0 \<rho> = Some Pending \<longrightarrow> 0 < wake_count 1 \<sigma>)
       (poll_is_over 0 1
       (Read (\<lambda>\<sigma>.
        check (all_shards 0 \<sigma> (\<lambda>s h. \<not> is_stopped s h)) Passed)))))))))"

section \<open>The tests of guards\<close>

definition piggybacked_guard_vs_stop :: test where
  "piggybacked_guard_vs_stop =
     after [CallNew False, CallChild 0]
       (Spawn 1 [CallGuard 1 (line 188)]
       (after [CallGuard 1 (line 190), CallShutDown 0]
       (is_complete 0 (\<lambda>complete.
        check (\<not> complete)
       (Join 1
       (Read (\<lambda>\<sigma>.
        Do (CallGuardDrop (made_at (line 188) \<sigma>))
       (Do (CallGuardDrop (made_at (line 190) \<sigma>))
       (is_complete 1 (\<lambda>complete.
        check complete
       (is_complete 0 (\<lambda>complete.
        check complete Passed))))))))))))"

text \<open>
  The end of the tests of a shutdown: the completion check that follows the stop, and the
  notification that has to come if it failed.
\<close>

definition completes_after :: "tid \<Rightarrow> test" where
  "completes_after t =
     Read (\<lambda>\<rho>.
     is_complete 0 (\<lambda>complete.
     Join t
    (is_complete 0 (\<lambda>complete'.
     check complete'
    (Read (\<lambda>\<sigma>.
     check (\<not> complete \<longrightarrow> zero_notifications 0 \<rho> < zero_notifications 0 \<sigma>) Passed))))))"

definition last_guard_drop_vs_stop :: test where
  "last_guard_drop_vs_stop =
     after [CallNew False, CallGuard 0 (line 210)]
       (Spawn 1 [CallGuardDrop 0]
       (Do (CallShutDown 0)
       (completes_after 1)))"

definition child_guard_drop_vs_root_stop :: test where
  "child_guard_drop_vs_root_stop =
     after [CallNew False, CallChild 0, CallGuard 1 (line 233), CallDrop 1]
       (Spawn 1 [CallGuardDrop 0]
       (Do (CallShutDown 0)
       (completes_after 1)))"

definition concurrent_first_arrivals :: test where
  "concurrent_first_arrivals =
     after [CallNew False, CallChild 0]
       (Spawn 1 [CallGuard 1 (line 260)]
       (Do (CallGuard 1 (line 262))
       (Join 1
       (Read (\<lambda>\<sigma>.
        check (\<not> node_is_zero 1 (mem \<sigma>) \<and> \<not> node_is_zero 0 (mem \<sigma>))
       (check (counts_guards 2 \<sigma>)
       (after [CallGuardDrop (made_at (line 262) \<sigma>), CallGuardDrop (made_at (line 260) \<sigma>)]
       (Read (\<lambda>\<sigma>.
        check (counts_guards 0 \<sigma>)
       (Do (CallShutDown 0)
       (is_complete 1 (\<lambda>complete.
        is_complete 0 (\<lambda>complete'.
        check (complete \<and> complete')
       (Read (\<lambda>\<sigma>.
        check (all_shards 0 \<sigma> (\<lambda>s h. shard_word h s = STOPPED)) Passed)))))))))))))))"

definition arrival_vs_flush :: test where
  "arrival_vs_flush =
     after [CallNew False, CallChild 0, CallGuard 1 (line 284), CallGuardDrop 0]
       (Spawn 1 [CallGuard 1 (line 287)]
       (Do (CallShutDown 1)
       (Join 1
       (Read (\<lambda>\<sigma>.
        check (\<not> node_is_zero 1 (mem \<sigma>) \<and> \<not> node_is_zero 0 (mem \<sigma>))
       (Do (CallGuardDrop (made_at (line 287) \<sigma>))
       (is_complete 1 (\<lambda>complete.
        check complete
       (Do (CallShutDown 0)
       (is_complete 0 (\<lambda>complete.
        check complete Passed)))))))))))"

definition collection_vs_root_stop :: test where
  "collection_vs_root_stop =
     after [CallNew False, CallChild 0, CallGuard 1 (line 308), CallGuardDrop 0]
       (Spawn 1 [CallDrop 1]
       (Do (CallShutDown 0)
       (completes_after 1)))"

section \<open>The tests of children\<close>

definition child_creation_vs_parent_stop :: test where
  "child_creation_vs_parent_stop =
     after [CallNew False]
       (Spawn 1 [CallChild 0]
       (Do (CallShutDown 0)
       (Join 1
       (Read (\<lambda>\<sigma>.
        check (handle_stopped 1 \<sigma>) Passed)))))"

definition sibling_creation_vs_collection :: test where
  "sibling_creation_vs_collection =
     after [CallNew False, CallChild 0, CallGuard 1 (line 348), CallGuardDrop 0]
       (Spawn 1 [CallDrop 1]
       (Do (CallChild 0)
       (Join 1
       (Do (CallShutDown 0)
       (Read (\<lambda>\<sigma>.
        check (handle_stopped 2 \<sigma>)
       (is_complete 0 (\<lambda>complete.
        check complete Passed))))))))"

text \<open>All of them, in the order of the file.\<close>

definition loom_models :: "test list" where
  "loom_models =
     [register_vs_stop, same_waker_repoll_vs_stop, migration_and_waker_replacement_vs_stop,
      deregistration_vs_stop, collection_vs_pending_interrupt, piggybacked_guard_vs_stop,
      last_guard_drop_vs_stop, child_guard_drop_vs_root_stop, concurrent_first_arrivals,
      arrival_vs_flush, collection_vs_root_stop, child_creation_vs_parent_stop,
      sibling_creation_vs_collection]"

end
