(* ===== verification/Loom_Runs.thy ===== *)
theory Loom_Runs
  imports Loom_Models
begin

text \<open>
  How the tests are verified. Between two steps of the main thread the threads race; what every
  race makes true is carried along by invariants, and \<open>passes\<close> composes the races along a test.
\<close>

section \<open>Races\<close>

text \<open>The threads go on with their calls, and make the calls of their scripts.\<close>

inductive races :: "scripts \<Rightarrow> sys \<Rightarrow> scripts \<Rightarrow> sys \<Rightarrow> bool" for S \<sigma> where
  stay: "races S \<sigma> S \<sigma>"
| begins: "races S \<sigma> S' \<sigma>' \<Longrightarrow> within_limits \<sigma>' \<Longrightarrow> S' t = c # cs \<Longrightarrow> step \<sigma>' (Call t c) \<sigma>'' \<Longrightarrow>
    races S \<sigma> (S'(t := cs)) \<sigma>''"
| goes: "races S \<sigma> S' \<sigma>' \<Longrightarrow> within_limits \<sigma>' \<Longrightarrow> step \<sigma>' (Run t False) \<sigma>'' \<Longrightarrow> races S \<sigma> S' \<sigma>''"

lemma races_trans: "races S1 \<sigma>1 S2 \<sigma>2 \<Longrightarrow> races S \<sigma> S1 \<sigma>1 \<Longrightarrow> races S \<sigma> S2 \<sigma>2"
  by (induction rule: races.induct) (auto intro: races.intros)

lemma races_later: "races S \<sigma> S' \<sigma>' \<Longrightarrow> later \<sigma> \<sigma>'"
  by (induction rule: races.induct) (auto intro: later.intros)

lemma races_threads: "races S \<sigma> S' \<sigma>' \<Longrightarrow> n_threads \<sigma>' = n_threads \<sigma>"
proof (induction rule: races.induct)
  case (begins S' \<sigma>' t c cs \<sigma>'')
  then show ?case by (auto elim: step_CallE)
next
  case (goes S' \<sigma>' t \<sigma>'')
  then show ?case by (auto elim: step_RunE)
qed simp

text \<open>The main thread has nothing left to do.\<close>

definition finished :: "scripts \<Rightarrow> sys \<Rightarrow> scripts \<Rightarrow> sys \<Rightarrow> bool" where
  "finished S \<sigma> S' \<sigma>' \<longleftrightarrow> races S \<sigma> S' \<sigma>' \<and> S' 0 = [] \<and> stack \<sigma>' 0 = []"

primrec passes :: "test \<Rightarrow> scripts \<Rightarrow> sys \<Rightarrow> bool" where
  "passes Passed = (\<lambda>S \<sigma>. True)"
| "passes Failed = (\<lambda>S \<sigma>. False)"
| "passes (Do c k) = (\<lambda>S \<sigma>. \<forall>S' \<sigma>'. finished (S(0 := [c])) \<sigma> S' \<sigma>' \<longrightarrow> passes k S' \<sigma>')"
| "passes (Spawn t cs k) = (\<lambda>S \<sigma>. \<forall>S' \<sigma>'. finished (S(t := cs)) \<sigma> S' \<sigma>' \<longrightarrow> passes k S' \<sigma>')"
| "passes (Join t k) = (\<lambda>S \<sigma>. S t = [] \<and> stack \<sigma> t = [] \<longrightarrow> (\<forall>S' \<sigma>'. finished S \<sigma> S' \<sigma>' \<longrightarrow> passes k S' \<sigma>'))"
| "passes (Read k) = (\<lambda>S \<sigma>. \<forall>S' \<sigma>'. finished S \<sigma> S' \<sigma>' \<longrightarrow> passes (k \<sigma>) S' \<sigma>')"

definition ahead :: "test \<Rightarrow> scripts \<Rightarrow> sys \<Rightarrow> bool" where
  "ahead k S \<sigma> \<longleftrightarrow> (\<forall>S' \<sigma>'. finished S \<sigma> S' \<sigma>' \<longrightarrow> passes k S' \<sigma>')"

lemma main_step_ahead:
  assumes "main_step k S \<sigma> = Some (k', S', \<sigma>')" "ahead k S \<sigma>" "S 0 = []" "stack \<sigma> 0 = []"
  shows "ahead k' S' \<sigma>'"
proof -
  have "passes k S \<sigma>" using assms(2-4) by (auto simp: ahead_def finished_def intro: races.stay)
  then show ?thesis using assms(1) by (cases k) (auto simp: ahead_def split: if_splits)
qed

lemma advance_ahead:
  assumes "advance t (k, S, \<sigma>) = Some (k', S', \<sigma>')" "ahead k S \<sigma>"
  shows "ahead k' S' \<sigma>'"
proof -
  have lim: "within_limits \<sigma>" using assms(1) by (simp split: if_splits)
  have moves: "ahead k' S' \<sigma>'" if "races S \<sigma> S' \<sigma>'" "k' = k"
    using assms(2) that races_trans by (fastforce simp: ahead_def finished_def)
  show ?thesis
  proof (cases "stack \<sigma> t = []")
    case False
    then have "step \<sigma> (Run t False) \<sigma>'" "k' = k" "S' = S"
      using assms(1) lim by (auto simp: perform_step simp del: perform.simps)
    then show ?thesis using moves races.goes [of S \<sigma> S \<sigma>, OF races.stay lim] by blast
  next
    case True
    show ?thesis
    proof (cases "S t")
      case Nil
      then show ?thesis using main_step_ahead assms lim True by (auto split: if_splits)
    next
      case (Cons c cs)
      then have "step \<sigma> (Call t c) \<sigma>'" "k' = k" "S' = S(t := cs)"
        using assms(1) lim True by (auto simp: perform_step simp del: perform.simps)
      then show ?thesis using moves races.begins [of S \<sigma> S \<sigma>, OF races.stay lim Cons] by blast
    qed
  qed
qed

lemma advance_reachable:
  assumes "advance t (k, S, \<sigma>) = Some (k', S', \<sigma>')" "reachable \<sigma>"
  shows "reachable \<sigma>'"
proof -
  have "main_step k S \<sigma> = Some (k', S', \<sigma>') \<Longrightarrow> \<sigma>' = \<sigma>" by (cases k) (auto split: if_splits)
  then show ?thesis
    using assms by (auto simp: perform_step simp del: perform.simps intro: reachable.step split: if_splits list.splits)
qed

text \<open>The code never panics, and as long as a call runs some thread can go on.\<close>

lemma never_stuck:
  assumes "reachable \<sigma>"
  shows "\<not> panics \<sigma>" "\<not> hangs \<sigma>"
proof -
  show "\<not> panics \<sigma>"
    using exec_no_panic [OF assms] by (auto simp: panics_def list_ex_iff split: list.splits outcome.splits)
  show "\<not> hangs \<sigma>"
  proof
    assume h: "hangs \<sigma>"
    then obtain t where "t < n_threads \<sigma>" "stack \<sigma> t \<noteq> []" by (auto simp: hangs_def list_ex_iff)
    then obtain u \<sigma>' where "u < n_threads \<sigma>" "step \<sigma> (Run u False) \<sigma>'" using some_thread_steps [OF assms] by blast
    then have "perform (Run u False) \<sigma> = Some \<sigma>'" "u \<in> set [0..<n_threads \<sigma>]" by (simp_all add: perform_step del: perform.simps)
    moreover from this(2) have "Option.is_none (perform (Run u False) \<sigma>)" using h unfolding hangs_def list_all_iff by blast
    ultimately show False by (simp del: perform.simps)
  qed
qed

lemma explore_ahead: "explore ts (k, S, \<sigma>) = Some x \<Longrightarrow> reachable \<sigma> \<Longrightarrow> ahead k S \<sigma> \<Longrightarrow> \<not> fails x"
proof (induction ts arbitrary: k S \<sigma>)
  case Nil
  then show ?case using races.stay [of S \<sigma>] never_stuck by (auto simp: ahead_def finished_def split: test.splits)
next
  case (Cons t ts)
  then obtain k' S' \<sigma>' where "advance t (k, S, \<sigma>) = Some (k', S', \<sigma>')" "explore ts (k', S', \<sigma>') = Some x"
    by (auto simp del: advance.simps split: option.splits)
  with Cons show ?case using advance_ahead advance_reachable by blast
qed

section \<open>The main thread alone\<close>

text \<open>While no other thread has anything to do, the main thread's calls run one after another.\<close>

definition alone :: "sys \<Rightarrow> bool" where
  "alone \<sigma> \<longleftrightarrow> (\<forall>t. t \<noteq> 0 \<longrightarrow> stack \<sigma> t = [])"

definition nobody :: scripts where
  "nobody t = []"

fun play :: "(call \<times> nat) list \<Rightarrow> sys \<Rightarrow> sys option" where
  "play [] \<sigma> = Some \<sigma>"
| "play ((c, k) # cs) \<sigma> =
     (case perform_all (Call 0 c # replicate k (Run 0 False)) \<sigma> of
        None \<Rightarrow> None
      | Some \<sigma>' \<Rightarrow> if stack \<sigma>' 0 = [] then play cs \<sigma>' else None)"

lemma races_alone:
  assumes "races nobody \<sigma> S' \<sigma>'" "alone \<sigma>"
  shows "S' = nobody \<and> alone \<sigma>' \<and> (\<exists>k. perform_all (replicate k (Run 0 False)) \<sigma> = Some \<sigma>')"
  using assms
proof (induction rule: races.induct)
  case stay
  have "perform_all (replicate 0 (Run 0 False)) \<sigma> = Some \<sigma>" by simp
  with stay show ?case by blast
next
  case (begins S' \<sigma>' t c cs \<sigma>'')
  then show ?case by (simp add: nobody_def)
next
  case (goes S' \<sigma>' t \<sigma>'')
  then obtain k where k: "S' = nobody" "alone \<sigma>'" "perform_all (replicate k (Run 0 False)) \<sigma> = Some \<sigma>'" by blast
  have t: "t = 0" using goes.hyps(3) k(2) by (auto simp: alone_def elim!: step_RunE)
  have "perform_all (replicate k (Run 0 False) @ [Run 0 False]) \<sigma> = Some \<sigma>''"
    using k(3) goes.hyps(2,3) t by (simp add: perform_all_append perform_step [symmetric] del: perform.simps)
  then have "perform_all (replicate (Suc k) (Run 0 False)) \<sigma> = Some \<sigma>''"
    by (simp only: replicate_append_same [symmetric] replicate_Suc)
  moreover have "alone \<sigma>''" using goes.hyps(3) k(2) t by (auto simp: alone_def elim!: step_RunE)
  ultimately show ?case using k(1) by blast
qed

lemma perform_runs_unique:
  assumes "perform_all (replicate k (Run 0 False)) \<sigma> = Some \<sigma>1" "stack \<sigma>1 0 = []"
    and "perform_all (replicate m (Run 0 False)) \<sigma> = Some \<sigma>2" "stack \<sigma>2 0 = []"
  shows "\<sigma>1 = \<sigma>2"
proof -
  have stuck: "perform_all (replicate j (Run 0 False)) \<sigma>0 = Some \<sigma>' \<Longrightarrow> stack \<sigma>0 0 = [] \<Longrightarrow> \<sigma>' = \<sigma>0" for j \<sigma>0 \<sigma>'
    by (cases j) (auto split: if_splits)
  have "perform_all (replicate (i + j) (Run 0 False)) \<sigma> =
      Option.bind (perform_all (replicate i (Run 0 False)) \<sigma>) (perform_all (replicate j (Run 0 False)))" for i j
    by (simp add: replicate_add perform_all_append)
  from this [of k "m - k"] this [of m "k - m"] show ?thesis
    using assms stuck [of "m - k" \<sigma>1 \<sigma>2] stuck [of "k - m" \<sigma>2 \<sigma>1] by (cases "k \<le> m") auto
qed

lemma races_first:
  assumes "races (nobody(0 := [c])) \<sigma> S' \<sigma>'" "alone \<sigma>" "stack \<sigma> 0 = []"
  shows "(S' = nobody(0 := [c]) \<and> \<sigma>' = \<sigma>) \<or> (\<exists>\<sigma>1. within_limits \<sigma> \<and> step \<sigma> (Call 0 c) \<sigma>1 \<and> races nobody \<sigma>1 S' \<sigma>')"
  using assms
proof (induction rule: races.induct)
  case (begins S' \<sigma>' t d cs \<sigma>'')
  from begins.IH [OF begins.prems] show ?case
  proof
    assume first: "S' = nobody(0 := [c]) \<and> \<sigma>' = \<sigma>"
    then have "t = 0" "d = c" "cs = []" using begins.hyps(3) by (auto simp: nobody_def split: if_splits)
    moreover from this have "S'(t := cs) = nobody" using first by (auto simp: nobody_def fun_eq_iff)
    ultimately show ?thesis using begins.hyps(2,4) first races.stay by auto
  qed (use begins.hyps in \<open>blast intro: races.begins\<close>)
next
  case (goes S' \<sigma>' t \<sigma>'')
  from goes.IH [OF goes.prems] show ?case
  proof
    assume "S' = nobody(0 := [c]) \<and> \<sigma>' = \<sigma>"
    then have "stack \<sigma>' t = []" using goes.prems by (cases "t = 0") (auto simp: alone_def)
    then show ?thesis using goes.hyps(3) by (auto elim: step_RunE)
  qed (use goes.hyps in \<open>blast intro: races.goes\<close>)
qed simp

lemma passes_do_alone:
  assumes play: "perform_all (Call 0 c # replicate k (Run 0 False)) \<sigma> = Some \<sigma>'" "stack \<sigma>' 0 = []"
    and alone: "alone \<sigma>" and rest: "alone \<sigma>' \<Longrightarrow> passes K nobody \<sigma>'"
  shows "passes (Do c K) nobody \<sigma>"
proof -
  obtain \<sigma>1 where call: "step \<sigma> (Call 0 c) \<sigma>1" "perform_all (replicate k (Run 0 False)) \<sigma>1 = Some \<sigma>'"
    using play(1) by (auto simp: perform_step simp del: perform.simps split: if_splits option.splits)
  have empty: "stack \<sigma> 0 = []" using call(1) by (auto elim: step_CallE)
  have "passes K S' \<sigma>2" if f: "finished (nobody(0 := [c])) \<sigma> S' \<sigma>2" for S' \<sigma>2
  proof -
    have "S' \<noteq> nobody(0 := [c])" using f by (auto simp: finished_def)
    then obtain \<sigma>3 where 3: "step \<sigma> (Call 0 c) \<sigma>3" "races nobody \<sigma>3 S' \<sigma>2"
      using races_first [OF _ alone empty] f unfolding finished_def by blast
    have "\<sigma>3 = \<sigma>1" using 3(1) call(1) perform_step [of "Call 0 c" \<sigma>] by (metis option.inject)
    moreover from this have "alone \<sigma>3" using call(1) alone by (auto simp: alone_def elim!: step_CallE)
    ultimately obtain m where "S' = nobody" "alone \<sigma>2" "perform_all (replicate m (Run 0 False)) \<sigma>1 = Some \<sigma>2"
      using races_alone [OF 3(2)] by blast
    moreover from this have "\<sigma>2 = \<sigma>'"
      using perform_runs_unique [OF call(2) play(2)] f by (auto simp: finished_def)
    ultimately show ?thesis using rest by blast
  qed
  then show ?thesis by simp
qed

lemma passes_after:
  "play cs \<sigma> = Some \<sigma>' \<Longrightarrow> alone \<sigma> \<Longrightarrow> (alone \<sigma>' \<Longrightarrow> passes K nobody \<sigma>') \<Longrightarrow> passes (after (map fst cs) K) nobody \<sigma>"
proof (induction cs \<sigma> rule: play.induct)
  case (2 c k cs \<sigma>)
  then obtain \<sigma>1 where p: "perform_all (Call 0 c # replicate k (Run 0 False)) \<sigma> = Some \<sigma>1" "stack \<sigma>1 0 = []"
    "play cs \<sigma>1 = Some \<sigma>'"
    by (auto simp del: perform_all.simps split: option.splits if_splits)
  have "passes (Do c (after (map fst cs) K)) nobody \<sigma>"
    by (rule passes_do_alone [OF p(1,2) 2(3)]) (rule 2(1) [OF p(1,2,3) _ 2(4)])
  then show ?case by (simp add: after_def)
qed (simp add: after_def)

lemma play_reachable: "play cs \<sigma> = Some \<sigma>' \<Longrightarrow> reachable \<sigma> \<Longrightarrow> reachable \<sigma>'"
proof (induction cs \<sigma> rule: play.induct)
  case (2 c k cs \<sigma>)
  then show ?case using perform_all_reachable
    by (fastforce simp del: perform_all.simps split: option.splits if_splits)
qed simp

text \<open>Once everybody is done nothing happens any more.\<close>

lemma finished_idle:
  assumes "finished nobody \<sigma> S' \<sigma>'" "alone \<sigma>" "stack \<sigma> 0 = []"
  shows "S' = nobody \<and> \<sigma>' = \<sigma>"
proof -
  obtain k where k: "S' = nobody" "perform_all (replicate k (Run 0 False)) \<sigma> = Some \<sigma>'"
    using races_alone assms(1,2) unfolding finished_def by blast
  then show ?thesis using assms(3) by (cases k) (auto split: if_splits)
qed

end
