(* ===== verification/Loom_Tracking.thy ===== *)
theory Loom_Tracking
  imports Loom_Runs
begin

text \<open>
  What races keep: errands that end with their thread, stocks that bound how many objects come
  into being, and objects that stay because nobody has a call that takes them away.
\<close>

section \<open>Invariants of races\<close>

locale race_invariant =
  fixes J :: "scripts \<Rightarrow> sys \<Rightarrow> bool"
  assumes J_call: "reachable \<sigma> \<Longrightarrow> within_limits \<sigma> \<Longrightarrow> J S \<sigma> \<Longrightarrow> S t = c # cs \<Longrightarrow> t < n_threads \<sigma> \<Longrightarrow> stack \<sigma> t = [] \<Longrightarrow>
      may_call c \<sigma> \<Longrightarrow> begin_call c (mem \<sigma>) = Some (h, fs) \<Longrightarrow>
      J (S(t := cs)) (\<sigma>\<lparr>mem := h, stack := (stack \<sigma>)(t := fs)\<rparr>)"
    and J_run: "reachable \<sigma> \<Longrightarrow> within_limits \<sigma> \<Longrightarrow> J S \<sigma> \<Longrightarrow> t < n_threads \<sigma> \<Longrightarrow> stack \<sigma> t = f # fs \<Longrightarrow>
      exec t False f (mem \<sigma>) = Next h gs \<Longrightarrow> J S (\<sigma>\<lparr>mem := h, stack := (stack \<sigma>)(t := gs @ fs)\<rparr>)"
begin

lemma through: "races S \<sigma> S' \<sigma>' \<Longrightarrow> reachable \<sigma> \<Longrightarrow> J S \<sigma> \<Longrightarrow> J S' \<sigma>'"
proof (induction rule: races.induct)
  case (begins S' \<sigma>' t c cs \<sigma>'')
  have r: "reachable \<sigma>'" by (rule later_reachable [OF races_later [OF begins.hyps(1)] begins.prems(1)])
  obtain h fs where e: "\<sigma>'' = \<sigma>'\<lparr>mem := h, stack := (stack \<sigma>')(t := fs)\<rparr>" "t < n_threads \<sigma>'" "stack \<sigma>' t = []"
    "may_call c \<sigma>'" "begin_call c (mem \<sigma>') = Some (h, fs)"
    using begins.hyps(4) by (rule step_CallE) blast
  show ?case unfolding e(1) by (rule J_call [OF r begins.hyps(2) begins.IH [OF begins.prems] begins.hyps(3) e(2-5)])
next
  case (goes S' \<sigma>' t \<sigma>'')
  have r: "reachable \<sigma>'" by (rule later_reachable [OF races_later [OF goes.hyps(1)] goes.prems(1)])
  obtain f fs h gs where e: "\<sigma>'' = \<sigma>'\<lparr>mem := h, stack := (stack \<sigma>')(t := gs @ fs)\<rparr>" "t < n_threads \<sigma>'"
    "stack \<sigma>' t = f # fs" "exec t False f (mem \<sigma>') = Next h gs"
    using goes.hyps(3) by (rule step_RunE) blast
  show ?case unfolding e(1) by (rule J_run [OF r goes.hyps(2) goes.IH [OF goes.prems] e(2-4)])
qed simp

end

lemma race_invariant_conj:
  assumes "race_invariant J" "race_invariant K"
  shows "race_invariant (\<lambda>S \<sigma>. J S \<sigma> \<and> K S \<sigma>)"
proof
  note J = race_invariant.J_call [OF assms(1)] race_invariant.J_run [OF assms(1)]
  note K = race_invariant.J_call [OF assms(2)] race_invariant.J_run [OF assms(2)]
  fix \<sigma> S t h
  assume a: "reachable \<sigma>" "within_limits \<sigma>" "J S \<sigma> \<and> K S \<sigma>" "t < n_threads \<sigma>"
  show "J (S(t := cs)) (\<sigma>\<lparr>mem := h, stack := (stack \<sigma>)(t := fs)\<rparr>) \<and> K (S(t := cs)) (\<sigma>\<lparr>mem := h, stack := (stack \<sigma>)(t := fs)\<rparr>)"
    if "S t = c # cs" "stack \<sigma> t = []" "may_call c \<sigma>" "begin_call c (mem \<sigma>) = Some (h, fs)" for c cs fs
    using a(3) J(1) [where S = S and t = t, OF a(1,2) _ that(1) a(4) that(2-4)] K(1) [where S = S and t = t, OF a(1,2) _ that(1) a(4) that(2-4)] by blast
  show "J S (\<sigma>\<lparr>mem := h, stack := (stack \<sigma>)(t := gs @ fs)\<rparr>) \<and> K S (\<sigma>\<lparr>mem := h, stack := (stack \<sigma>)(t := gs @ fs)\<rparr>)"
    if "stack \<sigma> t = f # fs" "exec t False f (mem \<sigma>) = Next h gs" for f fs gs
    using a(3) J(2) [OF a(1,2) _ a(4) that] K(2) [OF a(1,2) _ a(4) that] by blast
qed

text \<open>
  An errand of the thread \<open>u\<close>: \<open>asks\<close> says which of its calls start it, \<open>carries\<close> which frames are on
  it, \<open>over\<close> when it is done, and \<open>D\<close> is what it needs meanwhile. Once the thread has run its script
  the errand is done.
\<close>

locale errand = race_invariant D for D :: "scripts \<Rightarrow> sys \<Rightarrow> bool" +
  fixes u :: tid and over :: "heap \<Rightarrow> bool" and carries :: "heap \<Rightarrow> frame \<Rightarrow> bool" and asks :: "call \<Rightarrow> bool"
  assumes run_over: "reachable \<sigma> \<Longrightarrow> within_limits \<sigma> \<Longrightarrow> D S \<sigma> \<Longrightarrow> t < n_threads \<sigma> \<Longrightarrow> stack \<sigma> t = f # fs \<Longrightarrow>
      exec t False f (mem \<sigma>) = Next h gs \<Longrightarrow> over (mem \<sigma>) \<Longrightarrow> over h"
    and run_carries: "reachable \<sigma> \<Longrightarrow> within_limits \<sigma> \<Longrightarrow> D S \<sigma> \<Longrightarrow> u < n_threads \<sigma> \<Longrightarrow> stack \<sigma> u = f # fs \<Longrightarrow>
      exec u False f (mem \<sigma>) = Next h gs \<Longrightarrow> carries (mem \<sigma>) f \<Longrightarrow> over h \<or> (\<exists>g \<in> set gs. carries h g)"
    and run_other: "reachable \<sigma> \<Longrightarrow> within_limits \<sigma> \<Longrightarrow> D S \<sigma> \<Longrightarrow> t < n_threads \<sigma> \<Longrightarrow> stack \<sigma> t = f # fs \<Longrightarrow>
      exec t False f (mem \<sigma>) = Next h gs \<Longrightarrow> pending \<sigma> g \<Longrightarrow> carries (mem \<sigma>) g \<Longrightarrow> carries h g"
    and call_over: "reachable \<sigma> \<Longrightarrow> D S \<sigma> \<Longrightarrow> S t = c # cs \<Longrightarrow> stack \<sigma> t = [] \<Longrightarrow> begin_call c (mem \<sigma>) = Some (h, fs) \<Longrightarrow>
      over (mem \<sigma>) \<Longrightarrow> t \<noteq> u \<or> \<not> asks c \<Longrightarrow> over h"
    and call_asks: "reachable \<sigma> \<Longrightarrow> D S \<sigma> \<Longrightarrow> S u = c # cs \<Longrightarrow> stack \<sigma> u = [] \<Longrightarrow> begin_call c (mem \<sigma>) = Some (h, fs) \<Longrightarrow>
      asks c \<Longrightarrow> over h \<or> (\<exists>g \<in> set fs. carries h g)"
    and call_other: "reachable \<sigma> \<Longrightarrow> D S \<sigma> \<Longrightarrow> S t = c # cs \<Longrightarrow> stack \<sigma> t = [] \<Longrightarrow> begin_call c (mem \<sigma>) = Some (h, fs) \<Longrightarrow>
      pending \<sigma> g \<Longrightarrow> carries (mem \<sigma>) g \<Longrightarrow> carries h g"
begin

definition out :: "scripts \<Rightarrow> sys \<Rightarrow> bool" where
  "out S \<sigma> \<longleftrightarrow> D S \<sigma> \<and> u < n_threads \<sigma> \<and>
     (over (mem \<sigma>) \<or> (\<exists>f \<in> set (stack \<sigma> u). carries (mem \<sigma>) f) \<or> (\<exists>c \<in> set (S u). asks c))"

lemma out_call:
  assumes a: "reachable \<sigma>" "within_limits \<sigma>" "out S \<sigma>" "S t = c # cs" "t < n_threads \<sigma>" "stack \<sigma> t = []"
    "may_call c \<sigma>" "begin_call c (mem \<sigma>) = Some (h, fs)"
  shows "out (S(t := cs)) (\<sigma>\<lparr>mem := h, stack := (stack \<sigma>)(t := fs)\<rparr>)"
proof -
  have D: "D S \<sigma>" "u < n_threads \<sigma>" using a(3) by (simp_all add: out_def)
  have D': "D (S(t := cs)) (\<sigma>\<lparr>mem := h, stack := (stack \<sigma>)(t := fs)\<rparr>)" by (rule J_call [OF a(1,2) D(1) a(4-8)])
  consider (over) "over (mem \<sigma>)" | (carried) f where "f \<in> set (stack \<sigma> u)" "carries (mem \<sigma>) f" | (asked) d where "d \<in> set (S u)" "asks d"
    using a(3) by (auto simp: out_def)
  then have "over h \<or> (\<exists>f \<in> set (((stack \<sigma>)(t := fs)) u). carries h f) \<or> (\<exists>d \<in> set ((S(t := cs)) u). asks d)"
  proof cases
    case over
    then show ?thesis using call_over [OF a(1) D(1) a(4,6,8)] call_asks [OF a(1) D(1) _ _ a(8)] a(4,6) by (cases "t = u \<and> asks c") auto
  next
    case (carried f)
    then have "pending \<sigma> f" "t \<noteq> u" using D(2) a(6) by (auto simp: pending_def)
    then show ?thesis using call_other [OF a(1) D(1) a(4,6,8)] carried by auto
  next
    case (asked d)
    then show ?thesis using call_asks [OF a(1) D(1) _ _ a(8)] a(4,6) by (cases "t = u") auto
  qed
  then show ?thesis using D' D(2) by (simp add: out_def)
qed

lemma out_run:
  assumes a: "reachable \<sigma>" "within_limits \<sigma>" "out S \<sigma>" "t < n_threads \<sigma>" "stack \<sigma> t = f # fs" "exec t False f (mem \<sigma>) = Next h gs"
  shows "out S (\<sigma>\<lparr>mem := h, stack := (stack \<sigma>)(t := gs @ fs)\<rparr>)"
proof -
  have D: "D S \<sigma>" "u < n_threads \<sigma>" using a(3) by (simp_all add: out_def)
  have D': "D S (\<sigma>\<lparr>mem := h, stack := (stack \<sigma>)(t := gs @ fs)\<rparr>)" by (rule J_run [OF a(1,2) D(1) a(4-6)])
  have "over h \<or> (\<exists>f \<in> set (((stack \<sigma>)(t := gs @ fs)) u). carries h f)" if g: "g \<in> set (stack \<sigma> u)" "carries (mem \<sigma>) g" for g
  proof (cases "t = u \<and> g = f")
    case True
    then show ?thesis using run_carries [OF a(1,2) D] a(5,6) g(2) by auto
  next
    case False
    have "pending \<sigma> g" using g(1) D(2) by (auto simp: pending_def)
    then have "carries h g" by (rule run_other [OF a(1,2) D(1) a(4-6) _ g(2)])
    then show ?thesis using g(1) a(5) False by (auto split: if_splits)
  qed
  then show ?thesis using D' D(2) a(3) run_over [OF a(1,2) D(1) a(4-6)] by (auto simp: out_def)
qed

sublocale running: race_invariant out
  by unfold_locales (use out_call out_run in \<open>blast+\<close>)

text \<open>The errand is done when the thread is.\<close>

lemma run_errand:
  assumes "races S \<sigma> S' \<sigma>'" "reachable \<sigma>" "out S \<sigma>" "S' u = []" "stack \<sigma>' u = []"
  shows "over (mem \<sigma>')"
  using running.through [OF assms(1-3)] assms(4,5) by (simp add: out_def)

end

section \<open>Stocks\<close>

text \<open>
  A stock of objects: nothing but the frames that make one, and the calls that lead to them, can
  raise their number.
\<close>

locale stock =
  fixes made :: "heap \<Rightarrow> nat" and makes :: "frame \<Rightarrow> bool" and orders :: "call \<Rightarrow> bool"
  assumes run_made: "exec t b f h = Next h' gs \<Longrightarrow> made h' + length (filter makes gs) \<le> made h + of_bool (makes f)"
    and call_made: "begin_call c h = Some (h', fs) \<Longrightarrow> made h' + length (filter makes fs) \<le> made h + of_bool (orders c)"
begin

definition bounded :: "nat \<Rightarrow> scripts \<Rightarrow> sys \<Rightarrow> bool" where
  "bounded N S \<sigma> \<longleftrightarrow> made (mem \<sigma>) +
     addup (n_threads \<sigma>) (\<lambda>t. length (filter makes (stack \<sigma> t)) + length (filter orders (S t))) \<le> N"

lemma bounded_call:
  assumes "bounded N S \<sigma>" "S t = c # cs" "t < n_threads \<sigma>" "stack \<sigma> t = []" "begin_call c (mem \<sigma>) = Some (h, fs)"
  shows "bounded N (S(t := cs)) (\<sigma>\<lparr>mem := h, stack := (stack \<sigma>)(t := fs)\<rparr>)"
proof -
  let ?F = "\<lambda>u. length (filter makes (stack \<sigma> u)) + length (filter orders (S u))"
  let ?G = "\<lambda>u. length (filter makes (((stack \<sigma>)(t := fs)) u)) + length (filter orders ((S(t := cs)) u))"
  have "addup (n_threads \<sigma>) ?G + ?F t = addup (n_threads \<sigma>) ?F + ?G t" by (rule addup_change [OF assms(3)]) simp
  then show ?thesis using call_made [OF assms(5)] assms(1,2,4) by (simp add: bounded_def split: if_splits)
qed

lemma bounded_run:
  assumes "bounded N S \<sigma>" "t < n_threads \<sigma>" "stack \<sigma> t = f # fs" "exec t b f (mem \<sigma>) = Next h gs"
  shows "bounded N S (\<sigma>\<lparr>mem := h, stack := (stack \<sigma>)(t := gs @ fs)\<rparr>)"
proof -
  let ?F = "\<lambda>u. length (filter makes (stack \<sigma> u)) + length (filter orders (S u))"
  let ?G = "\<lambda>u. length (filter makes (((stack \<sigma>)(t := gs @ fs)) u)) + length (filter orders (S u))"
  have "addup (n_threads \<sigma>) ?G + ?F t = addup (n_threads \<sigma>) ?F + ?G t" by (rule addup_change [OF assms(2)]) simp
  then show ?thesis using run_made [OF assms(4)] assms(1,3) by (simp add: bounded_def split: if_splits)
qed

sublocale limited: race_invariant "bounded N" for N
  by unfold_locales (use bounded_call bounded_run in \<open>blast+\<close>)

end

fun makes_guard :: "frame \<Rightarrow> bool" where
  "makes_guard (Grd (GuardAtLocation n loc dst)) = True"
| "makes_guard (Grd (Provenance s loc to)) = True"
| "makes_guard (Grd (ProvenanceRegister s loc info to)) = True"
| "makes_guard (Grd (GuardBuild s pin loc info dst)) = True"
| "makes_guard (Grd (GuardForShard s loc i)) = True"
| "makes_guard (Grd (ArriveIfArrived s loc i w)) = True"
| "makes_guard (Grd (GuardUpgrade s loc i)) = True"
| "makes_guard (Grd (GuardCloneArrive s pin loc info)) = True"
| "makes_guard f = False"

fun orders_guard :: "call \<Rightarrow> bool" where
  "orders_guard (CallGuard x loc) = True"
| "orders_guard (CallGuardClone g) = True"
| "orders_guard (CallGuarded i loc) = True"
| "orders_guard c = False"

fun makes_handle :: "frame \<Rightarrow> bool" where
  "makes_handle (Swan (HandleClone n)) = True"
| "makes_handle (Swan (HandleCloneArc n)) = True"
| "makes_handle (Life (ChildNew n)) = True"
| "makes_handle (Life (ChildRegister c)) = True"
| "makes_handle (Life (ChildStoreKey c k)) = True"
| "makes_handle (Life (ChildCheck c)) = True"
| "makes_handle (Life (ChildReturn c)) = True"
| "makes_handle f = False"

fun orders_handle :: "call \<Rightarrow> bool" where
  "orders_handle (CallNew rep) = True"
| "orders_handle (CallClone x) = True"
| "orders_handle (CallChild x) = True"
| "orders_handle c = False"

fun makes_node :: "frame \<Rightarrow> bool" where
  "makes_node (Life (ChildNew n)) = True"
| "makes_node f = False"

fun orders_node :: "call \<Rightarrow> bool" where
  "orders_node (CallNew rep) = True"
| "orders_node (CallChild x) = True"
| "orders_node c = False"

fun makes_completion :: "frame \<Rightarrow> bool" where
  "makes_completion (Swan (CompletionNew n)) = True"
| "makes_completion f = False"

fun orders_completion :: "call \<Rightarrow> bool" where
  "orders_completion (CallShutDown x) = True"
| "orders_completion (CallIntoFuture x) = True"
| "orders_completion (CallShuttingDown x) = True"
| "orders_completion c = False"

lemma filter_empty: "\<forall>g \<in> set gs. \<not> P g \<Longrightarrow> filter P gs = []"
  by (induction gs) auto

lemma stop_shards_makes [simp]:
  "filter makes_guard (stop_shards n h) = []" "filter makes_handle (stop_shards n h) = []"
  "filter makes_node (stop_shards n h) = []" "filter makes_completion (stop_shards n h) = []"
  by (rule filter_empty; auto simp: stop_shards_def)+

lemma index_counts: "shard_index t n h = (h', i) \<Longrightarrow> n_guards h' = n_guards h \<and> n_handles h' = n_handles h \<and>
    n_nodes h' = n_nodes h \<and> n_completions h' = n_completions h"
  by (auto simp: shard_index_def thread_index_def Let_def split: prod.splits if_splits)

lemma count_stocks:
  assumes "count_step t b c h = Next h' gs"
  shows "n_guards h' = n_guards h" "n_handles h' = n_handles h" "n_nodes h' = n_nodes h" "n_completions h' = n_completions h"
    "filter makes_guard gs = []" "filter makes_handle gs = []" "filter makes_node gs = []" "filter makes_completion gs = []"
  using same_owners_count [OF assms] count_frames [OF assms] by (auto simp: same_owners_def intro!: filter_empty)

lemma intr_goes_on: "intr_step t b c h = Next h' gs \<Longrightarrow> \<forall>g \<in> set gs. \<exists>c'. g = Intr c'"
  by (cases "(t, b, c, h)" rule: intr_step.cases)
    (auto simp: step_defs on_interrupt_def poll_returns_def Let_def simp del: upd_shard_def split: option.splits if_splits)

lemma intr_stocks:
  assumes "intr_step t b c h = Next h' gs"
  shows "n_guards h' = n_guards h" "n_handles h' = n_handles h" "n_nodes h' = n_nodes h" "n_completions h' = n_completions h"
    "filter makes_guard gs = []" "filter makes_handle gs = []" "filter makes_node gs = []" "filter makes_completion gs = []"
  using intr_same_owners [OF assms] intr_goes_on [OF assms] by (auto simp: same_owners_def intro!: filter_empty)

lemma stop_stocks:
  assumes step: "stop_step t c h = Next h' gs"
  shows "n_guards h' = n_guards h \<and> n_handles h' = n_handles h \<and> n_nodes h' = n_nodes h \<and> n_completions h' = n_completions h"
    and "\<forall>g \<in> set gs. \<not> makes_guard g \<and> \<not> makes_handle g \<and> \<not> makes_node g \<and> \<not> makes_completion g"
proof -
  have "(n_guards h' = n_guards h \<and> n_handles h' = n_handles h \<and> n_nodes h' = n_nodes h \<and> n_completions h' = n_completions h) \<and>
    (\<forall>g \<in> set gs. \<not> makes_guard g \<and> \<not> makes_handle g \<and> \<not> makes_node g \<and> \<not> makes_completion g)"
  proof (cases c)
    case (ShardWake s w ws)
    with step show ?thesis by (cases ws) auto
  next
    case (StopUpgrade n i cs live)
    with step show ?thesis by (cases cs) (auto simp: weak_upgrade_def arc_clone_def lock_release_def split: if_splits)
  qed (use step in \<open>auto simp: shard_stop_def shard_drain_def node_stop_def stop_shards_def stop_notify_def stop_zero_def
      stop_children_def notify_zero_def lock_acquire_def set_shard_word_def set_node_word_def Let_def split: if_splits\<close>)
  then show "n_guards h' = n_guards h \<and> n_handles h' = n_handles h \<and> n_nodes h' = n_nodes h \<and> n_completions h' = n_completions h"
    "\<forall>g \<in> set gs. \<not> makes_guard g \<and> \<not> makes_handle g \<and> \<not> makes_node g \<and> \<not> makes_completion g" by blast+
qed

lemma life_stocks:
  assumes step: "life_step t c h = Next h' gs"
  shows "n_guards h' = n_guards h" "n_handles h' + length (filter makes_handle gs) = n_handles h + of_bool (makes_handle (Life c))"
    "n_nodes h' + length (filter makes_node gs) = n_nodes h + of_bool (makes_node (Life c))" "n_completions h' = n_completions h"
    "filter makes_guard gs = []" "filter makes_completion gs = []"
proof -
  have "n_guards h' = n_guards h \<and> n_handles h' + length (filter makes_handle gs) = n_handles h + of_bool (makes_handle (Life c)) \<and>
    n_nodes h' + length (filter makes_node gs) = n_nodes h + of_bool (makes_node (Life c)) \<and> n_completions h' = n_completions h \<and>
    filter makes_guard gs = [] \<and> filter makes_completion gs = []"
  proof (cases "(t, c, h)" rule: life_step.cases)
    case (3 t n h)
    obtain h1 i where h1: "shard_index t n h = (h1, i)" by fastforce
    with step 3 index_counts [OF h1] show ?thesis by (auto simp: child_new_def alloc_node_def arc_clone_def Let_def)
  qed (use step in \<open>auto simp: step_defs alloc_handle_def Let_def split: if_splits option.splits prod.splits\<close>)
  then show "n_guards h' = n_guards h" "n_handles h' + length (filter makes_handle gs) = n_handles h + of_bool (makes_handle (Life c))"
    "n_nodes h' + length (filter makes_node gs) = n_nodes h + of_bool (makes_node (Life c))" "n_completions h' = n_completions h"
    "filter makes_guard gs = []" "filter makes_completion gs = []" by blast+
qed

lemma guard_stocks:
  assumes step: "guard_step t b c h = Next h' gs"
  shows "n_guards h' + length (filter makes_guard gs) \<le> n_guards h + of_bool (makes_guard (Grd c))" "n_handles h' = n_handles h"
    "n_nodes h' = n_nodes h" "n_completions h' = n_completions h"
    "filter makes_handle gs = []" "filter makes_node gs = []" "filter makes_completion gs = []"
proof -
  have "n_guards h' + length (filter makes_guard gs) \<le> n_guards h + of_bool (makes_guard (Grd c)) \<and> n_handles h' = n_handles h \<and>
    n_nodes h' = n_nodes h \<and> n_completions h' = n_completions h \<and>
    filter makes_handle gs = [] \<and> filter makes_node gs = [] \<and> filter makes_completion gs = []"
  proof (cases "(t, b, c, h)" rule: guard_step.cases)
    case (1 t b n loc dst h)
    obtain h1 i where h1: "shard_index t n h = (h1, i)" by fastforce
    with step 1 index_counts [OF h1] show ?thesis by (auto simp: guard_at_location_def inner_shard_def)
  next
    case (2 t b s loc to h)
    with step show ?thesis by (cases to) (auto simp: provenance_def alloc_info_def Let_def split: if_splits)
  next
    case (3 t b s loc info to h)
    with step show ?thesis by (cases to) (auto simp: provenance_register_def Let_def)
  next
    case (4 t b s pin loc info dst h)
    with step show ?thesis by (auto simp: guard_build_def alloc_guard_def arc_clone_def Let_def split: option.splits)
  qed (use step in \<open>auto simp: guard_for_shard_def arrive_if_arrived_def guard_upgrade_def guard_clone_arrive_def guard_drop_def
      guard_depart_def guard_flush_weak_def drop_info_def atomic_defs weak_upgrade_def arc_clone_def set_shard_word_def Let_def
      split: if_splits option.splits prod.splits\<close>)
  then show "n_guards h' + length (filter makes_guard gs) \<le> n_guards h + of_bool (makes_guard (Grd c))" "n_handles h' = n_handles h"
    "n_nodes h' = n_nodes h" "n_completions h' = n_completions h"
    "filter makes_handle gs = []" "filter makes_node gs = []" "filter makes_completion gs = []" by blast+
qed

lemma swan_stocks:
  assumes step: "swan_step t c h = Next h' gs"
  shows "n_guards h' = n_guards h" "n_handles h' + length (filter makes_handle gs) = n_handles h + of_bool (makes_handle (Swan c))"
    "n_nodes h' = n_nodes h" "n_completions h' + length (filter makes_completion gs) = n_completions h + of_bool (makes_completion (Swan c))"
    "filter makes_guard gs = []" "filter makes_node gs = []"
proof -
  have "n_guards h' = n_guards h \<and> n_handles h' + length (filter makes_handle gs) = n_handles h + of_bool (makes_handle (Swan c)) \<and>
    n_nodes h' = n_nodes h \<and> n_completions h' + length (filter makes_completion gs) = n_completions h + of_bool (makes_completion (Swan c)) \<and>
    filter makes_guard gs = [] \<and> filter makes_node gs = []"
  proof (cases "(t, c, h)" rule: swan_step.cases)
    case (5 t n h)
    obtain h1 i where h1: "shard_index t n h = (h1, i)" by fastforce
    with step 5 index_counts [OF h1] show ?thesis by (auto simp: interrupt_new_def inner_shard_def alloc_interrupt_def)
  qed (use step in \<open>auto simp: step_defs alloc_handle_def alloc_completion_def arc_clone_def Let_def split: if_splits prod.splits\<close>)
  then show "n_guards h' = n_guards h" "n_handles h' + length (filter makes_handle gs) = n_handles h + of_bool (makes_handle (Swan c))"
    "n_nodes h' = n_nodes h" "n_completions h' + length (filter makes_completion gs) = n_completions h + of_bool (makes_completion (Swan c))"
    "filter makes_guard gs = []" "filter makes_node gs = []" by blast+
qed

lemma exec_stocks:
  assumes step: "exec t b f h = Next h' gs"
  shows "n_guards h' + length (filter makes_guard gs) \<le> n_guards h + of_bool (makes_guard f)"
    "n_handles h' + length (filter makes_handle gs) \<le> n_handles h + of_bool (makes_handle f)"
    "n_nodes h' + length (filter makes_node gs) \<le> n_nodes h + of_bool (makes_node f)"
    "n_completions h' + length (filter makes_completion gs) \<le> n_completions h + of_bool (makes_completion f)"
proof -
  have "(n_guards h' + length (filter makes_guard gs) \<le> n_guards h + of_bool (makes_guard f) \<and>
    n_handles h' + length (filter makes_handle gs) \<le> n_handles h + of_bool (makes_handle f)) \<and>
    n_nodes h' + length (filter makes_node gs) \<le> n_nodes h + of_bool (makes_node f) \<and>
    n_completions h' + length (filter makes_completion gs) \<le> n_completions h + of_bool (makes_completion f)"
  proof (cases f)
    case (Count c)
    with step count_stocks [of t b c h h' gs] show ?thesis by simp
  next
    case (Stop c)
    then have "stop_step t c h = Next h' gs" using step by simp
    from stop_stocks [OF this] show ?thesis by (simp add: filter_empty)
  next
    case (Life c)
    with step life_stocks [of t c h h' gs] show ?thesis by simp
  next
    case (Grd c)
    with step guard_stocks [of t b c h h' gs] show ?thesis by simp
  next
    case (Swan c)
    with step swan_stocks [of t c h h' gs] show ?thesis by simp
  next
    case (Intr c)
    with step intr_stocks [of t b c h h' gs] show ?thesis by simp
  qed (use step in simp)
  then show "n_guards h' + length (filter makes_guard gs) \<le> n_guards h + of_bool (makes_guard f)"
    "n_handles h' + length (filter makes_handle gs) \<le> n_handles h + of_bool (makes_handle f)"
    "n_nodes h' + length (filter makes_node gs) \<le> n_nodes h + of_bool (makes_node f)"
    "n_completions h' + length (filter makes_completion gs) \<le> n_completions h + of_bool (makes_completion f)" by blast+
qed

lemma call_stocks:
  assumes "begin_call c h = Some (h', fs)"
  shows "n_guards h' + length (filter makes_guard fs) \<le> n_guards h + of_bool (orders_guard c)"
    "n_handles h' + length (filter makes_handle fs) \<le> n_handles h + of_bool (orders_handle c)"
    "n_nodes h' + length (filter makes_node fs) \<le> n_nodes h + of_bool (orders_node c)"
    "n_completions h' + length (filter makes_completion fs) \<le> n_completions h + of_bool (orders_completion c)"
  using assms
  by (cases c; auto simp: on_handle_def drop_frames_def new_root_def alloc_node_def alloc_handle_def Let_def
      split: option.splits if_splits)+

interpretation guards: stock n_guards makes_guard orders_guard
  by unfold_locales (rule exec_stocks call_stocks; assumption)+

interpretation handles: stock n_handles makes_handle orders_handle
  by unfold_locales (rule exec_stocks call_stocks; assumption)+

interpretation nodes: stock n_nodes makes_node orders_node
  by unfold_locales (rule exec_stocks call_stocks; assumption)+

interpretation completions: stock n_completions makes_completion orders_completion
  by unfold_locales (rule exec_stocks call_stocks; assumption)+

end
