(* ===== verification/Loom_Errands.thy ===== *)
theory Loom_Errands
  imports Loom_Tracking
begin

text \<open>
  The errands of the tests: stopping a node, dropping a guard, creating a guard or a child, polling
  an interrupt that is over. And what stays put meanwhile: handles, guards and interrupts that
  no script touches.
\<close>

section \<open>What steps and calls keep\<close>

lemma run_kept:
  assumes "reachable \<sigma>" "t < n_threads \<sigma>" "stack \<sigma> t = f # fs" "exec t b f (mem \<sigma>) = Next h gs"
  shows "kept (mem \<sigma>) h f"
  using run_owned [OF reachable_sys_ok [OF assms(1)] reachable_owner_ok [OF assms(1)] assms(2-4)] by (simp add: owned_step_def)

lemma call_keeps:
  assumes "reachable \<sigma>" "begin_call c (mem \<sigma>) = Some (h, fs)"
  shows "call_kept (mem \<sigma>) h c"
  using begin_call_owned [OF assms(2) reachable_heap_ok [OF assms(1)] owner_okD(1) [OF reachable_owner_ok [OF assms(1)]]]
  by (simp add: call_owned_def)

text \<open>Only two kinds of steps change the table of guards.\<close>

lemma exec_guard_table:
  assumes step: "exec t b f h = Next h' gs"
  shows "n_guards h \<le> n_guards h' \<and>
    (f = Grd (GuardDrop g) \<or> builds f \<and> n_guards h \<le> g \<or> guard_at h' g = guard_at h g)"
proof (cases f)
  case (Count c)
  with step same_owners_count [of t b c h h' gs] show ?thesis by (simp add: same_owners_def)
next
  case (Stop c)
  then have st: "stop_step t c h = Next h' gs" using step by simp
  show ?thesis
  proof (cases c)
    case (ShardWake s w ws)
    with st Stop show ?thesis by (cases ws) auto
  next
    case (StopUpgrade n i cs live)
    with st Stop show ?thesis by (cases cs) (auto simp: weak_upgrade_def arc_clone_def lock_release_def split: if_splits)
  qed (use st Stop in \<open>auto simp: shard_stop_def shard_drain_def node_stop_def stop_notify_def stop_zero_def
      stop_children_def notify_zero_def lock_acquire_def set_shard_word_def set_node_word_def Let_def split: if_splits\<close>)
next
  case (Life c)
  then have st: "life_step t c h = Next h' gs" using step by simp
  show ?thesis
  proof (cases c)
    case (ChildNew n)
    obtain h1 i where h1: "shard_index t n h = (h1, i)" by fastforce
    have "same_owners h h1" by (rule same_owners_index [OF h1])
    with st h1 Life ChildNew show ?thesis by (auto simp: child_new_def alloc_node_def arc_clone_def same_owners_def Let_def)
  qed (use st Life in \<open>auto simp: step_defs alloc_handle_def Let_def split: if_splits option.splits prod.splits\<close>)
next
  case (Grd c)
  then have st: "guard_step t b c h = Next h' gs" using step by simp
  show ?thesis
  proof (cases c)
    case (GuardAtLocation n loc dst)
    obtain h1 i where h1: "shard_index t n h = (h1, i)" by fastforce
    have "same_owners h h1" by (rule same_owners_index [OF h1])
    with st h1 Grd GuardAtLocation show ?thesis by (auto simp: guard_at_location_def inner_shard_def same_owners_def)
  next
    case (GuardBuild s pin loc info dst)
    with st Grd show ?thesis by (auto simp: guard_build_def alloc_guard_def arc_clone_def Let_def split: option.splits if_splits)
  qed (use st Grd in \<open>auto simp: provenance_def alloc_info_def provenance_register_def guard_for_shard_def arrive_if_arrived_def
      guard_upgrade_def guard_clone_arrive_def guard_drop_def guard_depart_def guard_flush_weak_def drop_info_def atomic_defs
      weak_upgrade_def arc_clone_def set_shard_word_def Let_def split: if_splits option.splits prod.splits\<close>)
next
  case (Swan c)
  then have st: "swan_step t c h = Next h' gs" using step by simp
  show ?thesis
  proof (cases c)
    case (InterruptNew n)
    obtain h1 s where h1: "inner_shard t n h = (h1, s)" by fastforce
    have "same_owners h h1" using h1 same_owners_index by (auto simp: inner_shard_def split: prod.splits)
    with st h1 Swan InterruptNew show ?thesis by (auto simp: interrupt_new_def alloc_interrupt_def same_owners_def)
  qed (use st Swan in \<open>auto simp: step_defs alloc_handle_def alloc_completion_def arc_clone_def Let_def split: if_splits prod.splits\<close>)
next
  case (Intr c)
  with step intr_same_owners [of t b c h h' gs] show ?thesis by (simp add: same_owners_def)
qed (use step in simp)

lemma call_guard_table: "begin_call c h = Some (h', fs) \<Longrightarrow> guard_at h' = guard_at h \<and> n_guards h' = n_guards h"
  by (cases c; auto simp: on_handle_def new_root_def alloc_node_def alloc_handle_def Let_def split: option.splits if_splits)

section \<open>Handles that stay\<close>

definition holding :: "hid \<Rightarrow> nid \<Rightarrow> scripts \<Rightarrow> sys \<Rightarrow> bool" where
  "holding x n S \<sigma> \<longleftrightarrow> handle_at (mem \<sigma>) x = Some n \<and> (\<forall>t. CallDrop x \<notin> set (S t) \<and> CallIntoFuture x \<notin> set (S t))"

lemma holding_script:
  "holding x n S \<sigma> \<Longrightarrow> CallDrop x \<notin> set cs \<Longrightarrow> CallIntoFuture x \<notin> set cs \<Longrightarrow> holding x n (S(t := cs)) \<sigma>"
  by (simp add: holding_def)

lemma exclusive_handle: "exclusive c = Some (OHandle x) \<longleftrightarrow> c = CallDrop x \<or> c = CallIntoFuture x"
  by (cases c) auto

interpretation held: race_invariant "holding x n" for x n
proof
  fix \<sigma> S t c cs h fs
  assume "reachable \<sigma>" "holding x n S \<sigma>" "S t = c # cs" "begin_call c (mem \<sigma>) = Some (h, fs)"
  then show "holding x n (S(t := cs)) (\<sigma>\<lparr>mem := h, stack := (stack \<sigma>)(t := fs)\<rparr>)"
    using call_keeps [of \<sigma> c h fs] exclusive_handle [of c x]
    by (auto simp: holding_def call_kept_def) (metis list.set_intros)+
next
  fix \<sigma> S t f fs h gs
  assume "reachable \<sigma>" "holding x n S \<sigma>" "t < n_threads \<sigma>" "stack \<sigma> t = f # fs" "exec t False f (mem \<sigma>) = Next h gs"
  then show "holding x n S (\<sigma>\<lparr>mem := h, stack := (stack \<sigma>)(t := gs @ fs)\<rparr>)"
    using run_kept [of \<sigma> t f fs False h gs] by (simp add: holding_def kept_def)
qed

section \<open>Stopping a node\<close>

interpretation stopping: errand "holding x n" u "node_is_stopped n" "\<lambda>h f. f = Stop (NodeStop n)" "\<lambda>c. c = CallShutDown x" for x n u
proof
  fix \<sigma> S t f fs h gs
  assume a: "reachable \<sigma>" "within_limits \<sigma>" "holding x n S \<sigma>" "t < n_threads \<sigma>" "stack \<sigma> t = f # fs"
    "exec t False f (mem \<sigma>) = Next h gs"
  have "n < n_nodes (mem \<sigma>)" using handle_alive [OF a(1)] a(3) by (auto simp: holding_def)
  note stopped_node_run [OF a(1,2,4-6) this]
  then show "node_is_stopped n (mem \<sigma>) \<Longrightarrow> node_is_stopped n h" by blast
next
  fix \<sigma> S f fs h gs
  assume a: "reachable \<sigma>" "within_limits \<sigma>" "holding x n S \<sigma>" "u < n_threads \<sigma>" "stack \<sigma> u = f # fs"
    "exec u False f (mem \<sigma>) = Next h gs" "f = Stop (NodeStop n)"
  have "n < n_nodes (mem \<sigma>)" using handle_alive [OF a(1)] a(3) by (auto simp: holding_def)
  then show "node_is_stopped n h \<or> (\<exists>g \<in> set gs. g = Stop (NodeStop n))"
    using stopped_node_run [OF a(1,2,4-6)] a(7) by blast
next
  fix \<sigma> S t c cs h fs
  assume a: "reachable \<sigma>" "holding x n S \<sigma>" "begin_call c (mem \<sigma>) = Some (h, fs)" "node_is_stopped n (mem \<sigma>)"
  have "n < n_nodes (mem \<sigma>)" using handle_alive [OF a(1)] a(2) by (auto simp: holding_def)
  then show "node_is_stopped n h" using call_kept(1) [OF a(3)] a(4) by (simp add: node_is_stopped_def)
qed (auto simp: on_handle_def holding_def split: option.splits)

section \<open>Dropping a guard\<close>

interpretation allocated: race_invariant "\<lambda>S \<sigma>. g < n_guards (mem \<sigma>)" for g
proof
  fix \<sigma> and S :: scripts and t c cs h fs
  assume "g < n_guards (mem \<sigma>)" "begin_call c (mem \<sigma>) = Some (h, fs)"
  then show "g < n_guards (mem (\<sigma>\<lparr>mem := h, stack := (stack \<sigma>)(t := fs)\<rparr>))" by (simp add: call_guard_table)
next
  fix \<sigma> and S :: scripts and t f fs h gs
  assume "g < n_guards (mem \<sigma>)" "exec t False f (mem \<sigma>) = Next h gs"
  then show "g < n_guards (mem (\<sigma>\<lparr>mem := h, stack := (stack \<sigma>)(t := gs @ fs)\<rparr>))"
    using exec_guard_table [of t False f "mem \<sigma>" h gs] by (simp add: less_le_trans)
qed

interpretation dropping: errand "\<lambda>S \<sigma>. g < n_guards (mem \<sigma>)" u "\<lambda>h. guard_at h g = None" "\<lambda>h f. f = Grd (GuardDrop g)"
  "\<lambda>c. c = CallGuardDrop g" for g u
proof
  fix \<sigma> and S :: scripts and t f fs h gs
  assume "g < n_guards (mem \<sigma>)" "exec t False f (mem \<sigma>) = Next h gs" "guard_at (mem \<sigma>) g = None"
  then show "guard_at h g = None"
    using exec_guard_table [of t False f "mem \<sigma>" h gs g] by (auto simp: guard_drop_def split: option.splits)
next
  fix \<sigma> and S :: scripts and f fs h gs
  assume "exec u False f (mem \<sigma>) = Next h gs" "f = Grd (GuardDrop g)"
  then show "guard_at h g = None \<or> (\<exists>g' \<in> set gs. g' = Grd (GuardDrop g))"
    by (auto simp: guard_drop_def split: option.splits)
qed (auto simp: call_guard_table split: if_splits)

section \<open>Regimes\<close>

text \<open>Races in which no thread ever runs certain frames, because no script leads to one.\<close>

locale regime =
  fixes bad :: "frame \<Rightarrow> bool" and leads :: "call \<Rightarrow> bool"
  assumes run_good: "exec t False f h = Next h' gs \<Longrightarrow> \<not> bad f \<Longrightarrow> \<forall>g \<in> set gs. \<not> bad g"
    and call_good: "begin_call c h = Some (h', fs) \<Longrightarrow> \<not> leads c \<Longrightarrow> \<forall>g \<in> set fs. \<not> bad g"
begin

definition good :: "tid set \<Rightarrow> scripts \<Rightarrow> sys \<Rightarrow> bool" where
  "good U S \<sigma> \<longleftrightarrow> (\<forall>t \<in> U. (\<forall>f \<in> set (stack \<sigma> t). \<not> bad f) \<and> (\<forall>c \<in> set (S t). \<not> leads c))"

lemma good_top: "good U S \<sigma> \<Longrightarrow> t \<in> U \<Longrightarrow> stack \<sigma> t = f # fs \<Longrightarrow> \<not> bad f"
  by (fastforce simp: good_def)

lemma good_next: "good U S \<sigma> \<Longrightarrow> t \<in> U \<Longrightarrow> S t = c # cs \<Longrightarrow> \<not> leads c"
  by (fastforce simp: good_def)

lemma good_others: "good (- {t}) S \<sigma> \<Longrightarrow> S t = [] \<Longrightarrow> stack \<sigma> t = [] \<Longrightarrow> good UNIV S \<sigma>"
  by (auto simp: good_def)

lemma good_script: "good U S \<sigma> \<Longrightarrow> \<forall>c \<in> set cs. \<not> leads c \<Longrightarrow> good U (S(t := cs)) \<sigma>"
  by (simp add: good_def)

sublocale kept: race_invariant "good U" for U
proof
  fix \<sigma> S t c cs h fs
  assume a: "good U S \<sigma>" "S t = c # cs" "begin_call c (mem \<sigma>) = Some (h, fs)"
  have "\<forall>g \<in> set fs. \<not> bad g" if "t \<in> U" using call_good [OF a(3)] good_next [OF a(1) that a(2)] by blast
  moreover have "set cs \<subseteq> set (S t)" using a(2) by auto
  ultimately show "good U (S(t := cs)) (\<sigma>\<lparr>mem := h, stack := (stack \<sigma>)(t := fs)\<rparr>)"
    using a(1) by (auto simp: good_def)
next
  fix \<sigma> S t f fs h gs
  assume a: "good U S \<sigma>" "stack \<sigma> t = f # fs" "exec t False f (mem \<sigma>) = Next h gs"
  have "\<forall>g \<in> set gs. \<not> bad g" if "t \<in> U" using run_good [OF a(3)] good_top [OF a(1) that a(2)] by blast
  then show "good U S (\<sigma>\<lparr>mem := h, stack := (stack \<sigma>)(t := gs @ fs)\<rparr>)"
    using a(1,2) by (fastforce simp: good_def)
qed

end

text \<open>No guard is dropped: neither by hand, nor with an interrupt, nor replaced in one.\<close>

fun fills :: "provenance_to \<Rightarrow> bool" where
  "fills (ToAtLocation n dst) = (dst \<noteq> None)"
| "fills (ToForShard i) = True"
| "fills (ToClone pin) = False"

fun unguards :: "frame \<Rightarrow> bool" where
  "unguards (Grd (GuardDrop g)) = True"
| "unguards (Grd (GuardAtLocation n loc dst)) = (dst \<noteq> None)"
| "unguards (Grd (Provenance s loc to)) = fills to"
| "unguards (Grd (ProvenanceRegister s loc info to)) = fills to"
| "unguards (Grd (GuardBuild s pin loc info dst)) = (dst \<noteq> None)"
| "unguards (Grd (GuardForShard s loc i)) = True"
| "unguards (Grd (ArriveIfArrived s loc i w)) = True"
| "unguards (Grd (GuardUpgrade s loc i)) = True"
| "unguards f = False"

fun drops_guards :: "call \<Rightarrow> bool" where
  "drops_guards (CallGuardDrop g) = True"
| "drops_guards (CallGuarded i loc) = True"
| "drops_guards (CallInterruptDrop i) = True"
| "drops_guards c = False"

lemma unguards_makes: "unguards f \<Longrightarrow> makes_guard f \<or> (\<exists>g. f = Grd (GuardDrop g))"
  by (cases f rule: unguards.cases) auto

lemma no_unguards:
  assumes "plain_new gs" "filter makes_guard gs = []"
  shows "\<forall>g \<in> set gs. \<not> unguards g"
  using assms unguards_makes by (fastforce simp: plain_new_def filter_empty_conv)

interpretation undropped: regime unguards drops_guards
proof
  fix t f h h' gs
  assume step: "exec t False f h = Next h' gs" and f: "\<not> unguards f"
  show "\<forall>g \<in> set gs. \<not> unguards g"
  proof (cases "makes_guard f")
    case True
    then show ?thesis
    proof (cases f rule: makes_guard.cases)
      case (2 s loc to)
      with step f show ?thesis by (cases to) (auto simp: provenance_def alloc_info_def Let_def split: if_splits)
    next
      case (3 s loc info to)
      with step f show ?thesis by (cases to) (auto simp: provenance_register_def Let_def)
    qed (use True step f in \<open>auto simp: guard_at_location_def guard_build_def guard_clone_arrive_def alloc_guard_def Let_def
        split: prod.splits if_splits\<close>)
  next
    case False
    then have "n_guards h' + length (filter makes_guard gs) \<le> n_guards h" using exec_stocks(1) [OF step] by simp
    moreover have "n_guards h \<le> n_guards h'" using exec_guard_table [OF step] by blast
    ultimately have "length (filter makes_guard gs) = 0" by linarith
    then have "filter makes_guard gs = []" by simp
    moreover have "\<not> builds f" using False by (cases f rule: builds.cases) auto
    ultimately show ?thesis using no_unguards exec_plain_new [OF step] by blast
  qed
next
  fix c h h' fs
  assume "begin_call c h = Some (h', fs)" "\<not> drops_guards c"
  then show "\<forall>g \<in> set fs. \<not> unguards g" by (cases c) (auto simp: on_handle_def split: option.splits if_splits)
qed

section \<open>Creating a guard\<close>

definition guard_made :: "location \<Rightarrow> nid \<Rightarrow> heap \<Rightarrow> bool" where
  "guard_made loc n h \<longleftrightarrow> (\<exists>g gd. guard_at h g = Some gd \<and> gd_location gd = loc \<and> fst (gd_shard gd) = n)"

fun making :: "location \<Rightarrow> nid \<Rightarrow> frame \<Rightarrow> bool" where
  "making loc n (Grd (GuardAtLocation m l dst)) = (m = n \<and> l = loc)"
| "making loc n (Grd (Provenance s l (ToAtLocation m dst))) = (fst s = n \<and> l = loc)"
| "making loc n (Grd (ProvenanceRegister s l info (ToAtLocation m dst))) = (fst s = n \<and> l = loc)"
| "making loc n (Grd (GuardBuild s pin l info dst)) = (fst s = n \<and> l = loc)"
| "making loc n f = False"

lemma making_goes_on:
  assumes step: "exec t b f h = Next h' gs" and f: "making loc n f"
  shows "guard_made loc n h' \<or> (\<exists>g \<in> set gs. making loc n g)"
  using f
proof (cases "(loc, n, f)" rule: making.cases)
  case (4 loc' n' s pin l info dst)
  with step f show ?thesis
    by (auto simp: guard_build_def alloc_guard_def guard_made_def Let_def split: option.splits)
qed (use step f in \<open>auto simp: guard_at_location_def inner_shard_def provenance_def provenance_register_def alloc_info_def Let_def
    split: prod.splits if_splits\<close>)

interpretation guarding_kept: race_invariant "\<lambda>S \<sigma>. holding x n S \<sigma> \<and> undropped.good UNIV S \<sigma>" for x n
  by (rule race_invariant_conj) unfold_locales

interpretation guarding: errand "\<lambda>S \<sigma>. holding x n S \<sigma> \<and> undropped.good UNIV S \<sigma>" u "guard_made loc n" "\<lambda>h. making loc n"
  "\<lambda>c. c = CallGuard x loc" for x n loc u
proof
  fix \<sigma> S t f fs h gs
  assume a: "reachable \<sigma>" "holding x n S \<sigma> \<and> undropped.good UNIV S \<sigma>" "t < n_threads \<sigma>" "stack \<sigma> t = f # fs"
    "exec t False f (mem \<sigma>) = Next h gs" "guard_made loc n (mem \<sigma>)"
  have "\<not> unguards f" using undropped.good_top [OF _ UNIV_I a(4)] a(2) by blast
  then have "f \<noteq> Grd (GuardDrop g)" for g by auto
  then show "guard_made loc n h" using run_kept [OF a(1,3-5)] a(6) by (fastforce simp: guard_made_def kept_def)
qed (use making_goes_on call_guard_table in \<open>auto simp: guard_made_def on_handle_def holding_def split: option.splits\<close>)

section \<open>Creating a child\<close>

lemma exec_handles_grow:
  assumes step: "exec t b f h = Next h' gs"
  shows "n_handles h \<le> n_handles h'"
proof (cases "moves_handles f")
  case True
  then show ?thesis
  proof (cases f rule: moves_handles.cases)
    case (4 n)
    obtain h1 i where h1: "shard_index t n h = (h1, i)" by fastforce
    with step 4 same_handles_index [OF h1] show ?thesis by (auto simp: child_new_def alloc_node_def arc_clone_def Let_def)
  qed (use True step in \<open>auto simp: step_defs alloc_handle_def arc_clone_def\<close>)
next
  case False
  then show ?thesis using exec_same_handles [OF step] by (simp add: same_handles_def)
qed

lemma call_handles_grow: "begin_call c h = Some (h', fs) \<Longrightarrow> n_handles h \<le> n_handles h'"
  by (cases c) (auto simp: on_handle_def new_root_def alloc_node_def alloc_handle_def Let_def split: option.splits if_splits)

lemma call_parent: "begin_call c h = Some (h', fs) \<Longrightarrow> m < n_nodes h \<Longrightarrow> m < n_nodes h' \<and> parent_of h' m = parent_of h m"
  by (cases c) (auto simp: on_handle_def parent_of_def new_root_def alloc_node_def alloc_handle_def Let_def
      split: option.splits if_splits)

text \<open>The handles from \<open>y\<close> on are nobody's to drop.\<close>

definition reserved :: "hid \<Rightarrow> scripts \<Rightarrow> sys \<Rightarrow> bool" where
  "reserved y S \<sigma> \<longleftrightarrow> y \<le> n_handles (mem \<sigma>) \<and> (\<forall>t z. CallDrop z \<in> set (S t) \<or> CallIntoFuture z \<in> set (S t) \<longrightarrow> z < y)"

definition child_made :: "nid \<Rightarrow> hid \<Rightarrow> heap \<Rightarrow> bool" where
  "child_made p y h \<longleftrightarrow> (\<exists>z c. y \<le> z \<and> handle_at h z = Some c \<and> c < n_nodes h \<and> parent_of h c = Some p)"

fun making_child :: "nid \<Rightarrow> heap \<Rightarrow> frame \<Rightarrow> bool" where
  "making_child p h (Life (ChildNew m)) = (m = p)"
| "making_child p h (Life (ChildRegister c)) = (c < n_nodes h \<and> parent_of h c = Some p)"
| "making_child p h (Life (ChildStoreKey c k)) = (c < n_nodes h \<and> parent_of h c = Some p)"
| "making_child p h (Life (ChildCheck c)) = (c < n_nodes h \<and> parent_of h c = Some p)"
| "making_child p h (Life (ChildReturn c)) = (c < n_nodes h \<and> parent_of h c = Some p)"
| "making_child p h f = False"

lemma making_child_mono:
  assumes "making_child p h f" "\<And>c. c < n_nodes h \<Longrightarrow> c < n_nodes h' \<and> parent_of h' c = parent_of h c"
  shows "making_child p h' f"
  using assms by (cases "(p, h, f)" rule: making_child.cases) auto

lemma extends_parents: "extends h h' \<Longrightarrow> c < n_nodes h \<Longrightarrow> c < n_nodes h' \<and> parent_of h' c = parent_of h c"
  using parent_of_extends [of h h' c] by (auto simp: valid_node_def extends_def)

lemma making_child_goes_on:
  assumes step: "exec t b f h = Next h' gs" and f: "making_child p h f" and ext: "extends h h'" and y: "y \<le> n_handles h"
  shows "child_made p y h' \<or> (\<exists>g \<in> set gs. making_child p h' g)"
proof (cases "(p, h, f)" rule: making_child.cases)
  case (1 p' h'' m)
  obtain h1 i where h1: "shard_index t m h = (h1, i)" by fastforce
  with step 1 f same_handles_index [OF h1] show ?thesis
    by (auto simp: child_new_def alloc_node_def arc_clone_def inner_new_def parent_of_def Let_def)
next
  case (5 p' h'' c)
  then have "child_made p y h'"
    unfolding child_made_def using step f y
    by - (rule exI [of _ "n_handles h"], rule exI [of _ c], auto simp: child_return_def alloc_handle_def parent_of_def)
  then show ?thesis ..
qed (use step f extends_parents [OF ext] in \<open>auto simp: child_register_def child_store_key_def child_check_def Let_def
    split: option.splits if_splits prod.splits\<close>)

interpretation reserve: race_invariant "reserved y" for y
proof
  fix \<sigma> S t c cs h fs
  assume "reserved y S \<sigma>" "S t = c # cs" "begin_call c (mem \<sigma>) = Some (h, fs)"
  then show "reserved y (S(t := cs)) (\<sigma>\<lparr>mem := h, stack := (stack \<sigma>)(t := fs)\<rparr>)"
    using call_handles_grow [of c "mem \<sigma>" h fs] unfolding reserved_def by (auto simp: le_trans) (metis list.set_intros(2))+
next
  fix \<sigma> S t f fs h gs
  assume "reserved y S \<sigma>" "exec t False f (mem \<sigma>) = Next h gs"
  then show "reserved y S (\<sigma>\<lparr>mem := h, stack := (stack \<sigma>)(t := gs @ fs)\<rparr>)"
    using exec_handles_grow [of t False f "mem \<sigma>" h gs] by (auto simp: reserved_def)
qed

interpretation parenting_kept: race_invariant "\<lambda>S \<sigma>. holding x p S \<sigma> \<and> reserved y S \<sigma>" for x p y
  by (rule race_invariant_conj) unfold_locales

interpretation parenting: errand "\<lambda>S \<sigma>. holding x p S \<sigma> \<and> reserved y S \<sigma>" u "child_made p y" "making_child p"
  "\<lambda>c. c = CallChild x" for x p y u
proof
  fix \<sigma> S t f fs h gs
  assume a: "reachable \<sigma>" "within_limits \<sigma>" "holding x p S \<sigma> \<and> reserved y S \<sigma>" "t < n_threads \<sigma>" "stack \<sigma> t = f # fs"
    "exec t False f (mem \<sigma>) = Next h gs"
  note ext = run_extends [OF a(1,2,4-6)]
  show "child_made p y h" if "child_made p y (mem \<sigma>)"
    using that run_kept [OF a(1,4-6)] extends_parents [OF ext] unfolding child_made_def kept_def by metis
  show "making_child p h g" if "making_child p (mem \<sigma>) g" for g
    using making_child_mono [OF that extends_parents [OF ext]] .
next
  fix \<sigma> S f fs h gs
  assume a: "reachable \<sigma>" "within_limits \<sigma>" "holding x p S \<sigma> \<and> reserved y S \<sigma>" "u < n_threads \<sigma>" "stack \<sigma> u = f # fs"
    "exec u False f (mem \<sigma>) = Next h gs" "making_child p (mem \<sigma>) f"
  show "child_made p y h \<or> (\<exists>g \<in> set gs. making_child p h g)"
    using making_child_goes_on [OF a(6,7) run_extends [OF a(1,2,4-6)]] a(3) by (simp add: reserved_def)
next
  fix \<sigma> S t c cs h fs
  assume a: "reachable \<sigma>" "holding x p S \<sigma> \<and> reserved y S \<sigma>" "S t = c # cs" "begin_call c (mem \<sigma>) = Some (h, fs)"
  show "child_made p y h" if made: "child_made p y (mem \<sigma>)"
  proof -
    obtain z d where z: "y \<le> z" "handle_at (mem \<sigma>) z = Some d" "d < n_nodes (mem \<sigma>)" "parent_of (mem \<sigma>) d = Some p"
      using made by (auto simp: child_made_def)
    have "exclusive c \<noteq> Some (OHandle z)"
      using a(2,3) z(1) exclusive_handle [of c z] unfolding reserved_def by (metis list.set_intros(1) not_le)
    then have "handle_at h z = Some d" using call_keeps [OF a(1,4)] z(2) by (simp add: call_kept_def)
    then show ?thesis using z call_parent [OF a(4) z(3)] by (auto simp: child_made_def)
  qed
  show "making_child p h g" if "making_child p (mem \<sigma>) g" for g
    using making_child_mono [OF that call_parent [OF a(4)]] .
qed (auto simp: on_handle_def holding_def split: option.splits)

end
