(* ===== verification/Loom_Interrupts.thy ===== *)
theory Loom_Interrupts
  imports Loom_Errands
begin

text \<open>
  What the tests of interrupts need: an interrupt that no thread touches stays as it is, a poll of
  one whose shard is stopped is over, and threads that are done stay done.
\<close>

section \<open>Threads at rest\<close>

lemma rest: "races S \<sigma> S' \<sigma>' \<Longrightarrow> S t = [] \<Longrightarrow> stack \<sigma> t = [] \<Longrightarrow> S' t = [] \<and> stack \<sigma>' t = []"
proof (induction rule: races.induct)
  case (begins S' \<sigma>' u c cs \<sigma>'')
  then show ?case by (auto elim!: step_CallE)
next
  case (goes S' \<sigma>' u \<sigma>'')
  then show ?case by (auto elim!: step_RunE)
qed simp

lemma all_done:
  assumes "\<And>t. S t = [] \<and> stack \<sigma> t = []"
  shows "S = nobody" "alone \<sigma>" "idle \<sigma>"
  using assms by (auto simp: nobody_def alone_def idle_def)

text \<open>When everybody is done a test goes on without a race.\<close>

lemma passes_now:
  assumes "alone \<sigma>" "stack \<sigma> 0 = []" "P nobody \<sigma>" "finished nobody \<sigma> S' \<sigma>'"
  shows "P S' \<sigma>'"
  using finished_idle [OF assms(4,1,2)] assms(3) by simp

lemma passes_read: "alone \<sigma> \<Longrightarrow> stack \<sigma> 0 = [] \<Longrightarrow> passes (k \<sigma>) nobody \<sigma> \<Longrightarrow> passes (Read k) nobody \<sigma>"
  using passes_now [where P = "passes (k \<sigma>)"] by simp

lemma passes_check [simp]: "passes (check p k) S \<sigma> \<longleftrightarrow> p \<and> passes k S \<sigma>"
  by (simp add: check_def)

section \<open>Interrupts that nobody touches\<close>

lemma exec_uses:
  assumes step: "exec t b f h = Next h' gs" and g: "g \<in> set gs" "uses g = Some i"
  shows "uses f = Some i"
proof (cases f)
  case (Count c)
  then show ?thesis using count_frames [of t b c h h' gs] step g by auto
next
  case (Stop c)
  then show ?thesis
  proof (cases c)
    case (ShardWake s w ws)
    then show ?thesis using step Stop g by (cases ws) (auto split: if_splits)
  next
    case (StopUpgrade n i cs live)
    then show ?thesis using step Stop g by (cases cs) (auto simp: weak_upgrade_def split: if_splits)
  qed (use step g in \<open>auto simp: shard_stop_def shard_drain_def node_stop_def stop_shards_def stop_notify_def stop_zero_def
      stop_children_def Let_def split: if_splits\<close>)
next
  case (Life c)
  then show ?thesis using step g
    by (cases c) (auto simp: step_defs stop_shards_def Let_def split: if_splits option.splits prod.splits)
next
  case (Grd c)
  then show ?thesis
  proof (cases c)
    case (Provenance s loc to)
    then show ?thesis using Grd step g by (cases to) (auto simp: provenance_def alloc_info_def Let_def split: if_splits)
  next
    case (ProvenanceRegister s loc info to)
    then show ?thesis using Grd step g by (cases to) (auto simp: provenance_register_def Let_def)
  qed (use step g in \<open>auto simp: guard_at_location_def inner_shard_def guard_build_def alloc_guard_def guard_for_shard_def
      arrive_if_arrived_def guard_upgrade_def guard_clone_arrive_def guard_drop_def guard_depart_def guard_flush_weak_def
      drop_info_def Let_def split: if_splits option.splits prod.splits res.splits\<close>)
next
  case (Swan c)
  then show ?thesis using step g by (cases c) (auto simp: step_defs split: if_splits prod.splits)
next
  case (Intr c)
  then show ?thesis using intr_frames [of t b c h h' gs g] step g by simp
qed (use step g in auto)

lemma call_uses: "begin_call c h = Some (h', fs) \<Longrightarrow> g \<in> set fs \<Longrightarrow> uses g = Some i \<Longrightarrow> exclusive c = Some (OInterrupt i)"
  by (cases c) (auto simp: on_handle_def drop_frames_def split: option.splits if_splits)

interpretation untouched_intr: regime "\<lambda>f. uses f = Some i" "\<lambda>c. exclusive c = Some (OInterrupt i)" for i
  by unfold_locales (use exec_uses call_uses in \<open>blast+\<close>)

definition watching :: "iid \<Rightarrow> sid \<times> registration option \<times> (waker \<times> unit option poll) option \<Rightarrow> scripts \<Rightarrow> sys \<Rightarrow> bool" where
  "watching i l S \<sigma> \<longleftrightarrow> untouched_intr.good i UNIV S \<sigma> \<and> listener (mem \<sigma>) i = Some l"

interpretation watched: race_invariant "watching i l" for i l
proof
  fix \<sigma> S t c cs h fs
  assume a: "reachable \<sigma>" "within_limits \<sigma>" "watching i l S \<sigma>" "S t = c # cs" "t < n_threads \<sigma>" "stack \<sigma> t = []" "may_call c \<sigma>"
    "begin_call c (mem \<sigma>) = Some (h, fs)"
  have g: "untouched_intr.good i UNIV S \<sigma>" using a(3) by (simp add: watching_def)
  have "exclusive c \<noteq> Some (OInterrupt i)" by (rule untouched_intr.good_next [OF g UNIV_I a(4)])
  then have "listener h i = listener (mem \<sigma>) i" using call_listener [OF a(8)] by auto
  then show "watching i l (S(t := cs)) (\<sigma>\<lparr>mem := h, stack := (stack \<sigma>)(t := fs)\<rparr>)"
    using untouched_intr.kept.J_call [OF a(1,2) g a(4-8)] a(3) by (simp add: watching_def)
next
  fix \<sigma> S t f fs h gs
  assume a: "reachable \<sigma>" "within_limits \<sigma>" "watching i l S \<sigma>" "t < n_threads \<sigma>" "stack \<sigma> t = f # fs"
    "exec t False f (mem \<sigma>) = Next h gs"
  have g: "untouched_intr.good i UNIV S \<sigma>" using a(3) by (simp add: watching_def)
  have "listener h i = Some l"
    using run_listener [OF a(1,4-6) untouched_intr.good_top [OF g UNIV_I a(5)]] a(3) by (simp add: watching_def)
  then show "watching i l S (\<sigma>\<lparr>mem := h, stack := (stack \<sigma>)(t := gs @ fs)\<rparr>)"
    using untouched_intr.kept.J_run [OF a(1,2) g a(4-6)] by (simp add: watching_def)
qed

lemma polled_listener: "polled i \<sigma> = Option.bind (listener (mem \<sigma>) i) (\<lambda>(s, r, l). map_option snd l)"
  by (simp add: polled_def listener_def split: option.splits)

text \<open>An interrupt never moves to another shard.\<close>

definition sited :: "iid \<Rightarrow> sid \<Rightarrow> scripts \<Rightarrow> sys \<Rightarrow> bool" where
  "sited i s S \<sigma> \<longleftrightarrow> (\<exists>reg l. listener (mem \<sigma>) i = Some (s, reg, l)) \<and> (\<forall>t. CallInterruptDrop i \<notin> set (S t))"

lemma poll_sited:
  "intr_step t b c h = Next h' gs \<Longrightarrow> listener h i = Some (s, reg, l) \<Longrightarrow> \<exists>reg l. listener h' i = Some (s, reg, l)"
  by (cases c) (auto simp: step_defs on_interrupt_def poll_returns_def listener_def lock_acquire_def lock_release_def Let_def
      split: if_splits option.splits prod.splits)

lemma exec_sited:
  assumes step: "exec t b f h = Next h' gs" and ok: "heap_ok h" and l: "listener h i = Some (s, reg, l)"
  shows "\<exists>reg l. listener h' i = Some (s, reg, l)"
proof (cases "waits_on f")
  case False
  then show ?thesis using exec_waits [OF step] l by (simp add: same_waits_def)
next
  case True
  then show ?thesis
  proof (cases f rule: waits_on.cases)
    case (1 s' p)
    then show ?thesis using drain_effect(4) [of t s' p h h' gs] step l by simp
  next
    case (2 s' p ws)
    then show ?thesis using wake_effect(2) [of t s' p ws h h' gs] step l by simp
  next
    case (3 n)
    then have "swan_step t (InterruptNew n) h = Next h' gs" using step by simp
    then obtain s' where "listener h' = (listener h)(n_interrupts h \<mapsto> (s', None, None))" "listener h (n_interrupts h) = None"
      by (rule interrupt_new_effect [OF _ ok])
    then show ?thesis using l by auto
  next
    case (4 c)
    then show ?thesis using poll_sited [of t b c h h' gs] step l by simp
  qed auto
qed

interpretation sites: race_invariant "sited i s" for i s
proof
  fix \<sigma> S t c cs h fs
  assume a: "sited i s S \<sigma>" "S t = c # cs" "begin_call c (mem \<sigma>) = Some (h, fs)"
  have "c \<noteq> CallInterruptDrop i" using a(1,2) unfolding sited_def by (metis list.set_intros(1))
  then have "\<exists>reg l. listener h i = Some (s, reg, l)"
    using a(1,3) by (cases c)
      (auto simp: sited_def listener_def on_handle_def new_root_def alloc_node_def alloc_handle_def Let_def
        split: option.splits if_splits)
  moreover have "set cs \<subseteq> set (S t)" using a(2) by auto
  ultimately show "sited i s (S(t := cs)) (\<sigma>\<lparr>mem := h, stack := (stack \<sigma>)(t := fs)\<rparr>)" using a(1) by (auto simp: sited_def)
next
  fix \<sigma> S t f fs h gs
  assume a: "reachable \<sigma>" "sited i s S \<sigma>" "exec t False f (mem \<sigma>) = Next h gs"
  then obtain reg l where "listener (mem \<sigma>) i = Some (s, reg, l)" unfolding sited_def by blast
  note exec_sited [OF a(3) reachable_heap_ok [OF a(1)] this]
  then show "sited i s S (\<sigma>\<lparr>mem := h, stack := (stack \<sigma>)(t := gs @ fs)\<rparr>)" using a(2) by (simp add: sited_def)
qed

section \<open>Interrupts that one thread polls\<close>

definition polls_with :: "iid \<Rightarrow> waker \<Rightarrow> frame \<Rightarrow> bool" where
  "polls_with i w f \<longleftrightarrow> f \<in> Intr ` {Poll i w, PollWrapped i w, PollStopped i w, PollRecheck i w, PollLock i w, PollLocked i w, PollRegister i w}"

definition polled_with :: "iid \<Rightarrow> waker \<Rightarrow> heap \<Rightarrow> bool" where
  "polled_with i w h \<longleftrightarrow> (\<exists>s reg r. listener h i = Some (s, reg, Some (w, r)))"

definition polls_alone :: "iid \<Rightarrow> waker \<Rightarrow> tid \<Rightarrow> scripts \<Rightarrow> sys \<Rightarrow> bool" where
  "polls_alone i w u S \<sigma> \<longleftrightarrow> untouched_intr.good i (- {u}) S \<sigma> \<and>
     (\<forall>f \<in> set (stack \<sigma> u). uses f = Some i \<longrightarrow> polls_with i w f) \<and>
     (\<forall>c \<in> set (S u). exclusive c = Some (OInterrupt i) \<longrightarrow> c = CallPoll i w)"

lemma polls_with_goes_on:
  assumes "exec t b f h = Next h' gs" "polls_with i w f"
  shows "polled_with i w h' \<or> (listener h' i = listener h i \<and> (\<exists>g \<in> set gs. polls_with i w g))"
    "\<forall>g \<in> set gs. polls_with i w g"
  using assms by (auto simp: polls_with_def polled_with_def listener_def step_defs on_interrupt_def poll_returns_def lock_acquire_def
      lock_release_def Let_def split: if_splits option.splits prod.splits)

interpretation polls: race_invariant "polls_alone i w u" for i w u
proof
  fix \<sigma> S t c cs h fs
  assume a: "reachable \<sigma>" "within_limits \<sigma>" "polls_alone i w u S \<sigma>" "S t = c # cs" "t < n_threads \<sigma>" "stack \<sigma> t = []" "may_call c \<sigma>"
    "begin_call c (mem \<sigma>) = Some (h, fs)"
  have "untouched_intr.good i (- {u}) (S(t := cs)) (\<sigma>\<lparr>mem := h, stack := (stack \<sigma>)(t := fs)\<rparr>)"
    using untouched_intr.kept.J_call [where S = S and t = t, OF a(1,2) _ a(4-8)] a(3) by (simp add: polls_alone_def)
  moreover have "polls_with i w f" if f: "t = u" "f \<in> set fs" "uses f = Some i" for f
  proof -
    have "c = CallPoll i w" using call_uses [OF a(8) f(2,3)] a(3,4) f(1) by (auto simp: polls_alone_def)
    then show ?thesis using a(8) f(2,3) by (auto simp: polls_with_def split: option.splits)
  qed
  moreover have "set cs \<subseteq> set (S t)" using a(4) by auto
  ultimately show "polls_alone i w u (S(t := cs)) (\<sigma>\<lparr>mem := h, stack := (stack \<sigma>)(t := fs)\<rparr>)"
    using a(3) by (auto simp: polls_alone_def)
next
  fix \<sigma> S t f fs h gs
  assume a: "reachable \<sigma>" "within_limits \<sigma>" "polls_alone i w u S \<sigma>" "t < n_threads \<sigma>" "stack \<sigma> t = f # fs"
    "exec t False f (mem \<sigma>) = Next h gs"
  have "untouched_intr.good i (- {u}) S (\<sigma>\<lparr>mem := h, stack := (stack \<sigma>)(t := gs @ fs)\<rparr>)"
    using untouched_intr.kept.J_run [OF a(1,2) _ a(4-6)] a(3) by (simp add: polls_alone_def)
  moreover have "polls_with i w g" if g: "t = u" "g \<in> set gs" "uses g = Some i" for g
    using exec_uses [OF a(6) g(2,3)] a(3,5) g(1,2) polls_with_goes_on(2) [OF a(6)] by (auto simp: polls_alone_def)
  ultimately show "polls_alone i w u S (\<sigma>\<lparr>mem := h, stack := (stack \<sigma>)(t := gs @ fs)\<rparr>)"
    using a(3,5) by (auto simp: polls_alone_def)
qed

lemma polls_alone_top:
  assumes "polls_alone i w u S \<sigma>" "stack \<sigma> t = f # fs" "uses f = Some i"
  shows "t = u \<and> polls_with i w f"
proof (cases "t = u")
  case True
  then show ?thesis using assms by (simp add: polls_alone_def)
next
  case False
  then show ?thesis using untouched_intr.good_top [of i "- {u}" S \<sigma> t f fs] assms by (simp add: polls_alone_def)
qed

lemma polled_with_listener: "listener h' i = listener h i \<Longrightarrow> polled_with i w h' = polled_with i w h"
  by (simp add: polled_with_def)

lemma polls_with_over: "exec t b f h = Next h' gs \<Longrightarrow> polls_with i w f \<Longrightarrow> polled_with i w h \<Longrightarrow> polled_with i w h'"
  using polls_with_goes_on(1) [of t b f h h' gs i w] polled_with_listener [of h' i h w] by blast

lemma call_polls:
  assumes "polls_alone i w u S \<sigma>" "S t = c # cs" "begin_call c (mem \<sigma>) = Some (h, fs)" "t \<noteq> u \<or> c \<noteq> CallPoll i w"
  shows "listener h i = listener (mem \<sigma>) i"
proof -
  have "exclusive c \<noteq> Some (OInterrupt i)"
  proof (cases "t = u")
    case False
    then show ?thesis using untouched_intr.good_next [of i "- {u}" S \<sigma> t c cs] assms(1,2) by (simp add: polls_alone_def)
  next
    case True
    have "c \<in> set (S t)" using assms(2) by simp
    then show ?thesis using True assms(1,4) unfolding polls_alone_def by blast
  qed
  then show ?thesis using call_listener [OF assms(3)] by auto
qed

lemma run_polled:
  assumes "reachable \<sigma>" "polls_alone i w u S \<sigma>" "t < n_threads \<sigma>" "stack \<sigma> t = f # fs"
    "exec t False f (mem \<sigma>) = Next h gs" "polled_with i w (mem \<sigma>)"
  shows "polled_with i w h"
proof (cases "uses f = Some i")
  case True
  then have "polls_with i w f" using polls_alone_top [OF assms(2,4)] by blast
  then show ?thesis by (rule polls_with_over [OF assms(5) _ assms(6)])
next
  case False
  then show ?thesis using run_listener [OF assms(1,3-5)] assms(6) unfolding polled_with_def by blast
qed

lemma call_polled:
  assumes "polls_alone i w u S \<sigma>" "S t = c # cs" "begin_call c (mem \<sigma>) = Some (h, fs)" "polled_with i w (mem \<sigma>)"
    "t \<noteq> u \<or> c \<noteq> CallPoll i w"
  shows "polled_with i w h"
  using assms(4) polled_with_listener [OF call_polls [OF assms(1-3,5)]] by simp

lemma poll_call:
  assumes "begin_call (CallPoll i w) h = Some (h', fs)"
  shows "\<exists>g \<in> set fs. polls_with i w g"
proof -
  have "Intr (Poll i w) \<in> set fs" using assms by (auto split: option.splits)
  moreover have "polls_with i w (Intr (Poll i w))" by (simp add: polls_with_def)
  ultimately show ?thesis by blast
qed

lemma repolling_errand: "errand (polls_alone i w u) u (polled_with i w) (\<lambda>h. polls_with i w) (\<lambda>c. c = CallPoll i w)"
  apply unfold_locales
       apply (erule (5) run_polled)
      apply (use polls_with_goes_on(1) in blast)
     apply assumption
    apply (erule (4) call_polled)
   apply (use poll_call in blast)
  apply assumption
  done

interpretation repolling: errand "polls_alone i w u" u "polled_with i w" "\<lambda>h. polls_with i w" "\<lambda>c. c = CallPoll i w" for i w u
  by (rule repolling_errand)

section \<open>Polling an interrupt that is over\<close>

definition final_poll :: "iid \<Rightarrow> waker \<Rightarrow> sid \<Rightarrow> scripts \<Rightarrow> sys \<Rightarrow> bool" where
  "final_poll i w s S \<sigma> \<longleftrightarrow> is_stopped s (mem \<sigma>) \<and> (\<exists>it. interrupt_at (mem \<sigma>) i = Some it \<and> it_shard it = s) \<and>
     (\<forall>f. pending \<sigma> f \<longrightarrow> f = Intr (Poll i w) \<or> (\<exists>x. f = Borrow x)) \<and>
     (\<forall>t. \<forall>c \<in> set (S t). t = 0 \<and> c = CallPoll i w)"

lemma final_pollI:
  assumes "is_stopped s (mem \<sigma>)" "interrupt_at (mem \<sigma>) i = Some it" "it_shard it = s"
    and "\<And>f. pending \<sigma> f \<Longrightarrow> f = Intr (Poll i w) \<or> (\<exists>x. f = Borrow x)" "\<And>t c. c \<in> set (S t) \<Longrightarrow> t = 0 \<and> c = CallPoll i w"
  shows "final_poll i w s S \<sigma>"
  unfolding final_poll_def using assms by blast

lemma final_poll_next: "final_poll i w s S \<sigma> \<Longrightarrow> S t = c # cs \<Longrightarrow> t = 0 \<and> c = CallPoll i w"
  unfolding final_poll_def by (metis list.set_intros(1))

lemma final_poll_top: "final_poll i w s S \<sigma> \<Longrightarrow> t < n_threads \<sigma> \<Longrightarrow> stack \<sigma> t = f # fs \<Longrightarrow> f = Intr (Poll i w) \<or> (\<exists>x. f = Borrow x)"
  unfolding final_poll_def pending_def by (metis list.set_intros(1))

text \<open>The steps of such a poll.\<close>

lemma final_poll_step:
  assumes d: "final_poll i w s S \<sigma>" and t: "t < n_threads \<sigma>" "stack \<sigma> t = f # fs" and step: "exec t False f (mem \<sigma>) = Next h gs"
  shows "gs = [] \<and> (\<forall>s. is_stopped s h = is_stopped s (mem \<sigma>)) \<and>
    (f = Intr (Poll i w) \<and> (\<exists>it. interrupt_at h i = Some it \<and> it_shard it = s \<and> it_last it = Some (w, Ready None)) \<or>
     h = mem \<sigma>)"
  using final_poll_top [OF d t] step d by (auto simp: final_poll_def poll_interrupt_def on_interrupt_def poll_returns_def is_stopped_def)

definition polled_over :: "iid \<Rightarrow> heap \<Rightarrow> bool" where
  "polled_over i h \<longleftrightarrow> (\<exists>it w. interrupt_at h i = Some it \<and> it_last it = Some (w, Ready None))"

interpretation final: race_invariant "final_poll i w s" for i w s
proof
  fix \<sigma> S t c cs h fs
  assume a: "final_poll i w s S \<sigma>" "S t = c # cs" "stack \<sigma> t = []" "begin_call c (mem \<sigma>) = Some (h, fs)"
  obtain it where i: "is_stopped s (mem \<sigma>)" "interrupt_at (mem \<sigma>) i = Some it" "it_shard it = s"
    using a(1) unfolding final_poll_def by blast
  have c: "c = CallPoll i w" using final_poll_next [OF a(1,2)] by blast
  have h: "h = set_interrupt i (it\<lparr>it_last := None\<rparr>) (mem \<sigma>)" "fs = [Intr (Poll i w), Borrow (OInterrupt i)]"
    using a(4) i(2) by (simp_all add: c)
  show "final_poll i w s (S(t := cs)) (\<sigma>\<lparr>mem := h, stack := (stack \<sigma>)(t := fs)\<rparr>)"
  proof (rule final_pollI)
    show "is_stopped s (mem (\<sigma>\<lparr>mem := h, stack := (stack \<sigma>)(t := fs)\<rparr>))" using i(1) by (simp add: h is_stopped_def)
    show "interrupt_at (mem (\<sigma>\<lparr>mem := h, stack := (stack \<sigma>)(t := fs)\<rparr>)) i = Some (it\<lparr>it_last := None\<rparr>)"
      "it_shard (it\<lparr>it_last := None\<rparr>) = s" using i(3) by (simp_all add: h)
    show "f = Intr (Poll i w) \<or> (\<exists>x. f = Borrow x)" if p: "pending (\<sigma>\<lparr>mem := h, stack := (stack \<sigma>)(t := fs)\<rparr>) f" for f
      using pending_after_call [OF a(3) p]
    proof
      assume "pending \<sigma> f"
      then show ?thesis using a(1) unfolding final_poll_def by blast
    qed (auto simp: h(2))
    show "u = 0 \<and> d = CallPoll i w" if "d \<in> set ((S(t := cs)) u)" for u d
    proof -
      have "d \<in> set (S u)" using that a(2) by (auto split: if_splits)
      then show ?thesis using a(1) unfolding final_poll_def by blast
    qed
  qed
next
  fix \<sigma> S t f fs h gs
  assume a: "final_poll i w s S \<sigma>" "t < n_threads \<sigma>" "stack \<sigma> t = f # fs" "exec t False f (mem \<sigma>) = Next h gs"
  note st = final_poll_step [OF this]
  obtain it where i: "is_stopped s (mem \<sigma>)" "interrupt_at (mem \<sigma>) i = Some it" "it_shard it = s"
    using a(1) unfolding final_poll_def by blast
  obtain it' where i': "interrupt_at h i = Some it'" "it_shard it' = s" using st i by blast
  show "final_poll i w s S (\<sigma>\<lparr>mem := h, stack := (stack \<sigma>)(t := gs @ fs)\<rparr>)"
  proof (rule final_pollI)
    show "is_stopped s (mem (\<sigma>\<lparr>mem := h, stack := (stack \<sigma>)(t := gs @ fs)\<rparr>))" using st i(1) by simp
    show "interrupt_at (mem (\<sigma>\<lparr>mem := h, stack := (stack \<sigma>)(t := gs @ fs)\<rparr>)) i = Some it'" using i'(1) by simp
    show "it_shard it' = s" by (rule i'(2))
    show "f' = Intr (Poll i w) \<or> (\<exists>x. f' = Borrow x)" if p: "pending (\<sigma>\<lparr>mem := h, stack := (stack \<sigma>)(t := gs @ fs)\<rparr>) f'" for f'
    proof -
      have "pending \<sigma> f'" using p a(2,3) st by (auto simp: pending_def split: if_splits)
      then show ?thesis using a(1) unfolding final_poll_def by blast
    qed
    show "u = 0 \<and> d = CallPoll i w" if "d \<in> set (S u)" for u d using a(1) that unfolding final_poll_def by blast
  qed
qed

interpretation polling: errand "final_poll i w s" 0 "polled_over i" "\<lambda>h f. f = Intr (Poll i w)" "\<lambda>c. c = CallPoll i w" for i w s
proof
  fix \<sigma> S t f fs h gs
  assume a: "final_poll i w s S \<sigma>" "t < n_threads \<sigma>" "stack \<sigma> t = f # fs" "exec t False f (mem \<sigma>) = Next h gs" "polled_over i (mem \<sigma>)"
  from final_poll_step [OF a(1-4)] show "polled_over i h" using a(5) by (auto simp: polled_over_def)
next
  fix \<sigma> S f fs h gs
  assume a: "final_poll i w s S \<sigma>" "0 < n_threads \<sigma>" "stack \<sigma> 0 = f # fs" "exec 0 False f (mem \<sigma>) = Next h gs" "f = Intr (Poll i w)"
  from a(4) have "polled_over i h"
    using a(1) unfolding a(5) by (auto simp: final_poll_def polled_over_def poll_interrupt_def on_interrupt_def poll_returns_def)
  then show "polled_over i h \<or> (\<exists>g \<in> set gs. g = Intr (Poll i w))" ..
qed (auto dest: final_poll_next split: option.splits)

lemma passes_poll_is_over:
  assumes r: "reachable \<sigma>" "0 < n_threads \<sigma>" and none: "alone \<sigma>" "stack \<sigma> 0 = []"
    and i: "interrupt_at (mem \<sigma>) i = Some it" "is_stopped (it_shard it) (mem \<sigma>)"
    and rest: "\<And>\<sigma>'. races (nobody(0 := [CallPoll i w])) \<sigma> nobody \<sigma>' \<Longrightarrow> alone \<sigma>' \<Longrightarrow> stack \<sigma>' 0 = [] \<Longrightarrow> passes k nobody \<sigma>'"
  shows "passes (poll_is_over i w k) nobody \<sigma>"
proof -
  let ?S = "nobody(0 := [CallPoll i w])"
  have "stack \<sigma> t = []" for t using none by (cases "t = 0") (simp_all add: alone_def)
  then have "final_poll i w (it_shard it) ?S \<sigma>"
    by (intro final_pollI [OF i(2,1)]) (auto simp: pending_def nobody_def split: if_splits)
  then have out: "polling.out i w (it_shard it) ?S \<sigma>" using r(2) by (simp add: polling.out_def)
  have "passes (Read (\<lambda>\<sigma>. check (polled i \<sigma> = Some (Ready None)) k)) S' \<sigma>'" if f: "finished ?S \<sigma> S' \<sigma>'" for S' \<sigma>'
  proof -
    have ra: "races ?S \<sigma> S' \<sigma>'" "S' 0 = []" "stack \<sigma>' 0 = []" using f by (simp_all add: finished_def)
    have "S' t = [] \<and> stack \<sigma>' t = []" for t
      using Loom_Interrupts.rest [OF ra(1), of t] ra(2,3) none(1) by (cases "t = 0") (simp_all add: alone_def nobody_def)
    note over = all_done [OF this]
    have "polled_over i (mem \<sigma>')" by (rule polling.run_errand [OF ra(1) r(1) out ra(2,3)])
    then have "polled i \<sigma>' = Some (Ready None)" by (auto simp: polled_over_def polled_def)
    then show ?thesis
      using passes_read [OF over(2) ra(3)] rest [OF _ over(2) ra(3)] ra(1) unfolding over(1) by simp
  qed
  then show ?thesis by (simp add: poll_is_over_def)
qed

section \<open>What is true at the end\<close>

lemma idle_closed:
  assumes "reachable \<sigma>" "idle \<sigma>" "valid_shard (mem \<sigma>) s" "closing (mem \<sigma>) (fst s)"
  shows "is_stopped s (mem \<sigma>)"
  using closing_okD(3) [OF reachable_closing_ok [OF assms(1)] assms(3,4)] idle_not_pending [OF assms(2)] by blast

lemma listener_shard:
  assumes "reachable \<sigma>" "listener (mem \<sigma>) i = Some (s, reg, l)"
  shows "valid_shard (mem \<sigma>) s" "\<exists>it. interrupt_at (mem \<sigma>) i = Some it \<and> it_shard it = s"
  using heap_okD(6) [OF reachable_heap_ok [OF assms(1)]] assms(2) by (auto simp: listener_def)

lemma idle_woken:
  assumes r: "reachable \<sigma>" "idle \<sigma>" and l: "listener (mem \<sigma>) i = Some (s, reg, Some (w, Pending))" and s: "is_stopped s (mem \<sigma>)"
  shows "0 < wake_count w \<sigma>"
proof -
  obtain it where it: "interrupt_at (mem \<sigma>) i = Some it" "it_last it = Some (w, Pending)" "it_shard it = s"
    using l by (auto simp: listener_def)
  have "(s, w) \<in> set (woken (mem \<sigma>))"
    using pending_woken [OF r(1) it(1,2)] s idle_not_pending [OF r(2)] unfolding it(3) by blast
  then have "(s, w) \<in> set (filter (\<lambda>(s, v). v = w) (woken (mem \<sigma>)))" by simp
  then show ?thesis unfolding wake_count_def by (rule length_pos_if_in_set)
qed

lemma idle_drained:
  assumes r: "reachable \<sigma>" "idle \<sigma>" and s: "valid_shard (mem \<sigma>) s" "is_stopped s (mem \<sigma>)"
  shows "waiter_count s (mem \<sigma>) = 0"
proof -
  have "shard_wakes \<sigma> s" using reachable_wake_ok [OF r(1)] s(1) by (simp add: wake_ok_def)
  moreover have "\<not> drain_due \<sigma> s" using idle_not_pending [OF r(2)] by (simp add: drain_due_def)
  ultimately have "waiting (mem \<sigma>) s = Map.empty" using s(2) by (simp add: shard_wakes_def drained_def)
  then have "set (slab_values (sh_waiters (shard_at (mem \<sigma>) s))) = {}" by (simp add: set_slab_values waiting_def)
  then show ?thesis by (simp add: waiter_count_def slab_len_values)
qed

end
