(* ===== verification/Loom_Setups.thy ===== *)
theory Loom_Setups
  imports Loom_Runs Examples
begin

text \<open>What the tests have set up before they spawn a thread: the runs of their first calls, evaluated.\<close>

abbreviation loom_init :: sys where
  "loom_init \<equiv> sys_init 3 (Some 2)"

lemma setup_root:
  "\<exists>\<sigma>. play [(CallNew False, 0)] loom_init = Some \<sigma> \<and> n_threads \<sigma> = 3 \<and> stack \<sigma> 0 = [] \<and>
     handle_at (mem \<sigma>) 0 = Some 0 \<and> n_handles (mem \<sigma>) = 1"
  by (simp add: run_eval)

lemma setup_interrupt:
  "\<exists>\<sigma> it. play [(CallNew False, 0), (CallInterrupt 0, 2)] loom_init = Some \<sigma> \<and> n_threads \<sigma> = 3 \<and> stack \<sigma> 0 = [] \<and>
     handle_at (mem \<sigma>) 0 = Some 0 \<and> interrupt_at (mem \<sigma>) 0 = Some it \<and> fst (it_shard it) = 0"
  by (simp add: run_eval)

lemma setup_polled:
  "\<exists>\<sigma> it. play [(CallNew False, 0), (CallInterrupt 0, 2), (CallPoll 0 1, 7)] loom_init = Some \<sigma> \<and> n_threads \<sigma> = 3 \<and>
     stack \<sigma> 0 = [] \<and> handle_at (mem \<sigma>) 0 = Some 0 \<and> interrupt_at (mem \<sigma>) 0 = Some it \<and> fst (it_shard it) = 0 \<and>
     it_last it = Some (1, Pending)"
  by (simp add: run_eval)

lemma setup_two_polled:
  "\<exists>\<sigma> it it'. play [(CallNew False, 0), (CallInterrupt 0, 2), (CallInterrupt 0, 2), (CallPoll 0 1, 7), (CallPoll 1 2, 7)] loom_init = Some \<sigma> \<and>
     n_threads \<sigma> = 3 \<and> stack \<sigma> 0 = [] \<and> handle_at (mem \<sigma>) 0 = Some 0 \<and>
     interrupt_at (mem \<sigma>) 0 = Some it \<and> it_last it = Some (1, Pending) \<and>
     interrupt_at (mem \<sigma>) 1 = Some it' \<and> it_last it' = Some (2, Pending) \<and> fst (it_shard it') = 0"
  by (simp add: run_eval)

lemma setup_child:
  "\<exists>\<sigma>. play [(CallNew False, 0), (CallChild 0, 6)] loom_init = Some \<sigma> \<and> n_threads \<sigma> = 3 \<and> stack \<sigma> 0 = [] \<and>
     handle_at (mem \<sigma>) 0 = Some 0 \<and> handle_at (mem \<sigma>) 1 = Some 1 \<and> parent_of (mem \<sigma>) 1 = Some 0 \<and> n_guards (mem \<sigma>) = 0"
  by (simp add: run_eval parent_of_def)

lemma setup_child_interrupt:
  "\<exists>\<sigma> it. play [(CallNew False, 0), (CallChild 0, 6), (CallInterrupt 1, 2)] loom_init = Some \<sigma> \<and> n_threads \<sigma> = 3 \<and>
     stack \<sigma> 0 = [] \<and> handle_at (mem \<sigma>) 0 = Some 0 \<and> handle_at (mem \<sigma>) 1 = Some 1 \<and>
     parent_of (mem \<sigma>) 1 = Some 0 \<and> parent_of (mem \<sigma>) 0 = None \<and> \<not> node_is_stopped 0 (mem \<sigma>) \<and>
     n_handles (mem \<sigma>) = 2 \<and> n_nodes (mem \<sigma>) = 2 \<and> n_guards (mem \<sigma>) = 0 \<and> n_completions (mem \<sigma>) = 0 \<and>
     interrupt_at (mem \<sigma>) 0 = Some it \<and> fst (it_shard it) = 1"
  by (simp add: run_eval parent_of_def)

lemma setup_guard:
  "\<exists>\<sigma>. play [(CallNew False, 0), (CallGuard 0 (line 210), 8)] loom_init = Some \<sigma> \<and> n_threads \<sigma> = 3 \<and> stack \<sigma> 0 = [] \<and>
     handle_at (mem \<sigma>) 0 = Some 0 \<and> n_guards (mem \<sigma>) = 1"
  by (simp add: run_eval line_def)

lemma setup_child_guard:
  "\<exists>\<sigma>. play [(CallNew False, 0), (CallChild 0, 6), (CallGuard 1 (line 233), 14), (CallDrop 1, 2)] loom_init = Some \<sigma> \<and>
     n_threads \<sigma> = 3 \<and> stack \<sigma> 0 = [] \<and> handle_at (mem \<sigma>) 0 = Some 0 \<and> n_guards (mem \<sigma>) = 1"
  by (simp add: run_eval line_def)

lemma setup_guard_dropped:
  "\<exists>\<sigma>. play [(CallNew False, 0), (CallChild 0, 6), (CallGuard 1 loc, 14), (CallGuardDrop 0, 3)] loom_init = Some \<sigma> \<and>
     n_threads \<sigma> = 3 \<and> stack \<sigma> 0 = [] \<and> handle_at (mem \<sigma>) 0 = Some 0 \<and> handle_at (mem \<sigma>) 1 = Some 1 \<and>
     parent_of (mem \<sigma>) 1 = Some 0 \<and> n_handles (mem \<sigma>) = 2 \<and> n_guards (mem \<sigma>) = 1 \<and> guard_at (mem \<sigma>) 0 = None"
  by (simp add: run_eval parent_of_def)

end
