(* ===== verification/Loom_Passing.thy ===== *)
theory Loom_Passing
  imports Loom_Interrupts Loom_Setups
begin

text \<open>
  How the proofs go through a test, step by step, and more of what races keep: bounds on the number
  of objects, handles that are dropped, and a root that nobody has a cause to stop.
\<close>

section \<open>Going through a test\<close>

lemma passes_setup:
  assumes "play cs loom_init = Some \<sigma>" "map fst cs = calls" "reachable \<sigma> \<Longrightarrow> alone \<sigma> \<Longrightarrow> passes k nobody \<sigma>"
  shows "passes (after calls k) nobody loom_init"
proof -
  have "alone loom_init" by (simp add: alone_def sys_init_def)
  then show ?thesis
    using passes_after [OF assms(1)] assms(3) play_reachable [OF assms(1) reachable.init] unfolding assms(2) by blast
qed

lemma passes_DoI:
  assumes "\<And>S' \<sigma>'. races (S(0 := [c])) \<sigma> S' \<sigma>' \<Longrightarrow> S' 0 = [] \<Longrightarrow> stack \<sigma>' 0 = [] \<Longrightarrow> passes k S' \<sigma>'"
  shows "passes (Do c k) S \<sigma>"
  using assms by (simp add: finished_def)

lemma passes_SpawnI:
  assumes "\<And>S' \<sigma>'. races (S(t := cs)) \<sigma> S' \<sigma>' \<Longrightarrow> S' 0 = [] \<Longrightarrow> stack \<sigma>' 0 = [] \<Longrightarrow> passes k S' \<sigma>'"
  shows "passes (Spawn t cs k) S \<sigma>"
  using assms by (simp add: finished_def)

lemma passes_ReadI:
  assumes "\<And>S' \<sigma>'. races S \<sigma> S' \<sigma>' \<Longrightarrow> S' 0 = [] \<Longrightarrow> stack \<sigma>' 0 = [] \<Longrightarrow> passes (k \<sigma>) S' \<sigma>'"
  shows "passes (Read k) S \<sigma>"
  using assms by (simp add: finished_def)

lemma passes_is_completeI:
  assumes "\<And>S1 \<sigma>1 S2 \<sigma>2. races S \<sigma> S1 \<sigma>1 \<Longrightarrow> S1 0 = [] \<Longrightarrow> stack \<sigma>1 0 = [] \<Longrightarrow>
    races S1 \<sigma>1 S2 \<sigma>2 \<Longrightarrow> S2 0 = [] \<Longrightarrow> stack \<sigma>2 0 = [] \<Longrightarrow>
    passes (k (node_is_stopped n (mem \<sigma>) \<and> node_is_zero n (mem \<sigma>1))) S2 \<sigma>2"
  shows "passes (is_complete n k) S \<sigma>"
  unfolding is_complete_def by (rule passes_ReadI, rule passes_ReadI) (rule assms)

lemma passes_after2: "passes (Do c (Do d k)) S \<sigma> \<Longrightarrow> passes (after [c, d] k) S \<sigma>"
  by (simp add: after_def)

text \<open>The join that leaves nobody else running.\<close>

lemma passes_JoinI:
  assumes main: "S 0 = []" "stack \<sigma> 0 = []" and others: "\<And>u. u \<noteq> 0 \<Longrightarrow> u \<noteq> t \<Longrightarrow> S u = [] \<and> stack \<sigma> u = []"
    and rest: "S = nobody \<Longrightarrow> alone \<sigma> \<Longrightarrow> idle \<sigma> \<Longrightarrow> passes k nobody \<sigma>"
  shows "passes (Join t k) S \<sigma>"
proof -
  have "passes k S' \<sigma>'" if t: "S t = []" "stack \<sigma> t = []" and f: "finished S \<sigma> S' \<sigma>'" for S' \<sigma>'
  proof -
    have "S u = [] \<and> stack \<sigma> u = []" for u using main others [of u] t by (cases "u = 0"; cases "u = t") auto
    note over = all_done [OF this]
    then show ?thesis using passes_now [where P = "passes k", OF over(2) main(2) rest [OF over]] f by (simp only: over(1))
  qed
  then show ?thesis by simp
qed

lemma all_empty: "alone \<sigma> \<Longrightarrow> stack \<sigma> 0 = [] \<Longrightarrow> stack \<sigma> t = []"
  by (cases "t = 0") (simp_all add: alone_def)

text \<open>A thread that rests while others race.\<close>

lemma rests: "races S \<sigma> S' \<sigma>' \<Longrightarrow> S t = [] \<and> stack \<sigma> t = [] \<Longrightarrow> S' t = [] \<and> stack \<sigma>' t = []"
  using rest by blast

context errand
begin

lemma out_script: "out S \<sigma> \<Longrightarrow> t \<noteq> u \<Longrightarrow> D (S(t := cs)) \<sigma> \<Longrightarrow> out (S(t := cs)) \<sigma>"
  by (simp add: out_def)

lemma out_next: "out S \<sigma> \<Longrightarrow> S t = [] \<Longrightarrow> stack \<sigma> t = [] \<Longrightarrow> D (S(t := cs)) \<sigma> \<Longrightarrow> out (S(t := cs)) \<sigma>"
  by (auto simp: out_def)

end

lemma races_reachable: "races S \<sigma> S' \<sigma>' \<Longrightarrow> reachable \<sigma> \<Longrightarrow> reachable \<sigma>'"
  by (rule later_reachable [OF races_later])

lemma passes_JoinE:
  assumes "\<And>S' \<sigma>'. S t = [] \<Longrightarrow> stack \<sigma> t = [] \<Longrightarrow> races S \<sigma> S' \<sigma>' \<Longrightarrow> S' 0 = [] \<Longrightarrow> stack \<sigma>' 0 = [] \<Longrightarrow> passes k S' \<sigma>'"
  shows "passes (Join t k) S \<sigma>"
  using assms by (simp add: finished_def)

text \<open>A thread \<open>u\<close> that shuts a node down while others do something else.\<close>

lemma stopping_starts: "holding x n S \<sigma> \<Longrightarrow> u < n_threads \<sigma> \<Longrightarrow> CallShutDown x \<in> set (S u) \<Longrightarrow> stopping.out x n u S \<sigma>"
  unfolding stopping.out_def by blast

lemma stopping_script: "stopping.out x n u S \<sigma> \<Longrightarrow> t \<noteq> u \<Longrightarrow> CallDrop x \<notin> set cs \<Longrightarrow> CallIntoFuture x \<notin> set cs \<Longrightarrow>
    stopping.out x n u (S(t := cs)) \<sigma>"
  by (rule stopping.out_script) (auto simp: stopping.out_def intro: holding_script)

section \<open>Bounds on the number of objects\<close>

context stock
begin

lemma bounded_start: "alone \<sigma> \<Longrightarrow> stack \<sigma> 0 = [] \<Longrightarrow> made (mem \<sigma>) \<le> N \<Longrightarrow> bounded N nobody \<sigma>"
  by (simp add: bounded_def all_empty nobody_def)

lemma bounded_script:
  assumes "bounded N S \<sigma>"
  shows "bounded (N + length (filter orders cs)) (S(t := cs)) \<sigma>"
proof (cases "t < n_threads \<sigma>")
  case True
  let ?F = "\<lambda>u. length (filter makes (stack \<sigma> u)) + length (filter orders (S u))"
  let ?G = "\<lambda>u. length (filter makes (stack \<sigma> u)) + length (filter orders ((S(t := cs)) u))"
  have "addup (n_threads \<sigma>) ?G + ?F t = addup (n_threads \<sigma>) ?F + ?G t" by (rule addup_change [OF True]) simp
  then show ?thesis using assms by (simp add: bounded_def)
next
  case False
  then have "addup (n_threads \<sigma>) (\<lambda>u. length (filter makes (stack \<sigma> u)) + length (filter orders ((S(t := cs)) u))) =
      addup (n_threads \<sigma>) (\<lambda>u. length (filter makes (stack \<sigma> u)) + length (filter orders (S u)))"
    by (intro addup_cong) auto
  then show ?thesis using assms by (simp add: bounded_def)
qed

lemma bounded_race:
  assumes "races (S(t := cs)) \<sigma> S' \<sigma>'" "reachable \<sigma>" "bounded N S \<sigma>"
  shows "bounded (N + length (filter orders cs)) S' \<sigma>'"
  by (rule limited.through [OF assms(1,2) bounded_script [OF assms(3)]])

text \<open>Thread \<open>t\<close> is given \<open>cs\<close>, then thread \<open>u\<close> is given \<open>ds\<close>: the scripts order all
  that is made.\<close>

lemma bounded_two_races:
  assumes 1: "races (nobody(t := cs)) \<sigma> S1 \<sigma>1" and 2: "races (S1(u := ds)) \<sigma>1 S2 \<sigma>2"
    and r: "reachable \<sigma>" "alone \<sigma>" "stack \<sigma> 0 = []"
    and N: "made (mem \<sigma>) + length (filter orders cs) + length (filter orders ds) = N"
  shows "bounded N S2 \<sigma>2"
  using bounded_race [OF 2 races_reachable [OF 1 r(1)] bounded_race [OF 1 r(1) bounded_start [OF r(2,3) order_refl]]] N
  by simp

lemma bounded_made: "bounded N S \<sigma> \<Longrightarrow> made (mem \<sigma>) \<le> N"
  by (simp add: bounded_def)

end

section \<open>Dropping a handle\<close>

interpretation discarded: race_invariant "\<lambda>S \<sigma>. x < n_handles (mem \<sigma>)" for x
proof
  fix \<sigma> and S :: scripts and t c cs h fs
  assume "x < n_handles (mem \<sigma>)" "begin_call c (mem \<sigma>) = Some (h, fs)"
  then show "x < n_handles (mem (\<sigma>\<lparr>mem := h, stack := (stack \<sigma>)(t := fs)\<rparr>))"
    using call_handles_grow [of c "mem \<sigma>" h fs] by simp
next
  fix \<sigma> and S :: scripts and t f fs h gs
  assume "x < n_handles (mem \<sigma>)" "exec t False f (mem \<sigma>) = Next h gs"
  then show "x < n_handles (mem (\<sigma>\<lparr>mem := h, stack := (stack \<sigma>)(t := gs @ fs)\<rparr>))"
    using exec_handles_grow [of t False f "mem \<sigma>" h gs] by simp
qed

lemma exec_dropped_handle:
  assumes step: "exec t b f h = Next h' gs" and x: "x < n_handles h" "handle_at h x = None"
  shows "handle_at h' x = None"
proof (cases "moves_handles f")
  case True
  then show ?thesis
  proof (cases f rule: moves_handles.cases)
    case (4 n)
    obtain h1 i where h1: "shard_index t n h = (h1, i)" by fastforce
    with step 4 x same_handles_index [OF h1] show ?thesis by (auto simp: child_new_def alloc_node_def arc_clone_def Let_def)
  qed (use True step x in \<open>auto simp: step_defs alloc_handle_def arc_clone_def Let_def split: if_splits\<close>)
next
  case False
  then show ?thesis using exec_same_handles [OF step] x by (simp add: same_handles_def)
qed

lemma call_dropped_handle:
  assumes "begin_call c h = Some (h', fs)" "x < n_handles h" "handle_at h x = None"
  shows "handle_at h' x = None"
  using assms by (cases c) (auto simp: on_handle_def new_root_def alloc_node_def alloc_handle_def Let_def
      split: option.splits if_splits)

interpretation discarding: errand "\<lambda>S \<sigma>. x < n_handles (mem \<sigma>)" u "\<lambda>h. handle_at h x = None" "\<lambda>h f. False"
  "\<lambda>c. c = CallDrop x" for x u
proof
  fix \<sigma> and S :: scripts and t f fs h gs
  assume "x < n_handles (mem \<sigma>)" "exec t False f (mem \<sigma>) = Next h gs" "handle_at (mem \<sigma>) x = None"
  then show "handle_at h x = None" using exec_dropped_handle by blast
next
  fix \<sigma> and S :: scripts and t c cs h fs
  assume "x < n_handles (mem \<sigma>)" "begin_call c (mem \<sigma>) = Some (h, fs)" "handle_at (mem \<sigma>) x = None"
  then show "handle_at h x = None" using call_dropped_handle by blast
qed (auto simp: on_handle_def split: option.splits)

section \<open>A root that nobody stops\<close>

definition peaceful :: "hid \<Rightarrow> nid \<Rightarrow> scripts \<Rightarrow> sys \<Rightarrow> bool" where
  "peaceful x n S \<sigma> \<longleftrightarrow> holding x n S \<sigma> \<and> parent_of (mem \<sigma>) n = None \<and> untouched n \<sigma> \<and>
     (\<forall>t y. CallShutDown y \<notin> set (S t))"

lemma root_ancestor: "ancestor h b n \<Longrightarrow> parent_of h n = None \<Longrightarrow> b = n"
  by (induction rule: ancestor.induct) auto

interpretation peace: race_invariant "peaceful x n" for x n
proof
  fix \<sigma> S t c cs h fs
  assume a: "reachable \<sigma>" "within_limits \<sigma>" "peaceful x n S \<sigma>" "S t = c # cs" "t < n_threads \<sigma>" "stack \<sigma> t = []" "may_call c \<sigma>"
    "begin_call c (mem \<sigma>) = Some (h, fs)"
  have hold: "holding x n S \<sigma>" using a(3) by (simp add: peaceful_def)
  have n: "n < n_nodes (mem \<sigma>)" using handle_alive [OF a(1)] hold by (auto simp: holding_def)
  have "c \<noteq> CallShutDown y" for y using a(3,4) by (metis list.set_intros(1) peaceful_def)
  then have "untouched n (\<sigma>\<lparr>mem := h, stack := (stack \<sigma>)(t := fs)\<rparr>)"
    using untouched_call [OF a(1,2,5-8) n] a(3) by (simp add: peaceful_def)
  moreover have "holding x n (S(t := cs)) (\<sigma>\<lparr>mem := h, stack := (stack \<sigma>)(t := fs)\<rparr>)"
    by (rule held.J_call [OF a(1,2) hold a(4-8)])
  moreover have "set cs \<subseteq> set (S t)" using a(4) by auto
  ultimately show "peaceful x n (S(t := cs)) (\<sigma>\<lparr>mem := h, stack := (stack \<sigma>)(t := fs)\<rparr>)"
    using call_parent [OF a(8) n] a(3) by (auto simp: peaceful_def)
next
  fix \<sigma> S t f fs h gs
  assume a: "reachable \<sigma>" "within_limits \<sigma>" "peaceful x n S \<sigma>" "t < n_threads \<sigma>" "stack \<sigma> t = f # fs"
    "exec t False f (mem \<sigma>) = Next h gs"
  let ?\<sigma> = "\<sigma>\<lparr>mem := h, stack := (stack \<sigma>)(t := gs @ fs)\<rparr>"
  have hold: "holding x n S \<sigma>" using a(3) by (simp add: peaceful_def)
  have n: "n < n_nodes (mem \<sigma>)" using handle_alive [OF a(1)] hold by (auto simp: holding_def)
  have hold': "holding x n S ?\<sigma>" by (rule held.J_run [OF a(1,2) hold a(4-6)])
  have r: "reachable ?\<sigma>" by (rule reachable.step [OF a(1,2) step.run [OF a(4-6)]])
  have p: "parent_of h n = None" using extends_parents [OF run_extends [OF a(1,2,4-6)] n] a(3) by (simp add: peaceful_def)
  have "handle_at h x = Some n" using hold' by (simp add: holding_def)
  then have "0 < table_handles h n"
    using handles_bounded [OF r] by (auto simp: table_handles_def tally_pos_iff)
  then have pos: "0 < swansongs h n"
    using reachable_handles_ok [OF r] handles_bounded [OF r, of x n] hold' by (simp add: handles_ok_def holding_def)
  have "untouched n ?\<sigma>"
    by (rule untouched_run [OF a(1,2,4-6) n]) (use a(3) pos root_ancestor [OF _ p] in \<open>auto simp: peaceful_def\<close>)
  then show "peaceful x n S ?\<sigma>" using a(3) hold' p by (simp add: peaceful_def)
qed

lemma peaceful_script: "peaceful x n S \<sigma> \<Longrightarrow> CallDrop x \<notin> set cs \<Longrightarrow> CallIntoFuture x \<notin> set cs \<Longrightarrow>
    (\<forall>y. CallShutDown y \<notin> set cs) \<Longrightarrow> peaceful x n (S(t := cs)) \<sigma>"
  by (simp add: peaceful_def holding_script)

lemma peaceful_shards:
  assumes r: "reachable \<sigma>" and p: "peaceful x n S \<sigma>"
  shows "all_shards n \<sigma> (\<lambda>s h. \<not> is_stopped s h)"
  unfolding all_shards_def
proof (intro allI impI)
  fix i assume i: "i < in_shards (node_at (mem \<sigma>) n)"
  note n = handle_alive [OF r, of x n]
  have hold: "handle_at (mem \<sigma>) x = Some n" using p by (simp add: peaceful_def holding_def)
  have "valid_shard (mem \<sigma>) (n, i)" using n(1) [OF hold] i by (simp add: valid_shard_def)
  moreover have "\<not> closing (mem \<sigma>) n"
    using p n(2) [OF hold] ancestor.self [of "mem \<sigma>" n] by (simp add: peaceful_def untouched_def closing_def)
  ultimately show "\<not> is_stopped (n, i) (mem \<sigma>)" using closing_okD(2) [OF reachable_closing_ok [OF r]] by fastforce
qed

section \<open>A child that nobody holds\<close>

lemma unheld_closing:
  assumes r: "reachable \<sigma>" "idle \<sigma>" and n: "n < n_nodes (mem \<sigma>)" and few: "n_guards (mem \<sigma>) = 0" "n_completions (mem \<sigma>) = 0"
    and none: "\<And>x. handle_at (mem \<sigma>) x \<noteq> Some n" "\<And>c. c < n_nodes (mem \<sigma>) \<Longrightarrow> parent_of (mem \<sigma>) c \<noteq> Some n"
  shows "closing (mem \<sigma>) n"
proof -
  have "arc_owned (mem \<sigma>) n = 0" using few none by (simp add: arc_owned_def tally_card linked_def)
  then have "strong (mem \<sigma>) n = 0"
    using owner_okD(2) [OF reachable_owner_ok [OF r(1)] n] r(2) by (simp add: idle_def addup_eq_0_iff)
  then show ?thesis by (simp add: closing_def)
qed

end
