(* ===== verification/Loom_Interrupt_Tests.thy ===== *)
theory Loom_Interrupt_Tests
  imports Loom_Passing
begin

text \<open>The tests of interrupts pass under every schedule.\<close>

section \<open>Interrupts\<close>

text \<open>A thread \<open>u\<close> that polls an interrupt nobody else uses.\<close>

lemma polls_start: "untouched_intr.good i (- {u}) S \<sigma> \<Longrightarrow> stack \<sigma> u = [] \<Longrightarrow> u < n_threads \<sigma> \<Longrightarrow>
    repolling.out i w u (S(u := [CallPoll i w])) \<sigma>"
  unfolding repolling.out_def polls_alone_def using untouched_intr.good_script [of i "- {u}" S \<sigma>]
  by (auto simp: untouched_intr.good_def)

lemma polls_end:
  assumes "repolling.out i w u S \<sigma>" "S u = []" "stack \<sigma> u = []"
  shows "\<exists>s reg p. listener (mem \<sigma>) i = Some (s, reg, Some (w, p))" "untouched_intr.good i UNIV S \<sigma>"
proof -
  show "\<exists>s reg p. listener (mem \<sigma>) i = Some (s, reg, Some (w, p))"
    using assms by (auto simp: repolling.out_def polled_with_def)
  have "untouched_intr.good i (- {u}) S \<sigma>" using assms(1) by (simp add: repolling.out_def polls_alone_def)
  from untouched_intr.good_others [OF this assms(2,3)] show "untouched_intr.good i UNIV S \<sigma>" .
qed

text \<open>The end of a test of an interrupt: what its last poll returned has been woken, and it is over.\<close>

lemma interrupt_over:
  assumes r: "reachable \<sigma>" "idle \<sigma>" and l: "listener (mem \<sigma>) i = Some (s, reg, Some (w, p))"
    and n: "closing (mem \<sigma>) (fst s)"
  shows "polled i \<sigma> = Some p" "p = Pending \<Longrightarrow> 0 < wake_count w \<sigma>"
    "\<exists>it. interrupt_at (mem \<sigma>) i = Some it \<and> is_stopped (it_shard it) (mem \<sigma>)"
proof -
  have s: "is_stopped s (mem \<sigma>)" by (rule idle_closed [OF r listener_shard(1) [OF r(1) l] n])
  show "polled i \<sigma> = Some p" by (simp add: polled_listener l)
  show "p = Pending \<Longrightarrow> 0 < wake_count w \<sigma>" using idle_woken [OF r _ s] l by simp
  show "\<exists>it. interrupt_at (mem \<sigma>) i = Some it \<and> is_stopped (it_shard it) (mem \<sigma>)"
    using listener_shard(2) [OF r(1) l] s by blast
qed

lemma passes_over:
  assumes r: "reachable \<sigma>" "0 < n_threads \<sigma>" and none: "alone \<sigma>" "stack \<sigma> 0 = []"
    and i: "\<exists>it. interrupt_at (mem \<sigma>) i = Some it \<and> is_stopped (it_shard it) (mem \<sigma>)"
  shows "passes (poll_is_over i w Passed) nobody \<sigma>"
  using i passes_poll_is_over [OF r none, where k = Passed] by auto

lemma stop_and_poll_passes:
  assumes r: "reachable \<sigma>0" "alone \<sigma>0" "n_threads \<sigma>0 = 3" "handle_at (mem \<sigma>0) 0 = Some 0"
    and i: "interrupt_at (mem \<sigma>0) 0 = Some it" "fst (it_shard it) = 0"
  shows "passes (Spawn 1 [CallShutDown 0] (Do (CallPoll 0 w) (Read (\<lambda>\<rho>. Join 1 (Read (\<lambda>\<sigma>.
    check (polled 0 \<rho> = Some Pending \<longrightarrow> 0 < wake_count w \<sigma>) (poll_is_over 0 w Passed))))))) nobody \<sigma>0"
proof (rule passes_SpawnI, rule passes_DoI, rule passes_ReadI)
  let ?S0 = "nobody(1 := [CallShutDown 0])"
  fix S1 \<sigma>1 S2 \<sigma>2 S3 \<sigma>3
  assume 1: "races ?S0 \<sigma>0 S1 \<sigma>1" "S1 0 = []" "stack \<sigma>1 0 = []"
    and 2: "races (S1(0 := [CallPoll 0 w])) \<sigma>1 S2 \<sigma>2" "S2 0 = []" "stack \<sigma>2 0 = []"
    and 3: "races S2 \<sigma>2 S3 \<sigma>3" "S3 0 = []" "stack \<sigma>3 0 = []"
  have r1: "reachable \<sigma>1" by (rule races_reachable [OF 1(1) r(1)])
  have r2: "reachable \<sigma>2" by (rule races_reachable [OF 2(1) r1])
  have r3: "reachable \<sigma>3" by (rule races_reachable [OF 3(1) r2])
  have n: "n_threads \<sigma>1 = 3" "n_threads \<sigma>3 = 3" using races_threads 1(1) 2(1) 3(1) r(3) by simp_all
  have others: "S3 u = [] \<and> stack \<sigma>3 u = []" if u: "u \<noteq> 0" "u \<noteq> 1" for u
    using rests [OF 3(1) rests [OF 2(1), of u]] rests [OF 1(1), of u] u r(2) by (simp add: nobody_def alone_def)
  have stop: "stopping.out 0 0 1 S3 \<sigma>3"
  proof -
    have "stopping.out 0 0 1 ?S0 \<sigma>0" by (rule stopping_starts) (simp_all add: holding_def nobody_def r)
    note stopping.running.through [OF 1(1) r(1) this]
    then have "stopping.out 0 0 1 (S1(0 := [CallPoll 0 w])) \<sigma>1" by (rule stopping_script) simp_all
    note stopping.running.through [OF 2(1) r1 this]
    from stopping.running.through [OF 3(1) r2 this] show ?thesis .
  qed
  have site: "sited 0 (it_shard it) S2 \<sigma>2"
  proof -
    have "sited 0 (it_shard it) ?S0 \<sigma>0" by (simp add: sited_def listener_def nobody_def i(1))
    note sites.through [OF 1(1) r(1) this]
    then have "sited 0 (it_shard it) (S1(0 := [CallPoll 0 w])) \<sigma>1" by (simp add: sited_def)
    from sites.through [OF 2(1) r1 this] show ?thesis .
  qed
  have "untouched_intr.good 0 (- {0}) ?S0 \<sigma>0" using r(2) by (simp add: untouched_intr.good_def nobody_def alone_def)
  note untouched_intr.kept.through [OF 1(1) r(1) this]
  then have "repolling.out 0 w 0 (S1(0 := [CallPoll 0 w])) \<sigma>1" using 1(3) by (rule polls_start) (simp add: n)
  note polls = polls_end [OF repolling.running.through [OF 2(1) r1 this] 2(2,3)]
  then obtain reg p where l: "listener (mem \<sigma>2) 0 = Some (it_shard it, reg, Some (w, p))" using site by (auto simp: sited_def)
  have "watching 0 (it_shard it, reg, Some (w, p)) S3 \<sigma>3"
    by (rule watched.through [OF 3(1) r2]) (simp add: watching_def polls(2) l)
  then have l3: "listener (mem \<sigma>3) 0 = Some (it_shard it, reg, Some (w, p))" by (simp add: watching_def)
  show "passes (Join 1 (Read (\<lambda>\<sigma>. check (polled 0 \<sigma>2 = Some Pending \<longrightarrow> 0 < wake_count w \<sigma>) (poll_is_over 0 w Passed)))) S3 \<sigma>3"
  proof (rule passes_JoinI [OF 3(2,3) others])
    assume over: "S3 = nobody" "alone \<sigma>3" "idle \<sigma>3"
    have "node_is_stopped 0 (mem \<sigma>3)" using stop over(1,2) by (simp add: stopping.out_def nobody_def alone_def)
    then have "closing (mem \<sigma>3) (fst (it_shard it))" by (simp add: closing_def i(2))
    note fin = interrupt_over [OF r3 over(3) l3 this]
    show "passes (Read (\<lambda>\<sigma>. check (polled 0 \<sigma>2 = Some Pending \<longrightarrow> 0 < wake_count w \<sigma>) (poll_is_over 0 w Passed))) nobody \<sigma>3"
      by (rule passes_read [OF over(2) 3(3)])
        (use fin(1,2) passes_over [OF r3 _ over(2) 3(3) fin(3)] n in \<open>simp add: polled_listener l\<close>)
  qed
qed

lemma register_vs_stop_passes: "passes register_vs_stop nobody loom_init"
proof -
  obtain \<sigma> it where p: "play [(CallNew False, 0), (CallInterrupt 0, 2)] loom_init = Some \<sigma>" "n_threads \<sigma> = 3"
    "handle_at (mem \<sigma>) 0 = Some 0" "interrupt_at (mem \<sigma>) 0 = Some it" "fst (it_shard it) = 0"
    using setup_interrupt by blast
  show ?thesis
    unfolding register_vs_stop_def by (rule passes_setup [OF p(1)]) (simp, rule stop_and_poll_passes [OF _ _ p(2-5)])
qed

lemma same_waker_repoll_vs_stop_passes: "passes same_waker_repoll_vs_stop nobody loom_init"
proof -
  obtain \<sigma> it where p: "play [(CallNew False, 0), (CallInterrupt 0, 2), (CallPoll 0 1, 7)] loom_init = Some \<sigma>" "n_threads \<sigma> = 3"
    "handle_at (mem \<sigma>) 0 = Some 0" "interrupt_at (mem \<sigma>) 0 = Some it" "fst (it_shard it) = 0" "stack \<sigma> 0 = []"
    "it_last it = Some (1, Pending)"
    using setup_polled by blast
  show ?thesis
    unfolding same_waker_repoll_vs_stop_def
  proof (rule passes_setup [OF p(1)])
    assume r: "reachable \<sigma>" "alone \<sigma>"
    show "passes (Read (\<lambda>\<rho>. check (polled 0 \<rho> = Some Pending) (Spawn 1 [CallShutDown 0] (Do (CallPoll 0 1) (Read (\<lambda>\<rho>.
        Join 1 (Read (\<lambda>\<sigma>. check (polled 0 \<rho> = Some Pending \<longrightarrow> 0 < wake_count 1 \<sigma>) (poll_is_over 0 1 Passed))))))))) nobody \<sigma>"
      by (rule passes_read [OF r(2) p(6)])
        (use stop_and_poll_passes [OF r p(2-5)] in \<open>simp add: polled_def p(4,7) del: passes.simps\<close>)
  qed simp
qed

lemma stop_beside_poll_passes:
  assumes r: "reachable \<sigma>0" "alone \<sigma>0" "n_threads \<sigma>0 = 3" "handle_at (mem \<sigma>0) 0 = Some 0" "stack \<sigma>0 0 = []"
    and i: "interrupt_at (mem \<sigma>0) 0 = Some it" "fst (it_shard it) = 0"
  shows "passes (Spawn 1 [CallShutDown 0] (Spawn 2 [CallPoll 0 2] (Join 1 (Join 2 (Read (\<lambda>\<sigma>.
    check (polled 0 \<sigma> = Some Pending \<longrightarrow> 0 < wake_count 2 \<sigma>) (poll_is_over 0 2 Passed))))))) nobody \<sigma>0"
proof (rule passes_SpawnI, rule passes_SpawnI, rule passes_JoinE)
  let ?S0 = "nobody(1 := [CallShutDown 0])"
  fix S1 \<sigma>1 S2 \<sigma>2 S3 \<sigma>3
  assume 1: "races ?S0 \<sigma>0 S1 \<sigma>1" "S1 0 = []" "stack \<sigma>1 0 = []"
    and 2: "races (S1(2 := [CallPoll 0 2])) \<sigma>1 S2 \<sigma>2" "S2 0 = []" "stack \<sigma>2 0 = []" "S2 1 = []" "stack \<sigma>2 1 = []"
    and 3: "races S2 \<sigma>2 S3 \<sigma>3" "S3 0 = []" "stack \<sigma>3 0 = []"
  have r1: "reachable \<sigma>1" by (rule races_reachable [OF 1(1) r(1)])
  have r2: "reachable \<sigma>2" by (rule races_reachable [OF 2(1) r1])
  have r3: "reachable \<sigma>3" by (rule races_reachable [OF 3(1) r2])
  have n: "n_threads \<sigma>1 = 3" "n_threads \<sigma>3 = 3" using races_threads 1(1) 2(1) 3(1) r(3) by simp_all
  have rest1: "S1 u = [] \<and> stack \<sigma>1 u = []" if "u \<noteq> 1" for u
    using rests [OF 1(1), of u] that r(2) 1(2,3) by (cases "u = 0") (simp_all add: nobody_def alone_def)
  have others: "S3 u = [] \<and> stack \<sigma>3 u = []" if u: "u \<noteq> 0" "u \<noteq> 2" for u
    using rests [OF 3(1), of u] rests [OF 2(1), of u] rest1 [of u] 2(4,5) u by (cases "u = 1") simp_all
  have stop: "stopping.out 0 0 1 S3 \<sigma>3"
  proof -
    have "stopping.out 0 0 1 ?S0 \<sigma>0" by (rule stopping_starts) (simp_all add: holding_def nobody_def r)
    note stopping.running.through [OF 1(1) r(1) this]
    then have "stopping.out 0 0 1 (S1(2 := [CallPoll 0 2])) \<sigma>1" by (rule stopping_script) simp_all
    note stopping.running.through [OF 2(1) r1 this]
    from stopping.running.through [OF 3(1) r2 this] show ?thesis .
  qed
  have site: "sited 0 (it_shard it) S3 \<sigma>3"
  proof -
    have "sited 0 (it_shard it) ?S0 \<sigma>0" by (simp add: sited_def listener_def nobody_def i(1))
    note sites.through [OF 1(1) r(1) this]
    then have "sited 0 (it_shard it) (S1(2 := [CallPoll 0 2])) \<sigma>1" by (simp add: sited_def)
    note sites.through [OF 2(1) r1 this]
    from sites.through [OF 3(1) r2 this] show ?thesis .
  qed
  have "untouched_intr.good 0 (- {2}) ?S0 \<sigma>0"
    by (simp add: untouched_intr.good_def nobody_def all_empty [OF r(2,5)])
  note untouched_intr.kept.through [OF 1(1) r(1) this]
  then have "repolling.out 0 2 2 (S1(2 := [CallPoll 0 2])) \<sigma>1" by (rule polls_start) (simp_all add: n rest1)
  note repolling.running.through [OF 2(1) r1 this]
  note poll = repolling.running.through [OF 3(1) r2 this]
  show "passes (Join 2 (Read (\<lambda>\<sigma>. check (polled 0 \<sigma> = Some Pending \<longrightarrow> 0 < wake_count 2 \<sigma>) (poll_is_over 0 2 Passed)))) S3 \<sigma>3"
  proof (rule passes_JoinI [OF 3(2,3) others])
    assume over: "S3 = nobody" "alone \<sigma>3" "idle \<sigma>3"
    have none: "S3 u = []" "stack \<sigma>3 u = []" for u using over(1,2) 3(3) by (cases "u = 0"; simp add: nobody_def alone_def)+
    obtain reg p where l: "listener (mem \<sigma>3) 0 = Some (it_shard it, reg, Some (2, p))"
      using site polls_end(1) [OF poll none] by (auto simp: sited_def)
    have "node_is_stopped 0 (mem \<sigma>3)" using stop none by (simp add: stopping.out_def)
    then have "closing (mem \<sigma>3) (fst (it_shard it))" by (simp add: closing_def i(2))
    note fin = interrupt_over [OF r3 over(3) l this]
    show "passes (Read (\<lambda>\<sigma>. check (polled 0 \<sigma> = Some Pending \<longrightarrow> 0 < wake_count 2 \<sigma>) (poll_is_over 0 2 Passed))) nobody \<sigma>3"
      by (rule passes_read [OF over(2) 3(3)])
        (use fin(1,2) passes_over [OF r3 _ over(2) 3(3) fin(3)] n in \<open>simp\<close>)
  qed
qed

lemma migration_passes: "passes migration_and_waker_replacement_vs_stop nobody loom_init"
proof -
  obtain \<sigma> it where p: "play [(CallNew False, 0), (CallInterrupt 0, 2), (CallPoll 0 1, 7)] loom_init = Some \<sigma>" "n_threads \<sigma> = 3"
    "handle_at (mem \<sigma>) 0 = Some 0" "interrupt_at (mem \<sigma>) 0 = Some it" "fst (it_shard it) = 0" "stack \<sigma> 0 = []"
    "it_last it = Some (1, Pending)"
    using setup_polled by blast
  show ?thesis
    unfolding migration_and_waker_replacement_vs_stop_def
  proof (rule passes_setup [OF p(1)])
    assume r: "reachable \<sigma>" "alone \<sigma>"
    show "passes (Read (\<lambda>\<rho>. check (polled 0 \<rho> = Some Pending) (Spawn 1 [CallShutDown 0] (Spawn 2 [CallPoll 0 2] (Join 1 (Join 2
        (Read (\<lambda>\<sigma>. check (polled 0 \<sigma> = Some Pending \<longrightarrow> 0 < wake_count 2 \<sigma>) (poll_is_over 0 2 Passed))))))))) nobody \<sigma>"
      by (rule passes_read [OF r(2) p(6)])
        (use stop_beside_poll_passes [OF r p(2,3) p(6) p(4,5)] in \<open>simp add: polled_def p(4,7) del: passes.simps\<close>)
  qed simp
qed

text \<open>The interrupt 1 stays registered while the interrupt 0 is dropped and the root is stopped.\<close>

lemma deregistration_beside_stop_passes:
  assumes r: "reachable \<sigma>0" "alone \<sigma>0" "n_threads \<sigma>0 = 3" "handle_at (mem \<sigma>0) 0 = Some 0" "stack \<sigma>0 0 = []"
    and l: "listener (mem \<sigma>0) 1 = Some (s, reg, Some (2, Pending))" "fst s = 0"
  shows "passes (Spawn 1 [CallInterruptDrop 0] (Do (CallShutDown 0) (Join 1 (Read (\<lambda>\<sigma>.
    check (0 < wake_count 2 \<sigma>) (check (all_shards 0 \<sigma> (\<lambda>s h. waiter_count s h = 0)) (poll_is_over 1 2 Passed))))))) nobody \<sigma>0"
proof (rule passes_SpawnI, rule passes_DoI)
  let ?S0 = "nobody(1 := [CallInterruptDrop 0])"
  fix S1 \<sigma>1 S2 \<sigma>2
  assume 1: "races ?S0 \<sigma>0 S1 \<sigma>1" "S1 0 = []" "stack \<sigma>1 0 = []"
    and 2: "races (S1(0 := [CallShutDown 0])) \<sigma>1 S2 \<sigma>2" "S2 0 = []" "stack \<sigma>2 0 = []"
  have r1: "reachable \<sigma>1" by (rule races_reachable [OF 1(1) r(1)])
  have r2: "reachable \<sigma>2" by (rule races_reachable [OF 2(1) r1])
  have n: "n_threads \<sigma>1 = 3" "n_threads \<sigma>2 = 3" using races_threads 1(1) 2(1) r(3) by simp_all
  have others: "S2 u = [] \<and> stack \<sigma>2 u = []" if u: "u \<noteq> 0" "u \<noteq> 1" for u
    using rests [OF 2(1), of u] rests [OF 1(1), of u] u all_empty [OF r(2,5)] by (simp add: nobody_def)
  have hold: "holding 0 0 S1 \<sigma>1" by (rule held.through [OF 1(1) r(1)]) (simp add: holding_def nobody_def r(4))
  have "stopping.out 0 0 0 (S1(0 := [CallShutDown 0])) \<sigma>1"
    by (rule stopping_starts [OF holding_script [OF hold]]) (simp_all add: n)
  note stopped = stopping.run_errand [OF 2(1) r1 this 2(2,3)]
  have "watching 1 (s, reg, Some (2, Pending)) ?S0 \<sigma>0"
    by (simp add: watching_def l(1) [simplified] untouched_intr.good_def nobody_def all_empty [OF r(2,5)])
  note watched.through [OF 1(1) r(1) this]
  then have "watching 1 (s, reg, Some (2, Pending)) (S1(0 := [CallShutDown 0])) \<sigma>1"
    by (simp add: watching_def untouched_intr.good_script)
  from watched.through [OF 2(1) r1 this] have l2: "listener (mem \<sigma>2) 1 = Some (s, reg, Some (2, Pending))"
    by (simp add: watching_def)
  show "passes (Join 1 (Read (\<lambda>\<sigma>. check (0 < wake_count 2 \<sigma>)
      (check (all_shards 0 \<sigma> (\<lambda>s h. waiter_count s h = 0)) (poll_is_over 1 2 Passed))))) S2 \<sigma>2"
  proof (rule passes_JoinI [OF 2(2,3) others])
    assume over: "S2 = nobody" "alone \<sigma>2" "idle \<sigma>2"
    have closing: "closing (mem \<sigma>2) 0" using stopped by (simp add: closing_def)
    note fin = interrupt_over [OF r2 over(3) l2, unfolded l(2), OF closing]
    have valid: "0 < n_nodes (mem \<sigma>2)" using listener_shard(1) [OF r2 l2] by (simp add: valid_shard_def)
    have "waiter_count (0, k) (mem \<sigma>2) = 0" if "k < in_shards (node_at (mem \<sigma>2) 0)" for k
    proof -
      have v: "valid_shard (mem \<sigma>2) (0, k)" using that valid by (simp add: valid_shard_def)
      show ?thesis by (rule idle_drained [OF r2 over(3) v idle_closed [OF r2 over(3) v]]) (simp add: closing)
    qed
    then have "all_shards 0 \<sigma>2 (\<lambda>s h. waiter_count s h = 0)" by (simp add: all_shards_def)
    then show "passes (Read (\<lambda>\<sigma>. check (0 < wake_count 2 \<sigma>)
        (check (all_shards 0 \<sigma> (\<lambda>s h. waiter_count s h = 0)) (poll_is_over 1 2 Passed)))) nobody \<sigma>2"
      by (intro passes_read [OF over(2) 2(3)])
        (use fin(2) passes_over [OF r2 _ over(2) 2(3) fin(3)] n in simp)
  qed
qed

lemma deregistration_vs_stop_passes: "passes deregistration_vs_stop nobody loom_init"
proof -
  obtain \<sigma> it it' where p: "play [(CallNew False, 0), (CallInterrupt 0, 2), (CallInterrupt 0, 2), (CallPoll 0 1, 7), (CallPoll 1 2, 7)] loom_init = Some \<sigma>"
     "n_threads \<sigma> = 3" "handle_at (mem \<sigma>) 0 = Some 0" "stack \<sigma> 0 = []"
     "interrupt_at (mem \<sigma>) 0 = Some it" "it_last it = Some (1, Pending)"
     "interrupt_at (mem \<sigma>) 1 = Some it'" "it_last it' = Some (2, Pending)" "fst (it_shard it') = 0"
    using setup_two_polled by blast
  have l: "listener (mem \<sigma>) 1 = Some (it_shard it', it_registration it', Some (2, Pending))"
    using p(7,8) by (simp add: listener_def)
  show ?thesis
    unfolding deregistration_vs_stop_def
  proof (rule passes_setup [OF p(1)])
    assume r: "reachable \<sigma>" "alone \<sigma>"
    show "passes (Read (\<lambda>\<rho>. check (polled 0 \<rho> = Some Pending) (check (polled 1 \<rho> = Some Pending)
      (Spawn 1 [CallInterruptDrop 0] (Do (CallShutDown 0) (Join 1 (Read (\<lambda>\<sigma>.
        check (0 < wake_count 2 \<sigma>) (check (all_shards 0 \<sigma> (\<lambda>s h. waiter_count s h = 0)) (poll_is_over 1 2 Passed))))))))))
      nobody \<sigma>"
      by (rule passes_read [OF r(2) p(4)])
        (use deregistration_beside_stop_passes [OF r p(2,3,4) l p(9)] in \<open>simp add: polled_def p(5,6,8) p(7) [simplified] del: passes.simps\<close>)
  qed simp
qed

text \<open>The child is collected while its interrupt is polled; the root is left alone.\<close>

lemma collected_closing:
  assumes r: "reachable \<sigma>" "idle \<sigma>" and n: "n_nodes (mem \<sigma>) \<le> 2" "1 < n_nodes (mem \<sigma>)"
    and few: "n_guards (mem \<sigma>) = 0" "n_completions (mem \<sigma>) = 0" "n_handles (mem \<sigma>) \<le> 2"
    and held: "handle_at (mem \<sigma>) 0 = Some 0" "handle_at (mem \<sigma>) 1 = None"
  shows "closing (mem \<sigma>) 1"
proof (rule unheld_closing [OF r n(2) few(1,2)])
  show "handle_at (mem \<sigma>) x \<noteq> Some 1" for x
  proof
    assume x: "handle_at (mem \<sigma>) x = Some 1"
    then have "x < 2" using handles_bounded [OF r(1)] few(3) by fastforce
    then have "x = 0 \<or> x = 1" by linarith
    then show False using held x by auto
  qed
  show "parent_of (mem \<sigma>) c \<noteq> Some 1" if "c < n_nodes (mem \<sigma>)" for c
    using parent_valid(2) [OF reachable_heap_ok [OF r(1)], of c 1] that n(1) by (auto simp: valid_node_def)
qed

text \<open>The child's handle was dropped beside the poll: the collected child's guardless node stops, the
  waker that the poll left is woken, and a last poll finds the node stopped, while the root is not.\<close>

lemma collection_end_passes:
  assumes r: "reachable \<sigma>" "idle \<sigma>" and \<sigma>: "alone \<sigma>" "stack \<sigma> 0 = []" "0 < n_threads \<sigma>"
    and peace: "peaceful 0 0 nobody \<sigma>" and dropped: "discarding.out 1 1 nobody \<sigma>"
    and l: "listener (mem \<sigma>) 0 = Some (s, reg, Some (1, p))" "fst s = 1"
    and bounds: "n_guards (mem \<sigma>) = 0" "n_completions (mem \<sigma>) = 0" "n_handles (mem \<sigma>) \<le> 2" "n_nodes (mem \<sigma>) \<le> 2"
  shows "p = Pending \<Longrightarrow> 0 < wake_count 1 \<sigma>"
    "passes (poll_is_over 0 1 (Read (\<lambda>\<sigma>. check (all_shards 0 \<sigma> (\<lambda>s h. \<not> is_stopped s h)) Passed))) nobody \<sigma>"
proof -
  have "handle_at (mem \<sigma>) 1 = None" using dropped \<sigma>(1) by (simp add: discarding.out_def nobody_def alone_def)
  moreover have "handle_at (mem \<sigma>) 0 = Some 0" using peace by (simp add: peaceful_def holding_def)
  moreover have "1 < n_nodes (mem \<sigma>)" using listener_shard(1) [OF r(1) l(1)] by (simp add: valid_shard_def l(2))
  ultimately have "closing (mem \<sigma>) (fst s)" using collected_closing [OF r bounds(4) _ bounds(1-3)] by (simp add: l(2))
  note fin = interrupt_over [OF r l(1) this]
  show "p = Pending \<Longrightarrow> 0 < wake_count 1 \<sigma>" by (rule fin(2))
  obtain it where it: "interrupt_at (mem \<sigma>) 0 = Some it" "is_stopped (it_shard it) (mem \<sigma>)" using fin(3) by blast
  show "passes (poll_is_over 0 1 (Read (\<lambda>\<sigma>. check (all_shards 0 \<sigma> (\<lambda>s h. \<not> is_stopped s h)) Passed))) nobody \<sigma>"
  proof (rule passes_poll_is_over [OF r(1) _ \<sigma>(1,2) it])
    fix \<sigma>' assume a: "races (nobody(0 := [CallPoll 0 1])) \<sigma> nobody \<sigma>'" "alone \<sigma>'" "stack \<sigma>' 0 = []"
    have "peaceful 0 0 (nobody(0 := [CallPoll 0 1])) \<sigma>" using peace by (simp add: peaceful_script)
    note peace.through [OF a(1) r(1) this]
    from peaceful_shards [OF races_reachable [OF a(1) r(1)] this]
    show "passes (Read (\<lambda>\<sigma>. check (all_shards 0 \<sigma> (\<lambda>s h. \<not> is_stopped s h)) Passed)) nobody \<sigma>'"
      by (intro passes_read [OF a(2,3)]) simp
  qed (rule \<sigma>(3))
qed

lemma collection_beside_poll_passes:
  assumes r: "reachable \<sigma>0" "alone \<sigma>0" "n_threads \<sigma>0 = 3" "stack \<sigma>0 0 = []"
    and h: "handle_at (mem \<sigma>0) 0 = Some 0" "parent_of (mem \<sigma>0) 0 = None" "\<not> node_is_stopped 0 (mem \<sigma>0)"
    and few: "n_handles (mem \<sigma>0) = 2" "n_nodes (mem \<sigma>0) = 2" "n_guards (mem \<sigma>0) = 0" "n_completions (mem \<sigma>0) = 0"
    and i: "interrupt_at (mem \<sigma>0) 0 = Some it" "fst (it_shard it) = 1"
  shows "passes (Spawn 1 [CallDrop 1] (Do (CallPoll 0 1) (Read (\<lambda>\<rho>. Join 1 (Read (\<lambda>\<sigma>.
    check (polled 0 \<rho> = Some Pending \<longrightarrow> 0 < wake_count 1 \<sigma>)
      (poll_is_over 0 1 (Read (\<lambda>\<sigma>. check (all_shards 0 \<sigma> (\<lambda>s h. \<not> is_stopped s h)) Passed))))))))) nobody \<sigma>0"
proof (rule passes_SpawnI, rule passes_DoI, rule passes_ReadI)
  let ?S0 = "nobody(1 := [CallDrop 1])"
  fix S1 \<sigma>1 S2 \<sigma>2 S3 \<sigma>3
  assume 1: "races ?S0 \<sigma>0 S1 \<sigma>1" "S1 0 = []" "stack \<sigma>1 0 = []"
    and 2: "races (S1(0 := [CallPoll 0 1])) \<sigma>1 S2 \<sigma>2" "S2 0 = []" "stack \<sigma>2 0 = []"
    and 3: "races S2 \<sigma>2 S3 \<sigma>3" "S3 0 = []" "stack \<sigma>3 0 = []"
  have r1: "reachable \<sigma>1" by (rule races_reachable [OF 1(1) r(1)])
  have r2: "reachable \<sigma>2" by (rule races_reachable [OF 2(1) r1])
  have r3: "reachable \<sigma>3" by (rule races_reachable [OF 3(1) r2])
  have n: "n_threads \<sigma>1 = 3" "n_threads \<sigma>3 = 3" using races_threads 1(1) 2(1) 3(1) r(3) by simp_all
  have others: "S3 u = [] \<and> stack \<sigma>3 u = []" if u: "u \<noteq> 0" "u \<noteq> 1" for u
    using rests [OF 3(1) rests [OF 2(1), of u]] rests [OF 1(1), of u] u all_empty [OF r(2,4)] by (simp add: nobody_def)
  have site: "sited 0 (it_shard it) S2 \<sigma>2"
  proof -
    have "sited 0 (it_shard it) ?S0 \<sigma>0" by (simp add: sited_def listener_def nobody_def i(1))
    note sites.through [OF 1(1) r(1) this]
    then have "sited 0 (it_shard it) (S1(0 := [CallPoll 0 1])) \<sigma>1" by (simp add: sited_def)
    from sites.through [OF 2(1) r1 this] show ?thesis .
  qed
  have peace: "peaceful 0 0 S3 \<sigma>3"
  proof -
    have "untouched 0 \<sigma>0" using root_ancestor [OF _ h(2)] h(3) all_empty [OF r(2,4)] by (auto simp: untouched_def pending_def)
    then have "peaceful 0 0 ?S0 \<sigma>0" by (simp add: peaceful_def holding_def nobody_def h)
    note peace.through [OF 1(1) r(1) this]
    then have "peaceful 0 0 (S1(0 := [CallPoll 0 1])) \<sigma>1" by (rule peaceful_script) simp_all
    note peace.through [OF 2(1) r1 this]
    from peace.through [OF 3(1) r2 this] show ?thesis .
  qed
  have dropped: "discarding.out 1 1 S3 \<sigma>3"
  proof -
    have "discarding.out 1 1 ?S0 \<sigma>0" using few(1) r(3) by (simp add: discarding.out_def)
    note d1 = discarding.running.through [OF 1(1) r(1) this]
    have "discarding.out 1 1 (S1(0 := [CallPoll 0 1])) \<sigma>1"
      by (rule discarding.out_script [OF d1]) (use d1 in \<open>simp_all add: discarding.out_def\<close>)
    note discarding.running.through [OF 2(1) r1 this]
    from discarding.running.through [OF 3(1) r2 this] show ?thesis .
  qed
  have "untouched_intr.good 0 (- {0}) ?S0 \<sigma>0" by (simp add: untouched_intr.good_def nobody_def all_empty [OF r(2,4)])
  note untouched_intr.kept.through [OF 1(1) r(1) this]
  then have "repolling.out 0 1 0 (S1(0 := [CallPoll 0 1])) \<sigma>1" using 1(3) by (rule polls_start) (simp add: n)
  note polls = polls_end [OF repolling.running.through [OF 2(1) r1 this] 2(2,3)]
  then obtain reg p where l: "listener (mem \<sigma>2) 0 = Some (it_shard it, reg, Some (1, p))" using site by (auto simp: sited_def)
  have "watching 0 (it_shard it, reg, Some (1, p)) S3 \<sigma>3"
    by (rule watched.through [OF 3(1) r2]) (simp add: watching_def polls(2) l)
  then have l3: "listener (mem \<sigma>3) 0 = Some (it_shard it, reg, Some (1, p))" by (simp add: watching_def)
  note two = 1(1) 2(1) r(1,2,4)
  have bounds: "n_guards (mem \<sigma>3) = 0" "n_completions (mem \<sigma>3) = 0" "n_handles (mem \<sigma>3) \<le> 2" "n_nodes (mem \<sigma>3) \<le> 2"
    using guards.bounded_made [OF guards.limited.through [OF 3(1) r2 guards.bounded_two_races [OF two refl]]]
      completions.bounded_made [OF completions.limited.through [OF 3(1) r2 completions.bounded_two_races [OF two refl]]]
      handles.bounded_made [OF handles.limited.through [OF 3(1) r2 handles.bounded_two_races [OF two refl]]]
      nodes.bounded_made [OF nodes.limited.through [OF 3(1) r2 nodes.bounded_two_races [OF two refl]]] few by simp_all
  let ?last = "poll_is_over 0 1 (Read (\<lambda>\<sigma>. check (all_shards 0 \<sigma> (\<lambda>s h. \<not> is_stopped s h)) Passed))"
  show "passes (Join 1 (Read (\<lambda>\<sigma>. check (polled 0 \<sigma>2 = Some Pending \<longrightarrow> 0 < wake_count 1 \<sigma>) ?last))) S3 \<sigma>3"
  proof (rule passes_JoinI [OF 3(2,3) others])
    assume over: "S3 = nobody" "alone \<sigma>3" "idle \<sigma>3"
    note fin = collection_end_passes [OF r3 over(3,2) 3(3) _ peace [unfolded over(1)] dropped [unfolded over(1)] l3 i(2) bounds]
    have "0 < n_threads \<sigma>3" by (simp add: n)
    with fin show "passes (Read (\<lambda>\<sigma>. check (polled 0 \<sigma>2 = Some Pending \<longrightarrow> 0 < wake_count 1 \<sigma>) ?last)) nobody \<sigma>3"
      by (intro passes_read [OF over(2) 3(3)]) (simp add: polled_listener l del: passes.simps)
  qed
qed

lemma collection_vs_pending_interrupt_passes: "passes collection_vs_pending_interrupt nobody loom_init"
proof -
  obtain \<sigma> it where p: "play [(CallNew False, 0), (CallChild 0, 6), (CallInterrupt 1, 2)] loom_init = Some \<sigma>"
    "n_threads \<sigma> = 3" "stack \<sigma> 0 = []" "handle_at (mem \<sigma>) 0 = Some 0" "parent_of (mem \<sigma>) 0 = None"
    "\<not> node_is_stopped 0 (mem \<sigma>)" "n_handles (mem \<sigma>) = 2" "n_nodes (mem \<sigma>) = 2" "n_guards (mem \<sigma>) = 0"
    "n_completions (mem \<sigma>) = 0" "interrupt_at (mem \<sigma>) 0 = Some it" "fst (it_shard it) = 1"
    using setup_child_interrupt by blast
  show ?thesis
    unfolding collection_vs_pending_interrupt_def
    by (rule passes_setup [OF p(1)]) (simp, rule collection_beside_poll_passes [OF _ _ p(2-12)])
qed

end
