(* ===== verification/Loom_Completion.thy ===== *)
theory Loom_Completion
  imports Loom_Passing
begin

text \<open>
  What the tests of guards find in the end: a root that is stopped and that no guard is left on is
  complete, and was announced as such to whoever had found it incomplete.
\<close>

section \<open>At rest\<close>

lemma idle_settled: "idle \<sigma> \<Longrightarrow> stops_settled \<sigma>"
  by (simp add: stops_settled_def idle_def)

lemma unguarded_complete:
  assumes r: "reachable \<sigma>" "idle \<sigma>" and n: "n < n_nodes (mem \<sigma>)" "0 < strong (mem \<sigma>) n"
    and s: "node_is_stopped n (mem \<sigma>)" and none: "\<And>g. guard_at (mem \<sigma>) g = None"
  shows "complete_in n (mem \<sigma>)"
  using quiescent_zero [OF r n(1)] n(2) s none
  by (simp add: complete_in_def closing_def guarded_below_def node_is_zero_def count_test)

lemma idle_closed_shard:
  assumes r: "reachable \<sigma>" "idle \<sigma>" and n: "closing (mem \<sigma>) n" "0 < strong (mem \<sigma>) n" "\<not> guarded_below (mem \<sigma>) n"
    and s: "valid_shard (mem \<sigma>) (n, i)"
  shows "shard_word (mem \<sigma>) (n, i) = STOPPED"
proof -
  note none = idle_not_pending [OF r(2)]
  have "\<not> kid_of (mem \<sigma>) (n, i) c" if c: "c < n_nodes (mem \<sigma>)" for c
  proof
    assume kid: "kid_of (mem \<sigma>) (n, i) c"
    then have p: "parent_of (mem \<sigma>) c = Some n" by (simp add: kid_of_def)
    have "\<not> guarded_below (mem \<sigma>) c" using n(3) ancestor.up [OF _ p] by (auto simp: guarded_below_def)
    then have "low (node_word (mem \<sigma>) c) = 0"
      using quiescent_zero [OF r c child_closing [OF r c p n(1)]] p by simp
    then show False using flush_okD(2) [OF reachable_flush_ok [OF r(1)] c] p kid none by (auto simp: kid_of_def)
  qed
  then have "mid (shard_word (mem \<sigma>) (n, i)) = 0"
    using idle_exact [OF reachable_sys_ok [OF r(1)] r(2), of "KidToken (n, i)"] s by (simp add: addup_eq_0_iff)
  moreover have "low (shard_word (mem \<sigma>) (n, i)) = 0" using idle_unguarded_shard [OF r s] n(3) by simp
  moreover have "stopped_bit (shard_word (mem \<sigma>) (n, i))"
    using idle_closed [OF r s] n(1) by (simp add: is_stopped_def stopped_test)
  moreover have "shard_word (mem \<sigma>) (n, i) \<noteq> ARRIVED OR STOPPED"
    using flush_okD(1) [OF reachable_flush_ok [OF r(1)] s] n(2) none by auto
  ultimately show ?thesis by (auto simp: word_eq_fields [of "shard_word (mem \<sigma>) (n, i)"] emptied_test)
qed

lemma guarded_nonzero:
  assumes "reachable \<sigma>" "guard_at (mem \<sigma>) g = Some gd" "ancestor (mem \<sigma>) n (fst (gd_shard gd))"
  shows "\<not> node_is_zero n (mem \<sigma>)"
  using guard_ancestors_counted [OF reachable_sys_ok [OF assms(1)] assms(2,3)] by (auto simp: node_is_zero_def count_test)

section \<open>Notifications\<close>

context event
begin

lemma later_counter: "later \<sigma> \<sigma>' \<Longrightarrow> reachable \<sigma> \<Longrightarrow> valid_node (mem \<sigma>) n \<Longrightarrow> counter n (mem \<sigma>) \<le> counter n (mem \<sigma>')"
proof (induction rule: later.induct)
  case (on \<sigma>' a \<sigma>'')
  have v: "valid_node (mem \<sigma>') n" using later_extends [OF on.hyps(1)] on.prems valid_node_extends by blast
  show ?case
    using step_counter [OF later_reachable [OF on.hyps(1) on.prems(1)] on.hyps(3) v] on.IH [OF on.prems] by linarith
qed simp

lemma later_noticed:
  "later \<sigma> \<sigma>' \<Longrightarrow> reachable \<sigma> \<Longrightarrow> valid_node (mem \<sigma>) n \<Longrightarrow> \<not> check n (mem \<sigma>) \<Longrightarrow>
    \<not> check n (mem \<sigma>') \<or> counter n (mem \<sigma>) < counter n (mem \<sigma>') \<or> (\<exists>f. notice n f \<and> pending \<sigma>' f)"
proof (induction rule: later.induct)
  case (on \<sigma>' a \<sigma>'')
  have r: "reachable \<sigma>'" by (rule later_reachable [OF on.hyps(1) on.prems(1)])
  have v: "valid_node (mem \<sigma>') n" using later_extends [OF on.hyps(1)] on.prems valid_node_extends by blast
  have mono: "counter n (mem \<sigma>) \<le> counter n (mem \<sigma>')" by (rule later_counter [OF on.hyps(1) on.prems(1,2)])
  note up = step_counter [OF r on.hyps(3) v]
  consider "\<not> check n (mem \<sigma>')" | "counter n (mem \<sigma>) < counter n (mem \<sigma>')" | f where "notice n f" "pending \<sigma>' f"
    using on.IH [OF on.prems] by blast
  then show ?case
  proof cases
    case 1
    then show ?thesis using step_check [OF r on.hyps(2,3) v] by blast
  next
    case 2
    then show ?thesis using up by simp
  next
    case 3
    then show ?thesis using step_notice [OF r on.hyps(3) 3] mono by (cases "pending \<sigma>'' f") auto
  qed
qed simp

end

lemma races_stopped:
  assumes "races S \<sigma> S' \<sigma>'" "reachable \<sigma>" "n < n_nodes (mem \<sigma>)" "node_is_stopped n (mem \<sigma>)"
  shows "node_is_stopped n (mem \<sigma>')" "n < n_nodes (mem \<sigma>')"
  using later_node_stopped [OF races_later [OF assms(1)] assms(2)] later_extends [OF races_later [OF assms(1)] assms(2)] assms(3,4)
  by (auto simp: valid_node_def extends_def)

section \<open>After a shutdown\<close>

lemma passes_is_complete:
  assumes "alone \<sigma>" "stack \<sigma> 0 = []" "passes (k (complete_in n (mem \<sigma>))) nobody \<sigma>"
  shows "passes (is_complete n k) nobody \<sigma>"
  unfolding is_complete_def
  by (rule passes_read [OF assms(1,2)], rule passes_read [OF assms(1,2)]) (use assms(3) in \<open>simp add: complete_in_def\<close>)

text \<open>
  The end of the tests of a shutdown: the node 0 is stopped, and the guard 0, the only one there
  ever is, is gone once the thread 1 is done.
\<close>

lemma unguarded:
  assumes r: "reachable \<sigma>" and g: "dropping.out 0 1 S \<sigma>" "guards.bounded 1 S \<sigma>" and rest: "S 1 = []" "stack \<sigma> 1 = []"
  shows "guard_at (mem \<sigma>) x = None"
proof (cases "x = 0")
  case True
  then show ?thesis using g(1) rest by (simp add: dropping.out_def)
next
  case False
  then show ?thesis using guard_node(3) [OF r, of x] guards.bounded_made [OF g(2)] by (cases "guard_at (mem \<sigma>) x") auto
qed

lemma completes_after_passes:
  assumes r: "reachable \<sigma>" and main: "S 0 = []" "stack \<sigma> 0 = []"
    and others: "\<And>u. u \<noteq> 0 \<Longrightarrow> u \<noteq> 1 \<Longrightarrow> S u = [] \<and> stack \<sigma> u = []"
    and n: "holding 0 0 S \<sigma>" "node_is_stopped 0 (mem \<sigma>)"
    and g: "dropping.out 0 1 S \<sigma>" "guards.bounded 1 S \<sigma>"
  shows "passes (completes_after 1) S \<sigma>"
  unfolding completes_after_def is_complete_def
proof (rule passes_ReadI, rule passes_ReadI, rule passes_ReadI)
  fix S1 \<sigma>1 S2 \<sigma>2 S3 \<sigma>3
  assume 1: "races S \<sigma> S1 \<sigma>1" "S1 0 = []" "stack \<sigma>1 0 = []"
    and 2: "races S1 \<sigma>1 S2 \<sigma>2" "S2 0 = []" "stack \<sigma>2 0 = []"
    and 3: "races S2 \<sigma>2 S3 \<sigma>3" "S3 0 = []" "stack \<sigma>3 0 = []"
  have r1: "reachable \<sigma>1" by (rule races_reachable [OF 1(1) r])
  have r2: "reachable \<sigma>2" by (rule races_reachable [OF 2(1) r1])
  have r3: "reachable \<sigma>3" by (rule races_reachable [OF 3(1) r2])
  have all: "races S \<sigma> S3 \<sigma>3" "races S \<sigma> S2 \<sigma>2" using races_trans 1(1) 2(1) 3(1) by blast+
  have node: "0 < n_nodes (mem \<sigma>)" using handle_alive(1) [OF r, of 0 0] n(1) by (simp add: holding_def)
  note s1 = races_stopped(1) [OF 1(1) r node n(2)]
  have rest: "S3 u = [] \<and> stack \<sigma>3 u = []" if u: "u \<noteq> 0" "u \<noteq> 1" for u by (rule rests [OF all(1) others [OF u]])
  let ?C = "\<lambda>\<sigma>. node_is_stopped 0 (mem \<sigma>) \<and> node_is_zero 0 (mem \<sigma>)"
  let ?c = "node_is_stopped 0 (mem \<sigma>1) \<and> node_is_zero 0 (mem \<sigma>2)"
  let ?fin = "\<lambda>complete'. check complete' (Read (\<lambda>\<sigma>'. check (\<not> ?c \<longrightarrow> zero_notifications 0 \<sigma> < zero_notifications 0 \<sigma>') Passed))"
  show "passes (Join 1 (Read (\<lambda>\<sigma>. Read (\<lambda>\<sigma>'. ?fin (node_is_stopped 0 (mem \<sigma>) \<and> node_is_zero 0 (mem \<sigma>')))))) S3 \<sigma>3"
  proof (rule passes_JoinI [OF 3(2,3) rest])
    assume over: "S3 = nobody" "alone \<sigma>3" "idle \<sigma>3"
    have hold: "handle_at (mem \<sigma>3) 0 = Some 0" using held.through [OF all(1) r n(1)] by (simp add: holding_def)
    have empty: "S3 1 = []" "stack \<sigma>3 1 = []" using over(1,2) by (simp_all add: nobody_def alone_def)
    have none: "guard_at (mem \<sigma>3) x = None" for x
      by (rule unguarded [OF r3 dropping.running.through [OF all(1) r g(1)] guards.limited.through [OF all(1) r g(2)] empty])
    have c3: "complete_in 0 (mem \<sigma>3)"
      by (rule unguarded_complete [OF r3 over(3) handle_alive [OF r3 hold] races_stopped(1) [OF all(1) r node n(2)] none])
    have noticed: "zero_notifications 0 \<sigma> < zero_notifications 0 \<sigma>3" if "\<not> ?c"
    proof -
      have v2: "valid_node (mem \<sigma>2) 0" using races_stopped(2) [OF all(2) r node n(2)] by (simp add: valid_node_def)
      have "\<not> complete_in 0 (mem \<sigma>2)" using that s1 by (simp add: complete_in_def)
      then have "zero_notifications 0 \<sigma>2 < zero_notifications 0 \<sigma>3"
        using zero_event.later_noticed [OF races_later [OF 3(1)] r2 v2] c3 idle_not_pending [OF over(3)]
        by (simp add: zero_notifications_def)
      moreover have "zero_notifications 0 \<sigma> \<le> zero_notifications 0 \<sigma>2"
        using zero_event.later_counter [OF races_later [OF all(2)] r, of 0] node by (simp add: zero_notifications_def valid_node_def)
      ultimately show ?thesis by simp
    qed
    have last: "passes (?fin (complete_in 0 (mem \<sigma>3))) nobody \<sigma>3"
      using c3 noticed by (simp del: passes.simps) (rule passes_read [OF over(2) 3(3)], simp)
    show "passes (Read (\<lambda>\<sigma>. Read (\<lambda>\<sigma>'. ?fin (node_is_stopped 0 (mem \<sigma>) \<and> node_is_zero 0 (mem \<sigma>'))))) nobody \<sigma>3"
      using passes_is_complete [OF over(2) 3(3), of ?fin 0] last unfolding is_complete_def by blast
  qed
qed

section \<open>Calls of the main thread alone\<close>

definition rested :: "sys \<Rightarrow> bool" where
  "rested \<sigma> \<longleftrightarrow> reachable \<sigma> \<and> idle \<sigma> \<and> alone \<sigma> \<and> stack \<sigma> 0 = [] \<and> 0 < n_threads \<sigma>"

text \<open>What such calls leave alone.\<close>

definition keeps :: "sys \<Rightarrow> sys \<Rightarrow> bool" where
  "keeps \<sigma> \<sigma>' \<longleftrightarrow> (\<forall>x n. handle_at (mem \<sigma>) x = Some n \<longrightarrow> handle_at (mem \<sigma>') x = Some n) \<and>
     (\<forall>g. guard_at (mem \<sigma>) g = None \<longrightarrow> guard_at (mem \<sigma>') g = None) \<and>
     (\<forall>g<n_guards (mem \<sigma>). g < n_guards (mem \<sigma>')) \<and>
     (\<forall>n<n_nodes (mem \<sigma>). n < n_nodes (mem \<sigma>') \<and> parent_of (mem \<sigma>') n = parent_of (mem \<sigma>) n \<and>
        (node_is_stopped n (mem \<sigma>) \<longrightarrow> node_is_stopped n (mem \<sigma>')))"

lemma keepsD:
  assumes "keeps \<sigma> \<sigma>'"
  shows "handle_at (mem \<sigma>) x = Some n \<Longrightarrow> handle_at (mem \<sigma>') x = Some n"
    "guard_at (mem \<sigma>) g = None \<Longrightarrow> guard_at (mem \<sigma>') g = None" "g < n_guards (mem \<sigma>) \<Longrightarrow> g < n_guards (mem \<sigma>')"
    "m < n_nodes (mem \<sigma>) \<Longrightarrow> m < n_nodes (mem \<sigma>')"
    "m < n_nodes (mem \<sigma>) \<Longrightarrow> parent_of (mem \<sigma>') m = parent_of (mem \<sigma>) m"
    "m < n_nodes (mem \<sigma>) \<Longrightarrow> node_is_stopped m (mem \<sigma>) \<Longrightarrow> node_is_stopped m (mem \<sigma>')"
  using assms by (simp_all add: keeps_def)

lemma keeps_trans: "keeps \<sigma> \<sigma>1 \<Longrightarrow> keeps \<sigma>1 \<sigma>2 \<Longrightarrow> keeps \<sigma> \<sigma>2"
  unfolding keeps_def by simp

lemma keeps_race:
  assumes c: "rested \<sigma>" and race: "races (nobody(0 := [c])) \<sigma> S' \<sigma>'" and over: "S' 0 = []" "stack \<sigma>' 0 = []"
    and quiet: "\<And>x. c \<noteq> CallDrop x" "\<And>x. c \<noteq> CallIntoFuture x" "\<not> orders_guard c"
  shows "keeps \<sigma> \<sigma>'"
proof -
  have r: "reachable \<sigma>" "alone \<sigma>" "stack \<sigma> 0 = []" "0 < n_threads \<sigma>" using c by (simp_all add: rested_def)
  have r': "reachable \<sigma>'" by (rule races_reachable [OF race r(1)])
  have "handle_at (mem \<sigma>') x = Some n" if "handle_at (mem \<sigma>) x = Some n" for x n
  proof -
    have "c \<noteq> CallDrop x" "c \<noteq> CallIntoFuture x" by (rule quiet)+
    then have "holding x n (nobody(0 := [c])) \<sigma>" using that by (simp add: holding_def nobody_def)
    from held.through [OF race r(1) this] show ?thesis by (simp add: holding_def)
  qed
  moreover have "guard_at (mem \<sigma>') g = None" if none: "guard_at (mem \<sigma>) g = None" for g
  proof (cases "g < n_guards (mem \<sigma>)")
    case True
    then have "dropping.out g 0 (nobody(0 := [c])) \<sigma>" using none r(4) by (simp add: dropping.out_def)
    from dropping.run_errand [OF race r(1) this over] show ?thesis .
  next
    case False
    have "guards.bounded (n_guards (mem \<sigma>)) S' \<sigma>'"
      using guards.bounded_race [OF race r(1) guards.bounded_start [OF r(2,3) order_refl]] quiet(3) by simp
    then have "\<not> g < n_guards (mem \<sigma>')" using guards.bounded_made False by fastforce
    then show ?thesis using guard_node(3) [OF r', of g] by (cases "guard_at (mem \<sigma>') g") auto
  qed
  moreover have "g < n_guards (mem \<sigma>')" if "g < n_guards (mem \<sigma>)" for g by (rule allocated.through [OF race r(1) that])
  moreover have "n < n_nodes (mem \<sigma>') \<and> parent_of (mem \<sigma>') n = parent_of (mem \<sigma>) n" if "n < n_nodes (mem \<sigma>)" for n
    using extends_parents [OF later_extends [OF races_later [OF race] r(1)] that] by simp
  ultimately show ?thesis using races_stopped [OF race r(1)] by (simp add: keeps_def)
qed

text \<open>The main thread makes such a call.\<close>

lemma passes_call:
  assumes c: "rested \<sigma>" and quiet: "\<And>x. c \<noteq> CallDrop x" "\<And>x. c \<noteq> CallIntoFuture x" "\<not> orders_guard c"
    and rest: "\<And>\<sigma>'. races (nobody(0 := [c])) \<sigma> nobody \<sigma>' \<Longrightarrow> stack \<sigma>' 0 = [] \<Longrightarrow> rested \<sigma>' \<Longrightarrow> keeps \<sigma> \<sigma>' \<Longrightarrow> passes k nobody \<sigma>'"
  shows "passes (Do c k) nobody \<sigma>"
proof (rule passes_DoI)
  fix S' \<sigma>' assume a: "races (nobody(0 := [c])) \<sigma> S' \<sigma>'" "S' 0 = []" "stack \<sigma>' 0 = []"
  have r: "reachable \<sigma>" "alone \<sigma>" "stack \<sigma> 0 = []" "0 < n_threads \<sigma>" using c by (simp_all add: rested_def)
  have "S' t = [] \<and> stack \<sigma>' t = []" for t
    using rests [OF a(1), of t] a(2,3) all_empty [OF r(2,3)] by (cases "t = 0") (simp_all add: nobody_def)
  note over = all_done [OF this]
  have "rested \<sigma>'" using over a(3) races_reachable [OF a(1) r(1)] races_threads [OF a(1)] r(4) by (simp add: rested_def)
  then show "passes k S' \<sigma>'" using rest keeps_race [OF c a quiet] a unfolding over(1) by blast
qed

lemma passes_guard_drop:
  assumes c: "rested \<sigma>" and g: "g < n_guards (mem \<sigma>)"
    and rest: "\<And>\<sigma>'. rested \<sigma>' \<Longrightarrow> keeps \<sigma> \<sigma>' \<Longrightarrow> guard_at (mem \<sigma>') g = None \<Longrightarrow> passes k nobody \<sigma>'"
  shows "passes (Do (CallGuardDrop g) k) nobody \<sigma>"
proof (rule passes_call [OF c])
  fix \<sigma>' assume a: "races (nobody(0 := [CallGuardDrop g])) \<sigma> nobody \<sigma>'" "stack \<sigma>' 0 = []" "rested \<sigma>'" "keeps \<sigma> \<sigma>'"
  have "dropping.out g 0 (nobody(0 := [CallGuardDrop g])) \<sigma>" using c g by (simp add: dropping.out_def rested_def)
  from dropping.run_errand [OF a(1) _ this _ a(2)] have "guard_at (mem \<sigma>') g = None" using c by (simp add: rested_def nobody_def)
  with a(3,4) show "passes k nobody \<sigma>'" by (rule rest)
qed simp_all

lemma passes_shut_down:
  assumes c: "rested \<sigma>" and x: "handle_at (mem \<sigma>) x = Some n"
    and rest: "\<And>\<sigma>'. rested \<sigma>' \<Longrightarrow> keeps \<sigma> \<sigma>' \<Longrightarrow> node_is_stopped n (mem \<sigma>') \<Longrightarrow> passes k nobody \<sigma>'"
  shows "passes (Do (CallShutDown x) k) nobody \<sigma>"
proof (rule passes_call [OF c])
  fix \<sigma>' assume a: "races (nobody(0 := [CallShutDown x])) \<sigma> nobody \<sigma>'" "stack \<sigma>' 0 = []" "rested \<sigma>'" "keeps \<sigma> \<sigma>'"
  have "stopping.out x n 0 (nobody(0 := [CallShutDown x])) \<sigma>"
    by (rule stopping_starts) (use c x in \<open>simp_all add: holding_def rested_def nobody_def\<close>)
  from stopping.run_errand [OF a(1) _ this _ a(2)] have "node_is_stopped n (mem \<sigma>')" using c by (simp add: rested_def nobody_def)
  with a(3,4) show "passes k nobody \<sigma>'" by (rule rest)
qed simp_all

lemma passes_rested_read: "rested \<sigma> \<Longrightarrow> passes (k \<sigma>) nobody \<sigma> \<Longrightarrow> passes (Read k) nobody \<sigma>"
  by (rule passes_read) (simp_all add: rested_def)

lemma passes_rested_complete: "rested \<sigma> \<Longrightarrow> passes (k (complete_in n (mem \<sigma>))) nobody \<sigma> \<Longrightarrow> passes (is_complete n k) nobody \<sigma>"
  by (rule passes_is_complete) (simp_all add: rested_def)

text \<open>What is read then.\<close>

lemma rested_complete:
  assumes c: "rested \<sigma>" and x: "handle_at (mem \<sigma>) x = Some n" and s: "node_is_stopped n (mem \<sigma>)"
    and none: "\<And>g. guard_at (mem \<sigma>) g = None"
  shows "complete_in n (mem \<sigma>)"
proof -
  have r: "reachable \<sigma>" "idle \<sigma>" using c by (simp_all add: rested_def)
  show ?thesis by (rule unguarded_complete [OF r handle_alive [OF r(1) x] s none])
qed

lemma rested_stopped:
  assumes c: "rested \<sigma>" and x: "handle_at (mem \<sigma>) x = Some n" and p: "parent_of (mem \<sigma>) n = Some m" "node_is_stopped m (mem \<sigma>)"
  shows "node_is_stopped n (mem \<sigma>)"
proof -
  have r: "reachable \<sigma>" "idle \<sigma>" using c by (simp_all add: rested_def)
  show ?thesis
    using descendants_stopped [OF r(1) idle_settled [OF r(2)] ancestor.up [OF ancestor.self p(1)]] handle_alive [OF r(1) x] p(2)
    by blast
qed

section \<open>The guards that a test has made\<close>

lemma made_at_eq:
  assumes r: "reachable \<sigma>" and g: "guard_at (mem \<sigma>) g = Some gd" "gd_location gd = loc"
    and only: "\<And>x gx. guard_at (mem \<sigma>) x = Some gx \<Longrightarrow> gd_location gx = loc \<Longrightarrow> x = g"
  shows "made_at loc \<sigma> = g"
proof -
  let ?P = "\<lambda>g. map_option gd_location (guard_at (mem \<sigma>) g) = Some loc"
  have "g \<in> set [0..<n_guards (mem \<sigma>)]" "?P g" using guard_node(3) [OF r g(1)] g by simp_all
  then obtain x where x: "find ?P [0..<n_guards (mem \<sigma>)] = Some x"
    using find_None_iff [of ?P "[0..<n_guards (mem \<sigma>)]"] by (cases "find ?P [0..<n_guards (mem \<sigma>)]") auto
  have "?P x" using x by (auto simp: find_Some_iff)
  then have "x = g" using only by auto
  then show ?thesis using x by (simp add: made_at_def)
qed

definition made_here :: "location \<Rightarrow> nid \<Rightarrow> gid \<Rightarrow> sys \<Rightarrow> bool" where
  "made_here loc n g \<sigma> \<longleftrightarrow> (\<exists>gd. guard_at (mem \<sigma>) g = Some gd \<and> gd_location gd = loc \<and> fst (gd_shard gd) = n)"

text \<open>Two guards made at different lines, and no others.\<close>

lemma two_guards:
  assumes r: "reachable \<sigma>" "n_guards (mem \<sigma>) \<le> 2" and l: "guard_made k n (mem \<sigma>)" "guard_made l n (mem \<sigma>)" "k \<noteq> l"
  shows "made_here k n (made_at k \<sigma>) \<sigma>" "made_here l n (made_at l \<sigma>) \<sigma>" "made_at k \<sigma> \<noteq> made_at l \<sigma>"
    "\<And>x. guard_at (mem \<sigma>) x \<noteq> None \<Longrightarrow> x = made_at k \<sigma> \<or> x = made_at l \<sigma>"
proof -
  obtain a ga where a: "guard_at (mem \<sigma>) a = Some ga" "gd_location ga = k" "fst (gd_shard ga) = n" using l(1) by (auto simp: guard_made_def)
  obtain b gb where b: "guard_at (mem \<sigma>) b = Some gb" "gd_location gb = l" "fst (gd_shard gb) = n" using l(2) by (auto simp: guard_made_def)
  have ab: "a \<noteq> b" using a b l(3) by auto
  have "a < 2" "b < 2" using guard_node(3) [OF r(1)] a(1) b(1) r(2) by fastforce+
  then have only: "x = a \<or> x = b" if "guard_at (mem \<sigma>) x \<noteq> None" for x
    using that guard_node(3) [OF r(1), of x] r(2) ab by (cases "guard_at (mem \<sigma>) x") auto
  have ka: "made_at k \<sigma> = a" by (rule made_at_eq [OF r(1) a(1,2)]) (use only b l(3) in force)
  have lb: "made_at l \<sigma> = b" by (rule made_at_eq [OF r(1) b(1,2)]) (use only a l(3) in force)
  show "made_here k n (made_at k \<sigma>) \<sigma>" "made_here l n (made_at l \<sigma>) \<sigma>" "made_at k \<sigma> \<noteq> made_at l \<sigma>"
    using a b ab by (simp_all add: ka lb made_here_def)
  show "x = made_at k \<sigma> \<or> x = made_at l \<sigma>" if "guard_at (mem \<sigma>) x \<noteq> None" for x using only [OF that] by (simp add: ka lb)
qed

lemma made_here_nonzero:
  assumes "reachable \<sigma>" "made_here loc n g \<sigma>" "ancestor (mem \<sigma>) m n"
  shows "\<not> node_is_zero m (mem \<sigma>)"
  using guarded_nonzero [OF assms(1)] assms(2,3) by (auto simp: made_here_def)

lemma made_here_bound: "reachable \<sigma> \<Longrightarrow> made_here loc n g \<sigma> \<Longrightarrow> g < n_guards (mem \<sigma>)"
  using guard_node(3) by (auto simp: made_here_def)

end
