(* ===== verification/Loom_Guard_Tests.thy ===== *)
theory Loom_Guard_Tests
  imports Loom_Completion
begin

text \<open>The tests of guards pass under every schedule.\<close>

section \<open>Shutdowns beside a drop\<close>

lemma stop_beside_drop_passes:
  assumes r: "reachable \<sigma>0" "alone \<sigma>0" "n_threads \<sigma>0 = 3" "stack \<sigma>0 0 = []"
    and h: "handle_at (mem \<sigma>0) 0 = Some 0" "CallDrop 0 \<notin> set cs" "CallIntoFuture 0 \<notin> set cs"
    and g: "n_guards (mem \<sigma>0) = 1" "guard_at (mem \<sigma>0) 0 = None \<or> CallGuardDrop 0 \<in> set cs" "filter orders_guard cs = []"
  shows "passes (Spawn 1 cs (Do (CallShutDown 0) (completes_after 1))) nobody \<sigma>0"
proof (rule passes_SpawnI, rule passes_DoI)
  let ?S0 = "nobody(1 := cs)"
  fix S1 \<sigma>1 S2 \<sigma>2
  assume 1: "races ?S0 \<sigma>0 S1 \<sigma>1" "S1 0 = []" "stack \<sigma>1 0 = []"
    and 2: "races (S1(0 := [CallShutDown 0])) \<sigma>1 S2 \<sigma>2" "S2 0 = []" "stack \<sigma>2 0 = []"
  have r1: "reachable \<sigma>1" by (rule races_reachable [OF 1(1) r(1)])
  have r2: "reachable \<sigma>2" by (rule races_reachable [OF 2(1) r1])
  have n: "n_threads \<sigma>1 = 3" "n_threads \<sigma>2 = 3" using races_threads 1(1) 2(1) r(3) by simp_all
  have others: "S2 u = [] \<and> stack \<sigma>2 u = []" if u: "u \<noteq> 0" "u \<noteq> 1" for u
    using rests [OF 2(1), of u] rests [OF 1(1), of u] u all_empty [OF r(2,4)] by (simp add: nobody_def)
  have "holding 0 0 ?S0 \<sigma>0" using h by (simp add: holding_def nobody_def)
  from held.through [OF 1(1) r(1) this]
  have hold: "holding 0 0 (S1(0 := [CallShutDown 0])) \<sigma>1" by (rule holding_script) simp_all
  have "stopping.out 0 0 0 (S1(0 := [CallShutDown 0])) \<sigma>1" by (rule stopping_starts [OF hold]) (simp_all add: n)
  note stopped = stopping.run_errand [OF 2(1) r1 this 2(2,3)]
  have "dropping.out 0 1 ?S0 \<sigma>0" using g r(3) by (auto simp: dropping.out_def)
  note d = dropping.running.through [OF 1(1) r(1) this]
  have "dropping.out 0 1 (S1(0 := [CallShutDown 0])) \<sigma>1"
    by (rule dropping.out_script [OF d]) (use d in \<open>simp_all add: dropping.out_def\<close>)
  note d2 = dropping.running.through [OF 2(1) r1 this]
  have b2: "guards.bounded 1 S2 \<sigma>2" by (rule guards.bounded_two_races [OF 1(1) 2(1) r(1,2,4)]) (simp add: g)
  show "passes (completes_after 1) S2 \<sigma>2"
    by (rule completes_after_passes [OF r2 2(2,3) _ held.through [OF 2(1) r1 hold] stopped d2 b2]) (rule others)
qed

lemma last_guard_drop_vs_stop_passes: "passes last_guard_drop_vs_stop nobody loom_init"
proof -
  obtain \<sigma> where p: "play [(CallNew False, 0), (CallGuard 0 (line 210), 8)] loom_init = Some \<sigma>" "n_threads \<sigma> = 3"
    "stack \<sigma> 0 = []" "handle_at (mem \<sigma>) 0 = Some 0" "n_guards (mem \<sigma>) = 1"
    using setup_guard by blast
  show ?thesis
    unfolding last_guard_drop_vs_stop_def
    by (rule passes_setup [OF p(1)]) (simp, rule stop_beside_drop_passes, simp_all add: p)
qed

lemma child_guard_drop_vs_root_stop_passes: "passes child_guard_drop_vs_root_stop nobody loom_init"
proof -
  obtain \<sigma> where p: "play [(CallNew False, 0), (CallChild 0, 6), (CallGuard 1 (line 233), 14), (CallDrop 1, 2)] loom_init = Some \<sigma>"
    "n_threads \<sigma> = 3" "stack \<sigma> 0 = []" "handle_at (mem \<sigma>) 0 = Some 0" "n_guards (mem \<sigma>) = 1"
    using setup_child_guard by blast
  show ?thesis
    unfolding child_guard_drop_vs_root_stop_def
    by (rule passes_setup [OF p(1)]) (simp, rule stop_beside_drop_passes, simp_all add: p)
qed

lemma collection_vs_root_stop_passes: "passes collection_vs_root_stop nobody loom_init"
proof -
  obtain \<sigma> where p: "play [(CallNew False, 0), (CallChild 0, 6), (CallGuard 1 (line 308), 14), (CallGuardDrop 0, 3)] loom_init = Some \<sigma>"
    "n_threads \<sigma> = 3" "stack \<sigma> 0 = []" "handle_at (mem \<sigma>) 0 = Some 0" "n_guards (mem \<sigma>) = 1" "guard_at (mem \<sigma>) 0 = None"
    using setup_guard_dropped by blast
  show ?thesis
    unfolding collection_vs_root_stop_def
    by (rule passes_setup [OF p(1)]) (simp, rule stop_beside_drop_passes, simp_all add: p)
qed

section \<open>Arrivals\<close>

lemma guarding_starts: "holding x n S \<sigma> \<Longrightarrow> undropped.good UNIV S \<sigma> \<Longrightarrow> u < n_threads \<sigma> \<Longrightarrow> CallGuard x loc \<in> set (S u) \<Longrightarrow>
    guarding.out x n u loc S \<sigma>"
  unfolding guarding.out_def by blast

lemma guarding_next:
  assumes "guarding.out x n u loc S \<sigma>" "S t = []" "stack \<sigma> t = []" "CallDrop x \<notin> set cs" "CallIntoFuture x \<notin> set cs"
    "\<forall>c \<in> set cs. \<not> drops_guards c"
  shows "guarding.out x n u loc (S(t := cs)) \<sigma>"
proof (rule guarding.out_next [OF assms(1-3)])
  have "holding x n S \<sigma>" "undropped.good UNIV S \<sigma>" using assms(1) by (simp_all add: guarding.out_def)
  then show "holding x n (S(t := cs)) \<sigma> \<and> undropped.good UNIV (S(t := cs)) \<sigma>"
    using holding_script [OF _ assms(4,5)] undropped.good_script assms(6) by blast
qed

lemma guarding_again: "guarding.out x n v k S \<sigma> \<Longrightarrow> u < n_threads \<sigma> \<Longrightarrow> CallGuard x loc \<in> set (S u) \<Longrightarrow> guarding.out x n u loc S \<sigma>"
  by (rule guarding_starts) (simp_all add: guarding.out_def)

lemma guarding_held: "guarding.out x n u loc S \<sigma> \<Longrightarrow> handle_at (mem \<sigma>) x = Some n"
  unfolding guarding.out_def by (simp add: holding_def)

lemma guarding_made: "guarding.out x n u loc S \<sigma> \<Longrightarrow> S u = [] \<Longrightarrow> stack \<sigma> u = [] \<Longrightarrow> guard_made loc n (mem \<sigma>)"
  by (simp add: guarding.out_def)

lemma two_arrivals:
  assumes r: "reachable \<sigma>0" "alone \<sigma>0" "n_threads \<sigma>0 = 3" "stack \<sigma>0 0 = []"
    and h: "handle_at (mem \<sigma>0) 0 = Some 0" "handle_at (mem \<sigma>0) 1 = Some 1" "parent_of (mem \<sigma>0) 1 = Some 0" "n_guards (mem \<sigma>0) = 0"
    and 1: "races (nobody(1 := [CallGuard 1 k])) \<sigma>0 S1 \<sigma>1" "S1 0 = []" "stack \<sigma>1 0 = []"
    and 2: "races (S1(0 := [CallGuard 1 l])) \<sigma>1 S2 \<sigma>2" "S2 0 = []" "stack \<sigma>2 0 = []"
  shows "reachable \<sigma>2" "n_threads \<sigma>2 = 3" "\<And>u. u \<noteq> 0 \<Longrightarrow> u \<noteq> 1 \<Longrightarrow> S2 u = [] \<and> stack \<sigma>2 u = []"
    "holding 0 0 S2 \<sigma>2" "guarding.out 1 1 1 k S2 \<sigma>2" "guarding.out 1 1 0 l S2 \<sigma>2" "guards.bounded 2 S2 \<sigma>2"
    "parent_of (mem \<sigma>2) 1 = Some 0" "1 < n_nodes (mem \<sigma>2)"
proof -
  let ?S0 = "nobody(1 := [CallGuard 1 k])" and ?S1 = "S1(0 := [CallGuard 1 l])"
  have r1: "reachable \<sigma>1" by (rule races_reachable [OF 1(1) r(1)])
  show r2: "reachable \<sigma>2" by (rule races_reachable [OF 2(1) r1])
  have n: "n_threads \<sigma>1 = 3" using races_threads 1(1) r(3) by simp
  show "n_threads \<sigma>2 = 3" using races_threads 2(1) n by simp
  show "S2 u = [] \<and> stack \<sigma>2 u = []" if u: "u \<noteq> 0" "u \<noteq> 1" for u
    using rests [OF 2(1), of u] rests [OF 1(1), of u] u all_empty [OF r(2,4)] by (simp add: nobody_def)
  have "holding 0 0 ?S0 \<sigma>0" by (simp add: holding_def nobody_def h)
  from held.through [OF 1(1) r(1) this] have "holding 0 0 ?S1 \<sigma>1" by (rule holding_script) simp_all
  from held.through [OF 2(1) r1 this] show "holding 0 0 S2 \<sigma>2" .
  have "holding 1 1 ?S0 \<sigma>0" "undropped.good UNIV ?S0 \<sigma>0"
    using h(2) by (simp_all add: holding_def nobody_def undropped.good_def all_empty [OF r(2,4)])
  then have "guarding.out 1 1 1 k ?S0 \<sigma>0" by (rule guarding_starts) (simp_all add: r(3))
  from guarding.running.through [OF 1(1) r(1) this] 1(2,3)
  have k: "guarding.out 1 1 1 k ?S1 \<sigma>1" by (rule guarding_next) simp_all
  from guarding.running.through [OF 2(1) r1 k] show "guarding.out 1 1 1 k S2 \<sigma>2" .
  from k have "guarding.out 1 1 0 l ?S1 \<sigma>1" by (rule guarding_again) (simp_all add: n)
  from guarding.running.through [OF 2(1) r1 this] show "guarding.out 1 1 0 l S2 \<sigma>2" .
  show "guards.bounded 2 S2 \<sigma>2"
    by (rule guards.bounded_two_races [OF 1(1) 2(1) r(1,2,4)]) (simp add: h(4))
  have "1 < n_nodes (mem \<sigma>0)" by (rule handle_alive(1) [OF r(1) h(2)])
  then have "1 < n_nodes (mem \<sigma>2) \<and> parent_of (mem \<sigma>2) 1 = parent_of (mem \<sigma>0) 1"
    using races_later [OF 1(1)] races_later [OF 2(1)] r(1) r1 extends_parents later_extends by metis
  then show "parent_of (mem \<sigma>2) 1 = Some 0" "1 < n_nodes (mem \<sigma>2)" using h(3) by simp_all
qed

text \<open>The two guards are dropped one after the other.\<close>

lemma passes_two_drops:
  assumes c: "rested \<sigma>" and g: "a < n_guards (mem \<sigma>)" "b < n_guards (mem \<sigma>)" "\<And>x. guard_at (mem \<sigma>) x \<noteq> None \<Longrightarrow> x = a \<or> x = b"
    and rest: "\<And>\<sigma>'. rested \<sigma>' \<Longrightarrow> keeps \<sigma> \<sigma>' \<Longrightarrow> (\<And>x. guard_at (mem \<sigma>') x = None) \<Longrightarrow> passes k nobody \<sigma>'"
  shows "passes (Do (CallGuardDrop a) (Do (CallGuardDrop b) k)) nobody \<sigma>"
proof (rule passes_guard_drop [OF c g(1)])
  fix \<sigma>1 assume 1: "rested \<sigma>1" "keeps \<sigma> \<sigma>1" "guard_at (mem \<sigma>1) a = None"
  show "passes (Do (CallGuardDrop b) k) nobody \<sigma>1"
  proof (rule passes_guard_drop [OF 1(1) keepsD(3) [OF 1(2) g(2)]])
    fix \<sigma>2 assume 2: "rested \<sigma>2" "keeps \<sigma>1 \<sigma>2" "guard_at (mem \<sigma>2) b = None"
    have "guard_at (mem \<sigma>2) x = None" for x
    proof (cases "guard_at (mem \<sigma>) x = None")
      case True
      then show ?thesis by (rule keepsD(2) [OF 2(2) keepsD(2) [OF 1(2)]])
    next
      case False
      from g(3) [OF False] show ?thesis
      proof
        assume "x = a"
        then show ?thesis using keepsD(2) [OF 2(2) 1(3)] by simp
      qed (simp add: 2(3))
    qed
    then show "passes k nobody \<sigma>2" by (rule rest [OF 2(1) keeps_trans [OF 1(2) 2(2)]])
  qed
qed

lemma rested_count: "rested \<sigma> \<Longrightarrow> n < n_nodes (mem \<sigma>) \<Longrightarrow>
    swansong_guard_count (n_nodes (mem \<sigma>)) n (mem \<sigma>) = Ok (card (guards_under (mem \<sigma>) n), mem \<sigma>)"
  using count_exact [of \<sigma> n "n_nodes (mem \<sigma>)"] by (simp add: rested_def)

lemma arrivals_end_passes:
  assumes c: "rested \<sigma>" and h: "handle_at (mem \<sigma>) 0 = Some 0" "handle_at (mem \<sigma>) 1 = Some 1" "parent_of (mem \<sigma>) 1 = Some 0"
    and g: "n_guards (mem \<sigma>) \<le> 2" "guard_made k 1 (mem \<sigma>)" "guard_made l 1 (mem \<sigma>)" "k \<noteq> l"
  shows "passes (Read (\<lambda>\<sigma>.
    check (\<not> node_is_zero 1 (mem \<sigma>) \<and> \<not> node_is_zero 0 (mem \<sigma>))
    (check (counts_guards 2 \<sigma>)
    (after [CallGuardDrop (made_at l \<sigma>), CallGuardDrop (made_at k \<sigma>)]
    (Read (\<lambda>\<sigma>. check (counts_guards 0 \<sigma>)
    (Do (CallShutDown 0)
    (is_complete 1 (\<lambda>complete. is_complete 0 (\<lambda>complete'. check (complete \<and> complete')
    (Read (\<lambda>\<sigma>. check (all_shards 0 \<sigma> (\<lambda>s h. shard_word h s = STOPPED)) Passed)))))))))))) nobody \<sigma>"
proof -
  have r: "reachable \<sigma>" using c by (simp add: rested_def)
  note two = two_guards [OF r g]
  have up: "ancestor (mem \<sigma>) 0 1" by (rule ancestor.up [OF ancestor.self h(3)])
  note bound = made_here_bound [OF r two(1)] made_here_bound [OF r two(2)]
  have nz: "\<not> node_is_zero 1 (mem \<sigma>) \<and> \<not> node_is_zero 0 (mem \<sigma>)"
    using made_here_nonzero [OF r two(1) ancestor.self] made_here_nonzero [OF r two(1) up] by blast
  have "guards_under (mem \<sigma>) 0 = {made_at k \<sigma>, made_at l \<sigma>}"
  proof (rule set_eqI)
    fix x
    have "x \<in> {made_at k \<sigma>, made_at l \<sigma>}" if "x \<in> guards_under (mem \<sigma>) 0"
      using two(4) [of x] that by (auto simp: guards_under_def)
    moreover have "x \<in> guards_under (mem \<sigma>) 0" if "made_here j 1 x \<sigma>" for j
      using that up by (auto simp: guards_under_def made_here_def)
    ultimately show "x \<in> guards_under (mem \<sigma>) 0 \<longleftrightarrow> x \<in> {made_at k \<sigma>, made_at l \<sigma>}" using two(1,2) by blast
  qed
  then have count: "counts_guards 2 \<sigma>"
    using rested_count [OF c handle_alive(1) [OF r h(1)]] two(3) by (simp add: counts_guards_def)
  let ?fin = "is_complete 1 (\<lambda>complete. is_complete 0 (\<lambda>complete'. check (complete \<and> complete')
    (Read (\<lambda>\<sigma>. check (all_shards 0 \<sigma> (\<lambda>s h. shard_word h s = STOPPED)) Passed))))"
  let ?rest = "Read (\<lambda>\<sigma>. check (counts_guards 0 \<sigma>) (Do (CallShutDown 0) ?fin))"
  have rest: "passes ?rest nobody \<sigma>1" if 1: "rested \<sigma>1" "keeps \<sigma> \<sigma>1" "\<And>x. guard_at (mem \<sigma>1) x = None" for \<sigma>1
  proof -
    have r1: "reachable \<sigma>1" using 1(1) by (simp add: rested_def)
    note h1 = keepsD(1) [OF 1(2) h(1)] keepsD(1) [OF 1(2) h(2)]
    have "guards_under (mem \<sigma>1) 0 = {}" using 1(3) by (simp add: guards_under_def)
    then have count1: "counts_guards 0 \<sigma>1"
      using rested_count [OF 1(1) handle_alive(1) [OF r1 h1(1)]] by (simp add: counts_guards_def)
    have "passes (Do (CallShutDown 0) ?fin) nobody \<sigma>1"
    proof (rule passes_shut_down [OF 1(1) h1(1)])
      fix \<sigma>2 assume 2: "rested \<sigma>2" "keeps \<sigma>1 \<sigma>2" "node_is_stopped 0 (mem \<sigma>2)"
      have r2: "reachable \<sigma>2" "idle \<sigma>2" using 2(1) by (simp_all add: rested_def)
      note h2 = keepsD(1) [OF 2(2) h1(1)] keepsD(1) [OF 2(2) h1(2)]
      have none: "guard_at (mem \<sigma>2) x = None" for x by (rule keepsD(2) [OF 2(2) 1(3)])
      have "1 < n_nodes (mem \<sigma>)" by (rule handle_alive(1) [OF r h(2)])
      then have p: "parent_of (mem \<sigma>2) 1 = Some 0" using keepsD(4,5) [OF 1(2)] keepsD(5) [OF 2(2)] h(3) by simp
      have "complete_in 0 (mem \<sigma>2)" "complete_in 1 (mem \<sigma>2)"
        by (rule rested_complete [OF 2(1) h2(1) 2(3) none] rested_complete [OF 2(1) h2(2) rested_stopped [OF 2(1) h2(2) p 2(3)] none])+
      moreover have "shard_word (mem \<sigma>2) (0, i) = STOPPED" if "i < in_shards (node_at (mem \<sigma>2) 0)" for i
        by (rule idle_closed_shard [OF r2 _ handle_alive(2) [OF r2(1) h2(1)]])
          (use that 2(3) none handle_alive(1) [OF r2(1) h2(1)] in \<open>simp_all add: closing_def guarded_below_def valid_shard_def\<close>)
      then have "passes (Read (\<lambda>\<sigma>. check (all_shards 0 \<sigma> (\<lambda>s h. shard_word h s = STOPPED)) Passed)) nobody \<sigma>2"
        by (intro passes_rested_read [OF 2(1)]) (simp add: all_shards_def)
      ultimately show "passes ?fin nobody \<sigma>2"
        by (intro passes_rested_complete [OF 2(1)]) (simp del: passes.simps)
    qed
    then show ?thesis by (intro passes_rested_read [OF 1(1)]) (use count1 in \<open>simp del: passes.simps\<close>)
  qed
  have "passes (after [CallGuardDrop (made_at l \<sigma>), CallGuardDrop (made_at k \<sigma>)] ?rest) nobody \<sigma>"
    unfolding after_def foldr.simps o_def id_def by (rule passes_two_drops [OF c bound(2,1) _ rest]) (use two(4) in blast)
  then show ?thesis by (intro passes_rested_read [OF c]) (use nz count in \<open>simp del: passes.simps\<close>)
qed

lemma concurrent_first_arrivals_passes: "passes concurrent_first_arrivals nobody loom_init"
proof -
  obtain \<sigma> where p: "play [(CallNew False, 0), (CallChild 0, 6)] loom_init = Some \<sigma>" "n_threads \<sigma> = 3" "stack \<sigma> 0 = []"
    "handle_at (mem \<sigma>) 0 = Some 0" "handle_at (mem \<sigma>) 1 = Some 1" "parent_of (mem \<sigma>) 1 = Some 0" "n_guards (mem \<sigma>) = 0"
    using setup_child by blast
  show ?thesis
    unfolding concurrent_first_arrivals_def
  proof (rule passes_setup [OF p(1)], simp, rule passes_SpawnI, rule passes_DoI)
    fix S1 \<sigma>1 S2 \<sigma>2
    assume r: "reachable \<sigma>" "alone \<sigma>" and 1: "races (nobody(1 := [CallGuard 1 (line 260)])) \<sigma> S1 \<sigma>1" "S1 0 = []" "stack \<sigma>1 0 = []"
      and 2: "races (S1(0 := [CallGuard 1 (line 262)])) \<sigma>1 S2 \<sigma>2" "S2 0 = []" "stack \<sigma>2 0 = []"
    note a = two_arrivals [OF r p(2-7) 1 2]
    let ?fin = "Read (\<lambda>\<sigma>.
      check (\<not> node_is_zero 1 (mem \<sigma>) \<and> \<not> node_is_zero 0 (mem \<sigma>))
      (check (counts_guards 2 \<sigma>)
      (after [CallGuardDrop (made_at (line 262) \<sigma>), CallGuardDrop (made_at (line 260) \<sigma>)]
      (Read (\<lambda>\<sigma>.
      check (counts_guards 0 \<sigma>)
      (Do (CallShutDown 0)
      (is_complete 1 (\<lambda>complete.
      is_complete 0 (\<lambda>complete'.
      check (complete \<and> complete')
      (Read (\<lambda>\<sigma>.
      check (all_shards 0 \<sigma> (\<lambda>s h. shard_word h s = STOPPED)) Passed)))))))))))"
    show "passes (Join 1 ?fin) S2 \<sigma>2"
    proof (rule passes_JoinI [OF 2(2,3) a(3)])
      assume over: "S2 = nobody" "alone \<sigma>2" "idle \<sigma>2"
      have empty: "S2 u = []" "stack \<sigma>2 u = []" for u using over(1) all_empty [OF over(2) 2(3)] by (simp_all add: nobody_def)
      have c: "rested \<sigma>2" using a(1,2) over 2(3) by (simp add: rested_def)
      have h: "handle_at (mem \<sigma>2) 0 = Some 0" "handle_at (mem \<sigma>2) 1 = Some 1"
        using a(4) guarding_held [OF a(5)] by (simp_all add: holding_def)
      show "passes ?fin nobody \<sigma>2"
        by (rule arrivals_end_passes [OF c h a(8) guards.bounded_made [OF a(7)]
              guarding_made [OF a(5) empty] guarding_made [OF a(6) empty]]) (simp add: line_def)
    qed
  qed
qed

section \<open>A shutdown beside an arrival\<close>

lemma piggybacked_end_passes:
  assumes c: "rested \<sigma>" and h: "handle_at (mem \<sigma>) 0 = Some 0" "handle_at (mem \<sigma>) 1 = Some 1" "parent_of (mem \<sigma>) 1 = Some 0"
    and s: "node_is_stopped 0 (mem \<sigma>)"
    and g: "n_guards (mem \<sigma>) \<le> 2" "guard_made k 1 (mem \<sigma>)" "guard_made l 1 (mem \<sigma>)" "k \<noteq> l"
  shows "passes (Read (\<lambda>\<sigma>. Do (CallGuardDrop (made_at k \<sigma>)) (Do (CallGuardDrop (made_at l \<sigma>))
    (is_complete 1 (\<lambda>complete. check complete (is_complete 0 (\<lambda>complete. check complete Passed))))))) nobody \<sigma>"
proof (rule passes_rested_read [OF c])
  have r: "reachable \<sigma>" using c by (simp add: rested_def)
  note two = two_guards [OF r g]
  note bound = made_here_bound [OF r two(1)] made_here_bound [OF r two(2)]
  have n: "0 < n_nodes (mem \<sigma>)" "1 < n_nodes (mem \<sigma>)" using handle_alive(1) [OF r] h(1,2) by blast+
  note s1 = rested_stopped [OF c h(2,3) s]
  show "passes (Do (CallGuardDrop (made_at k \<sigma>)) (Do (CallGuardDrop (made_at l \<sigma>))
    (is_complete 1 (\<lambda>complete. check complete (is_complete 0 (\<lambda>complete. check complete Passed)))))) nobody \<sigma>"
  proof (rule passes_two_drops [OF c bound two(4)])
    fix \<sigma>1 assume 1: "rested \<sigma>1" "keeps \<sigma> \<sigma>1" and none: "\<And>x. guard_at (mem \<sigma>1) x = None"
    have "complete_in 0 (mem \<sigma>1)" "complete_in 1 (mem \<sigma>1)"
      by (rule rested_complete [OF 1(1) keepsD(1) [OF 1(2) h(1)] keepsD(6) [OF 1(2) n(1) s] none]
            rested_complete [OF 1(1) keepsD(1) [OF 1(2) h(2)] keepsD(6) [OF 1(2) n(2) s1] none])+
    then show "passes (is_complete 1 (\<lambda>complete. check complete (is_complete 0 (\<lambda>complete. check complete Passed)))) nobody \<sigma>1"
      by (intro passes_rested_complete [OF 1(1)]) (simp add: passes_rested_complete [OF 1(1)])
  qed
qed

lemma piggybacked_guard_vs_stop_passes: "passes piggybacked_guard_vs_stop nobody loom_init"
proof -
  obtain \<sigma> where p: "play [(CallNew False, 0), (CallChild 0, 6)] loom_init = Some \<sigma>" "n_threads \<sigma> = 3" "stack \<sigma> 0 = []"
    "handle_at (mem \<sigma>) 0 = Some 0" "handle_at (mem \<sigma>) 1 = Some 1" "parent_of (mem \<sigma>) 1 = Some 0" "n_guards (mem \<sigma>) = 0"
    using setup_child by blast
  show ?thesis
    unfolding piggybacked_guard_vs_stop_def
  proof (rule passes_setup [OF p(1)], simp, rule passes_SpawnI, rule passes_after2, rule passes_DoI, rule passes_DoI,
      rule passes_is_completeI)
    fix S1 \<sigma>1 S2 \<sigma>2 S3 \<sigma>3 S4 \<sigma>4 S5 \<sigma>5
    assume r: "reachable \<sigma>" "alone \<sigma>" and 1: "races (nobody(1 := [CallGuard 1 (line 188)])) \<sigma> S1 \<sigma>1" "S1 0 = []" "stack \<sigma>1 0 = []"
      and 2: "races (S1(0 := [CallGuard 1 (line 190)])) \<sigma>1 S2 \<sigma>2" "S2 0 = []" "stack \<sigma>2 0 = []"
      and 3: "races (S2(0 := [CallShutDown 0])) \<sigma>2 S3 \<sigma>3" "S3 0 = []" "stack \<sigma>3 0 = []"
      and 4: "races S3 \<sigma>3 S4 \<sigma>4" "S4 0 = []" "stack \<sigma>4 0 = []"
      and 5: "races S4 \<sigma>4 S5 \<sigma>5" "S5 0 = []" "stack \<sigma>5 0 = []"
    note a = two_arrivals [OF r p(2-7) 1 2]
    let ?fin = "Read (\<lambda>\<sigma>. Do (CallGuardDrop (made_at (line 188) \<sigma>)) (Do (CallGuardDrop (made_at (line 190) \<sigma>))
      (is_complete 1 (\<lambda>complete. check complete (is_complete 0 (\<lambda>complete. check complete Passed))))))"
    show "passes (check (\<not> (node_is_stopped 0 (mem \<sigma>3) \<and> node_is_zero 0 (mem \<sigma>4))) (Join 1 ?fin)) S5 \<sigma>5"
    proof -
      have r3: "reachable \<sigma>3" by (rule races_reachable [OF 3(1) a(1)])
      have r4: "reachable \<sigma>4" by (rule races_reachable [OF 4(1) r3])
      have r5: "reachable \<sigma>5" by (rule races_reachable [OF 5(1) r4])
      have n: "n_threads \<sigma>5 = 3" using races_threads 3(1) 4(1) 5(1) a(2) by simp
      let ?S2 = "S2(0 := [CallShutDown 0])"
      have later: "races ?S2 \<sigma>2 S4 \<sigma>4" "races ?S2 \<sigma>2 S5 \<sigma>5" using races_trans 3(1) 4(1) 5(1) by blast+
      have k: "guarding.out 1 1 1 (line 188) ?S2 \<sigma>2" by (rule guarding_next [OF a(5) 2(2,3)]) simp_all
      have l: "guarding.out 1 1 0 (line 190) ?S2 \<sigma>2" by (rule guarding_next [OF a(6) 2(2,3)]) simp_all
      have hold: "holding 0 0 ?S2 \<sigma>2" by (rule holding_script [OF a(4)]) simp_all
      have b: "guards.bounded 2 S5 \<sigma>5" using guards.limited.through [OF later(2) a(1) guards.bounded_script [OF a(7)]] by simp
      have parent: "parent_of (mem \<sigma>') 1 = Some 0" if "races ?S2 \<sigma>2 S' \<sigma>'" for S' \<sigma>'
        using extends_parents [OF later_extends [OF races_later [OF that] a(1)] a(9)] a(8) by simp
      have "guard_made (line 190) 1 (mem \<sigma>4)"
        by (rule guarding_made [OF guarding.running.through [OF later(1) a(1) l] 4(2,3)])
      then have nz: "\<not> node_is_zero 0 (mem \<sigma>4)"
        using guarded_nonzero [OF r4] ancestor.up [OF ancestor.self parent [OF later(1)]] by (auto simp: guard_made_def)
      have "passes (Join 1 ?fin) S5 \<sigma>5"
      proof (rule passes_JoinI [where S = S5 and \<sigma> = \<sigma>5, OF 5(2,3)])
        show "S5 u = [] \<and> stack \<sigma>5 u = []" if "u \<noteq> 0" "u \<noteq> 1" for u
          by (rule rests [OF later(2)]) (use a(3) [OF that] that in simp)
        assume over: "S5 = nobody" "alone \<sigma>5" "idle \<sigma>5"
        have empty: "S5 u = []" "stack \<sigma>5 u = []" for u using over(1) all_empty [OF over(2) 5(3)] by (simp_all add: nobody_def)
        have c: "rested \<sigma>5" using r5 n over 5(3) by (simp add: rested_def)
        have "stopping.out 0 0 0 ?S2 \<sigma>2" by (rule stopping_starts [OF hold]) (simp_all add: a(2))
        note stopped = stopping.run_errand [OF later(2) a(1) this 5(2,3)]
        note k5 = guarding.running.through [OF later(2) a(1) k] and l5 = guarding.running.through [OF later(2) a(1) l]
        have h: "handle_at (mem \<sigma>5) 0 = Some 0" using held.through [OF later(2) a(1) hold] by (simp add: holding_def)
        show "passes ?fin nobody \<sigma>5"
          by (rule piggybacked_end_passes [OF c h guarding_held [OF k5] parent [OF later(2)] stopped guards.bounded_made [OF b]
                guarding_made [OF k5 empty] guarding_made [OF l5 empty]]) (simp add: line_def)
      qed
      with nz show ?thesis by simp
    qed
  qed
qed

section \<open>An arrival beside a flush\<close>

lemma one_guard:
  assumes r: "reachable \<sigma>" "n_guards (mem \<sigma>) \<le> 2" and l: "guard_at (mem \<sigma>) 0 = None" "guard_made l n (mem \<sigma>)"
  shows "made_at l \<sigma> = 1" "made_here l n 1 \<sigma>" "\<And>x. guard_at (mem \<sigma>) x \<noteq> None \<Longrightarrow> x = 1"
proof -
  have only: "x = 1" if "guard_at (mem \<sigma>) x \<noteq> None" for x
    using that guard_node(3) [OF r(1), of x] r(2) l(1) by (cases "x = 0"; cases "guard_at (mem \<sigma>) x") auto
  obtain a ga where a: "guard_at (mem \<sigma>) a = Some ga" "gd_location ga = l" "fst (gd_shard ga) = n" using l(2) by (auto simp: guard_made_def)
  have "a = 1" by (rule only) (simp add: a(1))
  then have a1: "guard_at (mem \<sigma>) 1 = Some ga" using a(1) by blast
  show "made_at l \<sigma> = 1" by (rule made_at_eq [OF r(1) a1 a(2)]) (use only in blast)
  show "made_here l n 1 \<sigma>" using a1 a(2,3) by (auto simp: made_here_def)
  show "\<And>x. guard_at (mem \<sigma>) x \<noteq> None \<Longrightarrow> x = 1" by (rule only)
qed

lemma arrival_end_passes:
  assumes c: "rested \<sigma>" and h: "handle_at (mem \<sigma>) 0 = Some 0" "handle_at (mem \<sigma>) 1 = Some 1" "parent_of (mem \<sigma>) 1 = Some 0"
    and s: "node_is_stopped 1 (mem \<sigma>)"
    and g: "n_guards (mem \<sigma>) \<le> 2" "guard_at (mem \<sigma>) 0 = None" "guard_made l 1 (mem \<sigma>)"
  shows "passes (Read (\<lambda>\<sigma>. check (\<not> node_is_zero 1 (mem \<sigma>) \<and> \<not> node_is_zero 0 (mem \<sigma>))
    (Do (CallGuardDrop (made_at l \<sigma>)) (is_complete 1 (\<lambda>complete. check complete (Do (CallShutDown 0)
    (is_complete 0 (\<lambda>complete. check complete Passed)))))))) nobody \<sigma>"
proof (rule passes_rested_read [OF c])
  let ?fin = "is_complete 0 (\<lambda>complete. check complete Passed)"
  have r: "reachable \<sigma>" using c by (simp add: rested_def)
  note one = one_guard [OF r g]
  have up: "ancestor (mem \<sigma>) 0 1" by (rule ancestor.up [OF ancestor.self h(3)])
  have nz: "\<not> node_is_zero 1 (mem \<sigma>) \<and> \<not> node_is_zero 0 (mem \<sigma>)"
    using made_here_nonzero [OF r one(2) ancestor.self] made_here_nonzero [OF r one(2) up] by blast
  have n: "1 < n_nodes (mem \<sigma>)" by (rule handle_alive(1) [OF r h(2)])
  have "passes (Do (CallGuardDrop 1) (is_complete 1 (\<lambda>complete. check complete (Do (CallShutDown 0) ?fin)))) nobody \<sigma>"
  proof (rule passes_guard_drop [OF c made_here_bound [OF r one(2)]])
    fix \<sigma>1 assume 1: "rested \<sigma>1" "keeps \<sigma> \<sigma>1" "guard_at (mem \<sigma>1) 1 = None"
    have none: "guard_at (mem \<sigma>1) x = None" for x
    proof (cases "guard_at (mem \<sigma>) x = None")
      case False
      then show ?thesis using one(3) [of x] 1(3) by blast
    qed (rule keepsD(2) [OF 1(2)])
    have c1: "complete_in 1 (mem \<sigma>1)" by (rule rested_complete [OF 1(1) keepsD(1) [OF 1(2) h(2)] keepsD(6) [OF 1(2) n s] none])
    have "passes (Do (CallShutDown 0) ?fin) nobody \<sigma>1"
    proof (rule passes_shut_down [OF 1(1) keepsD(1) [OF 1(2) h(1)]])
      fix \<sigma>2 assume 2: "rested \<sigma>2" "keeps \<sigma>1 \<sigma>2" "node_is_stopped 0 (mem \<sigma>2)"
      have "complete_in 0 (mem \<sigma>2)"
        by (rule rested_complete [OF 2(1) keepsD(1) [OF 2(2) keepsD(1) [OF 1(2) h(1)]] 2(3) keepsD(2) [OF 2(2) none]])
      then show "passes ?fin nobody \<sigma>2" by (intro passes_rested_complete [OF 2(1)]) simp
    qed
    then show "passes (is_complete 1 (\<lambda>complete. check complete (Do (CallShutDown 0) ?fin))) nobody \<sigma>1"
      by (intro passes_rested_complete [OF 1(1)]) (use c1 in \<open>simp del: passes.simps\<close>)
  qed
  then show "passes (check (\<not> node_is_zero 1 (mem \<sigma>) \<and> \<not> node_is_zero 0 (mem \<sigma>)) (Do (CallGuardDrop (made_at l \<sigma>))
      (is_complete 1 (\<lambda>complete. check complete (Do (CallShutDown 0) ?fin))))) nobody \<sigma>"
    using nz one(1) by (simp del: passes.simps)
qed

lemma arrival_vs_flush_passes: "passes arrival_vs_flush nobody loom_init"
proof -
  obtain \<sigma> where p: "play [(CallNew False, 0), (CallChild 0, 6), (CallGuard 1 (line 284), 14), (CallGuardDrop 0, 3)] loom_init = Some \<sigma>"
    "n_threads \<sigma> = 3" "stack \<sigma> 0 = []" "handle_at (mem \<sigma>) 0 = Some 0" "handle_at (mem \<sigma>) 1 = Some 1"
    "parent_of (mem \<sigma>) 1 = Some 0" "n_guards (mem \<sigma>) = 1" "guard_at (mem \<sigma>) 0 = None"
    using setup_guard_dropped by blast
  show ?thesis
    unfolding arrival_vs_flush_def
  proof (rule passes_setup [OF p(1)], simp, rule passes_SpawnI, rule passes_DoI)
    let ?S0 = "nobody(1 := [CallGuard 1 (line 287)])"
    fix S1 \<sigma>1 S2 \<sigma>2
    assume r: "reachable \<sigma>" "alone \<sigma>" and 1: "races ?S0 \<sigma> S1 \<sigma>1" "S1 0 = []" "stack \<sigma>1 0 = []"
      and 2: "races (S1(0 := [CallShutDown 1])) \<sigma>1 S2 \<sigma>2" "S2 0 = []" "stack \<sigma>2 0 = []"
    let ?S1 = "S1(0 := [CallShutDown 1])"
    have r1: "reachable \<sigma>1" by (rule races_reachable [OF 1(1) r(1)])
    have r2: "reachable \<sigma>2" by (rule races_reachable [OF 2(1) r1])
    have n: "n_threads \<sigma>1 = 3" "n_threads \<sigma>2 = 3" using races_threads 1(1) 2(1) p(2) by simp_all
    have root: "holding 0 0 S2 \<sigma>2"
    proof (rule held.through [OF 2(1) r1], rule holding_script)
      show "holding 0 0 S1 \<sigma>1" by (rule held.through [OF 1(1) r(1)]) (simp add: holding_def nobody_def p(4))
    qed simp_all
    have hold: "holding 1 1 ?S0 \<sigma>" and good: "undropped.good UNIV ?S0 \<sigma>"
      using p(5) by (simp_all add: holding_def nobody_def undropped.good_def all_empty [OF r(2) p(3)])
    then have "guarding.out 1 1 1 (line 287) ?S0 \<sigma>" by (rule guarding_starts) (simp_all add: p(2))
    from guarding.running.through [OF 1(1) r(1) this] 1(2,3)
    have "guarding.out 1 1 1 (line 287) ?S1 \<sigma>1" by (rule guarding_next) simp_all
    note g = guarding.running.through [OF 2(1) r1 this]
    have "dropping.out 0 2 ?S0 \<sigma>" by (simp add: dropping.out_def p)
    note d = dropping.running.through [OF 1(1) r(1) this]
    have "dropping.out 0 2 ?S1 \<sigma>1" by (rule dropping.out_script [OF d]) (use d in \<open>simp_all add: dropping.out_def\<close>)
    note d2 = dropping.running.through [OF 2(1) r1 this]
    have b: "guards.bounded 2 S2 \<sigma>2" by (rule guards.bounded_two_races [OF 1(1) 2(1) r p(3)]) (simp add: p(7))
    have "1 < n_nodes (mem \<sigma>)" by (rule handle_alive(1) [OF r(1) p(5)])
    then have parent: "parent_of (mem \<sigma>2) 1 = Some 0"
      using extends_parents [OF later_extends [OF races_later [OF 1(1)] r(1)]]
        extends_parents [OF later_extends [OF races_later [OF 2(1)] r1]] p(6) by metis
    have others: "S2 u = [] \<and> stack \<sigma>2 u = []" if u: "u \<noteq> 0" "u \<noteq> 1" for u
      using rests [OF 2(1), of u] rests [OF 1(1), of u] u all_empty [OF r(2) p(3)] by (simp add: nobody_def)
    have "holding 1 1 ?S1 \<sigma>1" by (rule holding_script [OF held.through [OF 1(1) r(1) hold]]) simp_all
    then have "stopping.out 1 1 0 ?S1 \<sigma>1" by (rule stopping_starts) (simp_all add: n)
    note stopped = stopping.run_errand [OF 2(1) r1 this 2(2,3)]
    let ?fin = "Read (\<lambda>\<sigma>. check (\<not> node_is_zero 1 (mem \<sigma>) \<and> \<not> node_is_zero 0 (mem \<sigma>))
      (Do (CallGuardDrop (made_at (line 287) \<sigma>)) (is_complete 1 (\<lambda>complete. check complete (Do (CallShutDown 0)
      (is_complete 0 (\<lambda>complete. check complete Passed)))))))"
    show "passes (Join 1 ?fin) S2 \<sigma>2"
    proof (rule passes_JoinI [OF 2(2,3) others])
      assume over: "S2 = nobody" "alone \<sigma>2" "idle \<sigma>2"
      have empty: "S2 u = []" "stack \<sigma>2 u = []" for u using over(1) all_empty [OF over(2) 2(3)] by (simp_all add: nobody_def)
      have c: "rested \<sigma>2" using r2 n over 2(3) by (simp add: rested_def)
      have h: "handle_at (mem \<sigma>2) 0 = Some 0" using root by (simp add: holding_def)
      have none: "guard_at (mem \<sigma>2) 0 = None" using d2 empty by (simp add: dropping.out_def)
      show "passes ?fin nobody \<sigma>2"
        by (rule arrival_end_passes [OF c h guarding_held [OF g] parent stopped guards.bounded_made [OF b] none guarding_made [OF g empty]])
    qed
  qed
qed

end
