(* ===== verification/Loom_Child_Tests.thy ===== *)
theory Loom_Child_Tests
  imports Loom_Completion
begin

text \<open>The tests of children pass under every schedule.\<close>

lemma parenting_starts: "holding x p S \<sigma> \<Longrightarrow> reserved y S \<sigma> \<Longrightarrow> u < n_threads \<sigma> \<Longrightarrow> CallChild x \<in> set (S u) \<Longrightarrow> parenting.out x p y u S \<sigma>"
  unfolding parenting.out_def by blast

lemma parenting_next:
  assumes "parenting.out x p y u S \<sigma>" "S t = []" "stack \<sigma> t = []" "\<forall>z. CallDrop z \<notin> set cs \<and> CallIntoFuture z \<notin> set cs"
  shows "parenting.out x p y u (S(t := cs)) \<sigma>"
proof (rule parenting.out_next [OF assms(1-3)])
  have "holding x p S \<sigma>" "reserved y S \<sigma>" using assms(1) by (simp_all add: parenting.out_def)
  then show "holding x p (S(t := cs)) \<sigma> \<and> reserved y (S(t := cs)) \<sigma>"
    using assms(4) by (auto simp: reserved_def intro: holding_script)
qed

text \<open>The one handle that a thread has made is the child's.\<close>

lemma child_handle:
  assumes r: "reachable \<sigma>" and b: "n_handles (mem \<sigma>) \<le> Suc y"
    and p: "parenting.out x p y u S \<sigma>" "S u = []" "stack \<sigma> u = []"
  shows "\<exists>c. handle_at (mem \<sigma>) y = Some c \<and> c < n_nodes (mem \<sigma>) \<and> parent_of (mem \<sigma>) c = Some p"
proof -
  obtain z c where z: "y \<le> z" "handle_at (mem \<sigma>) z = Some c" "c < n_nodes (mem \<sigma>)" "parent_of (mem \<sigma>) c = Some p"
    using p by (auto simp: parenting.out_def child_made_def)
  have "z = y" using handles_bounded [OF r z(2)] z(1) b by simp
  then show ?thesis using z(2-4) by blast
qed

lemma child_creation_vs_parent_stop_passes: "passes child_creation_vs_parent_stop nobody loom_init"
proof -
  obtain \<sigma> where p: "play [(CallNew False, 0)] loom_init = Some \<sigma>" "n_threads \<sigma> = 3" "stack \<sigma> 0 = []"
    "handle_at (mem \<sigma>) 0 = Some 0" "n_handles (mem \<sigma>) = 1"
    using setup_root by blast
  show ?thesis
    unfolding child_creation_vs_parent_stop_def
  proof (rule passes_setup [OF p(1)], simp, rule passes_SpawnI, rule passes_DoI)
    let ?S0 = "nobody(1 := [CallChild 0])"
    fix S1 \<sigma>1 S2 \<sigma>2
    assume r: "reachable \<sigma>" "alone \<sigma>" and 1: "races ?S0 \<sigma> S1 \<sigma>1" "S1 0 = []" "stack \<sigma>1 0 = []"
      and 2: "races (S1(0 := [CallShutDown 0])) \<sigma>1 S2 \<sigma>2" "S2 0 = []" "stack \<sigma>2 0 = []"
    let ?S1 = "S1(0 := [CallShutDown 0])"
    have r1: "reachable \<sigma>1" by (rule races_reachable [OF 1(1) r(1)])
    have r2: "reachable \<sigma>2" by (rule races_reachable [OF 2(1) r1])
    have n: "n_threads \<sigma>1 = 3" "n_threads \<sigma>2 = 3" using races_threads 1(1) 2(1) p(2) by simp_all
    have hold: "holding 0 0 ?S0 \<sigma>" and res: "reserved 1 ?S0 \<sigma>" using p(4,5) by (simp_all add: holding_def reserved_def nobody_def)
    then have "parenting.out 0 0 1 1 ?S0 \<sigma>" by (rule parenting_starts) (simp_all add: p(2))
    from parenting.running.through [OF 1(1) r(1) this] 1(2,3) have "parenting.out 0 0 1 1 ?S1 \<sigma>1" by (rule parenting_next) simp
    note child = parenting.running.through [OF 2(1) r1 this]
    have "holding 0 0 ?S1 \<sigma>1" by (rule holding_script [OF held.through [OF 1(1) r(1) hold]]) simp_all
    then have "stopping.out 0 0 0 ?S1 \<sigma>1" by (rule stopping_starts) (simp_all add: n)
    note stopped = stopping.run_errand [OF 2(1) r1 this 2(2,3)]
    have b: "n_handles (mem \<sigma>2) \<le> Suc 1"
      by (rule handles.bounded_made [OF handles.bounded_two_races [OF 1(1) 2(1) r p(3)]]) (simp add: p(5))
    have others: "S2 u = [] \<and> stack \<sigma>2 u = []" if u: "u \<noteq> 0" "u \<noteq> 1" for u
      using rests [OF 2(1), of u] rests [OF 1(1), of u] u all_empty [OF r(2) p(3)] by (simp add: nobody_def)
    show "passes (Join 1 (Read (\<lambda>\<sigma>. check (handle_stopped 1 \<sigma>) Passed))) S2 \<sigma>2"
    proof (rule passes_JoinI [OF 2(2,3) others])
      assume over: "S2 = nobody" "alone \<sigma>2" "idle \<sigma>2"
      have c: "rested \<sigma>2" using r2 n over 2(3) by (simp add: rested_def)
      have empty: "S2 u = []" "stack \<sigma>2 u = []" for u using over(1) all_empty [OF over(2) 2(3)] by (simp_all add: nobody_def)
      obtain d where d: "handle_at (mem \<sigma>2) 1 = Some d" "parent_of (mem \<sigma>2) d = Some 0" using child_handle [OF r2 b child empty] by blast
      have "handle_stopped 1 \<sigma>2" using rested_stopped [OF c d stopped] d(1) by (simp add: handle_stopped_def)
      then show "passes (Read (\<lambda>\<sigma>. check (handle_stopped 1 \<sigma>) Passed)) nobody \<sigma>2" by (intro passes_rested_read [OF c]) simp
    qed
  qed
qed

lemma sibling_creation_vs_collection_passes: "passes sibling_creation_vs_collection nobody loom_init"
proof -
  obtain \<sigma> where p: "play [(CallNew False, 0), (CallChild 0, 6), (CallGuard 1 (line 348), 14), (CallGuardDrop 0, 3)] loom_init = Some \<sigma>"
    "n_threads \<sigma> = 3" "stack \<sigma> 0 = []" "handle_at (mem \<sigma>) 0 = Some 0" "n_handles (mem \<sigma>) = 2" "n_guards (mem \<sigma>) = 1"
    "guard_at (mem \<sigma>) 0 = None"
    using setup_guard_dropped by blast
  show ?thesis
    unfolding sibling_creation_vs_collection_def
  proof (rule passes_setup [OF p(1)], simp, rule passes_SpawnI, rule passes_DoI)
    let ?S0 = "nobody(1 := [CallDrop 1])"
    fix S1 \<sigma>1 S2 \<sigma>2
    assume r: "reachable \<sigma>" "alone \<sigma>" and 1: "races ?S0 \<sigma> S1 \<sigma>1" "S1 0 = []" "stack \<sigma>1 0 = []"
      and 2: "races (S1(0 := [CallChild 0])) \<sigma>1 S2 \<sigma>2" "S2 0 = []" "stack \<sigma>2 0 = []"
    let ?S1 = "S1(0 := [CallChild 0])"
    have r1: "reachable \<sigma>1" by (rule races_reachable [OF 1(1) r(1)])
    have r2: "reachable \<sigma>2" by (rule races_reachable [OF 2(1) r1])
    have n: "n_threads \<sigma>1 = 3" "n_threads \<sigma>2 = 3" using races_threads 1(1) 2(1) p(2) by simp_all
    have "holding 0 0 ?S0 \<sigma>" "reserved 2 ?S0 \<sigma>" using p(4,5) by (simp_all add: holding_def reserved_def nobody_def)
    from held.through [OF 1(1) r(1) this(1)] reserve.through [OF 1(1) r(1) this(2)]
    have "holding 0 0 ?S1 \<sigma>1" "reserved 2 ?S1 \<sigma>1" by (simp_all add: holding_def reserved_def)
    then have "parenting.out 0 0 2 0 ?S1 \<sigma>1" by (rule parenting_starts) (simp_all add: n)
    note child = parenting.running.through [OF 2(1) r1 this]
    have b: "n_handles (mem \<sigma>2) \<le> Suc 2"
      by (rule handles.bounded_made [OF handles.bounded_two_races [OF 1(1) 2(1) r p(3)]]) (simp add: p(5))
    have "dropping.out 0 1 ?S0 \<sigma>" by (simp add: dropping.out_def p)
    note d = dropping.running.through [OF 1(1) r(1) this]
    have "dropping.out 0 1 ?S1 \<sigma>1" by (rule dropping.out_script [OF d]) (use d in \<open>simp_all add: dropping.out_def\<close>)
    note d2 = dropping.running.through [OF 2(1) r1 this]
    have g: "guards.bounded 1 S2 \<sigma>2" by (rule guards.bounded_two_races [OF 1(1) 2(1) r p(3)]) (simp add: p(6))
    have others: "S2 u = [] \<and> stack \<sigma>2 u = []" if u: "u \<noteq> 0" "u \<noteq> 1" for u
      using rests [OF 2(1), of u] rests [OF 1(1), of u] u all_empty [OF r(2) p(3)] by (simp add: nobody_def)
    let ?fin = "Read (\<lambda>\<sigma>. check (handle_stopped 2 \<sigma>) (is_complete 0 (\<lambda>complete. check complete Passed)))"
    show "passes (Join 1 (Do (CallShutDown 0) ?fin)) S2 \<sigma>2"
    proof (rule passes_JoinI [OF 2(2,3) others])
      assume over: "S2 = nobody" "alone \<sigma>2" "idle \<sigma>2"
      have c: "rested \<sigma>2" using r2 n over 2(3) by (simp add: rested_def)
      have empty: "S2 u = []" "stack \<sigma>2 u = []" for u using over(1) all_empty [OF over(2) 2(3)] by (simp_all add: nobody_def)
      obtain e where e: "handle_at (mem \<sigma>2) 2 = Some e" "e < n_nodes (mem \<sigma>2)" "parent_of (mem \<sigma>2) e = Some 0"
        using child_handle [OF r2 b child empty] by blast
      have h: "handle_at (mem \<sigma>2) 0 = Some 0" using child unfolding parenting.out_def by (simp add: holding_def)
      show "passes (Do (CallShutDown 0) ?fin) nobody \<sigma>2"
      proof (rule passes_shut_down [OF c h])
        fix \<sigma>3 assume 3: "rested \<sigma>3" "keeps \<sigma>2 \<sigma>3" "node_is_stopped 0 (mem \<sigma>3)"
        have e3: "handle_at (mem \<sigma>3) 2 = Some e" "parent_of (mem \<sigma>3) e = Some 0"
          using keepsD(1) [OF 3(2) e(1)] keepsD(5) [OF 3(2) e(2)] e(3) by simp_all
        have "handle_stopped 2 \<sigma>3" using rested_stopped [OF 3(1) e3 3(3)] e3(1) by (simp add: handle_stopped_def)
        moreover have "complete_in 0 (mem \<sigma>3)"
          by (rule rested_complete [OF 3(1) keepsD(1) [OF 3(2) h] 3(3)]) (rule keepsD(2) [OF 3(2) unguarded [OF r2 d2 g empty]])
        then have "passes (is_complete 0 (\<lambda>complete. check complete Passed)) nobody \<sigma>3"
          by (intro passes_rested_complete [OF 3(1)]) simp
        ultimately show "passes ?fin nobody \<sigma>3" by (intro passes_rested_read [OF 3(1)]) (simp del: passes.simps)
      qed
    qed
  qed
qed

end
