(* ===== verification/Loom_Verified.thy ===== *)
theory Loom_Verified
  imports Loom_Interrupt_Tests Loom_Guard_Tests Loom_Child_Tests
begin

text \<open>All tests of \<^verbatim>\<open>loom_models.rs\<close> together: each passes, and each can run to its end.\<close>

lemma loom_models_all_pass: "list_all (\<lambda>T. passes T nobody loom_init) loom_models"
  by (simp only: loom_models_def list.pred_inject register_vs_stop_passes same_waker_repoll_vs_stop_passes migration_passes
      deregistration_vs_stop_passes collection_vs_pending_interrupt_passes piggybacked_guard_vs_stop_passes
      last_guard_drop_vs_stop_passes child_guard_drop_vs_root_stop_passes concurrent_first_arrivals_passes
      arrival_vs_flush_passes collection_vs_root_stop_passes child_creation_vs_parent_stop_passes
      sibling_creation_vs_collection_passes simp_thms)

lemma passes_explored:
  assumes "passes T nobody loom_init" "explore ts (loom_model T) = Some x"
  shows "\<not> fails x"
proof (rule explore_ahead)
  have none: "alone loom_init" "stack loom_init 0 = []" by (simp_all add: alone_def sys_init_def)
  show "explore ts (T, nobody, loom_init) = Some x" using assms(2) by (simp add: loom_model_def nobody_def [abs_def] del: explore.simps)
  show "ahead T nobody loom_init" using finished_idle [OF _ none] assms(1) unfolding ahead_def by blast
qed (rule reachable.init)

section \<open>A schedule of a test\<close>

text \<open>
  The main thread polls, the other one shuts the root down in the middle of it: it sets the bit,
  the poll registers, the shutdown wakes what it finds, and the last poll sees the stop.
\<close>

definition loom_schedule :: "tid list" where
  "loom_schedule = replicate 15 0 @ replicate 8 1 @ replicate 2 0 @ replicate 10 1 @ replicate 7 0"

lemma register_vs_stop_ends: "\<exists>S \<sigma>. explore loom_schedule (loom_model register_vs_stop) = Some (Passed, S, \<sigma>)"
  by (simp add: run_eval loom_schedule_def register_vs_stop_def loom_model_def after_def poll_is_over_def check_def polled_def
      wake_count_def)

end
