(* ===== verification/Spec2Isabelle.thy ===== *)
theory Spec2Isabelle
  imports Examples Completion Wrappers Diagnostics Causes Loom_Verified
begin

text \<open>
  Swansong is a Rust library for graceful shutdown. A \<^verbatim>\<open>Swansong\<close> is a handle to a node of a
  tree of nodes (\<^verbatim>\<open>Inner\<close>); each node has one or more shards (\<^verbatim>\<open>Shard\<close>) that spread its
  contention. \<^verbatim>\<open>Guard\<close>s count as outstanding work of a node, \<^verbatim>\<open>Interrupt\<close>s end futures, streams,
  iterators and I/O when their node stops, and \<^verbatim>\<open>ShutdownCompletion\<close> waits until a stopped node
  has no guard left on it or below it. The library is lock-free where it counts guards: two
  packed 64-bit words, one per node and one per shard, carry the counts and the stop bits. Paths
  in what follows are under \<^verbatim>\<open>src/\<close> of the crate.

  \<^bold>\<open>Theories.\<close> In the order in which they build on each other:

  \<^item> \<open>Prelude\<close>: results, polls and atomic read-modify-write operations of the Rust standard
    library, bounded sums, and the collection \<open>run_eval\<close> of the definitions that runs are
    evaluated with.
  \<^item> \<open>Slab\<close>: \<^verbatim>\<open>Slab<T>\<close> of \<^verbatim>\<open>implementation/shard.rs\<close> with its free list. The locale
    \<open>keyed_store\<close> is the map it implements.
  \<^item> \<open>Packed_State\<close>: the constants of \<^verbatim>\<open>shard.rs\<close> and \<^verbatim>\<open>inner.rs\<close>, and the fields \<open>low\<close>, \<open>mid\<close>,
    \<open>arrived_bit\<close> and \<open>stopped_bit\<close> of a word, with what an addition to a field does to it.
  \<^item> \<open>Guard_Registry\<close>: \<^verbatim>\<open>GuardInfo\<close> and \<^verbatim>\<open>GuardRegistry\<close> of \<^verbatim>\<open>implementation/guard.rs\<close>, and the
    bounds on its memory and its sweeps.
  \<^item> \<open>Heap\<close>: the structs \<^verbatim>\<open>Inner\<close>, \<^verbatim>\<open>Parent\<close>, \<^verbatim>\<open>Shard\<close>, \<^verbatim>\<open>Registered\<close>, \<^verbatim>\<open>Guard\<close> and \<^verbatim>\<open>Interrupt\<close> as
    records of one heap. An address is a number; a shard's address is its node and its index.
    \<open>in_strong\<close> is the strong count of a node's \<^verbatim>\<open>Arc\<close>, \<open>sh_lock\<close> the holder of a shard's mutex.
  \<^item> \<open>Frames\<close>: the program points of the code and their local variables; a thread is a stack of
    them.
  \<^item> \<open>Counting\<close>: \<^verbatim>\<open>Shard::arrive\<close>, \<^verbatim>\<open>depart\<close>, \<^verbatim>\<open>flush\<close> and \<^verbatim>\<open>Inner::arrive\<close>, \<^verbatim>\<open>depart\<close>, one definition
    per access to shared memory, so that threads interleave at every access.
  \<^item> \<open>Stopping\<close> (\<^verbatim>\<open>Inner::stop\<close>, \<^verbatim>\<open>Shard::stop\<close>), \<open>Lifetimes\<close> (\<^verbatim>\<open>Inner::new_root\<close>, \<^verbatim>\<open>new_child\<close>,
    \<^verbatim>\<open>Drop for Inner\<close>), \<open>Guards\<close> (\<^verbatim>\<open>guard.rs\<close>), \<open>Interrupts\<close> (\<^verbatim>\<open>interrupt.rs\<close>,
    \<^verbatim>\<open>interrupt/future.rs\<close> and the \<^verbatim>\<open>StopListener\<close> of \<^verbatim>\<open>shard.rs\<close>) and \<open>Handles\<close> (\<^verbatim>\<open>lib.rs\<close>): the other
    operations, in the same way.
  \<^item> \<open>Machine\<close>: the program as a transition system. Any number of threads call any operation of the
    public interface on objects that exist, as Rust's ownership and borrowing allow, and run it
    one access at a time. \<open>reachable\<close> is what they can reach.
  \<^item> \<open>Completion\<close>: the loops of \<^verbatim>\<open>ShutdownCompletion\<close> and \<^verbatim>\<open>ShuttingDown\<close>, against time.
  \<^item> \<open>Wrappers\<close>: \<^verbatim>\<open>Interrupt\<close> and \<^verbatim>\<open>Guarded\<close> as streams, iterators, readers and writers.
  \<^item> \<open>Guard_Report\<close>: \<^verbatim>\<open>GuardReport\<close> of \<^verbatim>\<open>implementation/guard_report.rs\<close> and its display.
  \<^item> \<open>Diagnostics\<close>: \<^verbatim>\<open>Swansong::guard_count\<close> and \<^verbatim>\<open>guard_report\<close>, as one thread runs them while
    the others rest.

  \<^bold>\<open>Invariants.\<close> The other theories prove properties of all reachable states, each through the
  locale \<open>system_invariant\<close> of \<open>Registration\<close> or by rule induction before it:

  \<^item> \<open>Structure\<close>, \<open>Accounting\<close>, \<open>Preservation\<close>, \<open>Invariant\<close>: every address is allocated, and every count in
    a packed word is the number of its objects and of the threads that hold a token for it.
  \<^item> \<open>Latch\<close>: stop bits are set by stops only and never cleared. \<open>Safety\<close>: what follows for guards
    and for the steps of the counting protocol.
  \<^item> \<open>Ownership\<close>, \<open>Exclusion\<close>: strong counts are the number of owners; borrows are exclusive.
  \<^item> \<open>Registration\<close>: a child is in its parent's slab exactly while it lives.
  \<^item> \<open>Locks\<close>: mutexes, absence of panics and of deadlocks.
  \<^item> \<open>Propagation\<close>: stops reach every descendant. \<open>Notification\<close>: whatever completes or stops a
    node notifies its event. \<open>Wakeups\<close>: interrupts do not sleep through a stop.
  \<^item> \<open>Pins\<close>, \<open>Quiescence\<close>: no flush and no departure is lost, so a stopped node completes when its
    guards are gone.
  \<^item> \<open>Records\<close>: provenance records have one owner and one registration.
  \<^item> \<open>Causes\<close>: the handle counts are exact, a root without handles is stopped, and nothing stops
    a node without a cause.
  \<^item> \<open>Loom_Models\<close>: the tests of \<^verbatim>\<open>implementation/loom_models.rs\<close> as programs that create objects,
    spawn and join threads, read the state and assert, and \<open>explore\<close>, which runs one under a
    schedule. \<open>Loom_Runs\<close> reduces a test to the races between two steps of its main thread,
    \<open>Loom_Tracking\<close> (locales \<open>race_invariant\<close>, \<open>errand\<close>, \<open>stock\<close>) and \<open>Loom_Errands\<close> (locale \<open>regime\<close>)
    say what races keep, what a thread has done once it is done, and how many objects there can
    be; \<open>Loom_Interrupts\<close>, \<open>Loom_Setups\<close>, \<open>Loom_Passing\<close> and \<open>Loom_Completion\<close> apply this to the
    situations of the tests, and \<open>Loom_Interrupt_Tests\<close>, \<open>Loom_Guard_Tests\<close>, \<open>Loom_Child_Tests\<close> and
    \<open>Loom_Verified\<close> verify them one by one.

  \<open>Examples\<close> runs the machine on concrete schedules, from which the witnesses take their states.
  This theory states the properties.

  \<^bold>\<open>Assumptions.\<close>

  \<^item> Interleavings are sequentially consistent: relaxed accesses are not distinguished from
    \<^verbatim>\<open>SeqCst\<close> ones.
  \<^item> \<open>within_limits\<close>: fewer than \<open>2 ^ 32\<close> guards and fewer than \<open>2 ^ 30\<close> arrived children, one more
    for each thread. The code does not check them; \<open>guard_count_overflows\<close> shows what happens.
  \<^item> \<^verbatim>\<open>usize\<close> has 64 bits. Allocation does not fail and addresses are not reused, which matters
    nowhere, since nothing compares addresses of dead objects. Strong counts do not overflow:
    \<^verbatim>\<open>Arc\<close> aborts first.
  \<^item> The increment of a strong count and the store of the clone are one step, and so are the
    reading and bumping of the global thread counter.
  \<^item> The clock does not go backwards; the values of \<^verbatim>\<open>Instant\<close> are nanoseconds.

  The \<^verbatim>\<open>event_listener\<close> crate, the wrapped futures, streams, readers and writers, and the
  formatting of a \<^verbatim>\<open>Duration\<close> are parameters. \<open>event_contract\<close> and \<open>wait_contract\<close> in \<open>Completion\<close>
  state the documented behaviour of the crate that the code relies on, and the witnesses
  instantiate it.

  \<^bold>\<open>Fuel.\<close> The loop of a completion's \<^verbatim>\<open>poll\<close> goes around once for each notification that arrives
  during the poll, and two rounds more are enough (\<open>completion_poll_terminates\<close>). \<^verbatim>\<open>block\<close> may wait
  forever, which is the result \<open>Waiting_forever\<close>, distinct from running out of fuel; the same
  fuel is enough (\<open>completion_block_correct\<close> and the lemmas of \<open>Completion\<close>). The walks of \<open>Diagnostics\<close> descend
  once per level, and a child's address is greater than its parent's, so the number of nodes is
  enough (\<open>guard_count_is_exact\<close>). Every loop of the machine is a step that is taken again.

  \<^bold>\<open>Not modelled.\<close> \<^verbatim>\<open>implementation/sync.rs\<close>, which chooses between the primitives of loom and of the
  standard library; loom's memory model, which is weaker than the one here, and its check for leaks;
  the other tests; everything under \<^verbatim>\<open>cfg(miri)\<close>;
  \<^verbatim>\<open>implementation/stop/iterator.rs\<close>, which no module includes; the \<^verbatim>\<open>Debug\<close> impls; the log message
  of a dropped guard; the poisoning of mutexes, which needs a panic inside a critical section
  and there is none (\<open>never_panics\<close>); benchmarks, examples and tests.
\<close>

section \<open>Completion\<close>

text \<open>
  C1: while a guard is alive, no ancestor of its node, and not the node itself, is zero, so
  \<^verbatim>\<open>state\<close> does not report any of them as complete, whichever threads are in the middle of
  whatever operations.
\<close>

theorem live_guard_blocks_completion:
  assumes "reachable \<sigma>" "guard_at (mem \<sigma>) g = Some gd" "ancestor (mem \<sigma>) a (fst (gd_shard gd))"
  shows "\<not> node_is_zero a (mem \<sigma>) \<and> swansong_state a h (mem \<sigma>) \<noteq> Complete"
proof -
  have "0 < low (node_word (mem \<sigma>) a)"
    using guard_ancestors_counted [OF reachable_sys_ok [OF assms(1)] assms(2,3)] .
  then have "\<not> node_is_zero a (mem \<sigma>)" by (simp add: node_is_zero_def count_test)
  then show ?thesis by (simp add: swansong_state_def)
qed

theorem live_guard_blocks_completion_witness:
  "\<exists>\<sigma> gd. reachable \<sigma> \<and> guard_at (mem \<sigma>) 0 = Some gd \<and> ancestor (mem \<sigma>) 0 (fst (gd_shard gd)) \<and>
     fst (gd_shard gd) = 1 \<and> \<not> node_is_zero 0 (mem \<sigma>)"
proof -
  obtain \<sigma> gd where s: "reachable \<sigma>" "guard_at (mem \<sigma>) 0 = Some gd" "gd_shard gd = (1, 0)"
    "parent_of (mem \<sigma>) 1 = Some 0"
    by (rule held_state)
  then have "ancestor (mem \<sigma>) 0 (fst (gd_shard gd))"
    by (auto intro: ancestor.intros)
  with s live_guard_blocks_completion [OF s(1,2) this, of "mem \<sigma>"] show ?thesis by auto
qed

text \<open>
  C2: the shutdown completes exactly when it should. When no thread is in the middle of an
  operation, what \<^verbatim>\<open>Swansong::state\<close> reports of a handle's node is what the guards say: running
  before the stop, shutting down while a guard lives on the node or on a descendant, and
  complete after. No flush of an emptied shard and no departure of an emptied child is lost.
\<close>

theorem quiescent_state_exact:
  assumes "reachable \<sigma>" "idle \<sigma>" "handle_at (mem \<sigma>) x = Some n"
  shows "swansong_state n (mem \<sigma>) (mem \<sigma>) = spec_state (mem \<sigma>) n"
  using quiescent_state [OF assms(1,2)] handle_alive [OF assms(1,3)] by blast

theorem quiescent_state_exact_witness:
  "\<exists>\<sigma>. reachable \<sigma> \<and> idle \<sigma> \<and> swansong_state 0 (mem \<sigma>) (mem \<sigma>) = Complete \<and> spec_state (mem \<sigma>) 0 = Complete"
proof -
  obtain \<sigma> where s: "perform_all finished_schedule (sys_init 1 (Some 1)) = Some \<sigma>" "idle \<sigma>"
    "handle_at (mem \<sigma>) 0 = Some 0" "node_is_stopped 0 (mem \<sigma>)" "node_is_zero 0 (mem \<sigma>)"
    using finished_run by blast
  have r: "reachable \<sigma>" by (rule perform_all_reachable [OF reachable.init s(1)])
  have "swansong_state 0 (mem \<sigma>) (mem \<sigma>) = Complete" using s(4,5) by (simp add: swansong_state_def)
  with quiescent_state_exact [OF r s(2,3)] r s(2) show ?thesis by metis
qed


text \<open>
  C3: the counts are exact. A shard's guard count is the number of its live guards plus the
  number of threads that hold one of its counts in the middle of creating or dropping a
  guard; a shard's child count and a node's shard count are exact in the same way.
\<close>

theorem counts_are_exact:
  assumes "reachable \<sigma>" "valid_shard (mem \<sigma>) s"
  shows "shard_guard_count s (mem \<sigma>) =
      tally (n_guards (mem \<sigma>)) (guard_of (mem \<sigma>) s) +
      tally (n_threads \<sigma>) (\<lambda>t. holder \<sigma> t = Some (LocalToken s)) \<and>
    mid (shard_word (mem \<sigma>) s) =
      tally (n_nodes (mem \<sigma>)) (kid_of (mem \<sigma>) s) +
      tally (n_threads \<sigma>) (\<lambda>t. holder \<sigma> t = Some (KidToken s)) \<and>
    low (node_word (mem \<sigma>) (fst s)) =
      tally (in_shards (node_at (mem \<sigma>) (fst s))) (\<lambda>i. shard_arrived (mem \<sigma>) (fst s, i)) +
      tally (n_threads \<sigma>) (\<lambda>t. holder \<sigma> t = Some (NodeToken (fst s)))"
proof -
  note ok = reachable_sys_ok [OF assms(1)]
  have "valid_token (mem \<sigma>) (LocalToken s)" "valid_token (mem \<sigma>) (KidToken s)"
    "valid_token (mem \<sigma>) (NodeToken (fst s))"
    using assms(2) by (simp_all add: valid_shard_def valid_node_def)
  note this [THEN accountedD [OF ok]]
  then show ?thesis by (simp add: shard_guard_count_def count_mask)
qed

theorem counts_are_exact_witness:
  "\<exists>\<sigma>. reachable \<sigma> \<and> valid_shard (mem \<sigma>) (1, 0) \<and>
     shard_guard_count (1, 0) (mem \<sigma>) = tally (n_guards (mem \<sigma>)) (guard_of (mem \<sigma>) (1, 0))"
proof -
  obtain \<sigma> gd where s: "reachable \<sigma>" "n_nodes (mem \<sigma>) = 2" "in_shards (node_at (mem \<sigma>) 1) = 1"
    "n_threads \<sigma> = 1" "stack \<sigma> 0 = []"
    by (rule held_state)
  then have "valid_shard (mem \<sigma>) (1, 0)" by (simp add: valid_shard_def)
  with s counts_are_exact [OF s(1) this] show ?thesis by (auto simp: holder_def)
qed

text \<open>
  C4: the counting protocol never waits and never panics. Whatever the other threads do, a
  thread whose next operation belongs to \<^verbatim>\<open>arrive\<close>, \<^verbatim>\<open>depart\<close> or \<^verbatim>\<open>flush\<close> can take its
  step: the assertions about empty unarrived shards and children hold, a released child finds
  the shard of its parent, and no index is out of range.
\<close>

theorem counting_never_panics:
  assumes "reachable \<sigma>" "t < n_threads \<sigma>" "stack \<sigma> t = Count c # fs"
  shows "\<exists>\<sigma>'. step \<sigma> (Run t b) \<sigma>'"
proof -
  have "frame_ok (mem \<sigma>) (Count c)" "heap_ok (mem \<sigma>)"
    using reachable_sys_ok [OF assms(1)] assms(2,3) by (fastforce simp: sys_ok_def stacks_ok_def)+
  then obtain h gs where "count_step t b c (mem \<sigma>) = Next h gs"
    using count_progress by blast
  then have "exec t b (Count c) (mem \<sigma>) = Next h gs" by simp
  then show ?thesis using step.run [OF assms(2,3)] by blast
qed

theorem counting_never_panics_witness:
  "\<exists>\<sigma> c fs \<sigma>'. reachable \<sigma> \<and> stack \<sigma> 0 = Count c # fs \<and> step \<sigma> (Run 0 False) \<sigma>'"
proof -
  obtain \<sigma> c fs where s: "perform_all arriving_schedule (sys_init 1 (Some 1)) = Some \<sigma>" "n_threads \<sigma> = 1"
    "stack \<sigma> 0 = Count c # fs"
    using arriving_run by auto
  then have "reachable \<sigma>" "0 < n_threads \<sigma>" using perform_all_reachable [OF reachable.init s(1)] by simp_all
  with s(3) counting_never_panics [OF this s(3)] show ?thesis by blast
qed

section \<open>The stop latch\<close>

text \<open>
  C5: stopping is a latch. A step leaves a node stopped exactly if it was stopped before or
  is the \<^verbatim>\<open>fetch_or\<close> of \<^verbatim>\<open>Inner::stop\<close> on that node: no arrival, departure or flush of the
  shared word sets or clears the bit, and likewise for the shards.
\<close>

theorem stop_is_a_latch:
  assumes "reachable \<sigma>" "within_limits \<sigma>" "step \<sigma> a \<sigma>'"
  shows "(valid_node (mem \<sigma>) n \<longrightarrow> (node_is_stopped n (mem \<sigma>') \<longleftrightarrow> node_is_stopped n (mem \<sigma>) \<or>
      (\<exists>t b fs. a = Run t b \<and> stack \<sigma> t = Stop (NodeStop n) # fs))) \<and>
    (valid_shard (mem \<sigma>) s \<longrightarrow> (is_stopped s (mem \<sigma>') \<longleftrightarrow> is_stopped s (mem \<sigma>) \<or>
      (\<exists>t b fs. a = Run t b \<and> stack \<sigma> t = Stop (ShardStop s) # fs)))"
  using step_stop_effect [OF assms(3) reachable_sys_ok [OF assms(1)] assms(2)] by blast

theorem stop_is_a_latch_witness:
  "\<exists>\<sigma> \<sigma>'. reachable \<sigma> \<and> step \<sigma> (Run 0 False) \<sigma>' \<and> \<not> node_is_stopped 0 (mem \<sigma>) \<and>
     node_is_stopped 0 (mem \<sigma>')"
proof -
  obtain \<sigma> \<sigma>' where s: "perform_all stopping_schedule (sys_init 1 (Some 1)) = Some \<sigma>" "within_limits \<sigma>"
    "n_nodes (mem \<sigma>) = 1" "\<not> node_is_stopped 0 (mem \<sigma>)"
    "stack \<sigma> 0 = [Stop (NodeStop 0), Swan (CompletionNew 0), Borrow (OHandle 0)]"
    "perform (Run 0 False) \<sigma> = Some \<sigma>'"
    using stopping_run by blast
  have r: "reachable \<sigma>" "step \<sigma> (Run 0 False) \<sigma>'"
    using perform_all_reachable [OF reachable.init s(1)] s(6) unfolding perform_step by blast+
  have "valid_node (mem \<sigma>) 0" using s(3) by (simp add: valid_node_def)
  with r s(4,5) stop_is_a_latch [OF r(1) s(2) r(2), of 0] show ?thesis by blast
qed

text \<open>
  C6: a stop reaches every shard of the node. Once no thread has the stop of a shard left to
  run, each shard of a stopped node is stopped, so every interrupt on it goes terminal.
\<close>

theorem stop_reaches_every_shard:
  assumes "reachable \<sigma>" "valid_shard (mem \<sigma>) s" "node_is_stopped (fst s) (mem \<sigma>)"
    and "\<not> pending \<sigma> (Stop (ShardStop s))"
  shows "is_stopped s (mem \<sigma>)"
  using reachable_stop_reaches_shards [OF assms(1)] assms(2-4) unfolding stop_reaches_shards_def by blast

theorem stop_reaches_every_shard_witness:
  "\<exists>\<sigma>. reachable \<sigma> \<and> node_is_stopped 0 (mem \<sigma>) \<and> is_stopped (0, 0) (mem \<sigma>)"
proof -
  obtain \<sigma> gd where s: "reachable \<sigma>" "node_is_stopped 0 (mem \<sigma>)" "n_nodes (mem \<sigma>) = 2"
    "n_threads \<sigma> = 1" "stack \<sigma> 0 = []"
    by (rule held_state)
  then have n: "node_is_stopped (fst (0, 0)) (mem \<sigma>)" by simp
  have "node_ok (mem \<sigma>) 0"
    using reachable_sys_ok [OF s(1)] heap_okD(2) [of "mem \<sigma>" 0] s(3) by (simp add: sys_ok_def valid_node_def)
  then have "valid_shard (mem \<sigma>) (0, 0)" using s(3) by (simp add: valid_shard_def node_ok_def)
  moreover have "\<not> pending \<sigma> (Stop (ShardStop (0, 0)))" using s(4,5) by (simp add: pending_def)
  ultimately have "is_stopped (0, 0) (mem \<sigma>)"
    using stop_reaches_every_shard [OF s(1) _ n] by blast
  with s(1) n show ?thesis by auto
qed

section \<open>Memory safety and progress\<close>





text \<open>
  C9: there is no deadlock. As long as some thread is in the middle of a call, some thread can
  take a step: a thread that waits for a mutex waits for one that runs.
\<close>

theorem deadlock_free:
  assumes "reachable \<sigma>" "t < n_threads \<sigma>" "stack \<sigma> t \<noteq> []"
  shows "\<exists>u < n_threads \<sigma>. \<exists>\<sigma>'. step \<sigma> (Run u b) \<sigma>'"
  using some_thread_steps [OF assms] .

theorem deadlock_free_witness:
  "\<exists>\<sigma>. reachable \<sigma> \<and> n_threads \<sigma> = 2 \<and> (\<nexists>\<sigma>'. step \<sigma> (Run 1 False) \<sigma>') \<and> (\<exists>u<2. \<exists>\<sigma>'. step \<sigma> (Run u False) \<sigma>')"
proof -
  obtain \<sigma> fs where s: "perform_all contended_schedule (sys_init 2 (Some 1)) = Some \<sigma>" "n_threads \<sigma> = 2"
    "stack \<sigma> 1 = Stop (ShardDrain (0, 0) 0) # fs" "exec 1 False (Stop (ShardDrain (0, 0) 0)) (mem \<sigma>) = Blocked"
    using contended_run by blast
  have r: "reachable \<sigma>" "1 < n_threads \<sigma>" "stack \<sigma> 1 \<noteq> []"
    using perform_all_reachable [OF reachable.init s(1)] s(2,3) by simp_all
  have "\<nexists>\<sigma>'. step \<sigma> (Run 1 False) \<sigma>'" using s(3,4) by (auto elim!: step_RunE)
  with r(1) s(2) deadlock_free [OF r, of False] show ?thesis by auto
qed

text \<open>
  C10: the mutex of a shard excludes. It is held exactly by the thread that is inside a critical
  section of that shard, so two threads are never inside at once.
\<close>

theorem mutex_excludes:
  assumes "reachable \<sigma>"
  shows "sh_lock (shard_at (mem \<sigma>) s) = Some t \<longleftrightarrow>
    t < n_threads \<sigma> \<and> (\<exists>f fs. stack \<sigma> t = f # fs \<and> critical (mem \<sigma>) f = Some s)"
  using lock_okD(2) [OF reachable_lock_ok [OF assms], of s t] by (cases "stack \<sigma> t") auto

theorem mutex_excludes_witness:
  "\<exists>\<sigma>. reachable \<sigma> \<and> sh_lock (shard_at (mem \<sigma>) (0, 0)) = Some 0 \<and>
     (\<exists>f fs. stack \<sigma> 0 = f # fs \<and> critical (mem \<sigma>) f = Some (0, 0))"
proof -
  obtain \<sigma> where s: "perform_all contended_schedule (sys_init 2 (Some 1)) = Some \<sigma>"
    "sh_lock (shard_at (mem \<sigma>) (0, 0)) = Some 0"
    using contended_run by blast
  have "reachable \<sigma>" by (rule perform_all_reachable [OF reachable.init s(1)])
  with s(2) mutex_excludes [OF this, of "(0, 0)" 0] show ?thesis by blast
qed



text \<open>
  C12: a node is dropped once. A strong count that has reached zero stays there, whatever the
  other threads upgrade or clone, so \<^verbatim>\<open>Drop for Inner\<close> runs once for a node.
\<close>

theorem collected_stays_collected:
  assumes "reachable \<sigma>" "within_limits \<sigma>" "step \<sigma> a \<sigma>'" "n < n_nodes (mem \<sigma>)" "strong (mem \<sigma>) n = 0"
  shows "strong (mem \<sigma>') n = 0 \<and> \<not> pending \<sigma> (Life (DropArc n))"
proof -
  have "strong (mem \<sigma>') n = 0"
    using assms(3)
  proof (cases rule: step.cases)
    case (call t c h fs)
    then show ?thesis using call_kept(2) [OF call(6) assms(4)] assms(5) by simp
  next
    case (run t f fs b h gs)
    then show ?thesis using exec_strong_zero [OF assms(1) run(3-5)] assms(4,5) by (simp add: same_strong_zero_def)
  qed (simp add: assms(5))
  moreover have "0 < strong (mem \<sigma>) n" if "pending \<sigma> (Life (DropArc n))"
    using that reachable_held [OF assms(1), of _ "Life (DropArc n)" n] by (auto simp: pending_def)
  ultimately show ?thesis using assms(5) by auto
qed

theorem collected_stays_collected_witness:
  "\<exists>\<sigma> \<sigma>'. reachable \<sigma> \<and> step \<sigma> (Tick 1) \<sigma>' \<and> strong (mem \<sigma>) 1 = 0 \<and> strong (mem \<sigma>') 1 = 0"
proof -
  obtain \<sigma> where s: "perform_all collected_schedule (sys_init 1 (Some 1)) = Some \<sigma>" "within_limits \<sigma>"
    "n_nodes (mem \<sigma>) = 2" "in_strong (node_at (mem \<sigma>) 1) = 0"
    using collected_run by blast
  have r: "reachable \<sigma>" by (rule perform_all_reachable [OF reachable.init s(1)])
  obtain \<sigma>' where t: "step \<sigma> (Tick 1) \<sigma>'" using step.tick by blast
  have n: "1 < n_nodes (mem \<sigma>)" "strong (mem \<sigma>) 1 = 0" using s(3,4) by (simp_all add: strong_def)
  with collected_stays_collected [OF r s(2) t n] r t show ?thesis by blast
qed



section \<open>The tree\<close>

text \<open>
  C14: a child is registered with its parent exactly while it is alive. Outside its registration
  and deregistration, a living child has one entry, in the slab of the shard it was given and
  under the key it stored; a collected one has none (a key of \<^verbatim>\<open>usize::MAX\<close>, which the code
  takes for "not registered", excepted).
\<close>

theorem child_registered_once:
  assumes "reachable \<sigma>" "c < n_nodes (mem \<sigma>)" "link_of (mem \<sigma>) c = Some s" "tasks \<sigma> c = {#}"
  shows "(0 < strong (mem \<sigma>) c \<longrightarrow> (\<forall>k. child_slab (mem \<sigma>) s k = Some c \<longleftrightarrow> k = child_key (mem \<sigma>) c)) \<and>
    (strong (mem \<sigma>) c = 0 \<longrightarrow> (\<forall>k. k \<noteq> usize_max \<longrightarrow> child_slab (mem \<sigma>) s k \<noteq> Some c))"
proof -
  have "child_ok \<sigma> c" using reachable_registration_ok [OF assms(1)] assms(2,3) by (simp add: registration_ok_def)
  then show ?thesis using assms(3,4) by (auto simp: child_ok_def child_keys_def Let_def)
qed

theorem child_registered_once_witness:
  "\<exists>\<sigma> k. reachable \<sigma> \<and> 0 < strong (mem \<sigma>) 1 \<and> child_slab (mem \<sigma>) (0, 0) k = Some 1"
proof -
  obtain \<sigma> where s: "perform_all finished_schedule (sys_init 1 (Some 1)) = Some \<sigma>" "idle \<sigma>" "n_nodes (mem \<sigma>) = 2"
    "parent_of (mem \<sigma>) 1 = Some 0" "in_strong (node_at (mem \<sigma>) 1) = 1"
    "map_option p_shard (in_parent (node_at (mem \<sigma>) 1)) = Some 0"
    using finished_run by blast
  have r: "reachable \<sigma>" by (rule perform_all_reachable [OF reachable.init s(1)])
  have "link_of (mem \<sigma>) 1 = Some (0, 0)" using s(4,6) by (auto simp: link_of_def parent_of_def)
  moreover have "f \<notin># tasks \<sigma> 1" for f using idle_not_pending [OF s(2)] by (simp add: in_tasks)
  then have "tasks \<sigma> 1 = {#}" by (simp add: multiset_eq_iff not_in_iff)
  moreover have "1 < n_nodes (mem \<sigma>)" "0 < strong (mem \<sigma>) 1" using s(3,5) by (simp_all add: strong_def)
  ultimately show ?thesis using child_registered_once [OF r] r by blast
qed

text \<open>
  C15: a stop reaches every living descendant. Once no thread is in the middle of a stop or of
  making a child, every living node below a stopped one is stopped too, in particular a child
  that was made while its parent stopped.
\<close>

theorem stop_reaches_descendants:
  assumes "reachable \<sigma>" "stops_settled \<sigma>" "ancestor (mem \<sigma>) a n" "n < n_nodes (mem \<sigma>)" "0 < strong (mem \<sigma>) n"
    and "node_is_stopped a (mem \<sigma>)"
  shows "node_is_stopped n (mem \<sigma>)"
  using descendants_stopped [OF assms] .

theorem stop_reaches_descendants_witness:
  "\<exists>\<sigma>. reachable \<sigma> \<and> node_is_stopped 0 (mem \<sigma>) \<and> parent_of (mem \<sigma>) 1 = Some 0 \<and> node_is_stopped 1 (mem \<sigma>)"
proof -
  obtain \<sigma> where s: "perform_all finished_schedule (sys_init 1 (Some 1)) = Some \<sigma>" "idle \<sigma>" "n_nodes (mem \<sigma>) = 2"
    "parent_of (mem \<sigma>) 1 = Some 0" "in_strong (node_at (mem \<sigma>) 1) = 1" "node_is_stopped 0 (mem \<sigma>)"
    using finished_run by blast
  have r: "reachable \<sigma>" by (rule perform_all_reachable [OF reachable.init s(1)])
  have "stops_settled \<sigma>" using s(2) by (simp add: stops_settled_def idle_def)
  moreover have "ancestor (mem \<sigma>) 0 1" by (rule ancestor.up [OF ancestor.self s(4)])
  moreover have "1 < n_nodes (mem \<sigma>)" "0 < strong (mem \<sigma>) 1" using s(3,5) by (simp_all add: strong_def)
  ultimately show ?thesis using stop_reaches_descendants [OF r _ _ _ _ s(6)] r s(4,6) by blast
qed

text \<open>
  C16: no wake-up of an interrupt is lost. If the last poll of an interrupt was \<^verbatim>\<open>Pending\<close> and its
  shard is stopped, then the waker of that poll has been woken, once the threads that drain
  the shard's waiters are done.
\<close>

theorem interrupt_wakeup_not_lost:
  assumes "reachable \<sigma>" "interrupt_at (mem \<sigma>) i = Some it" "it_last it = Some (w, Pending)"
    and "is_stopped (it_shard it) (mem \<sigma>)"
    and "\<And>p ws. \<not> pending \<sigma> (Stop (ShardDrain (it_shard it) p)) \<and> \<not> pending \<sigma> (Stop (ShardWake (it_shard it) p ws))"
  shows "(it_shard it, w) \<in> set (woken (mem \<sigma>))"
  using pending_woken [OF assms] .

theorem interrupt_wakeup_not_lost_witness:
  "\<exists>\<sigma> it. reachable \<sigma> \<and> interrupt_at (mem \<sigma>) 0 = Some it \<and> it_last it = Some (7, Pending) \<and> ((0, 0), 7) \<in> set (woken (mem \<sigma>))"
proof -
  obtain \<sigma> it where s: "perform_all woken_schedule (sys_init 1 (Some 1)) = Some \<sigma>" "idle \<sigma>"
    "interrupt_at (mem \<sigma>) 0 = Some it" "it_shard it = (0, 0)" "it_last it = Some (7, Pending)" "is_stopped (0, 0) (mem \<sigma>)"
    using woken_run by blast
  have "reachable \<sigma>" by (rule perform_all_reachable [OF reachable.init s(1)])
  moreover have "is_stopped (it_shard it) (mem \<sigma>)" using s(4,6) by simp
  ultimately show ?thesis
    using interrupt_wakeup_not_lost [OF _ s(3,5)] s(2,3,5) idle_not_pending unfolding s(4) by blast
qed

section \<open>Causes\<close>

text \<open>
  C17: nothing stops a node but its own shutdown, the shutdown of a node above it, or the loss of the
  root's last handle. From a state in which no stop of the node or of a node above it has begun,
  a run that gives none of these causes leaves the node running, whatever else is shut down,
  created, dropped or polled meanwhile.
\<close>

theorem stop_needs_cause:
  assumes "reachable \<sigma>" "n < n_nodes (mem \<sigma>)" "untouched n \<sigma>" "spared n \<sigma> \<sigma>'"
  shows "\<not> node_is_stopped n (mem \<sigma>') \<and> swansong_state n (mem \<sigma>') h = Running"
  using spared_untouched [OF assms(4,1,2,3)] ancestor.self
  by (auto simp: untouched_def swansong_state_def)

theorem stop_needs_cause_witness:
  "\<exists>\<sigma> \<sigma>'. reachable \<sigma> \<and> spared 2 \<sigma> \<sigma>' \<and> parent_of (mem \<sigma>) 2 = Some 0 \<and>
     node_is_stopped 1 (mem \<sigma>') \<and> \<not> node_is_stopped 2 (mem \<sigma>') \<and> swansong_state 2 (mem \<sigma>') (mem \<sigma>') = Running"
proof -
  obtain \<sigma> \<sigma>' \<sigma>'' where s: "perform_all sibling_schedule (sys_init 1 (Some 1)) = Some \<sigma>"
    "perform (Call 0 (CallShutDown 1)) \<sigma> = Some \<sigma>'" "perform (Run 0 False) \<sigma>' = Some \<sigma>''"
    "within_limits \<sigma>" "within_limits \<sigma>'" "idle \<sigma>" "n_nodes (mem \<sigma>) = 3" "handle_at (mem \<sigma>) 1 = Some 1"
    "parent_of (mem \<sigma>) 2 = Some 0" "parent_of (mem \<sigma>) 0 = None"
    "\<not> node_is_stopped 0 (mem \<sigma>)" "\<not> node_is_stopped 2 (mem \<sigma>)"
    "parent_of (mem \<sigma>') 2 = Some 0" "parent_of (mem \<sigma>') 0 = None" "in_swansong_count (node_at (mem \<sigma>') 0) = 1"
    "parent_of (mem \<sigma>'') 2 = Some 0" "parent_of (mem \<sigma>'') 0 = None" "in_swansong_count (node_at (mem \<sigma>'') 0) = 1"
    "node_is_stopped 1 (mem \<sigma>'')"
    using sibling_run by blast
  have r: "reachable \<sigma>" by (rule perform_all_reachable [OF reachable.init s(1)])
  have clean: "untouched 2 \<sigma>"
    using ancestors_of_child [OF _ s(9,10)] s(11,12) idle_not_pending [OF s(6)] by (auto simp: untouched_def)
  have "spared 2 \<sigma> \<sigma>'"
  proof (rule spared.step [OF spared.start s(4)])
    show "step \<sigma> (Call 0 (CallShutDown 1)) \<sigma>'" by (rule perform_step [THEN iffD1, OF s(2)])
  qed (use s(8,13,15) in \<open>auto simp: is_root_def parent_of_def dest!: ancestors_of_child [OF _ s(9,10)] ancestors_of_child [OF _ s(13,14)]\<close>)
  then have "spared 2 \<sigma> \<sigma>''"
  proof (rule spared.step [OF _ s(5)])
    show "step \<sigma>' (Run 0 False) \<sigma>''" by (rule perform_step [THEN iffD1, OF s(3)])
  qed (use s(16,18) in \<open>auto simp: is_root_def parent_of_def dest!: ancestors_of_child [OF _ s(16,17)]\<close>)
  moreover have "(2 :: nat) < n_nodes (mem \<sigma>)" using s(7) by simp
  ultimately show ?thesis using stop_needs_cause [OF r _ clean] r s(9,19) by blast
qed

text \<open>
  C18: the count that \<^verbatim>\<open>clone\<close>, \<^verbatim>\<open>drop\<close> and \<^verbatim>\<open>child\<close> keep of a node's handles is exact when no call
  is in progress, and a root of which no handle is left is stopped.
\<close>

theorem handles_counted:
  assumes "reachable \<sigma>" "idle \<sigma>" "n < n_nodes (mem \<sigma>)"
  shows "in_swansong_count (node_at (mem \<sigma>) n) = card {x. handle_at (mem \<sigma>) x = Some n} \<and>
    (parent_of (mem \<sigma>) n = None \<and> (\<forall>x. handle_at (mem \<sigma>) x \<noteq> Some n) \<longrightarrow> node_is_stopped n (mem \<sigma>))"
  using idle_handles [OF assms] by blast

theorem handles_counted_witness:
  "\<exists>\<sigma>. reachable \<sigma> \<and> idle \<sigma> \<and> n_nodes (mem \<sigma>) = 1 \<and> in_swansong_count (node_at (mem \<sigma>) 0) = 0 \<and> node_is_stopped 0 (mem \<sigma>)"
proof -
  obtain \<sigma> where s: "perform_all cloned_schedule (sys_init 1 (Some 1)) = Some \<sigma>" "idle \<sigma>" "n_nodes (mem \<sigma>) = 1"
    "parent_of (mem \<sigma>) 0 = None" "handle_at (mem \<sigma>) = Map.empty"
    using cloned_run by blast
  have r: "reachable \<sigma>" by (rule perform_all_reachable [OF reachable.init s(1)])
  have "0 < n_nodes (mem \<sigma>)" using s(3) by simp
  from handles_counted [OF r s(2) this] show ?thesis using r s by (intro exI [of _ \<sigma>]) simp
qed

text \<open>
  C19: an interrupt does not end by mistake. If its last poll returned \<^verbatim>\<open>Ready(None)\<close>, then its shard is
  stopped, and its node was stopped or collected.
\<close>

theorem interrupt_ends_soundly:
  assumes "reachable \<sigma>" "interrupt_at (mem \<sigma>) i = Some it" "it_last it = Some (w, Ready None)"
  shows "is_stopped (it_shard it) (mem \<sigma>) \<and>
    (node_is_stopped (fst (it_shard it)) (mem \<sigma>) \<or> in_strong (node_at (mem \<sigma>) (fst (it_shard it))) = 0)"
  using ended_closing [OF assms(1), of i "it_shard it" "it_registration it" w] assms(2,3) by (simp add: listener_def strong_def)

theorem interrupt_ends_soundly_witness:
  "\<exists>\<sigma> it. reachable \<sigma> \<and> interrupt_at (mem \<sigma>) 0 = Some it \<and> it_last it = Some (7, Ready None) \<and>
     is_stopped (it_shard it) (mem \<sigma>)"
proof -
  obtain \<sigma> it where s: "perform_all ended_schedule (sys_init 1 (Some 1)) = Some \<sigma>"
    "interrupt_at (mem \<sigma>) 0 = Some it" "it_last it = Some (7, Ready None)"
    using ended_run by blast
  have "reachable \<sigma>" by (rule perform_all_reachable [OF reachable.init s(1)])
  then show ?thesis using interrupt_ends_soundly [OF _ s(2,3)] s(2,3) by blast
qed

section \<open>Beyond the limits\<close>

text \<open>
  C21: the counts of a packed word are not checked. One more guard on a shard that counts
  \<open>2 ^ 32 - 1\<close> of them makes the shard read as having none and one more arrived child.
\<close>

theorem guard_count_overflows:
  assumes "shard_word h s = pack (2 ^ 32 - 1) k st True" "k + 1 < 2 ^ 30"
  shows "\<exists>h'. shard_arrive_loop False s LOCAL_ONE (shard_word h s) h = Next h' [] \<and>
    shard_guard_count s h = 2 ^ 32 - 1 \<and> shard_guard_count s h' = 0 \<and> mid (shard_word h' s) = k + 1"
proof -
  let ?w = "pack (2 ^ 32 - 1) k st True"
  have "k < 2 ^ 30" using assms(2) by simp
  then have w: "low ?w = 2 ^ 32 - 1" "arrived_bit ?w" by (simp_all add: fields_pack)
  have "shard_arrive_loop False s LOCAL_ONE ?w h = Next (set_shard_word s (?w + LOCAL_ONE) h) []"
    using w(2) assms(1) by (simp add: shard_arrive_loop_def arrived_test atomic_defs)
  moreover have "low (?w + LOCAL_ONE) = 0" "mid (?w + LOCAL_ONE) = k + 1"
    unfolding local_overflow using assms(2) by (simp_all add: fields_pack)
  ultimately show ?thesis
    using assms(1) w(1) by (intro exI [of _ "set_shard_word s (?w + LOCAL_ONE) h"]) (simp add: shard_guard_count_def count_mask)
qed

theorem guard_count_overflows_witness:
  "\<exists>h h'. shard_arrive_loop False (0, 0) LOCAL_ONE (shard_word h (0, 0)) h = Next h' [] \<and>
     shard_guard_count (0, 0) h = 2 ^ 32 - 1 \<and> shard_guard_count (0, 0) h' = 0"
proof -
  let ?h = "set_shard_word (0, 0) (pack (2 ^ 32 - 1) 0 False True) (heap_init None)"
  have "shard_word ?h (0, 0) = pack (2 ^ 32 - 1) 0 False True" by simp
  moreover have "(0 :: nat) + 1 < 2 ^ 30" by simp
  ultimately show ?thesis using guard_count_overflows by blast
qed

section \<open>The slab\<close>

text \<open>
  C25: a slab implements a finite map with keys of its own choice. Whatever was inserted and
  removed before, an insertion returns a key that was free and binds it (the \<^verbatim>\<open>unreachable!\<close>
  is not reached), and a removal returns what the key held and unbinds it.
\<close>

theorem slab_implements_map:
  "slab_lookup slab_default = Map.empty \<and>
   (\<exists>s' k. slab_insert (slab_run xs slab_default) v = Some (s', k) \<and>
      slab_lookup (slab_run xs slab_default) k = None \<and>
      slab_lookup s' = (slab_lookup (slab_run xs slab_default))(k \<mapsto> v)) \<and>
   snd (slab_remove (slab_run xs slab_default) key) = slab_lookup (slab_run xs slab_default) key \<and>
   slab_lookup (fst (slab_remove (slab_run xs slab_default) key)) =
     (slab_lookup (slab_run xs slab_default))(key := None)"
proof -
  have ok: "slab_ok (slab_run xs slab_default)" by (rule slab_run_ok [OF slab.ok_empty])
  then show ?thesis
    using slab.insert_total [OF ok, of v] slab.insert_fresh slab.insert_lookup
      slab.lookup_empty slab.remove_result slab.remove_lookup by metis
qed

text \<open>
  C26: the storage of a slab is as long as the largest number of values it held at once: every
  insertion reuses a vacated slot when there is one.
\<close>

theorem slab_storage_is_peak: "length (slots (slab_run xs slab_default)) = slab_peak xs slab_default"
  using slab_run_length [OF slab.ok_empty, of xs] by (simp add: slab_default_def)



section \<open>The guard registry\<close>



section \<open>Shards\<close>

text \<open>
  C29: a root gets the available parallelism rounded up to a power of two and cut at 256
  shards, and a single shard if the parallelism is unknown.
\<close>

theorem root_shard_count_correct:
  "(\<exists>k\<le>8. root_shard_count h = 2 ^ k) \<and>
   (parallelism h = None \<longrightarrow> root_shard_count h = 1) \<and>
   (\<forall>n. parallelism h = Some n \<longrightarrow> min n 256 \<le> root_shard_count h \<and>
      (0 < n \<longrightarrow> root_shard_count h < 2 * n))"
proof -
  have "min n 256 \<le> root_shard_count h \<and> (0 < n \<longrightarrow> root_shard_count h < 2 * n)"
    if "parallelism h = Some n" for n
    using next_power_of_two_spec(2,3) [of n] that by (auto simp: root_shard_count_def MAX_SHARDS_def)
  moreover have "root_shard_count h = 1" if "parallelism h = None"
  proof -
    have "next_power_of_two 1 = 1" by (simp add: next_power_of_two_def power_of_two_from.simps)
    then show ?thesis using that by (simp add: root_shard_count_def MAX_SHARDS_def)
  qed
  ultimately show ?thesis using root_shard_count_spec [of h] by blast
qed

theorem root_shard_count_correct_witness: "root_shard_count (heap_init None) = 1"
  using root_shard_count_correct [of "heap_init None"] by (simp add: heap_init_def)

text \<open>
  The shard a thread uses exists, and a thread that uses a node again uses the same shard.
\<close>

theorem thread_shard_stable:
  assumes "reachable \<sigma>" "valid_node (mem \<sigma>) n" "inner_shard t n (mem \<sigma>) = (h, s)"
    and "next_index (mem \<sigma>) \<noteq> of_nat usize_max"
  shows "valid_shard (mem \<sigma>) s \<and> fst s = n \<and> inner_shard t n h = (h, s)"
proof -
  obtain i where i: "shard_index t n (mem \<sigma>) = (h, i)" "s = (n, i)"
    using assms(3) by (auto simp: inner_shard_def split: prod.splits)
  have ok: "heap_ok (mem \<sigma>)" using reachable_sys_ok [OF assms(1)] by (simp add: sys_ok_def)
  have "shard_index t n h = (h, i)"
    using i(1) assms(4) by (auto simp: shard_index_def thread_index_def Let_def split: if_splits prod.splits)
  then show ?thesis
    using shard_index_same(2) [OF i(1) ok assms(2)] shard_index_same(1) [OF i(1)] assms(2) i(2)
    by (auto simp: valid_shard_def valid_node_def inner_shard_def same_nodes_def)
qed

theorem thread_shard_stable_witness:
  "\<exists>\<sigma> h s. reachable \<sigma> \<and> inner_shard 0 1 (mem \<sigma>) = (h, s) \<and> valid_shard (mem \<sigma>) s \<and> inner_shard 0 1 h = (h, s)"
proof -
  obtain \<sigma> where s: "perform_all held_schedule (sys_init 1 (Some 1)) = Some \<sigma>" "n_nodes (mem \<sigma>) = 2"
    "next_index (mem \<sigma>) \<noteq> of_nat usize_max"
    using held_run by blast
  then have "reachable \<sigma>" "valid_node (mem \<sigma>) 1"
    using perform_all_reachable [OF reachable.init s(1)] by (simp_all add: valid_node_def)
  moreover obtain h x where "inner_shard 0 1 (mem \<sigma>) = (h, x)"
    by (cases "inner_shard 0 1 (mem \<sigma>)") simp
  ultimately show ?thesis using thread_shard_stable [OF _ _ _ s(3)] by blast
qed

section \<open>The tests for loom\<close>

text \<open>
  C20: every test of \<^verbatim>\<open>loom_models.rs\<close> passes. Under whatever schedule of its threads, no assertion
  of it fails, nothing panics, and as long as a call is running some thread can go on.
\<close>

theorem loom_tests_pass:
  assumes "T \<in> set loom_models" "explore ts (loom_model T) = Some x"
  shows "\<not> fails x"
proof (rule passes_explored [OF _ assms(2)])
  show "passes T nobody loom_init" using loom_models_all_pass assms(1) by (simp only: list_all_iff)
qed

theorem loom_tests_pass_witness:
  "\<exists>S \<sigma>. explore loom_schedule (loom_model register_vs_stop) = Some (Passed, S, \<sigma>) \<and> \<not> fails (Passed, S, \<sigma>)"
proof -
  obtain S \<sigma> where e: "explore loom_schedule (loom_model register_vs_stop) = Some (Passed, S, \<sigma>)"
    using register_vs_stop_ends by blast
  have "register_vs_stop \<in> set loom_models" unfolding loom_models_def list.set by (rule insertI1)
  from loom_tests_pass [OF this e] e show ?thesis by blast
qed

section \<open>Diagnostics\<close>

text \<open>
  C22: \<^verbatim>\<open>Swansong::guard_count\<close>, called while nothing else runs, returns the number of the live
  guards of the handle's node and of all nodes below it. The walk ends, waits for no mutex and
  drops no last reference, and it leaves the heap as it found it.
\<close>

theorem guard_count_is_exact:
  assumes "reachable \<sigma>" "idle \<sigma>" "handle_at (mem \<sigma>) x = Some n" "n_nodes (mem \<sigma>) \<le> fuel"
  shows "swansong_guard_count fuel n (mem \<sigma>) = Ok (card (guards_under (mem \<sigma>) n), mem \<sigma>)"
  using count_exact [OF assms(1,2) handle_alive(1) [OF assms(1,3)]] assms(4) by simp

theorem guard_count_is_exact_witness:
  "\<exists>\<sigma>. reachable \<sigma> \<and> swansong_guard_count 2 0 (mem \<sigma>) = Ok (1, mem \<sigma>)"
proof -
  obtain \<sigma> where s: "perform_all reported_schedule (sys_init 1 (Some 1)) = Some \<sigma>" "idle \<sigma>" "n_nodes (mem \<sigma>) = 2"
    "n_guards (mem \<sigma>) = 1" "map_option gd_shard (guard_at (mem \<sigma>) 0) = Some (1, 0)" "parent_of (mem \<sigma>) 1 = Some 0"
    "handle_at (mem \<sigma>) 0 = Some 0"
    using reported_run by blast
  have r: "reachable \<sigma>" by (rule perform_all_reachable [OF reachable.init s(1)])
  have "guards_under (mem \<sigma>) 0 = {0}" using only_guard [OF r s(4,5)] ancestor.up [OF ancestor.self s(6)] by simp
  with guard_count_is_exact [OF r s(2,7), of 2] s(3) r show ?thesis by auto
qed





section \<open>Guard reports\<close>


text \<open>
  C31: the display of a recorded report can be read back: its lines start with the total and
  then with the count of each entry, in order.
\<close>

theorem report_display_roundtrip:
  assumes "infos \<noteq> []" "\<And>a. CHR 0x0A \<notin> set (fmt_age a)"
    and "\<And>e. e \<in> set infos \<Longrightarrow> CHR 0x0A \<notin> set (loc_file (gi_location (fst e)))"
  shows "map leading_nat (split_lines (display_report fmt_age (from_infos miri infos))) =
    length infos # map re_count (rp_entries (from_infos miri infos))"
proof -
  have "CHR 0x0A \<notin> set (loc_file (re_location e))" if "e \<in> set (rp_entries (from_infos miri infos))" for e
  proof -
    have "site_infos (re_location e) infos \<noteq> []"
      using that from_infos_entries [of miri infos] by (auto simp: site_entry_Some)
    then obtain x where "x \<in> set infos" "gi_location (fst x) = re_location e"
      by (auto simp: site_infos_def filter_empty_conv)
    with assms(3) show ?thesis by metis
  qed
  moreover have "rp_unrecorded (from_infos miri infos) = 0" by (simp add: from_infos_def Let_def)
  ultimately show ?thesis
    using display_report_split [of "from_infos miri infos" fmt_age] from_infos_count [of miri infos] assms(1,2)
    by simp
qed

theorem report_display_roundtrip_witness:
  "map leading_nat (split_lines (display_report (\<lambda>_. ''1.0s'')
     (from_infos False [(guard_info_new (Location ''a.rs'' 1 1) 0, 5), (guard_info_new (Location ''a.rs'' 1 1) 2, 6)])))
   = [2, 2]"
proof -
  let ?infos = "[(guard_info_new (Location ''a.rs'' 1 1) 0, 5 :: nat), (guard_info_new (Location ''a.rs'' 1 1) 2, 6)]"
  have "map re_count (rp_entries (from_infos False ?infos)) = [2]"
    by (simp add: run_eval)
  moreover have "CHR 0x0A \<notin> set (loc_file (gi_location (fst e)))" if "e \<in> set ?infos" for e
    using that by (auto simp: guard_info_new_def)
  then have "map leading_nat (split_lines (display_report (\<lambda>_. ''1.0s'') (from_infos False ?infos))) =
      length ?infos # map re_count (rp_entries (from_infos False ?infos))"
    by (intro report_display_roundtrip) simp_all
  ultimately show ?thesis by simp
qed

section \<open>Completion futures\<close>

text \<open>
  C32: a poll of a \<^verbatim>\<open>ShutdownCompletion\<close> is ready only if, at some moment of the poll, the
  node was stopped and its count was zero.
\<close>

theorem completion_poll_sound:
  "completion_poll fuel r listen ready k l = Some (Ready (), l', k') \<Longrightarrow>
   \<exists>j. k \<le> j \<and> j < k' \<and> fst (r j) AND STOPPED \<noteq> 0 \<and> snd (r j) AND SHARDS_MASK = 0"
  using await_poll_ready unfolding completion_poll_def complete_at_def by blast

theorem completion_poll_sound_witness:
  "\<exists>l' k'. completion_poll 1 (\<lambda>_. (STOPPED, STOPPED)) id (\<lambda>_ _. False) 3 None = Some (Ready (), l', k') \<and>
     (\<exists>j. 3 \<le> j \<and> j < k')"
proof -
  have "completion_poll 1 (\<lambda>_. (STOPPED, STOPPED)) id (\<lambda>_ _. False) 3 None = Some (Ready (), None, 4)"
    by (simp add: completion_poll_def complete_at_def packed_consts await_poll.simps(2) [of 0, simplified])
  with completion_poll_sound [OF this] show ?thesis by blast
qed



text \<open>
  C34: \<^verbatim>\<open>poll\<close> returns: an event that is notified finitely often keeps the loop going for at
  most one more iteration per notification to come.
\<close>

theorem completion_poll_terminates:
  assumes "event_contract listen ready notified" "finite notified"
    and "card {m \<in> notified. k < m} + 2 \<le> fuel"
  shows "\<exists>res. completion_poll fuel r listen ready k l = Some res \<and>
    (\<exists>res. shutting_down_poll fuel r listen ready k l = Some res)"
  using await_poll_terminates [OF assms] unfolding completion_poll_def shutting_down_poll_def by blast

theorem completion_poll_terminates_witness:
  "\<exists>res. completion_poll 3 (\<lambda>_. (0, 0)) id (\<lambda>i k. i < 5 \<and> 5 < k) 0 (Some (2 :: nat)) = Some res"
proof -
  have "event_contract id (\<lambda>(i :: nat) (k :: nat). i < 5 \<and> 5 < k) {5}" by (auto simp: event_contract_def)
  moreover have "{m \<in> {5 :: nat}. 0 < m} = {5}" by auto
  then have "card {m \<in> {5 :: nat}. 0 < m} + 2 \<le> 3" by simp
  ultimately show ?thesis
    using completion_poll_terminates [of id "\<lambda>i k. i < 5 \<and> 5 < k" "{5}" 0 3 "\<lambda>_. (0, 0)" "Some 2"] by blast
qed



section \<open>Waiting in a run\<close>

text \<open>The run of \<open>finished_schedule\<close> after its first step, as the waiting loops read its root.\<close>

lemma finished_early:
  "\<exists>\<sigma>. perform_all (take 7 finished_schedule) (sys_init 1 (Some 1)) = Some \<sigma> \<and> \<not> node_is_stopped 0 (mem \<sigma>) \<and>
     in_zero_notified (node_at (mem \<sigma>) 0) = 0 \<and> in_stop_notified (node_at (mem \<sigma>) 0) = 0"
  by (simp add: run_eval finished_schedule_def held_schedule_def runs_def)

lemma finished_start:
  "\<exists>\<sigma>. perform_all (take 1 finished_schedule) (sys_init 1 (Some 1)) = Some \<sigma> \<and> n_nodes (mem \<sigma>) = 1"
  by (simp add: run_eval finished_schedule_def held_schedule_def runs_def)

lemma finished_reads:
  obtains \<rho> j where "program_run \<rho>" "valid_node (mem (\<rho> 0)) 0" "\<And>P. fair_to \<rho> P"
    "\<not> complete_at (run_reads \<rho> 0) 0" "\<not> complete_at (run_reads \<rho> 0) 2"
    "\<not> stopped_at (run_reads \<rho> 0) 0" "\<not> stopped_at (run_reads \<rho> 0) 2"
    "2 \<notin> zero_times \<rho> 0" "2 \<notin> stop_times \<rho> 0" "complete_at (run_reads \<rho> 0) j" "4 \<le> j"
proof -
  let ?init = "sys_init 1 (Some 1)"
  obtain \<sigma> where s: "perform_all finished_schedule ?init = Some \<sigma>" "idle \<sigma>"
    "node_is_stopped 0 (mem \<sigma>)" "node_is_zero 0 (mem \<sigma>)"
    using finished_run by blast
  define \<rho> where "\<rho> k = schedule_run finished_schedule ?init (Suc k)" for k
  note run = schedule_run_ok [OF s(1,2)]
  have r: "program_run \<rho>"
    using run(1) run_reachable [OF run(1), of 1] by (simp add: \<rho>_def program_run_def)
  have fair: "fair_to \<rho> P" for P
    using run(2) [of P] unfolding fair_to_def \<rho>_def by (metis Suc_le_D Suc_le_mono)
  obtain \<sigma>1 \<sigma>7 where st: "perform_all (take 1 finished_schedule) ?init = Some \<sigma>1" "n_nodes (mem \<sigma>1) = 1"
    "perform_all (take 7 finished_schedule) ?init = Some \<sigma>7" "\<not> node_is_stopped 0 (mem \<sigma>7)"
    "in_zero_notified (node_at (mem \<sigma>7) 0) = 0" "in_stop_notified (node_at (mem \<sigma>7) 0) = 0"
    using finished_early finished_start by blast
  have \<rho>: "\<rho> 0 = \<sigma>1" "\<rho> 6 = \<sigma>7" using st(1,3) by (simp_all add: \<rho>_def schedule_run_def)
  have v: "valid_node (mem (\<rho> 0)) 0" using st(2) by (simp add: \<rho> valid_node_def)
  have e: "\<not> node_is_stopped 0 (mem (\<rho> i))" if "i \<le> 6" for i
    using run_stopped [OF r v that] st(4) by (auto simp: \<rho>(2))
  have final: "\<rho> k = \<sigma>" if "length finished_schedule \<le> k" for k
    unfolding \<rho>_def using that by (intro run(3)) simp
  let ?j = "max 4 (length finished_schedule)"
  have "\<not> stopped_at (run_reads \<rho> 0) i" if "2 * i + 1 \<le> 6" for i
    using e [OF that] by (simp add: stopped_at_def run_reads_def node_is_stopped_def)
  from this [of 0] this [of 2]
  have early: "\<not> stopped_at (run_reads \<rho> 0) 0" "\<not> stopped_at (run_reads \<rho> 0) 2" by simp_all
  then have early': "\<not> complete_at (run_reads \<rho> 0) 0" "\<not> complete_at (run_reads \<rho> 0) 2"
    by (simp_all add: complete_at_def stopped_at_def)
  have times: "2 \<notin> zero_times \<rho> 0" "2 \<notin> stop_times \<rho> 0"
    using st(5,6) \<rho>(2) by (simp_all add: zero_times_def stop_times_def)
  have "\<rho> (2 * ?j + 1) = \<sigma>" "\<rho> (2 * ?j + 2) = \<sigma>" by (intro final; simp)+
  then have "complete_at (run_reads \<rho> 0) ?j"
    using s(3,4) by (simp add: complete_at_def run_reads_def node_is_stopped_def node_is_zero_def)
  then show thesis using that [OF r v fair early' early times] by simp
qed
text \<open>
  C36: no wake-up of a \<^verbatim>\<open>ShutdownCompletion\<close> is lost in a run of the program. A poll that returned
  \<^verbatim>\<open>Pending\<close> left a listener, and if the node is complete at some later time then that listener
  is notified, provided that the threads that owe a notification of \<^verbatim>\<open>zero_event\<close> get to run.
\<close>

theorem completion_never_hangs:
  assumes "program_run \<rho>" "valid_node (mem (\<rho> 0)) n" "fair_to \<rho> (zero_notice n)"
    and "event_contract listen ready (zero_times \<rho> n)"
    and "completion_poll fuel (run_reads \<rho> n) listen ready k None = Some (Pending, l', k')"
    and "complete_at (run_reads \<rho> n) j" "k' \<le> j"
  shows "\<exists>x m. l' = Some x \<and> ready x m"
  using await_poll_woken [OF assms(5) [unfolded completion_poll_def] assms(4) zero_announced [OF assms(1-3)] assms(6,7)] .

theorem completion_never_hangs_witness:
  "\<exists>\<rho> x m. program_run \<rho> \<and>
     completion_poll 1 (run_reads \<rho> 0) id (\<lambda>i k. \<exists>m \<in> zero_times \<rho> 0. i < m \<and> m < k) 0 None = Some (Pending, Some x, 4) \<and>
     (\<exists>j \<in> zero_times \<rho> 0. x < j \<and> j < m)"
proof -
  obtain \<rho> j where run: "program_run \<rho>" "valid_node (mem (\<rho> 0)) 0" "\<And>P. fair_to \<rho> P"
    and early: "\<not> complete_at (run_reads \<rho> 0) 0" "\<not> complete_at (run_reads \<rho> 0) 2" "2 \<notin> zero_times \<rho> 0"
    and late: "complete_at (run_reads \<rho> 0) j" "4 \<le> j"
    using finished_reads by metis
  let ?ready = "\<lambda>i k. \<exists>m \<in> zero_times \<rho> 0. i < m \<and> m < (k :: nat)"
  have c: "event_contract id ?ready (zero_times \<rho> 0)" by (simp add: event_contract_def)
  have "m \<notin> zero_times \<rho> 0" if "1 < m" "m < 3" for m
    using early(3) that by (cases "m = 2") auto
  then have "completion_poll 1 (run_reads \<rho> 0) id ?ready 0 None = Some (Pending, Some 1, 4)"
    using early(1,2) by (auto simp: completion_poll_def await_poll.simps(2) numeral_2_eq_2 Let_def)
  with completion_never_hangs [OF run(1,2,3) c this late] run(1) show ?thesis by blast
qed

text \<open>
  C37: the same for \<^verbatim>\<open>ShuttingDown\<close>: a poll that returned \<^verbatim>\<open>Pending\<close> is followed by a notification
  of its listener if the node is stopped at some later time.
\<close>

theorem shutting_down_never_hangs:
  assumes "program_run \<rho>" "valid_node (mem (\<rho> 0)) n" "fair_to \<rho> (stop_notice n)"
    and "event_contract listen ready (stop_times \<rho> n)"
    and "shutting_down_poll fuel (run_reads \<rho> n) listen ready k None = Some (Pending, l', k')"
    and "stopped_at (run_reads \<rho> n) j" "k' \<le> j"
  shows "\<exists>x m. l' = Some x \<and> ready x m"
  using await_poll_woken [OF assms(5) [unfolded shutting_down_poll_def] assms(4) stop_announced [OF assms(1-3)] assms(6,7)] .

theorem shutting_down_never_hangs_witness:
  "\<exists>\<rho> x m. program_run \<rho> \<and>
     shutting_down_poll 1 (run_reads \<rho> 0) id (\<lambda>i k. \<exists>m \<in> stop_times \<rho> 0. i < m \<and> m < k) 0 None = Some (Pending, Some x, 4) \<and>
     (\<exists>j \<in> stop_times \<rho> 0. x < j \<and> j < m)"
proof -
  obtain \<rho> j where run: "program_run \<rho>" "valid_node (mem (\<rho> 0)) 0" "\<And>P. fair_to \<rho> P"
    and early: "\<not> stopped_at (run_reads \<rho> 0) 0" "\<not> stopped_at (run_reads \<rho> 0) 2" "2 \<notin> stop_times \<rho> 0"
    and late: "complete_at (run_reads \<rho> 0) j" "4 \<le> j"
    using finished_reads by metis
  have stopped: "stopped_at (run_reads \<rho> 0) j" using late(1) by (simp add: complete_at_def stopped_at_def)
  let ?ready = "\<lambda>i k. \<exists>m \<in> stop_times \<rho> 0. i < m \<and> m < (k :: nat)"
  have c: "event_contract id ?ready (stop_times \<rho> 0)" by (simp add: event_contract_def)
  have "m \<notin> stop_times \<rho> 0" if "1 < m" "m < 3" for m
    using early(3) that by (cases "m = 2") auto
  then have "shutting_down_poll 1 (run_reads \<rho> 0) id ?ready 0 None = Some (Pending, Some 1, 4)"
    using early(1,2) by (auto simp: shutting_down_poll_def await_poll.simps(2) numeral_2_eq_2 Let_def)
  with shutting_down_never_hangs [OF run(1,2,3) c this stopped late(2)] run(1) show ?thesis by blast
qed

section \<open>Wrapped values\<close>








end
